(* ===== verification/Prelude.thy ===== *)
theory Prelude
  imports Main "HOL-Library.Monad_Syntax" "HOL-Library.Word"
begin

text \<open>
  Shared vocabulary of the development.

  A call of the program that has no defined result (a failed \<open>assert\<close>, an index outside a
  \<open>std::vector\<close>, an integer division by zero, \<open>unordered_map::at\<close> on a missing key, a
  dereferenced \<open>end()\<close>) is the value \<open>None\<close>; every function of the scheduler process is an
  option-valued function in the \<open>do\<close> notation of \<open>Monad_Syntax\<close>.
  C++ \<open>int\<close> is \<open>int\<close>; \<open>std::size_t\<close> hashes are \<open>64 word\<close>.
\<close>

named_theorems op_defs \<open>definitions of the program's elementary operations\<close>

subsection \<open>Partial operations of the language\<close>

definition require :: "bool \<Rightarrow> unit option" where
  "require b = (if b then Some () else None)"

definition in_bounds :: "'a list \<Rightarrow> int \<Rightarrow> bool" where
  "in_bounds xs i \<longleftrightarrow> 0 \<le> i \<and> i < int (length xs)"

definition at_index :: "'a list \<Rightarrow> int \<Rightarrow> 'a option" where
  "at_index xs i = (if in_bounds xs i then Some (xs ! nat i) else None)"

definition put_index :: "'a list \<Rightarrow> int \<Rightarrow> 'a \<Rightarrow> 'a list option" where
  "put_index xs i v = (if in_bounds xs i then Some (xs[nat i := v]) else None)"

definition c_div :: "int \<Rightarrow> int \<Rightarrow> int option" where
  \<comment> \<open>division of C++ truncates towards zero and traps on a zero divisor\<close>
  "c_div a b = (if b = 0 then None else Some (sgn a * sgn b * (\<bar>a\<bar> div \<bar>b\<bar>)))"

definition c_int :: "int \<Rightarrow> int option" where
  \<comment> \<open>the value of an arithmetic expression of type \<open>int\<close>; overflow is undefined\<close>
  "c_int x = (if - (2 ^ 31) \<le> x \<and> x < 2 ^ 31 then Some x else None)"

definition to_int32 :: "64 word \<Rightarrow> int" where
  \<comment> \<open>\<open>static_cast<int>\<close> of a \<open>std::size_t\<close> keeps the low 32 bits\<close>
  "to_int32 w = sint (ucast w :: 32 word)"

definition u32 :: "nat \<Rightarrow> nat" where
  \<comment> \<open>the value of an arithmetic expression of type \<open>uint32_t\<close>\<close>
  "u32 n = n mod 2 ^ 32"

definition subvec :: "'a list \<Rightarrow> int \<Rightarrow> int \<Rightarrow> 'a list option" where
  \<comment> \<open>the \<open>count\<close> elements from \<open>data() + offset\<close>\<close>
  "subvec xs off cnt =
     (if 0 \<le> off \<and> 0 \<le> cnt \<and> off + cnt \<le> int (length xs)
      then Some (take (nat cnt) (drop (nat off) xs)) else None)"

fun fold_opt :: "('a \<Rightarrow> 's \<Rightarrow> 's option) \<Rightarrow> 'a list \<Rightarrow> 's \<Rightarrow> 's option" where
  \<comment> \<open>a range-\<open>for\<close> loop whose body may fail\<close>
  "fold_opt f [] s = Some s"
| "fold_opt f (x # xs) s = do { s' \<leftarrow> f x s; fold_opt f xs s' }"

fun repeat_opt :: "nat \<Rightarrow> ('s \<Rightarrow> 's option) \<Rightarrow> 's \<Rightarrow> 's option" where
  \<comment> \<open>a counted \<open>for\<close> loop\<close>
  "repeat_opt 0 f s = Some s"
| "repeat_opt (Suc n) f s = do { s' \<leftarrow> f s; repeat_opt n f s' }"

declare bind_option_cong [fundef_cong]

lemma require_simps [simp]:
  "require True = Some ()" "require False = None"
  by (simp_all add: require_def)

lemma require_Some [simp]: "require b = Some u \<longleftrightarrow> b"
  by (cases b) simp_all

lemma at_index_in [simp]: "in_bounds xs i \<Longrightarrow> at_index xs i = Some (xs ! nat i)"
  by (simp add: at_index_def)

lemma put_index_in [simp]: "in_bounds xs i \<Longrightarrow> put_index xs i v = Some (xs[nat i := v])"
  by (simp add: put_index_def)

lemma in_bounds_update [simp]: "in_bounds (xs[n := v]) i = in_bounds xs i"
  by (simp add: in_bounds_def)

lemma in_bounds_map [simp]: "in_bounds (map f xs) i = in_bounds xs i"
  by (simp add: in_bounds_def)

lemma in_bounds_length: "length xs = length ys \<Longrightarrow> in_bounds xs i = in_bounds ys i"
  by (simp add: in_bounds_def)

lemma in_bounds_nat: "in_bounds xs i \<Longrightarrow> nat i < length xs"
  by (auto simp: in_bounds_def)

lemma in_bounds_nonneg: "in_bounds xs i \<Longrightarrow> 0 \<le> i"
  by (simp add: in_bounds_def)

lemma nth_update_in_bounds:
  "in_bounds xs i \<Longrightarrow> in_bounds xs j \<Longrightarrow> xs[nat i := v] ! nat j = (if i = j then v else xs ! nat j)"
  by (auto simp: in_bounds_def nth_list_update nat_eq_iff2)

lemma c_div_nonneg: "0 \<le> a \<Longrightarrow> 0 < b \<Longrightarrow> c_div a b = Some (a div b)"
  by (cases "a = 0") (simp_all add: c_div_def sgn_if)

lemma c_div_neg_one: "0 < b \<Longrightarrow> c_div (- 1) b = Some (if b = 1 then - 1 else 0)"
  by (auto simp: c_div_def sgn_if)

lemma c_int_Some [simp]: "c_int x = Some y \<longleftrightarrow> y = x \<and> - (2 ^ 31) \<le> x \<and> x < 2 ^ 31"
  by (auto simp: c_int_def)

lemma c_int_nonneg: "0 \<le> x \<Longrightarrow> x < 2 ^ 31 \<Longrightarrow> c_int x = Some x"
  by simp

lemma to_int32_small: "uint w < 2 ^ 31 \<Longrightarrow> to_int32 w = uint w"
proof -
  assume w: "uint w < 2 ^ 31"
  have "- (2 ^ 31) \<le> uint w" using uint_ge_0 [of w] by (rule order_trans [rotated]) simp
  then have "signed_take_bit 31 (uint w) = uint w"
    using w by (intro signed_take_bit_int_eq_self)
  then show ?thesis using w by (simp add: to_int32_def sint_uint unsigned_ucast_eq take_bit_int_eq_self)
qed

lemma uint_word_of_int64: "0 \<le> x \<Longrightarrow> x < 2 ^ 64 \<Longrightarrow> uint (word_of_int x :: 64 word) = x"
  by (simp add: uint_word_of_int mod_pos_pos_trivial)

lemma fold_opt_append:
  "fold_opt f (xs @ ys) s = Option.bind (fold_opt f xs s) (fold_opt f ys)"
  by (induction xs arbitrary: s) (simp_all, metis Option.bind_assoc)

lemma fold_opt_invariant:
  assumes "fold_opt f xs s = Some s'" "P s"
    and "\<And>x s s'. x \<in> set xs \<Longrightarrow> P s \<Longrightarrow> f x s = Some s' \<Longrightarrow> P s'"
  shows "P s'"
  using assms
proof (induction xs arbitrary: s)
  case (Cons x xs)
  from Cons.prems(1) obtain t where t: "f x s = Some t" "fold_opt f xs t = Some s'"
    by (auto simp: bind_eq_Some_conv)
  have "P t" using Cons.prems(2,3) t(1) by auto
  with t(2) Cons show ?case by auto
qed simp

lemma those_map_Some: "(\<And>x. x \<in> set xs \<Longrightarrow> f x = Some (g x)) \<Longrightarrow> those (map f xs) = Some (map g xs)"
  by (induction xs) simp_all

lemma subvec_length: "subvec xs off n = Some ys \<Longrightarrow> int (length ys) = n"
  by (auto simp: subvec_def min_def split: if_splits)

text \<open>Ceiling division, as the block arithmetic of the program writes it.\<close>

lemma div_le_iff_less:
  fixes x b n :: int
  assumes "0 < b"
  shows "x div b \<le> n \<longleftrightarrow> x < (n + 1) * b"
proof
  assume "x div b \<le> n"
  then have "(x div b) * b \<le> n * b" using assms by simp
  moreover have "x = (x div b) * b + x mod b" by simp
  moreover have "x mod b < b" using assms by simp
  ultimately have "x < n * b + b" by linarith
  then show "x < (n + 1) * b" by (simp add: distrib_right)
next
  assume x: "x < (n + 1) * b"
  have "(x div b) * b \<le> x"
    using assms by (metis div_mult_mod_eq le_add_same_cancel1 pos_mod_sign)
  with x have "(x div b) * b < (n + 1) * b" by linarith
  with assms show "x div b \<le> n" by (simp add: mult_less_cancel_right)
qed

lemma ceil_div_le_iff:
  fixes a b n :: int
  assumes "0 < b"
  shows "(a + b - 1) div b \<le> n \<longleftrightarrow> a \<le> n * b"
proof -
  have "a + b - 1 < (n + 1) * b \<longleftrightarrow> a \<le> n * b" by (simp add: distrib_right) linarith
  then show ?thesis using div_le_iff_less [OF assms, of "a + b - 1" n] by simp
qed

lemma ceil_div_ge:
  fixes a b :: int
  assumes "0 < b"
  shows "a \<le> ((a + b - 1) div b) * b"
  using ceil_div_le_iff [OF assms, of a "(a + b - 1) div b"] by simp

lemma u32_id: "n < 2 ^ 32 \<Longrightarrow> u32 n = n"
  by (simp only: u32_def mod_less)

end
