(* ===== verification/Json.thy ===== *)
theory Json
  imports Prelude
begin

text \<open>
  Parsed JSON as nlohmann::json presents it to csrc/model/model_config.cpp and checkpoint.cpp.
  The parser and the numeric conversions of that library are third-party code: the parsed value
  is the input of the model, and conversions that depend on floating point are the parameter
  \<open>JsonLib\<close>. The accessors used by the sources are documented behaviour of the library:
  \<open>at\<close> and \<open>get\<close> throw a \<open>json::exception\<close>, \<open>find\<close> returns \<open>end()\<close> on anything but an object
  with the key.
\<close>

datatype json =
    JNull | JBool bool | JInt int | JFloat "64 word" | JString string
  | JArray "json list" | JObject "(string \<times> json) list"

datatype JsonError = JsonTypeError | JsonOutOfRange

record JsonLib =
  float_of_int :: "int \<Rightarrow> 32 word"
  float_of_double :: "64 word \<Rightarrow> 32 word"
  int_of_double :: "64 word \<Rightarrow> int"
  size_of_double :: "64 word \<Rightarrow> 64 word"
  index_name :: "nat \<Rightarrow> string"

text \<open>Code that may throw: \<open>attempt\<close> runs the continuation unless an error was thrown.\<close>

fun attempt :: "'e + 'a \<Rightarrow> ('a \<Rightarrow> 'e + 'b) \<Rightarrow> 'e + 'b" where
  "attempt (Inl e) f = Inl e"
| "attempt (Inr x) f = f x"

fun map_error :: "('e \<Rightarrow> 'f) \<Rightarrow> 'e + 'a \<Rightarrow> 'f + 'a" where
  "map_error f (Inl e) = Inl (f e)"
| "map_error f (Inr x) = Inr x"

fun attempt_fold :: "('a \<Rightarrow> 's \<Rightarrow> 'e + 's) \<Rightarrow> 'a list \<Rightarrow> 's \<Rightarrow> 'e + 's" where
  \<comment> \<open>a range-\<open>for\<close> loop whose body may throw\<close>
  "attempt_fold f [] s = Inr s"
| "attempt_fold f (x # xs) s = attempt (f x s) (attempt_fold f xs)"

fun attempt_map :: "('a \<Rightarrow> 'e + 'b) \<Rightarrow> 'a list \<Rightarrow> 'e + 'b list" where
  "attempt_map f [] = Inr []"
| "attempt_map f (x # xs) = attempt (f x) (\<lambda>y. attempt (attempt_map f xs) (\<lambda>ys. Inr (y # ys)))"

lemma attempt_Inr_iff [simp]: "attempt r f = Inr y \<longleftrightarrow> (\<exists>x. r = Inr x \<and> f x = Inr y)"
  by (cases r) auto

lemma map_error_Inr_iff [simp]: "map_error f r = Inr y \<longleftrightarrow> r = Inr y"
  by (cases r) auto

lemma attempt_cong [fundef_cong]: "r = r' \<Longrightarrow> (\<And>x. r' = Inr x \<Longrightarrow> f x = g x) \<Longrightarrow> attempt r f = attempt r' g"
  by (cases r') auto

lemma attempt_fold_append: "attempt_fold f (xs @ ys) s = attempt (attempt_fold f xs s) (attempt_fold f ys)"
proof (induction xs arbitrary: s)
  case (Cons x xs)
  then show ?case by (cases "f x s") simp_all
qed simp

lemma attempt_fold_invariant:
  assumes "attempt_fold f xs s = Inr s'" "P s"
    and "\<And>x s s'. x \<in> set xs \<Longrightarrow> P s \<Longrightarrow> f x s = Inr s' \<Longrightarrow> P s'"
  shows "P s'"
  using assms
proof (induction xs arbitrary: s)
  case (Cons x xs)
  from Cons.prems(1) obtain t where t: "f x s = Inr t" "attempt_fold f xs t = Inr s'" by auto
  have "P t" using Cons.prems(2,3) t(1) by auto
  then show ?case using Cons.IH [OF t(2)] Cons.prems(3) by auto
qed simp

subsection \<open>Accessors\<close>

fun j_find :: "json \<Rightarrow> string \<Rightarrow> json option" where
  "j_find (JObject kvs) key = map_of kvs key"
| "j_find _ key = None"

fun j_at :: "json \<Rightarrow> string \<Rightarrow> JsonError + json" where
  "j_at (JObject kvs) key = (case map_of kvs key of None \<Rightarrow> Inl JsonOutOfRange | Some v \<Rightarrow> Inr v)"
| "j_at _ key = Inl JsonTypeError"

fun j_index :: "json \<Rightarrow> nat \<Rightarrow> JsonError + json" where
  "j_index (JArray xs) i = (if i < length xs then Inr (xs ! i) else Inl JsonOutOfRange)"
| "j_index _ i = Inl JsonTypeError"

fun j_items :: "JsonLib \<Rightarrow> json \<Rightarrow> (string \<times> json) list" where
  \<comment> \<open>\<open>items()\<close>; the values alone are the range-\<open>for\<close> over the json itself\<close>
  "j_items L (JObject kvs) = kvs"
| "j_items L (JArray xs) = zip (map (index_name L) [0..<length xs]) xs"
| "j_items L JNull = []"
| "j_items L j = [('''', j)]"

fun j_string :: "json \<Rightarrow> JsonError + string" where
  "j_string (JString s) = Inr s"
| "j_string _ = Inl JsonTypeError"

fun j_bool :: "json \<Rightarrow> JsonError + bool" where
  "j_bool (JBool b) = Inr b"
| "j_bool _ = Inl JsonTypeError"

fun j_int :: "JsonLib \<Rightarrow> json \<Rightarrow> JsonError + int" where
  \<comment> \<open>\<open>get<int>()\<close> casts any arithmetic value\<close>
  "j_int L (JInt n) = Inr (sint (word_of_int n :: 32 word))"
| "j_int L (JFloat d) = Inr (int_of_double L d)"
| "j_int L (JBool b) = Inr (of_bool b)"
| "j_int L _ = Inl JsonTypeError"

fun j_size :: "JsonLib \<Rightarrow> json \<Rightarrow> JsonError + 64 word" where
  \<comment> \<open>\<open>get<std::size_t>()\<close>, the library's own unsigned type: no boolean\<close>
  "j_size L (JInt n) = Inr (word_of_int n)"
| "j_size L (JFloat d) = Inr (size_of_double L d)"
| "j_size L _ = Inl JsonTypeError"

fun j_float :: "JsonLib \<Rightarrow> json \<Rightarrow> JsonError + 32 word" where
  "j_float L (JInt n) = Inr (float_of_int L n)"
| "j_float L (JFloat d) = Inr (float_of_double L d)"
| "j_float L (JBool b) = Inr (float_of_int L (of_bool b))"
| "j_float L _ = Inl JsonTypeError"

fun j_list :: "(json \<Rightarrow> JsonError + 'a) \<Rightarrow> json \<Rightarrow> JsonError + 'a list" where
  \<comment> \<open>\<open>get<std::vector<T>>()\<close>\<close>
  "j_list f (JArray xs) = attempt_map f xs"
| "j_list f _ = Inl JsonTypeError"

fun j_is_array :: "json \<Rightarrow> bool" where
  "j_is_array (JArray _) = True"
| "j_is_array _ = False"

lemma j_int_range: "j_int L (JInt n) = Inr i \<Longrightarrow> - (2 ^ 31) \<le> i \<and> i < 2 ^ 31"
  using sint_range_size [of "word_of_int n :: 32 word"] by (auto simp: word_size)

end
