(* ===== verification/Data_Type.thy ===== *)
theory Data_Type
  imports Prelude
begin

text \<open>
  Element types of tensors, csrc/tensor/data_type.h. \<open>dtype_of\<close> is a compile-time function of
  a C++ type; the types it distinguishes are the datatype \<open>CppType\<close>.
\<close>

datatype DataType = kUnsupported | kBf16 | kFp16 | kFp32 | kInt32 | kInt8

fun dtype_byte_size :: "DataType \<Rightarrow> nat" where
  "dtype_byte_size kBf16 = 2"
| "dtype_byte_size kFp16 = 2"
| "dtype_byte_size kFp32 = 4"
| "dtype_byte_size kInt32 = 4"
| "dtype_byte_size kInt8 = 1"
| "dtype_byte_size kUnsupported = 0"

fun dtype_string :: "DataType \<Rightarrow> string" where
  "dtype_string kBf16 = ''BF16''"
| "dtype_string kFp16 = ''F16''"
| "dtype_string kFp32 = ''F32''"
| "dtype_string kInt32 = ''I32''"
| "dtype_string kInt8 = ''I8''"
| "dtype_string kUnsupported = ''UNSUPPORTED''"

datatype CppType = NvBfloat16 | NvHalf | Int32 | Int8 | CFloat | OtherType

fun dtype_of :: "CppType \<Rightarrow> DataType" where
  "dtype_of NvBfloat16 = kBf16"
| "dtype_of NvHalf = kFp16"
| "dtype_of Int32 = kInt32"
| "dtype_of Int8 = kInt8"
| "dtype_of CFloat = kFp32"
| "dtype_of OtherType = kUnsupported"

end
