(* ===== verification/Checkpoint.thy ===== *)
theory Checkpoint
  imports Json Data_Type "HOL-Library.List_Lexorder" "HOL-Library.Char_ord"
begin

text \<open>
  Safetensors checkpoints, csrc/model/checkpoint.h and checkpoint.cpp. The file system is the
  parameter \<open>disk\<close>, from a path to the file's bytes, and the JSON parser the parameter \<open>parse\<close>. A
  mapped shard is its bytes; a \<open>HostTensor\<close> points at an offset of one. Sizes are \<open>64 word\<close>, as
  in the code, so the overflow checks of the shape loop are the code's own.
\<close>

type_synonym bytes = "8 word list"

record HostTensor =
  ht_shard :: bytes
  ht_offset :: "64 word"
  ht_dtype :: DataType
  ht_shape :: "int list"

record Checkpoint =
  mappings :: "bytes list"
  tensors :: "string \<rightharpoonup> HostTensor"

datatype LoadError =
    CannotOpenShard string | InvalidFile string | InvalidHeaderSize string | BadHeader JsonError | UnparsableHeader
  | UnsupportedTensorDtype string | InvalidShape string | InvalidDataOffsets string | DuplicateTensor string
  | MissingTensor string | MismatchedDtype string | MismatchedShape string
  | QuantizedLinear string | FailedToLoad LoadError | UndefinedBehaviour

definition kMaxHeaderSize :: "64 word" where
  "kMaxHeaderSize = 100000000"

definition parse_dtype :: "string \<Rightarrow> LoadError + DataType" where
  "parse_dtype value = (case find (\<lambda>dtype. value = dtype_string dtype) [kBf16, kFp16, kFp32, kInt32, kInt8] of
       Some dtype \<Rightarrow> Inr dtype
     | None \<Rightarrow> Inl (UnsupportedTensorDtype value))"

definition le64 :: "bytes \<Rightarrow> 64 word" where
  \<comment> \<open>\<open>memcpy\<close> of eight bytes into a \<open>std::uint64_t\<close>, little endian\<close>
  "le64 bs = foldr (\<lambda>b acc. acc * 256 + ucast b) (take 8 bs) 0"

fun tensor_size :: "64 word \<Rightarrow> int list \<Rightarrow> 64 word \<Rightarrow> 64 word option" where
  \<comment> \<open>the loop over the dimensions; \<open>None\<close> is the invalid shape\<close>
  "tensor_size limit [] n = Some n"
| "tensor_size limit (d # ds) n =
     (if d < 0 \<or> d \<noteq> 0 \<and> limit div word_of_int d < n then None else tensor_size limit ds (n * word_of_int d))"

definition map_tensor :: "JsonLib \<Rightarrow> bytes \<Rightarrow> 64 word \<Rightarrow> string \<times> json \<Rightarrow> Checkpoint \<Rightarrow> LoadError + Checkpoint" where
  \<comment> \<open>the body of the loop over \<open>header.items()\<close>\<close>
  "map_tensor L img data_offset entry ck = (case entry of (name, spec) \<Rightarrow>
     if name = ''__metadata__'' then Inr ck
     else
       let limit = of_nat (length img) - data_offset in
       attempt (attempt (map_error BadHeader (attempt (j_at spec ''dtype'') j_string)) parse_dtype) (\<lambda>dtype.
       attempt (map_error BadHeader (attempt (j_at spec ''shape'') (j_list (j_int L)))) (\<lambda>shp.
       case tensor_size limit shp (of_nat (dtype_byte_size dtype)) of
         None \<Rightarrow> Inl (InvalidShape name)
       | Some n \<Rightarrow>
           attempt (map_error BadHeader (attempt (j_at spec ''data_offsets'') (j_list (j_size L)))) (\<lambda>offs.
           if length offs \<noteq> 2 \<or> offs ! 1 < offs ! 0 \<or> limit < offs ! 1 \<or> offs ! 1 - offs ! 0 \<noteq> n
           then Inl (InvalidDataOffsets name)
           else if tensors ck name \<noteq> None then Inl (DuplicateTensor name)
           else Inr (ck\<lparr>tensors := (tensors ck)(name \<mapsto>
             \<lparr>ht_shard = img, ht_offset = data_offset + offs ! 0, ht_dtype = dtype, ht_shape = shp\<rparr>)\<rparr>)))))"

definition map_shard :: "(bytes \<Rightarrow> json option) \<Rightarrow> JsonLib \<Rightarrow> (string \<Rightarrow> bytes option) \<Rightarrow> string
    \<Rightarrow> Checkpoint \<Rightarrow> LoadError + Checkpoint" where
  "map_shard parse L disk path ck = (case disk path of
       None \<Rightarrow> Inl (CannotOpenShard path)
     | Some img \<Rightarrow>
         let size = of_nat (length img) :: 64 word in
         if size < 8 then Inl (InvalidFile path)
         else
           let ck1 = ck\<lparr>mappings := mappings ck @ [img]\<rparr>; header_size = le64 img in
           if kMaxHeaderSize < header_size \<or> size - 8 < header_size then Inl (InvalidHeaderSize path)
           else (case parse (take (unat header_size) (drop 8 img)) of
               None \<Rightarrow> Inl UnparsableHeader
             | Some header \<Rightarrow> attempt_fold (map_tensor L img (8 + header_size)) (j_items L header) ck1))"

definition contains :: "string \<Rightarrow> Checkpoint \<Rightarrow> bool" where
  "contains name ck \<longleftrightarrow> tensors ck name \<noteq> None"

definition get_tensor :: "string \<Rightarrow> Checkpoint \<Rightarrow> LoadError + HostTensor" where
  "get_tensor name ck = (case tensors ck name of None \<Rightarrow> Inl (MissingTensor name) | Some t \<Rightarrow> Inr t)"

definition get_typed :: "string \<Rightarrow> DataType \<Rightarrow> int list \<Rightarrow> Checkpoint \<Rightarrow> LoadError + HostTensor" where
  \<comment> \<open>\<open>get(name, dtype, shape)\<close>\<close>
  "get_typed name dtype shp ck = attempt (get_tensor name ck) (\<lambda>t.
     if ht_dtype t \<noteq> dtype then Inl (MismatchedDtype name)
     else if ht_shape t \<noteq> shp then Inl (MismatchedShape name)
     else Inr t)"

definition path_join :: "string \<Rightarrow> string \<Rightarrow> string" where
  \<comment> \<open>\<open>operator/\<close> of \<open>std::filesystem::path\<close>: an absolute right operand replaces the left\<close>
  "path_join dir name = (if name \<noteq> [] \<and> hd name = CHR ''/'' then name else dir @ ''/'' @ name)"

definition Checkpoint_load :: "(bytes \<Rightarrow> json option) \<Rightarrow> JsonLib \<Rightarrow> (string \<Rightarrow> bytes option) \<Rightarrow> string
    \<Rightarrow> LoadError + Checkpoint" where
  \<comment> \<open>the constructor; \<open>std::set\<close> iterates the shards in increasing order\<close>
  "Checkpoint_load parse L disk model_dir = map_error FailedToLoad (
     let empty = \<lparr>mappings = [], tensors = Map.empty\<rparr> in
     case disk (path_join model_dir ''model.safetensors.index.json'') of
       Some index_bytes \<Rightarrow> (case parse index_bytes of
           None \<Rightarrow> Inl UnparsableHeader
         | Some index \<Rightarrow>
             attempt (map_error BadHeader (j_at index ''weight_map'')) (\<lambda>weight_map.
             attempt (map_error BadHeader (attempt_map j_string (map snd (j_items L weight_map)))) (\<lambda>names.
             attempt (attempt_fold (\<lambda>shard. map_shard parse L disk (path_join model_dir shard)) (sort (remdups names)) empty) (\<lambda>ck.
             attempt_fold (\<lambda>(name, shard) ck. attempt (get_tensor name ck) (\<lambda>_. Inr ck)) (j_items L weight_map) ck))))
     | None \<Rightarrow> map_shard parse L disk (path_join model_dir ''model.safetensors'') empty)"

definition slice_bytes :: "HostTensor \<Rightarrow> int \<Rightarrow> int \<Rightarrow> int \<Rightarrow> bytes option" where
  \<comment> \<open>\<open>upload_slice\<close>: the bytes copied to the device\<close>
  "slice_bytes src dim begin count = (
     let sh = ht_shape src; elem = int (dtype_byte_size (ht_dtype src)); base = uint (ht_offset src) in do {
       require (dim = 0 \<or> dim = 1 \<and> length sh = 2);
       extent \<leftarrow> at_index sh dim;
       require (begin \<ge> 0 \<and> count > 0 \<and> begin + count \<le> extent);
       (if dim = 0 then
          let row_bytes = elem * prod_list (tl sh) in
          subvec (ht_shard src) (base + begin * row_bytes) (count * row_bytes)
        else
          let pitch = sh ! 1 * elem in
          map_option concat (those (map (\<lambda>i. subvec (ht_shard src) (base + int i * pitch + begin * elem) (count * elem))
            [0..<nat (sh ! 0)])))
     })"

subsection \<open>Every tensor of a checkpoint lies inside its shard\<close>

definition lib_ok :: "JsonLib \<Rightarrow> bool" where
  \<comment> \<open>the conversion to \<open>int\<close> returns an \<open>int\<close>\<close>
  "lib_ok L \<longleftrightarrow> (\<forall>d. - (2 ^ 31) \<le> int_of_double L d \<and> int_of_double L d < 2 ^ 31)"

definition disk_ok :: "(string \<Rightarrow> bytes option) \<Rightarrow> bool" where
  \<comment> \<open>file sizes fit \<open>std::size_t\<close>\<close>
  "disk_ok disk \<longleftrightarrow> (\<forall>p img. disk p = Some img \<longrightarrow> length img < 2 ^ 64)"

definition tensor_inside :: "HostTensor \<Rightarrow> bool" where
  "tensor_inside t \<longleftrightarrow> ht_dtype t \<noteq> kUnsupported \<and> (\<forall>d \<in> set (ht_shape t). 0 \<le> d)
     \<and> uint (ht_offset t) + prod_list (ht_shape t) * int (dtype_byte_size (ht_dtype t)) \<le> int (length (ht_shard t))"

definition checkpoint_ok :: "Checkpoint \<Rightarrow> bool" where
  "checkpoint_ok ck \<longleftrightarrow> (\<forall>name t. tensors ck name = Some t \<longrightarrow> tensor_inside t \<and> ht_shard t \<in> set (mappings ck))"

lemma tensor_size_exact:
  assumes "tensor_size limit ds n = Some r" "\<And>d. d \<in> set ds \<Longrightarrow> d < 2 ^ 31"
  shows "uint r = uint n * prod_list ds \<and> (\<forall>d \<in> set ds. 0 \<le> d)"
  using assms
proof (induction ds arbitrary: n)
  case (Cons d ds)
  have d: "0 \<le> d" "d < 2 ^ 31" and rest: "tensor_size limit ds (n * word_of_int d) = Some r"
    using Cons.prems by (auto split: if_splits)
  have u: "uint (word_of_int d :: 64 word) = d" using d by (intro uint_word_of_int64) auto
  have "uint n * d < 2 ^ 64"
  proof (cases "d = 0")
    case False
    then have "n \<le> limit div word_of_int d" using Cons.prems(1) by (auto split: if_splits)
    then have "uint n \<le> uint limit div d" by (simp add: word_le_def uint_div u)
    then have "uint n * d \<le> uint limit div d * d" using d by (intro mult_right_mono) auto
    also have "\<dots> \<le> uint limit" using False d by (simp add: minus_mod_eq_div_mult [symmetric])
    also have "\<dots> < 2 ^ 64" using uint_bounded [of limit] by simp
    finally show ?thesis .
  qed simp
  moreover have "0 \<le> uint n * d" using d by simp
  ultimately have "uint (n * word_of_int d) = uint n * d" by (simp add: uint_word_ariths u mod_pos_pos_trivial)
  then show ?case using Cons.IH [OF rest] Cons.prems(2) d(1) by simp
qed simp

lemma j_ints_range:
  assumes conv: "lib_ok L"
    and "j_list (j_int L) j = Inr ds" "d \<in> set ds"
  shows "d < 2 ^ 31"
proof -
  have one: "i < 2 ^ 31" if "j_int L x = Inr i" for x i
    using that conv j_int_range [of L _ i] by (cases x) (auto simp: lib_ok_def)
  from assms(2) obtain xs where "j = JArray xs" "attempt_map (j_int L) xs = Inr ds" by (cases j) auto
  then have "\<forall>d \<in> set ds. d < 2 ^ 31"
  proof (induction xs arbitrary: ds j)
    case (Cons x xs)
    then show ?case using one by auto
  qed simp
  with assms(3) show ?thesis by simp
qed

lemma parse_dtype_supported: "parse_dtype s = Inr dtype \<Longrightarrow> dtype \<noteq> kUnsupported"
  by (auto simp: parse_dtype_def split: option.splits if_splits)

lemma map_tensor_ok:
  assumes conv: "lib_ok L"
    and len: "length img < 2 ^ 64" and off: "uint data_offset \<le> int (length img)"
    and ok: "checkpoint_ok ck" "img \<in> set (mappings ck)" and run: "map_tensor L img data_offset (name, spec) ck = Inr ck'"
  shows "checkpoint_ok ck' \<and> mappings ck' = mappings ck"
proof (cases "name = ''__metadata__''")
  case False
  let ?limit = "of_nat (length img) - data_offset"
  from run False obtain s' dtype spec' shp n offs where r: "parse_dtype s' = Inr dtype"
      "j_list (j_int L) spec' = Inr shp" "tensor_size ?limit shp (of_nat (dtype_byte_size dtype)) = Some n"
      "\<not> (length offs \<noteq> 2 \<or> offs ! 1 < offs ! 0 \<or> ?limit < offs ! 1 \<or> offs ! 1 - offs ! 0 \<noteq> n)"
      "ck' = ck\<lparr>tensors := (tensors ck)(name \<mapsto>
         \<lparr>ht_shard = img, ht_offset = data_offset + offs ! 0, ht_dtype = dtype, ht_shape = shp\<rparr>)\<rparr>"
    by (auto simp: map_tensor_def Let_def split: if_splits option.splits)
  have dims: "d < 2 ^ 31" if "d \<in> set shp" for d using j_ints_range [OF conv r(2) that] .
  have supp: "dtype \<noteq> kUnsupported" using parse_dtype_supported [OF r(1)] .
  have size: "uint n = int (dtype_byte_size dtype) * prod_list shp" "\<forall>d \<in> set shp. 0 \<le> d"
    using tensor_size_exact [OF r(3) dims] by (cases dtype; simp)+
  have ilen: "int (length img) < 2 ^ 64" using len by simp
  have flen: "uint (of_nat (length img) :: 64 word) = int (length img)"
    using len by (simp add: unsigned_of_nat take_bit_nat_eq_self)
  have limit: "uint ?limit = int (length img) - uint data_offset"
    using off by (simp add: uint_sub_if_size flen)
  have o: "uint (offs ! 0) \<le> uint (offs ! 1)" "uint (offs ! 1) \<le> uint ?limit" "offs ! 1 - offs ! 0 = n"
    using r(4) by (auto simp: word_le_def not_less)
  have n: "uint n = uint (offs ! 1) - uint (offs ! 0)" unfolding o(3) [symmetric] using o(1) by (simp add: uint_sub_if_size)
  have "uint data_offset + uint (offs ! 0) < 2 ^ 64"
    using o(1,2) limit ilen by linarith
  then have "uint (data_offset + offs ! 0) = uint data_offset + uint (offs ! 0)" by (simp add: uint_plus_if_size word_size)
  then have "uint (data_offset + offs ! 0) + prod_list shp * int (dtype_byte_size dtype) \<le> int (length img)"
    using o(2) n size(1) limit by (simp add: mult.commute)
  then have "tensor_inside \<lparr>ht_shard = img, ht_offset = data_offset + offs ! 0, ht_dtype = dtype, ht_shape = shp\<rparr>"
    using supp size(2) by (simp add: tensor_inside_def)
  then show ?thesis using ok by (auto simp: r(5) checkpoint_ok_def)
qed (use run ok in \<open>simp add: map_tensor_def\<close>)

lemma map_shard_ok:
  assumes conv: "lib_ok L"
    and disk: "disk_ok disk"
    and ok: "checkpoint_ok ck" and run: "map_shard parse L disk path ck = Inr ck'"
  shows "checkpoint_ok ck'"
proof -
  from run obtain img header where f: "disk path = Some img" "\<not> (of_nat (length img) :: 64 word) < 8"
      "\<not> (of_nat (length img) :: 64 word) - 8 < le64 img"
      "attempt_fold (map_tensor L img (8 + le64 img)) (j_items L header) (ck\<lparr>mappings := mappings ck @ [img]\<rparr>) = Inr ck'"
    by (auto simp: map_shard_def Let_def split: option.splits if_splits)
  let ?ck1 = "ck\<lparr>mappings := mappings ck @ [img]\<rparr>"
  have len: "length img < 2 ^ 64" using disk f(1) by (auto simp: disk_ok_def)
  have ilen: "int (length img) < 2 ^ 64" using len by simp
  have flen: "uint (of_nat (length img) :: 64 word) = int (length img)"
    using len by (simp add: unsigned_of_nat take_bit_nat_eq_self)
  have ge: "8 \<le> int (length img)" using f(2) by (simp add: word_le_def not_less flen)
  have "uint (le64 img) \<le> uint ((of_nat (length img) :: 64 word) - 8)" using f(3) by (simp add: word_le_def not_less)
  also have "\<dots> = int (length img) - 8" using ge by (simp add: uint_sub_if_size flen)
  finally have h: "uint (le64 img) + 8 \<le> int (length img)" by simp
  then have off: "uint (8 + le64 img) \<le> int (length img)" using ilen by (simp add: uint_plus_if_size word_size)
  have "checkpoint_ok ?ck1 \<and> img \<in> set (mappings ?ck1)" using ok by (auto simp: checkpoint_ok_def)
  then have "checkpoint_ok ck' \<and> img \<in> set (mappings ck')"
  proof (rule attempt_fold_invariant [OF f(4), where P = "\<lambda>c. checkpoint_ok c \<and> img \<in> set (mappings c)"])
    fix x c c' assume c: "checkpoint_ok c \<and> img \<in> set (mappings c)" "map_tensor L img (8 + le64 img) x c = Inr c'"
    obtain name spec where x: "x = (name, spec)" by (cases x)
    show "checkpoint_ok c' \<and> img \<in> set (mappings c')"
      using map_tensor_ok [OF conv len off conjunct1 [OF c(1)] conjunct2 [OF c(1)] c(2) [unfolded x]] c(1) by simp
  qed
  then show ?thesis ..
qed

text \<open>
  C19: Whatever bytes the files of a checkpoint contain, a checkpoint that loads describes only
  tensors that lie inside their mapped file: the unbounded product of the dimensions and the
  element size, added to the tensor's offset, does not exceed the length of the file, so the
  64-bit checks of the loader cannot be defeated by overflow.
\<close>

theorem checkpoint_tensors_inside:
  assumes "lib_ok L" "disk_ok disk"
    and "Checkpoint_load parse L disk model_dir = Inr ck" "tensors ck name = Some t"
  shows "tensor_inside t"
proof -
  note shard = map_shard_ok [OF assms(1,2)]
  have empty: "checkpoint_ok \<lparr>mappings = [], tensors = Map.empty\<rparr>" by (simp add: checkpoint_ok_def)
  have "checkpoint_ok ck"
  proof (cases "disk (path_join model_dir ''model.safetensors.index.json'')")
    case None
    then show ?thesis using assms(3) shard [OF empty] by (auto simp: Checkpoint_load_def Let_def)
  next
    case (Some index_bytes)
    then obtain names weight_map ck1 where r:
        "attempt_fold (\<lambda>shard. map_shard parse L disk (path_join model_dir shard)) (sort (remdups names))
           \<lparr>mappings = [], tensors = Map.empty\<rparr> = Inr ck1"
        "attempt_fold (\<lambda>(name, shard) ck. attempt (get_tensor name ck) (\<lambda>_. Inr ck)) (j_items L weight_map) ck1 = Inr ck"
      using assms(3) by (auto simp: Checkpoint_load_def Let_def split: option.splits)
    have "checkpoint_ok ck1" by (rule attempt_fold_invariant [OF r(1), where P = checkpoint_ok, OF empty]) (rule shard)
    then show ?thesis by (rule attempt_fold_invariant [OF r(2), where P = checkpoint_ok]) auto
  qed
  then show ?thesis using assms(4) by (auto simp: checkpoint_ok_def)
qed

definition demo_disk :: "string \<Rightarrow> bytes option" where
  \<comment> \<open>a shard with a two-byte header and four bytes of data\<close>
  "demo_disk path = (if path = ''m/model.safetensors'' then Some ([2, 0, 0, 0, 0, 0, 0, 0] @ [123, 125] @ [1, 2, 3, 4]) else None)"

definition demo_header :: "bytes \<Rightarrow> json option" where
  "demo_header _ = Some (JObject [(''__metadata__'', JNull), (''w'', JObject [(''dtype'', JString ''BF16''),
     (''shape'', JArray [JInt 2]), (''data_offsets'', JArray [JInt 0, JInt 4])])])"

definition demo_json_lib :: JsonLib where
  "demo_json_lib = \<lparr>float_of_int = word_of_int, float_of_double = ucast, int_of_double = (\<lambda>_. 0), size_of_double = id,
     index_name = (\<lambda>n. replicate n CHR ''i'')\<rparr>"

definition demo_checkpoint :: Checkpoint where
  "demo_checkpoint = \<lparr>mappings = [[2, 0, 0, 0, 0, 0, 0, 0, 123, 125, 1, 2, 3, 4]], tensors = [''w'' \<mapsto>
     \<lparr>ht_shard = [2, 0, 0, 0, 0, 0, 0, 0, 123, 125, 1, 2, 3, 4], ht_offset = 10, ht_dtype = kBf16, ht_shape = [2]\<rparr>]\<rparr>"

lemma demo_checkpoint_loads: "Checkpoint_load demo_header demo_json_lib demo_disk ''m'' = Inr demo_checkpoint"
  by (simp add: Checkpoint_load_def map_shard_def map_tensor_def demo_disk_def demo_header_def demo_json_lib_def path_join_def
      le64_def kMaxHeaderSize_def parse_dtype_def demo_checkpoint_def)

theorem checkpoint_tensors_inside_witness:
  "\<exists>t. tensors demo_checkpoint ''w'' = Some t \<and> tensor_inside t \<and> slice_bytes t 0 0 2 = Some [1, 2, 3, 4]"
proof -
  have "lib_ok demo_json_lib" "disk_ok demo_disk" by (auto simp: lib_ok_def demo_json_lib_def disk_ok_def demo_disk_def)
  from checkpoint_tensors_inside [OF this demo_checkpoint_loads, of "''w''"] show ?thesis
    by (simp add: demo_checkpoint_def slice_bytes_def at_index_def in_bounds_def subvec_def)
qed

end
