(* ===== verification/Layout.thy ===== *)
theory Layout
  imports Prelude
begin

text \<open>
  Alignment and sequential reservation of buffer regions: \<open>align_up\<close> of csrc/common/util.h and
  the \<open>reserve\<close> helpers of csrc/executor/batch_buffer.cpp and workspace.cpp, on
  \<open>64 word\<close> (\<open>std::size_t\<close>). \<open>packed\<close> is the specification: regions in order, aligned,
  pairwise disjoint, inside the buffer.
\<close>

unbundle bit_operations_syntax

definition align_up :: "64 word \<Rightarrow> 64 word \<Rightarrow> 64 word" where
  \<comment> \<open>\<open>align_up<kAlignment>(offset)\<close>; the template argument comes first\<close>
  "align_up alignment offset = (offset + alignment - 1) AND NOT (alignment - 1)"

definition reserve :: "64 word \<Rightarrow> 64 word \<Rightarrow> 64 word \<Rightarrow> 64 word \<Rightarrow> 64 word \<times> 64 word" where
  \<comment> \<open>the region's offset and the new \<open>buffer_size\<close>\<close>
  "reserve alignment buffer_size count elem =
     (let aligned = align_up alignment buffer_size in (aligned, aligned + count * elem))"

fun reserve_all :: "64 word \<Rightarrow> 64 word \<Rightarrow> (64 word \<times> 64 word) list \<Rightarrow> 64 word list \<times> 64 word" where
  \<comment> \<open>a sequence of reservations \<open>(count, sizeof(T))\<close> on one running \<open>buffer_size\<close>\<close>
  "reserve_all alignment buffer_size [] = ([], buffer_size)"
| "reserve_all alignment buffer_size ((count, elem) # fields) =
     (let (offset, buffer_size') = reserve alignment buffer_size count elem;
          (offsets, end_size) = reserve_all alignment buffer_size' fields
      in (offset # offsets, end_size))"

lemma length_reserve_all: "length (fst (reserve_all a lo fs)) = length fs"
  by (induction fs arbitrary: lo) (auto simp: reserve_def Let_def split: prod.splits, metis fst_conv)

subsection \<open>Alignment\<close>

lemma align_up_nat:
  assumes "uint offset + 2 ^ k \<le> 2 ^ 64" "k < 64"
  shows "uint (align_up (2 ^ k) offset) = (uint offset + 2 ^ k - 1) div 2 ^ k * 2 ^ k"
proof -
  have p: "uint (2 ^ k :: 64 word) = 2 ^ k"
  proof -
    have "(2 :: int) ^ k < 2 ^ 64" using assms(2) by (intro power_strict_increasing) auto
    then have "uint (word_of_int (2 ^ k) :: 64 word) = 2 ^ k"
      by (subst uint_word_of_int) (simp add: mod_pos_pos_trivial)
    moreover have "(word_of_int (2 ^ k) :: 64 word) = 2 ^ k" by simp
    ultimately show ?thesis by (simp only:)
  qed
  have "uint (offset + 2 ^ k - 1) = uint offset + 2 ^ k - 1"
  proof -
    have "0 \<le> uint offset + 2 ^ k - 1" using uint_ge_0 [of offset] by (smt (verit) zero_less_power)
    then have "uint (word_of_int (uint offset + 2 ^ k - 1) :: 64 word) = uint offset + 2 ^ k - 1"
      using assms(1) by (subst uint_word_of_int) (simp add: mod_pos_pos_trivial)
    moreover have "(word_of_int (uint offset + 2 ^ k - 1) :: 64 word) = offset + 2 ^ k - 1" by simp
    ultimately show ?thesis by (simp only:)
  qed
  moreover have "uint (x AND NOT (2 ^ k - 1)) = uint x div 2 ^ k * 2 ^ k" for x :: "64 word"
  proof -
    have "uint (x AND NOT (mask k)) = push_bit k (drop_bit k (uint x))"
      by (rule bit_eqI) (auto simp: bit_simps dest: bit_imp_le_length)
    then show ?thesis by (simp add: mask_eq_exp_minus_1 push_bit_eq_mult drop_bit_eq_div)
  qed
  ultimately show ?thesis by (simp add: align_up_def)
qed

lemma align_up_bounds:
  assumes "uint offset + 2 ^ k \<le> 2 ^ 64" "k < 64"
  shows "uint offset \<le> uint (align_up (2 ^ k) offset)" "uint (align_up (2 ^ k) offset) < uint offset + 2 ^ k"
    "2 ^ k dvd uint (align_up (2 ^ k) offset)"
proof -
  have p: "(0 :: int) < 2 ^ k" by simp
  note eq = align_up_nat [OF assms]
  show "uint offset \<le> uint (align_up (2 ^ k) offset)"
    unfolding eq using ceil_div_ge [OF p, of "uint offset"] .
  have "(uint offset + 2 ^ k - 1) div 2 ^ k * 2 ^ k \<le> uint offset + 2 ^ k - 1"
    using p by (metis div_mult_mod_eq le_add_same_cancel1 pos_mod_sign)
  then show "uint (align_up (2 ^ k) offset) < uint offset + 2 ^ k" unfolding eq by linarith
  show "2 ^ k dvd uint (align_up (2 ^ k) offset)" unfolding eq by simp
qed

subsection \<open>Packed regions\<close>

fun packed :: "int \<Rightarrow> int \<Rightarrow> int list \<Rightarrow> (int \<times> int) list \<Rightarrow> int \<Rightarrow> bool" where
  "packed a lo [] [] hi \<longleftrightarrow> lo \<le> hi"
| "packed a lo (off # offs) ((count, elem) # fields) hi \<longleftrightarrow>
     lo \<le> off \<and> a dvd off \<and> packed a (off + count * elem) offs fields hi"
| "packed a lo _ _ hi \<longleftrightarrow> False"

definition region_bytes :: "(64 word \<times> 64 word) list \<Rightarrow> int" where
  "region_bytes fields = (\<Sum>(count, elem)\<leftarrow>fields. uint count * uint elem)"

lemma region_bytes_simps [simp]:
  "region_bytes [] = 0" "region_bytes ((count, elem) # fields) = uint count * uint elem + region_bytes fields"
  by (simp_all add: region_bytes_def)

lemma region_bytes_nonneg: "0 \<le> region_bytes fields"
  by (induction fields) auto

lemma reserve_all_packed:
  assumes "uint lo + region_bytes fields + int (length fields) * 2 ^ k \<le> 2 ^ 63" "k < 63"
    and "reserve_all (2 ^ k) lo fields = (offs, hi)"
  shows "packed (2 ^ k) (uint lo) (map uint offs) (map (\<lambda>(c, e). (uint c, uint e)) fields) (uint hi)"
  using assms
proof (induction fields arbitrary: lo offs)
  case (Cons f fields)
  obtain c e where f: "f = (c, e)" by (cases f)
  let ?a = "align_up (2 ^ k) lo"
  obtain offs' where rest: "reserve_all (2 ^ k) (?a + c * e) fields = (offs', hi)" "offs = ?a # offs'"
    using Cons.prems(3) by (auto simp: f reserve_def Let_def split: prod.splits)
  have ge: "0 \<le> region_bytes fields" "0 \<le> uint lo" "0 \<le> uint c * uint e" by (simp_all add: region_bytes_nonneg)
  have sum: "uint lo + uint c * uint e + region_bytes fields + int (length fields) * 2 ^ k + 2 ^ k \<le> 2 ^ 63"
    using Cons.prems(1) by (simp add: f distrib_right)
  have nn: "0 \<le> int (length fields) * 2 ^ k" by simp
  have "uint lo + 2 ^ k \<le> 2 ^ 63" using sum ge nn by linarith
  also have "(2 :: int) ^ 63 \<le> 2 ^ 64" by simp
  finally have b: "uint lo + 2 ^ k \<le> 2 ^ 64" .
  have a: "uint lo \<le> uint ?a" "uint ?a < uint lo + 2 ^ k" "2 ^ k dvd uint ?a"
    using align_up_bounds [OF b] Cons.prems(2) by auto
  have lt: "uint ?a + uint c * uint e < 2 ^ 63" using a(2) sum ge nn by linarith
  have "uint c * uint e < 2 ^ 63" using lt ge(2) a(1) by linarith
  then have "uint (c * e) = uint c * uint e"
    using ge(3) by (simp add: uint_word_ariths mod_pos_pos_trivial)
  moreover have "0 \<le> uint ?a + uint c * uint e" using ge a(1) by linarith
  ultimately have new: "uint (?a + c * e) = uint ?a + uint c * uint e"
    using lt by (simp add: uint_plus_if_size word_size)
  have "uint (?a + c * e) + region_bytes fields + int (length fields) * 2 ^ k \<le> 2 ^ 63"
    unfolding new using a(2) sum by linarith
  from Cons.IH [OF this Cons.prems(2) rest(1)] show ?case using a new by (simp add: rest(2) f)
qed simp

lemma packed_lower: "packed a lo offs fields hi \<Longrightarrow> (\<And>c e. (c, e) \<in> set fields \<Longrightarrow> 0 \<le> c * e) \<Longrightarrow> lo \<le> hi"
proof (induction a lo offs fields hi rule: packed.induct)
  case (2 a lo off offs c e fields hi)
  have "off + c * e \<le> hi" using 2 by auto
  moreover have "0 \<le> c * e" using "2.prems"(2) [of c e] by simp
  ultimately show ?case using "2.prems"(1) by simp
qed auto

lemma packed_nth_lower:
  assumes "packed a lo offs fields hi" "\<And>c e. (c, e) \<in> set fields \<Longrightarrow> 0 \<le> c * e" "k < length offs"
  shows "lo \<le> offs ! k"
  using assms
proof (induction a lo offs fields hi arbitrary: k rule: packed.induct)
  case (2 a lo off offs c e fields hi)
  have nn: "\<And>c e. (c, e) \<in> set fields \<Longrightarrow> 0 \<le> c * e" using "2.prems"(2) by auto
  have "0 \<le> c * e" using "2.prems"(2) [of c e] by simp
  then show ?case using "2.prems"(1,3) "2.IH" [OF _ nn, of "k - 1"] by (cases k) auto
qed auto

lemma packed_inside:
  assumes "packed a lo offs fields hi" "\<And>c e. (c, e) \<in> set fields \<Longrightarrow> 0 \<le> c * e" "i < length offs"
  shows "offs ! i + fst (fields ! i) * snd (fields ! i) \<le> hi \<and> a dvd offs ! i"
  using assms
proof (induction a lo offs fields hi arbitrary: i rule: packed.induct)
  case (2 a lo off offs c e fields hi)
  have p: "packed a (off + c * e) offs fields hi" using "2.prems"(1) by simp
  have nn: "\<And>c e. (c, e) \<in> set fields \<Longrightarrow> 0 \<le> c * e" using "2.prems"(2) by auto
  show ?case using packed_lower [OF p nn] "2.IH" [OF p nn, of "i - 1"] "2.prems" by (cases i) auto
qed auto

text \<open>Any two regions are disjoint and every region ends inside the buffer.\<close>

lemma packed_disjoint:
  assumes "packed a lo offs fields hi" "\<And>c e. (c, e) \<in> set fields \<Longrightarrow> 0 \<le> c * e"
    and "i < j" "j < length offs"
  shows "offs ! i + fst (fields ! i) * snd (fields ! i) \<le> offs ! j"
  using assms
proof (induction a lo offs fields hi arbitrary: i j rule: packed.induct)
  case (2 a lo off offs c e fields hi)
  have p: "packed a (off + c * e) offs fields hi" using "2.prems"(1) by simp
  have nn: "\<And>c e. (c, e) \<in> set fields \<Longrightarrow> 0 \<le> c * e" using "2.prems"(2) by auto
  show ?case
  proof (cases i)
    case 0
    have "off + c * e \<le> offs ! k" if "k < length offs" for k
      using packed_nth_lower [OF p nn that] .
    then show ?thesis using 0 "2.prems"(3,4) by (cases j) auto
  next
    case (Suc i')
    then show ?thesis using "2.IH" [OF p nn, of i' "j - 1"] "2.prems"(3,4) by (cases j) auto
  qed
qed auto

end
