(* ===== verification/Tensor.thy ===== *)
theory Tensor
  imports Data_Type
begin

text \<open>
  Tensors, csrc/tensor/tensor.h, and the kernels' typed view of one, csrc/tensor/tensor_view.cuh.
  A device pointer is a \<open>64 word\<close> with 0 for \<open>nullptr\<close>; the dimension \<open>kDim\<close> of the templates is
  the length of the shape.
\<close>

record Tensor =
  device_ptr :: "64 word"
  tensor_dtype :: DataType
  t_shape :: "int list"
  t_stride :: "int list"

definition null_tensor :: "nat \<Rightarrow> Tensor" where
  \<comment> \<open>a value-initialised \<open>Tensor<kDim>{}\<close>\<close>
  "null_tensor dims = \<lparr>device_ptr = 0, tensor_dtype = kUnsupported, t_shape = replicate dims 0, t_stride = replicate dims 0\<rparr>"

definition is_set :: "Tensor \<Rightarrow> bool" where
  \<comment> \<open>\<open>explicit operator bool\<close>\<close>
  "is_set t \<longleftrightarrow> device_ptr t \<noteq> 0"

definition make_tensor_strided :: "64 word \<Rightarrow> DataType \<Rightarrow> int list \<Rightarrow> int list \<Rightarrow> Tensor" where
  "make_tensor_strided ptr dtype sh st = \<lparr>device_ptr = ptr, tensor_dtype = dtype, t_shape = sh, t_stride = st\<rparr>"

fun row_major :: "int list \<Rightarrow> (int list \<times> int) option" where
  \<comment> \<open>the loop from the last dimension down: the strides and the running product \<open>s\<close>, an \<open>int\<close>\<close>
  "row_major [] = Some ([], 1)"
| "row_major (d # ds) = do {
     (st, s) \<leftarrow> row_major ds;
     s' \<leftarrow> c_int (s * d);
     Some (s # st, s')
   }"

definition make_tensor :: "64 word \<Rightarrow> DataType \<Rightarrow> int list \<Rightarrow> Tensor option" where
  "make_tensor ptr dtype sh = do {
     (st, _) \<leftarrow> row_major sh;
     Some (make_tensor_strided ptr dtype sh st)
   }"

datatype TensorError = UnmatchedDtype

definition tensor_data :: "CppType \<Rightarrow> Tensor \<Rightarrow> TensorError + 64 word" where
  \<comment> \<open>\<open>Tensor::data<T>()\<close>\<close>
  "tensor_data T t = (if tensor_dtype t \<noteq> dtype_of T then Inl UnmatchedDtype else Inr (device_ptr t))"

subsection \<open>The view of a kernel\<close>

record TensorView =
  view_ptr :: "64 word"
  view_shape :: "int list"
  view_stride :: "int list"

definition TensorView_of :: "CppType \<Rightarrow> Tensor \<Rightarrow> TensorView option" where
  \<comment> \<open>\<open>explicit TensorView(const Tensor<kDim>&)\<close>; only \<open>nv_bfloat16\<close> has a \<open>dtype_of\<close> there\<close>
  "TensorView_of T t = do {
     require (T = NvBfloat16 \<and> tensor_dtype t = kBf16);
     Some \<lparr>view_ptr = device_ptr t, view_shape = t_shape t, view_stride = t_stride t\<rparr>
   }"

definition TensorView_packed :: "64 word \<Rightarrow> int list \<Rightarrow> TensorView option" where
  \<comment> \<open>\<open>TensorView(T* ptr, const int (&shape)[kDim])\<close>\<close>
  "TensorView_packed ptr sh = do {
     (st, _) \<leftarrow> row_major sh;
     Some \<lparr>view_ptr = ptr, view_shape = sh, view_stride = st\<rparr>
   }"

fun offset_of :: "int list \<Rightarrow> int list \<Rightarrow> int" where
  \<comment> \<open>the \<open>int64\<close> sum of \<open>idc[i] * stride_[i]\<close>\<close>
  "offset_of (s # st) (i # idc) = i * s + offset_of st idc"
| "offset_of _ _ = 0"

definition view_at :: "TensorView \<Rightarrow> int list \<Rightarrow> int option" where
  \<comment> \<open>the element \<open>operator()\<close> refers to, counted from the base pointer\<close>
  "view_at v idc = do { require (view_ptr v \<noteq> 0); Some (offset_of (view_stride v) idc) }"

subsection \<open>Row-major offsets\<close>

definition in_shape :: "int list \<Rightarrow> int list \<Rightarrow> bool" where
  "in_shape sh idc \<longleftrightarrow> list_all2 (\<lambda>d i. 0 \<le> i \<and> i < d) sh idc"

lemma in_shape_simps [simp]:
  "in_shape [] idc \<longleftrightarrow> idc = []"
  "in_shape (d # sh) (i # idc) \<longleftrightarrow> 0 \<le> i \<and> i < d \<and> in_shape sh idc"
  "in_shape (d # sh) [] = False"
  by (auto simp: in_shape_def)

lemma in_shape_ConsE:
  assumes "in_shape (d # sh) idc"
  obtains i ks where "idc = i # ks" "0 \<le> i" "i < d" "in_shape sh ks"
  using assms by (cases idc) auto

lemma row_major_product: "row_major sh = Some (st, s) \<Longrightarrow> s = prod_list sh \<and> length st = length sh"
proof (induction sh arbitrary: st s)
  case (Cons d sh)
  then show ?case by (auto simp: bind_eq_Some_conv mult.commute split: prod.splits)
qed simp

lemma prod_list_positive:
  fixes sh :: "int list"
  shows "(\<And>d. d \<in> set sh \<Longrightarrow> 0 < d) \<Longrightarrow> 0 < prod_list sh"
  by (induction sh) simp_all

lemma row_major_Some:
  assumes "\<And>d. d \<in> set sh \<Longrightarrow> 0 < d" "prod_list sh < 2 ^ 31"
  shows "\<exists>st. row_major sh = Some (st, prod_list sh)"
  using assms
proof (induction sh)
  case (Cons d sh)
  have d: "0 < d" "0 < prod_list sh" using Cons.prems(1) prod_list_positive [of sh] by simp_all
  then have "prod_list sh * 1 \<le> prod_list sh * d" by (intro mult_left_mono) auto
  then have "prod_list sh < 2 ^ 31" using Cons.prems(2) by (simp add: mult.commute)
  moreover have "0 < d * prod_list sh" using d by simp
  ultimately show ?case using Cons by (auto simp: c_int_def mult.commute)
qed simp

lemma row_major_bounds:
  assumes "row_major sh = Some (st, s)" "in_shape sh idc"
  shows "0 \<le> offset_of st idc \<and> offset_of st idc < s"
  using assms
proof (induction sh arbitrary: st s idc)
  case (Cons d sh)
  from Cons.prems(1) obtain st' s' where r: "row_major sh = Some (st', s')" "st = s' # st'" "s = s' * d"
    by (auto simp: bind_eq_Some_conv split: prod.splits)
  from Cons.prems(2) obtain i ks where i: "idc = i # ks" "0 \<le> i" "i < d" "in_shape sh ks" by (rule in_shape_ConsE)
  have b: "0 \<le> offset_of st' ks" "offset_of st' ks < s'" using Cons.IH [OF r(1) i(4)] by auto
  have "(i + 1) * s' \<le> d * s'" using i(3) b by (intro mult_right_mono) auto
  then show ?case using b i(2) by (simp add: r i(1) algebra_simps)
qed simp

lemma row_major_inj:
  assumes "row_major sh = Some (st, s)" "in_shape sh idc" "in_shape sh idc'" "offset_of st idc = offset_of st idc'"
  shows "idc = idc'"
  using assms
proof (induction sh arbitrary: st s idc idc')
  case (Cons d sh)
  from Cons.prems(1) obtain st' s' where r: "row_major sh = Some (st', s')" "st = s' # st'"
    by (auto simp: bind_eq_Some_conv split: prod.splits)
  from Cons.prems(2) obtain i ks where i: "idc = i # ks" "0 \<le> i" "in_shape sh ks" by (rule in_shape_ConsE)
  from Cons.prems(3) obtain j js where j: "idc' = j # js" "0 \<le> j" "in_shape sh js" by (rule in_shape_ConsE)
  have b: "0 \<le> offset_of st' ks" "offset_of st' ks < s'" "0 \<le> offset_of st' js" "offset_of st' js < s'"
    using row_major_bounds [OF r(1) i(3)] row_major_bounds [OF r(1) j(3)] by auto
  have eq: "i * s' + offset_of st' ks = j * s' + offset_of st' js" using Cons.prems(4) by (simp add: r i(1) j(1))
  then have "(i * s' + offset_of st' ks) div s' = (j * s' + offset_of st' js) div s'" by simp
  then have "i = j" using b by simp
  with eq Cons.IH [OF r(1) i(3) j(3)] show ?case by (simp add: i(1) j(1))
qed simp

text \<open>
  A contiguous tensor's elements are addressed without overlap: whatever its shape, if
  its strides are computed at all, then indices inside the shape have offsets inside the
  element count, and different indices have different offsets.
\<close>

theorem make_tensor_addresses:
  assumes "make_tensor ptr dtype sh = Some t" "in_shape (t_shape t) idc" "in_shape (t_shape t) idc'"
  shows "0 \<le> offset_of (t_stride t) idc \<and> offset_of (t_stride t) idc < prod_list sh
     \<and> (offset_of (t_stride t) idc = offset_of (t_stride t) idc' \<longrightarrow> idc = idc')"
proof -
  from assms(1) obtain st s where st: "row_major sh = Some (st, s)" "t_shape t = sh" "t_stride t = st"
    by (auto simp: make_tensor_def make_tensor_strided_def bind_eq_Some_conv split: prod.splits)
  show ?thesis
    using row_major_bounds [OF st(1)] row_major_inj [OF st(1)] row_major_product [OF st(1)] assms(2,3)
    by (simp add: st(2,3))
qed

theorem make_tensor_addresses_witness:
  "\<exists>t. make_tensor 4096 kBf16 [2, 3, 4] = Some t \<and> offset_of (t_stride t) [1, 2, 3] = 23
     \<and> offset_of (t_stride t) [1, 2, 3] < prod_list [2, 3, 4]"
proof -
  have r: "make_tensor 4096 kBf16 [2, 3, 4] = Some (make_tensor_strided 4096 kBf16 [2, 3, 4] [12, 4, 1])"
    by (simp add: make_tensor_def c_int_def)
  from make_tensor_addresses [OF r, of "[1, 2, 3]" "[1, 2, 3]"] r show ?thesis
    by (simp add: make_tensor_strided_def)
qed



lemma make_tensor_eval:
  assumes "\<And>d. d \<in> set sh \<Longrightarrow> 0 < d" "prod_list sh < 2 ^ 31"
  shows "\<exists>st. make_tensor ptr dtype sh = Some (make_tensor_strided ptr dtype sh st) \<and> length st = length sh"
proof -
  obtain st where st: "row_major sh = Some (st, prod_list sh)" using row_major_Some [OF assms] by auto
  moreover have "length st = length sh" using row_major_product [OF st] by simp
  ultimately show ?thesis by (intro exI [of _ st]) (simp add: make_tensor_def)
qed

end
