(* ===== verification/Model_Config.thy ===== *)
theory Model_Config
  imports Data_Type
begin

text \<open>
  The model's configuration, csrc/model/model_config.h. A C++ \<open>float\<close> is carried as its bit
  pattern.
\<close>

datatype ModelArch = kArchUnsupported | kLlama | kQwen3 | kQwen3Moe

record RopeScaling =
  rs_factor :: "32 word"
  low_freq_factor :: "32 word"
  high_freq_factor :: "32 word"
  original_max_position_embeddings :: int

record MoEConfig =
  num_experts :: int
  moe_intermediate_size :: int
  moe_top_k :: int
  norm_topk_prob :: bool
  decoder_sparse_step :: int
  mlp_only_layers :: "int list"

record ModelConfig =
  arch :: ModelArch
  mc_dtype :: DataType
  mc_max_model_len :: int
  vocab_size :: int
  num_hidden_layers :: int
  hidden_size :: int
  intermediate_size :: int
  num_attention_heads :: int
  num_kv_heads :: int
  head_dim :: int
  rms_norm_eps :: "32 word"
  rope_theta :: "32 word"
  has_qk_norm :: bool
  tie_word_embeddings :: bool
  eos_token_ids :: "int list"
  rope_scaling :: "RopeScaling option"
  moe :: "MoEConfig option"

end
