(* ===== verification/Layers.thy ===== *)
theory Layers
  imports Checkpoint Layout Tensor Model_Config
begin

text \<open>
  Loading the decoder's weights: csrc/model/layers/linear.cpp, mlp.cpp, moe.cpp, attention.cpp
  and the constructor of csrc/model/causal_lm.cpp. A device buffer is its bytes; \<open>fresh n\<close> is what
  \<open>cudaMalloc\<close> leaves in \<open>n\<close> new bytes. Exceptions are \<open>Inl\<close>; a failed assertion, an \<open>int\<close>
  overflow or a copy outside a buffer is \<open>Inl UndefinedBehaviour\<close>.
\<close>

datatype WeightFormat = kFormatBf16 | kW4A16 | kW8A8

datatype Parallel = kReplicated | kColumn | kRow

type_synonym LinearSource = "string \<times> int"  \<comment> \<open>\<open>prefix\<close> and \<open>out_features\<close>\<close>

record Linear =
  lin_format :: WeightFormat
  lin_parallel :: Parallel
  lin_shape :: "int list"
  lin_data :: bytes

definition checked :: "'a option \<Rightarrow> LoadError + 'a" where
  "checked r = (case r of None \<Rightarrow> Inl UndefinedBehaviour | Some x \<Rightarrow> Inr x)"

definition write_at :: "nat \<Rightarrow> bytes \<Rightarrow> bytes \<Rightarrow> bytes option" where
  \<comment> \<open>a host-to-device copy into a buffer\<close>
  "write_at off bs buf = (if off + length bs \<le> length buf
     then Some (take off buf @ bs @ drop (off + length bs) buf) else None)"

definition resize_buffer :: "(nat \<Rightarrow> bytes) \<Rightarrow> int \<Rightarrow> LoadError + bytes" where
  \<comment> \<open>\<open>CudaDeviceBuffer::resize\<close> asserts a size other than 0\<close>
  "resize_buffer fresh n = (if n \<le> 0 then Inl UndefinedBehaviour else Inr (fresh (nat n)))"

fun decimal :: "nat \<Rightarrow> string" where
  \<comment> \<open>\<open>std::format("{}", n)\<close>\<close>
  "decimal n = (if n < 10 then [char_of (48 + n)] else decimal (n div 10) @ [char_of (48 + n mod 10)])"

declare decimal.simps [simp del]

subsection \<open>Linear\<close>

definition weight_format :: "Checkpoint \<Rightarrow> string \<Rightarrow> LoadError + WeightFormat" where
  "weight_format ck prefix =
     (if contains (prefix @ ''.qweight'') ck then Inr kW4A16
      else attempt (get_tensor (prefix @ ''.weight'') ck) (\<lambda>t. if ht_dtype t = kInt8 then Inr kW8A8 else Inr kFormatBf16))"

fun output_size :: "LinearSource list \<Rightarrow> int \<Rightarrow> int option" where
  \<comment> \<open>the running sum \<open>size\<close>, an \<open>int\<close>\<close>
  "output_size [] n = Some n"
| "output_size ((prefix, out) # srcs) n = Option.bind (c_int (n + out)) (output_size srcs)"

fun upload_weights :: "Checkpoint \<Rightarrow> LinearSource list \<Rightarrow> int \<Rightarrow> nat \<Rightarrow> bytes \<Rightarrow> LoadError + bytes" where
  \<comment> \<open>\<open>dst\<close> is the offset in the destination buffer\<close>
  "upload_weights ck [] in_features dst buf = Inr buf"
| "upload_weights ck ((prefix, out) # srcs) in_features dst buf =
     attempt (weight_format ck prefix) (\<lambda>f.
     if f \<noteq> kFormatBf16 then Inl (QuantizedLinear prefix)
     else attempt (get_typed (prefix @ ''.weight'') kBf16 [out, in_features] ck) (\<lambda>w.
       attempt (checked (slice_bytes w 0 0 out)) (\<lambda>bs.
       attempt (checked (write_at dst bs buf)) (\<lambda>buf'.
       upload_weights ck srcs in_features (dst + nat (out * in_features * 2)) buf'))))"

definition Linear_load :: "(nat \<Rightarrow> bytes) \<Rightarrow> Checkpoint \<Rightarrow> LinearSource list \<Rightarrow> int \<Rightarrow> Parallel \<Rightarrow> LoadError + Linear" where
  "Linear_load fresh ck srcs in_features par =
     attempt (checked (output_size srcs 0)) (\<lambda>out.
     attempt (resize_buffer fresh (out * in_features * 2)) (\<lambda>buf.
     attempt (upload_weights ck srcs in_features 0 buf) (\<lambda>data.
     attempt (checked (row_major [out, in_features])) (\<lambda>_.
     Inr \<lparr>lin_format = kFormatBf16, lin_parallel = par, lin_shape = [out, in_features], lin_data = data\<rparr>))))"

definition Linear_tied :: "int list \<Rightarrow> bytes \<Rightarrow> Linear" where
  "Linear_tied shp weight = \<lparr>lin_format = kFormatBf16, lin_parallel = kReplicated, lin_shape = shp, lin_data = weight\<rparr>"

record GroupedLinear =
  gl_shape :: "int list"
  gl_data :: bytes

fun upload_experts :: "Checkpoint \<Rightarrow> LinearSource list list \<Rightarrow> int \<Rightarrow> int \<Rightarrow> nat \<Rightarrow> bytes \<Rightarrow> LoadError + bytes" where
  "upload_experts ck [] out in_features i buf = Inr buf"
| "upload_experts ck (srcs # experts) out in_features i buf =
     (if output_size srcs 0 \<noteq> Some out then Inl UndefinedBehaviour
      else attempt (upload_weights ck srcs in_features (i * nat (out * in_features * 2)) buf)
        (upload_experts ck experts out in_features (i + 1)))"

definition GroupedLinear_load :: "(nat \<Rightarrow> bytes) \<Rightarrow> Checkpoint \<Rightarrow> LinearSource list list \<Rightarrow> int \<Rightarrow> LoadError + GroupedLinear" where
  "GroupedLinear_load fresh ck experts in_features =
     (if experts = [] then Inl UndefinedBehaviour
      else
        attempt (checked (output_size (hd experts) 0)) (\<lambda>out.
        attempt (resize_buffer fresh (int (length experts) * (out * in_features * 2))) (\<lambda>buf.
        attempt (upload_experts ck experts out in_features 0 buf) (\<lambda>data.
        attempt (checked (row_major [int (length experts), out, in_features])) (\<lambda>_.
        Inr \<lparr>gl_shape = [int (length experts), out, in_features], gl_data = data\<rparr>)))))"

subsection \<open>The feed-forward blocks\<close>

record DenseMLP =
  gate_up_proj :: Linear
  down_proj :: Linear

definition DenseMLP_load :: "(nat \<Rightarrow> bytes) \<Rightarrow> Checkpoint \<Rightarrow> string \<Rightarrow> ModelConfig \<Rightarrow> LoadError + DenseMLP" where
  "DenseMLP_load fresh ck prefix c =
     attempt (Linear_load fresh ck [(prefix @ ''.gate_proj'', intermediate_size c), (prefix @ ''.up_proj'', intermediate_size c)]
       (hidden_size c) kColumn) (\<lambda>gate_up.
     attempt (Linear_load fresh ck [(prefix @ ''.down_proj'', hidden_size c)] (intermediate_size c) kRow) (\<lambda>down.
     Inr \<lparr>gate_up_proj = gate_up, down_proj = down\<rparr>))"

record SparseMoE =
  moe_gate :: Linear
  experts_w13 :: GroupedLinear
  experts_w2 :: GroupedLinear
  sm_top_k :: int
  sm_norm_topk_prob :: bool
  expert_begin :: int
  expert_end :: int

definition expert_prefix :: "string \<Rightarrow> nat \<Rightarrow> string" where
  "expert_prefix prefix expert = prefix @ ''.experts.'' @ decimal expert"

definition SparseMoE_load :: "(nat \<Rightarrow> bytes) \<Rightarrow> Checkpoint \<Rightarrow> string \<Rightarrow> ModelConfig \<Rightarrow> MoEConfig \<Rightarrow> LoadError + SparseMoE" where
  "SparseMoE_load fresh ck prefix c m =
     attempt (Linear_load fresh ck [(prefix @ ''.gate'', num_experts m)] (hidden_size c) kReplicated) (\<lambda>gate.
     let ids = [0..<nat (num_experts m)];
         w13 = map (\<lambda>e. [(expert_prefix prefix e @ ''.gate_proj'', moe_intermediate_size m),
                         (expert_prefix prefix e @ ''.up_proj'', moe_intermediate_size m)]) ids;
         w2 = map (\<lambda>e. [(expert_prefix prefix e @ ''.down_proj'', hidden_size c)]) ids in
     attempt (GroupedLinear_load fresh ck w13 (hidden_size c)) (\<lambda>g13.
     attempt (GroupedLinear_load fresh ck w2 (moe_intermediate_size m)) (\<lambda>g2.
     Inr \<lparr>moe_gate = gate, experts_w13 = g13, experts_w2 = g2, sm_top_k = moe_top_k m,
       sm_norm_topk_prob = norm_topk_prob m, expert_begin = 0, expert_end = num_experts m\<rparr>)))"

subsection \<open>Attention\<close>

record Attention =
  at_layer :: int
  at_q_size :: int
  at_kv_size :: int
  at_head_dim :: int
  at_eps :: "32 word"
  qkv_proj :: Linear
  o_proj :: Linear
  qk_norm_data :: "bytes option"  \<comment> \<open>\<open>q_norm_\<close> at 0 and \<open>k_norm_\<close> behind it, when set\<close>

definition norm_pair :: "(nat \<Rightarrow> bytes) \<Rightarrow> Checkpoint \<Rightarrow> DataType \<Rightarrow> int \<Rightarrow> string \<Rightarrow> string \<Rightarrow> LoadError + bytes" where
  \<comment> \<open>two vectors of \<open>n\<close> elements in one buffer, the second at the next multiple of 256\<close>
  "norm_pair fresh ck dtype n first second =
     (let norm_bytes = n * int (dtype_byte_size dtype); second_off = uint (align_up 256 (word_of_int norm_bytes)) in
     attempt (resize_buffer fresh (second_off + norm_bytes)) (\<lambda>buf.
     attempt (get_typed first dtype [n] ck) (\<lambda>a.
     attempt (checked (slice_bytes a 0 0 n)) (\<lambda>abs.
     attempt (checked (write_at 0 abs buf)) (\<lambda>buf1.
     attempt (get_typed second dtype [n] ck) (\<lambda>b.
     attempt (checked (slice_bytes b 0 0 n)) (\<lambda>bbs.
     checked (write_at (nat second_off) bbs buf1))))))))"

definition Attention_load :: "(nat \<Rightarrow> bytes) \<Rightarrow> Checkpoint \<Rightarrow> string \<Rightarrow> int \<Rightarrow> ModelConfig \<Rightarrow> LoadError + Attention" where
  "Attention_load fresh ck prefix layer c =
     attempt (checked (c_int (num_attention_heads c * head_dim c))) (\<lambda>q.
     attempt (checked (c_int (num_kv_heads c * head_dim c))) (\<lambda>kv.
     attempt (Linear_load fresh ck [(prefix @ ''.q_proj'', q), (prefix @ ''.k_proj'', kv), (prefix @ ''.v_proj'', kv)]
       (hidden_size c) kColumn) (\<lambda>qkv.
     attempt (Linear_load fresh ck [(prefix @ ''.o_proj'', hidden_size c)] q kRow) (\<lambda>out.
     attempt (if has_qk_norm c
       then attempt (norm_pair fresh ck (mc_dtype c) (head_dim c) (prefix @ ''.q_norm.weight'') (prefix @ ''.k_norm.weight'')) (\<lambda>d. Inr (Some d))
       else Inr None) (\<lambda>norm.
     Inr \<lparr>at_layer = layer, at_q_size = q, at_kv_size = kv, at_head_dim = head_dim c, at_eps = rms_norm_eps c,
       qkv_proj = qkv, o_proj = out, qk_norm_data = norm\<rparr>)))))"

subsection \<open>The model\<close>

datatype FeedForward = Dense DenseMLP | Sparse SparseMoE

record DecoderLayer =
  dl_norm_data :: bytes
  dl_attn :: Attention
  dl_ffn :: FeedForward

record CausalLM =
  lm_config :: ModelConfig
  lm_embed :: bytes
  lm_norm :: bytes
  lm_head :: Linear
  lm_layers :: "DecoderLayer list"

definition uses_moe :: "ModelConfig \<Rightarrow> int \<Rightarrow> bool option" where
  \<comment> \<open>the condition of layer \<open>i\<close>; the remainder by a zero step is undefined\<close>
  "uses_moe c i = (case moe c of None \<Rightarrow> Some False | Some m \<Rightarrow>
     if num_experts m \<le> 0 then Some False
     else if decoder_sparse_step m = 0 then None
     else Some (decoder_sparse_step m dvd i + 1 \<and> i \<notin> set (mlp_only_layers m)))"

definition layer_prefix :: "nat \<Rightarrow> string" where
  "layer_prefix i = ''model.layers.'' @ decimal i"

definition load_ffn :: "(nat \<Rightarrow> bytes) \<Rightarrow> Checkpoint \<Rightarrow> ModelConfig \<Rightarrow> nat \<Rightarrow> LoadError + FeedForward" where
  "load_ffn fresh ck c i = attempt (checked (uses_moe c (int i))) (\<lambda>sparse.
     case moe c of
       Some m \<Rightarrow> if sparse then attempt (SparseMoE_load fresh ck (layer_prefix i @ ''.mlp'') c m) (\<lambda>x. Inr (Sparse x))
                 else attempt (DenseMLP_load fresh ck (layer_prefix i @ ''.mlp'') c) (\<lambda>x. Inr (Dense x))
     | None \<Rightarrow> attempt (DenseMLP_load fresh ck (layer_prefix i @ ''.mlp'') c) (\<lambda>x. Inr (Dense x)))"

definition load_layer :: "(nat \<Rightarrow> bytes) \<Rightarrow> Checkpoint \<Rightarrow> ModelConfig \<Rightarrow> nat \<Rightarrow> LoadError + DecoderLayer" where
  "load_layer fresh ck c i =
     attempt (norm_pair fresh ck (mc_dtype c) (hidden_size c) (layer_prefix i @ ''.input_layernorm.weight'')
       (layer_prefix i @ ''.post_attention_layernorm.weight'')) (\<lambda>norms.
     attempt (Attention_load fresh ck (layer_prefix i @ ''.self_attn'') (int i) c) (\<lambda>attn.
     attempt (load_ffn fresh ck c i) (\<lambda>ffn.
     Inr \<lparr>dl_norm_data = norms, dl_attn = attn, dl_ffn = ffn\<rparr>)))"

definition load_matrix :: "(nat \<Rightarrow> bytes) \<Rightarrow> Checkpoint \<Rightarrow> string \<Rightarrow> DataType \<Rightarrow> int list \<Rightarrow> LoadError + bytes" where
  \<comment> \<open>a whole tensor into a buffer of its own\<close>
  "load_matrix fresh ck name dtype shp =
     attempt (get_typed name dtype shp ck) (\<lambda>t.
     attempt (resize_buffer fresh (prod_list shp * int (dtype_byte_size dtype))) (\<lambda>buf.
     attempt (checked (slice_bytes t 0 0 (hd shp))) (\<lambda>bs.
     attempt (checked (write_at 0 bs buf)) (\<lambda>data.
     attempt (checked (row_major shp)) (\<lambda>_. Inr data)))))"

definition load_vector :: "(nat \<Rightarrow> bytes) \<Rightarrow> Checkpoint \<Rightarrow> string \<Rightarrow> DataType \<Rightarrow> int \<Rightarrow> LoadError + bytes" where
  \<comment> \<open>\<open>norm_data_\<close>: here the buffer is resized first\<close>
  "load_vector fresh ck name dtype n =
     attempt (resize_buffer fresh (n * int (dtype_byte_size dtype))) (\<lambda>buf.
     attempt (get_typed name dtype [n] ck) (\<lambda>t.
     attempt (checked (slice_bytes t 0 0 n)) (\<lambda>bs.
     checked (write_at 0 bs buf))))"

definition CausalLM_create :: "(nat \<Rightarrow> bytes) \<Rightarrow> Checkpoint \<Rightarrow> ModelConfig \<Rightarrow> LoadError + CausalLM" where
  "CausalLM_create fresh ck c =
     attempt (load_matrix fresh ck ''model.embed_tokens.weight'' (mc_dtype c) [vocab_size c, hidden_size c]) (\<lambda>embed.
     attempt (load_vector fresh ck ''model.norm.weight'' (mc_dtype c) (hidden_size c)) (\<lambda>norm.
     attempt (if tie_word_embeddings c then Inr (Linear_tied [vocab_size c, hidden_size c] embed)
       else Linear_load fresh ck [(''lm_head'', vocab_size c)] (hidden_size c) kReplicated) (\<lambda>head.
     attempt (attempt_map (load_layer fresh ck c) [0..<nat (num_hidden_layers c)]) (\<lambda>layers.
     Inr \<lparr>lm_config = c, lm_embed = embed, lm_norm = norm, lm_head = head, lm_layers = layers\<rparr>))))"

subsection \<open>The loaded bytes\<close>

definition tensor_bytes :: "HostTensor \<Rightarrow> bytes" where
  \<comment> \<open>the bytes of a whole tensor\<close>
  "tensor_bytes t = take (nat (prod_list (ht_shape t) * int (dtype_byte_size (ht_dtype t)))) (drop (nat (uint (ht_offset t))) (ht_shard t))"

definition source_bytes :: "Checkpoint \<Rightarrow> LinearSource list \<Rightarrow> bytes" where
  "source_bytes ck srcs = concat (map (\<lambda>(prefix, _). tensor_bytes (the (tensors ck (prefix @ ''.weight'')))) srcs)"

definition sources_ok :: "Checkpoint \<Rightarrow> int \<Rightarrow> LinearSource list \<Rightarrow> bool" where
  \<comment> \<open>every source is an unquantised bfloat16 matrix of the expected shape\<close>
  "sources_ok ck in_features srcs \<longleftrightarrow> (\<forall>(prefix, out) \<in> set srcs. \<not> contains (prefix @ ''.qweight'') ck
     \<and> (\<exists>t. tensors ck (prefix @ ''.weight'') = Some t \<and> ht_dtype t = kBf16 \<and> ht_shape t = [out, in_features]))"

lemma checked_Inr [simp]: "checked r = Inr x \<longleftrightarrow> r = Some x"
  by (cases r) (simp_all add: checked_def)

lemma get_typed_Inr: "get_typed name dtype shp ck = Inr t \<longleftrightarrow> tensors ck name = Some t \<and> ht_dtype t = dtype \<and> ht_shape t = shp"
  by (auto simp: get_typed_def get_tensor_def split: option.splits if_splits)

lemma slice_whole:
  assumes "slice_bytes t 0 0 n = Some bs" "ht_shape t = n # sh"
  shows "bs = tensor_bytes t \<and> int (length bs) = prod_list (ht_shape t) * int (dtype_byte_size (ht_dtype t))"
proof -
  have sub: "subvec (ht_shard t) (uint (ht_offset t)) (n * (int (dtype_byte_size (ht_dtype t)) * prod_list sh)) = Some bs"
    using assms by (auto simp: slice_bytes_def Let_def bind_eq_Some_conv)
  have eq: "n * (int (dtype_byte_size (ht_dtype t)) * prod_list sh) = prod_list (ht_shape t) * int (dtype_byte_size (ht_dtype t))"
    by (simp add: assms(2))
  show ?thesis
    using sub subvec_length [OF sub] unfolding eq by (simp add: subvec_def tensor_bytes_def split: if_splits)
qed

lemma upload_weights_spec:
  assumes "upload_weights ck srcs in_features dst buf = Inr buf'" "dst \<le> length buf"
  shows "sources_ok ck in_features srcs \<and> dst + length (source_bytes ck srcs) \<le> length buf
     \<and> buf' = take dst buf @ source_bytes ck srcs @ drop (dst + length (source_bytes ck srcs)) buf
     \<and> int (length (source_bytes ck srcs)) = (\<Sum>(prefix, out)\<leftarrow>srcs. out * in_features * 2)
     \<and> (\<forall>(prefix, out) \<in> set srcs. 0 \<le> out * in_features * 2)"
  using assms
proof (induction srcs arbitrary: dst buf)
  case Nil
  then show ?case by (simp add: sources_ok_def source_bytes_def)
next
  case (Cons src srcs)
  obtain prefix out where src: "src = (prefix, out)" by (cases src)
  from Cons.prems(1) obtain t bs b1 where s: "\<not> contains (prefix @ ''.qweight'') ck"
      "tensors ck (prefix @ ''.weight'') = Some t" "ht_dtype t = kBf16" "ht_shape t = [out, in_features]"
      "slice_bytes t 0 0 out = Some bs" "write_at dst bs buf = Some b1"
      "upload_weights ck srcs in_features (dst + nat (out * in_features * 2)) b1 = Inr buf'"
    by (auto simp: src get_typed_Inr weight_format_def split: if_splits)
  have bs: "bs = tensor_bytes t" "int (length bs) = out * in_features * 2"
    using slice_whole [OF s(5,4)] unfolding s(3,4) by auto
  then have n: "nat (out * in_features * 2) = length bs" "0 \<le> out * in_features * 2" by linarith+
  have b1: "b1 = take dst buf @ bs @ drop (dst + length bs) buf" "dst + length bs \<le> length buf"
    using s(6) by (auto simp: write_at_def split: if_splits)
  then have len: "length b1 = length buf" by simp
  note IH = Cons.IH [OF s(7) [unfolded n(1)]]
  have sb: "source_bytes ck ((prefix, out) # srcs) = bs @ source_bytes ck srcs" using s(2) bs(1) by (simp add: source_bytes_def)
  have "take (dst + length bs) b1 = take dst buf @ bs" using b1 by simp
  moreover have "drop (dst + length bs + m) b1 = drop (dst + length bs + m) buf" for m using b1 by (simp add: add.assoc add.commute add.left_commute)
  ultimately show ?case
    using IH s(1-4) b1(2) len bs(2) n(2) by (auto simp: sb src sources_ok_def add.assoc)
qed

lemma output_size_sum: "output_size srcs n = Some m \<Longrightarrow> m = n + (\<Sum>(prefix, out)\<leftarrow>srcs. out)"
  by (induction srcs arbitrary: n) (auto simp: bind_eq_Some_conv, fastforce)

lemma sum_times: "(\<Sum>(prefix, out)\<leftarrow>srcs. out * k) = (\<Sum>(prefix, out)\<leftarrow>srcs. out) * (k :: int)"
  by (induction srcs) (auto simp: distrib_right)

text \<open>
  C20: Fusing projections is stacking their matrices: if a \<open>Linear\<close> loads, then every source is
  an unquantised bfloat16 matrix with the expected rows and columns, the fused weight has the
  sum of the rows, and its bytes are the sources' bytes one after the other, whatever the new
  device memory held before.
\<close>

theorem linear_load_stacks:
  assumes "\<And>n. length (fresh n) = n" "Linear_load fresh ck srcs in_features par = Inr lin"
  shows "sources_ok ck in_features srcs \<and> lin_shape lin = [\<Sum>(prefix, out)\<leftarrow>srcs. out, in_features]
     \<and> lin_data lin = source_bytes ck srcs"
proof -
  from assms(2) obtain out data where l: "output_size srcs 0 = Some out" "0 < out * in_features * 2"
      "upload_weights ck srcs in_features 0 (fresh (nat (out * in_features * 2))) = Inr data"
      "lin = \<lparr>lin_format = kFormatBf16, lin_parallel = par, lin_shape = [out, in_features], lin_data = data\<rparr>"
    by (auto simp: Linear_load_def resize_buffer_def split: if_splits)
  note up = upload_weights_spec [OF l(3) le0]
  have "int (length (source_bytes ck srcs)) = out * in_features * 2"
    using up sum_times [of "in_features * 2" srcs] output_size_sum [OF l(1)] by (simp add: mult.assoc)
  then have "length (source_bytes ck srcs) = nat (out * in_features * 2)" by linarith
  then show ?thesis using up output_size_sum [OF l(1)] assms(1) by (simp add: l(4))
qed

theorem linear_load_stacks_witness: "\<exists>ck lin. Linear_load (\<lambda>n. replicate n 7) ck [(''q'', 1), (''k'', 1)] 1 kColumn = Inr lin
     \<and> lin_shape lin = [2, 1] \<and> lin_data lin = [1, 2, 3, 4]"
proof -
  define t where "t i = \<lparr>ht_shard = [1, 2, 3, 4], ht_offset = i, ht_dtype = kBf16, ht_shape = [1, 1]\<rparr>" for i
  define ck where "ck = \<lparr>mappings = [[1, 2, 3, 4]], tensors = [''q.weight'' \<mapsto> t 0, ''k.weight'' \<mapsto> t 2]\<rparr>"
  obtain lin where lin: "Linear_load (\<lambda>n. replicate n 7) ck [(''q'', 1), (''k'', 1)] 1 kColumn = Inr lin"
    by (simp add: Linear_load_def resize_buffer_def weight_format_def get_tensor_def get_typed_def contains_def ck_def t_def
        slice_bytes_def at_index_def in_bounds_def subvec_def checked_def write_at_def c_int_def)
  from linear_load_stacks [OF _ this] lin show ?thesis
    by (auto simp: source_bytes_def tensor_bytes_def ck_def t_def)
qed

end
