(* ===== verification/Request.thy ===== *)
theory Request
  imports Prelude
begin

text \<open>
  The data the scheduler exchanges with its clients: csrc/scheduler/request.h and
  csrc/scheduler/sample_params.h. A \<open>float\<close> is carried as its 32-bit pattern; the scheduler
  copies it and never computes with it.
\<close>

datatype RequestStatus = kWaiting | kRunning | kPreempted

record SampleParams =
  temperature :: "32 word"
  top_k :: int
  top_p :: "32 word"

record Request =
  req_id :: string
  status :: RequestStatus
  num_prompt_tokens :: int
  num_prefill_tokens :: int
  num_computed_tokens :: int
  max_output_tokens :: int
  ignore_eos :: bool
  token_ids :: "int list"
  sample_params :: SampleParams

record ScheduledRequest =
  sr_request_id :: string
  is_prefill :: bool
  needs_sampling :: bool
  position_offset :: int
  tokens_to_compute :: "int list"
  allocated_blocks :: "int list"
  sr_sample_params :: SampleParams

record SampledToken =
  st_request_id :: string
  token_id :: int
  eos_token :: bool

definition num_tokens :: "Request \<Rightarrow> int" where
  \<comment> \<open>\<open>static_cast<int>(request.token_ids.size())\<close>\<close>
  "num_tokens r = int (length (token_ids r))"

end
