(* ===== verification/Protocol.thy ===== *)
theory Protocol
  imports Request
begin

text \<open>
  The messages between the frontend and the engine core, csrc/engine/protocol.h, and the
  engine's configuration, csrc/engine/config.h. A C++ \<open>float\<close> is carried as its bit pattern.
\<close>

record Config =
  model_path :: string
  gpu_memory_utilization :: "32 word"
  block_size :: int
  cfg_max_num_scheduled_tokens :: int
  cfg_max_num_seqs :: int
  cfg_prefix_caching :: bool
  enable_cuda_graph :: bool

datatype RequestType = kAdd | kAbort | kShutdown

datatype OutputType = kReady | kOutputs

record EngineCoreRequest =
  ecr_request_id :: string
  ecr_max_output_tokens :: int
  ecr_ignore_eos :: bool
  ecr_temperature :: "32 word"
  ecr_top_k :: int
  ecr_top_p :: "32 word"
  ecr_token_ids :: "int list"

datatype FinishReason = kReasonRunning | kStop | kLength

record EngineCoreOutput =
  out_request_id :: string
  new_token_ids :: "int list"
  out_finish_reason :: FinishReason

datatype EngineCoreShutdownReason = kCleanShutdown | kEngineCoreDead

end
