(* ===== verification/Batch_Buffer.thy ===== *)
theory Batch_Buffer
  imports Layout Protocol Model_Config
begin

text \<open>
  The per-step input buffer, csrc/executor/batch_buffer.h and batch_buffer.cpp, and the batch it
  hands to the model, csrc/executor/forward_batch.h. The pinned buffer is one byte range; the
  arrays the code writes through \<open>reinterpret_cast\<close> pointers are the elements written so far
  from each field's offset, and a write that would leave the field's byte range is \<open>None\<close>.
\<close>

record Offsets =
  off_token_ids :: "64 word"
  off_positions :: "64 word"
  off_slot_mapping :: "64 word"
  off_query_start_loc :: "64 word"
  off_seq_lens :: "64 word"
  off_block_table :: "64 word"
  off_logits_indices :: "64 word"
  off_sample_params :: "64 word"
  off_num_tokens :: "64 word"

record BatchBuffer =
  bb_offsets :: Offsets
  bb_block_size :: int
  bb_block_table_stride :: int
  bb_bytes :: "64 word"

record ForwardBatch =
  fb_token_ids :: "int list"
  fb_positions :: "int list"
  fb_slot_mapping :: "int list"
  fb_query_start_loc :: "int list"
  fb_seq_lens :: "int list"
  fb_block_table :: "int list list"
  fb_logits_indices :: "int list"
  fb_sample_params :: "SampleParams list"
  fb_num_tokens_device :: int
  fb_block_table_stride :: int
  fb_num_tokens :: int
  fb_num_reqs :: int
  fb_num_sampling_reqs :: int
  fb_max_query_len :: int
  fb_max_seq_len :: int

record HostBatch =
  \<comment> \<open>the pinned arrays and the loop's locals\<close>
  hb_token_ids :: "int list"
  hb_positions :: "int list"
  hb_slot_mapping :: "int list"
  hb_query_start_loc :: "int list"
  hb_seq_lens :: "int list"
  hb_block_table :: "int list list"
  hb_logits_indices :: "int list"
  hb_sample_params :: "SampleParams list"
  hb_max_query_len :: int
  hb_max_seq_len :: int

subsection \<open>Creation\<close>

definition batch_fields :: "int \<Rightarrow> int \<Rightarrow> int \<Rightarrow> (64 word \<times> 64 word) list" where
  "batch_fields max_tokens max_seqs stride =
     [(word_of_int max_tokens, 4), (word_of_int max_tokens, 4), (word_of_int max_tokens, 4),
      (word_of_int (max_seqs + 1), 4), (word_of_int max_seqs, 4),
      (word_of_int max_seqs * word_of_int stride, 4), (word_of_int max_seqs, 4),
      (word_of_int max_seqs, 12), (1, 4)]"

definition BatchBuffer_create :: "Config \<Rightarrow> ModelConfig \<Rightarrow> BatchBuffer option" where
  "BatchBuffer_create config model_config = do {
     let max_tokens = cfg_max_num_scheduled_tokens config;
     let max_seqs = cfg_max_num_seqs config;
     stride \<leftarrow> c_div (mc_max_model_len model_config + block_size config - 1) (block_size config);
     let (offs, buffer_size) = reserve_all 32 0 (batch_fields max_tokens max_seqs stride);
     require (buffer_size \<noteq> 0);
     Some \<lparr>bb_offsets = \<lparr>off_token_ids = offs ! 0, off_positions = offs ! 1, off_slot_mapping = offs ! 2,
         off_query_start_loc = offs ! 3, off_seq_lens = offs ! 4, off_block_table = offs ! 5,
         off_logits_indices = offs ! 6, off_sample_params = offs ! 7, off_num_tokens = offs ! 8\<rparr>,
       bb_block_size = block_size config, bb_block_table_stride = stride, bb_bytes = buffer_size\<rparr>
   }"

subsection \<open>Upload\<close>

definition within :: "64 word \<Rightarrow> 64 word \<Rightarrow> int \<Rightarrow> nat \<Rightarrow> bool" where
  \<comment> \<open>\<open>n\<close> elements of \<open>elem\<close> bytes from offset \<open>lo\<close> end before \<open>hi\<close>\<close>
  "within lo hi elem n \<longleftrightarrow> uint lo + int n * elem \<le> uint hi"

definition host_ok :: "BatchBuffer \<Rightarrow> int \<Rightarrow> HostBatch \<Rightarrow> bool" where
  \<comment> \<open>every array written so far stays in its field\<close>
  "host_ok b stride h \<longleftrightarrow> (let off = bb_offsets b in
       within (off_token_ids off) (off_positions off) 4 (length (hb_token_ids h))
     \<and> within (off_positions off) (off_slot_mapping off) 4 (length (hb_positions h))
     \<and> within (off_slot_mapping off) (off_query_start_loc off) 4 (length (hb_slot_mapping h))
     \<and> within (off_query_start_loc off) (off_seq_lens off) 4 (length (hb_query_start_loc h))
     \<and> within (off_seq_lens off) (off_block_table off) 4 (length (hb_seq_lens h))
     \<and> within (off_block_table off) (off_logits_indices off) (4 * stride) (length (hb_block_table h))
     \<and> within (off_logits_indices off) (off_sample_params off) 4 (length (hb_logits_indices h))
     \<and> within (off_sample_params off) (off_num_tokens off) 12 (length (hb_sample_params h)))"

definition slot_of :: "int \<Rightarrow> int list \<Rightarrow> int \<Rightarrow> int option" where
  \<comment> \<open>the KV slot of a position: \<open>block * block_size_ + position % block_size_\<close>\<close>
  "slot_of bs allocated position = do {
     q \<leftarrow> c_div position bs;
     block \<leftarrow> at_index allocated q;
     Some (block * bs + (position - bs * q))
   }"

definition host_block_table_stride :: "ScheduledRequest list \<Rightarrow> int" where
  "host_block_table_stride scheduled = fold (\<lambda>r acc. max acc (int (length (allocated_blocks r)))) scheduled 0"

definition upload_request :: "BatchBuffer \<Rightarrow> int \<Rightarrow> ScheduledRequest \<Rightarrow> HostBatch \<Rightarrow> HostBatch option" where
  \<comment> \<open>the body of the loop over the requests\<close>
  "upload_request b stride r h = do {
     let k = int (length (tokens_to_compute r));
     require (k > 0);
     let positions = map (\<lambda>j. position_offset r + int j) [0..<nat k];
     slots \<leftarrow> those (map (slot_of (bb_block_size b) (allocated_blocks r)) positions);
     let num_tokens = int (length (hb_token_ids h)) + k;
     let seq_len = position_offset r + k;
     let row = allocated_blocks r @ replicate (nat (stride - int (length (allocated_blocks r)))) 0;
     let h1 = h\<lparr>hb_token_ids := hb_token_ids h @ tokens_to_compute r,
       hb_positions := hb_positions h @ positions, hb_slot_mapping := hb_slot_mapping h @ slots,
       hb_query_start_loc := hb_query_start_loc h @ [num_tokens],
       hb_seq_lens := hb_seq_lens h @ [seq_len],
       hb_max_query_len := max (hb_max_query_len h) k, hb_max_seq_len := max (hb_max_seq_len h) seq_len,
       hb_block_table := hb_block_table h @ [row]\<rparr>;
     let h2 = (if needs_sampling r
       then h1\<lparr>hb_logits_indices := hb_logits_indices h1 @ [num_tokens - 1],
              hb_sample_params := hb_sample_params h1 @ [sr_sample_params r]\<rparr>
       else h1);
     require (host_ok b stride h2);
     Some h2
   }"

definition empty_host :: HostBatch where
  "empty_host = \<lparr>hb_token_ids = [], hb_positions = [], hb_slot_mapping = [], hb_query_start_loc = [0],
     hb_seq_lens = [], hb_block_table = [], hb_logits_indices = [], hb_sample_params = [],
     hb_max_query_len = 0, hb_max_seq_len = 0\<rparr>"

definition upload :: "BatchBuffer \<Rightarrow> ScheduledRequest list \<Rightarrow> int \<Rightarrow> ForwardBatch option" where
  "upload b scheduled padded_arg = do {
     let stride = host_block_table_stride scheduled;
     require (host_ok b stride empty_host);
     h \<leftarrow> fold_opt (upload_request b stride) scheduled empty_host;
     let num_tokens = int (length (hb_token_ids h));
     let padded = (if padded_arg = 0 then num_tokens else padded_arg);
     require (padded \<ge> num_tokens);
     let pad = nat (padded - num_tokens);
     let h1 = h\<lparr>hb_token_ids := hb_token_ids h @ replicate pad 0, hb_positions := hb_positions h @ replicate pad 0,
       hb_slot_mapping := hb_slot_mapping h @ replicate pad (-1)\<rparr>;
     require (host_ok b stride h1 \<and> within (off_num_tokens (bb_offsets b)) (bb_bytes b) 4 1);
     require (scheduled = [] \<or> stride \<le> bb_block_table_stride b);
     Some \<lparr>fb_token_ids = hb_token_ids h1, fb_positions = hb_positions h1, fb_slot_mapping = hb_slot_mapping h1,
       fb_query_start_loc = hb_query_start_loc h1, fb_seq_lens = hb_seq_lens h1,
       fb_block_table = hb_block_table h1, fb_logits_indices = hb_logits_indices h1,
       fb_sample_params = hb_sample_params h1, fb_num_tokens_device = num_tokens,
       fb_block_table_stride = bb_block_table_stride b, fb_num_tokens = num_tokens,
       fb_num_reqs = int (length scheduled), fb_num_sampling_reqs = int (length (hb_logits_indices h)),
       fb_max_query_len = hb_max_query_len h, fb_max_seq_len = hb_max_seq_len h\<rparr>
   }"

definition download_sampled_token_ids :: "int list \<Rightarrow> int list \<Rightarrow> int list" where
  \<comment> \<open>the sampled ids replace the front of the pinned buffer\<close>
  "download_sampled_token_ids ids pinned = ids @ drop (length ids) pinned"

end
