(* ===== verification/Batch_Contract.thy ===== *)
theory Batch_Contract
  imports Batch_Buffer
begin

text \<open>
  What \<open>BatchBuffer\<close> promises: the layout's fields are disjoint and large enough, and \<open>upload\<close>
  of a schedule within the limits returns the flattened batch that the specification functions
  \<open>query_starts\<close>, \<open>request_positions\<close> and \<open>kv_slot\<close> describe.
\<close>

subsection \<open>The layout\<close>

definition bb_room :: "BatchBuffer \<Rightarrow> int \<Rightarrow> int \<Rightarrow> bool" where
  \<comment> \<open>the fields hold \<open>t\<close> tokens and \<open>n\<close> requests\<close>
  "bb_room b t n \<longleftrightarrow> (let off = bb_offsets b in
       uint (off_token_ids off) = 0
     \<and> uint (off_token_ids off) + t * 4 \<le> uint (off_positions off)
     \<and> uint (off_positions off) + t * 4 \<le> uint (off_slot_mapping off)
     \<and> uint (off_slot_mapping off) + t * 4 \<le> uint (off_query_start_loc off)
     \<and> uint (off_query_start_loc off) + (n + 1) * 4 \<le> uint (off_seq_lens off)
     \<and> uint (off_seq_lens off) + n * 4 \<le> uint (off_block_table off)
     \<and> uint (off_block_table off) + n * bb_block_table_stride b * 4 \<le> uint (off_logits_indices off)
     \<and> uint (off_logits_indices off) + n * 4 \<le> uint (off_sample_params off)
     \<and> uint (off_sample_params off) + n * 12 \<le> uint (off_num_tokens off)
     \<and> uint (off_num_tokens off) + 4 \<le> uint (bb_bytes b))"

definition bb_aligned :: "BatchBuffer \<Rightarrow> bool" where
  "bb_aligned b \<longleftrightarrow> (let off = bb_offsets b in
     32 dvd uint (off_token_ids off) \<and> 32 dvd uint (off_positions off) \<and> 32 dvd uint (off_slot_mapping off)
     \<and> 32 dvd uint (off_query_start_loc off) \<and> 32 dvd uint (off_seq_lens off) \<and> 32 dvd uint (off_block_table off)
     \<and> 32 dvd uint (off_logits_indices off) \<and> 32 dvd uint (off_sample_params off) \<and> 32 dvd uint (off_num_tokens off))"

lemma uint_of_small: "0 \<le> x \<Longrightarrow> x < 2 ^ 63 \<Longrightarrow> uint (word_of_int x :: 64 word) = x"
  by (simp add: uint_word_of_int mod_pos_pos_trivial)

lemma create_layout:
  assumes t: "0 < cfg_max_num_scheduled_tokens c" and n: "0 < cfg_max_num_seqs c" and bs: "0 < block_size c"
    and len: "0 \<le> mc_max_model_len mc"
  defines "stride \<equiv> (mc_max_model_len mc + block_size c - 1) div block_size c"
  assumes size: "12 * cfg_max_num_scheduled_tokens c + cfg_max_num_seqs c * (4 * stride + 24) + 300 \<le> 2 ^ 62"
  shows "\<exists>b. BatchBuffer_create c mc = Some b \<and> bb_block_size b = block_size c \<and> bb_block_table_stride b = stride
     \<and> bb_room b (cfg_max_num_scheduled_tokens c) (cfg_max_num_seqs c) \<and> bb_aligned b"
proof -
  let ?t = "cfg_max_num_scheduled_tokens c" and ?n = "cfg_max_num_seqs c"
  let ?fields = "batch_fields ?t ?n stride"
  have s: "0 \<le> stride" unfolding stride_def using bs len by (simp add: pos_imp_zdiv_nonneg_iff)
  have div: "c_div (mc_max_model_len mc + block_size c - 1) (block_size c) = Some stride"
    unfolding stride_def using bs len by (intro c_div_nonneg) auto
  have ns: "0 \<le> ?n * stride" "?n * (4 * stride + 24) = 4 * (?n * stride) + 24 * ?n"
    using n s by (simp_all add: algebra_simps)
  have small: "?t < 2 ^ 61" "?n + 1 < 2 ^ 61" "?n * stride < 2 ^ 61"
    using size t n ns by simp_all
  have "stride \<le> ?n * stride" using n s mult_right_mono [of 1 ?n stride] by simp
  then have small_s: "stride < 2 ^ 63" using small(3) by simp
  have w: "uint (word_of_int ?t :: 64 word) = ?t" "uint (word_of_int (?n + 1) :: 64 word) = ?n + 1"
    "uint (word_of_int ?n :: 64 word) = ?n" "uint (word_of_int stride :: 64 word) = stride"
    using small small_s t n s by (simp_all add: uint_of_small del: of_int_add)
  have wp: "uint (word_of_int ?n * word_of_int stride :: 64 word) = ?n * stride"
    using small(3) ns(1) by (simp add: uint_word_ariths w mod_pos_pos_trivial)
  obtain offs hi where ra: "reserve_all 32 0 ?fields = (offs, hi)" by (cases "reserve_all 32 0 ?fields")
  have bytes: "region_bytes ?fields = 12 * ?t + 4 * (?n + 1) + 4 * ?n + 4 * (?n * stride) + 4 * ?n + 12 * ?n + 4"
    by (simp add: batch_fields_def w wp del: of_int_add)
  have "uint (0 :: 64 word) + region_bytes ?fields + int (length ?fields) * 2 ^ 5 \<le> 2 ^ 63"
    using size unfolding bytes ns(2) by (simp add: batch_fields_def)
  then have p: "packed (2 ^ 5) (uint (0 :: 64 word)) (map uint offs) (map (\<lambda>(c, e). (uint c, uint e)) ?fields) (uint hi)"
    using ra by (intro reserve_all_packed) simp_all
  have "length offs = 9" using length_reserve_all [of 32 0 ?fields] ra by (simp add: batch_fields_def)
  then obtain o0 o1 o2 o3 o4 o5 o6 o7 o8 where offs: "offs = [o0, o1, o2, o3, o4, o5, o6, o7, o8]"
    by (auto simp: numeral_eq_Suc length_Suc_conv)
  have o0: "o0 = 0" using ra unfolding offs by (auto simp: batch_fields_def reserve_def align_up_def Let_def split: prod.splits)
  note pk = p [unfolded offs batch_fields_def, simplified, unfolded w wp]
  have "0 < uint hi" using pk uint_ge_0 [of o8] by linarith
  then have "hi \<noteq> 0" by auto
  define b where "b = \<lparr>bb_offsets = \<lparr>off_token_ids = o0, off_positions = o1, off_slot_mapping = o2,
     off_query_start_loc = o3, off_seq_lens = o4, off_block_table = o5, off_logits_indices = o6,
     off_sample_params = o7, off_num_tokens = o8\<rparr>, bb_block_size = block_size c, bb_block_table_stride = stride, bb_bytes = hi\<rparr>"
  have "BatchBuffer_create c mc = Some b"
    using div ra \<open>hi \<noteq> 0\<close> by (simp add: BatchBuffer_create_def offs b_def)
  moreover have "bb_room b ?t ?n" using pk w(2) by (simp add: bb_room_def b_def o0 mult.commute)
  moreover have "bb_aligned b" using pk by (simp add: bb_aligned_def b_def)
  ultimately show ?thesis by (auto simp: b_def)
qed

lemma within_mono: "within lo hi e n \<Longrightarrow> k \<le> n \<Longrightarrow> 0 \<le> e \<Longrightarrow> within lo hi e k"
proof -
  assume a: "within lo hi e n" "k \<le> n" "0 \<le> e"
  have "int k * e \<le> int n * e" using a(2,3) by (intro mult_right_mono) auto
  then show ?thesis using a(1) by (simp add: within_def)
qed

lemma within_room: "uint lo + t * e \<le> uint hi \<Longrightarrow> int k \<le> t \<Longrightarrow> 0 \<le> e \<Longrightarrow> within lo hi e k"
proof -
  assume a: "uint lo + t * e \<le> uint hi" "int k \<le> t" "0 \<le> e"
  have "int k * e \<le> t * e" using a(2,3) by (intro mult_right_mono) auto
  then show ?thesis using a(1) by (simp add: within_def)
qed

lemma host_ok_room:
  assumes room: "bb_room b t n" and stride: "0 \<le> stride" "stride \<le> bb_block_table_stride b"
    and h: "int (length (hb_token_ids h)) \<le> t" "int (length (hb_positions h)) \<le> t" "int (length (hb_slot_mapping h)) \<le> t"
      "int (length (hb_query_start_loc h)) \<le> n + 1" "int (length (hb_seq_lens h)) \<le> n" "int (length (hb_block_table h)) \<le> n"
      "int (length (hb_logits_indices h)) \<le> n" "int (length (hb_sample_params h)) \<le> n"
  shows "host_ok b stride h"
proof -
  let ?o = "bb_offsets b"
  have n: "0 \<le> n" using h(5) by linarith
  have "n * (4 * stride) \<le> n * bb_block_table_stride b * 4"
    using mult_left_mono [OF stride(2) n] by simp
  then have "uint (off_block_table (bb_offsets b)) + n * (4 * stride) \<le> uint (off_logits_indices (bb_offsets b))"
    using room by (auto simp: bb_room_def Let_def)
  moreover note r = room [unfolded bb_room_def Let_def]
  moreover have "within (off_token_ids ?o) (off_positions ?o) 4 (length (hb_token_ids h))"
    by (rule within_room [OF _ h(1)]) (use calculation r stride(1) in auto)
  moreover have "within (off_positions ?o) (off_slot_mapping ?o) 4 (length (hb_positions h))"
    by (rule within_room [OF _ h(2)]) (use calculation r stride(1) in auto)
  moreover have "within (off_slot_mapping ?o) (off_query_start_loc ?o) 4 (length (hb_slot_mapping h))"
    by (rule within_room [OF _ h(3)]) (use calculation r stride(1) in auto)
  moreover have "within (off_query_start_loc ?o) (off_seq_lens ?o) 4 (length (hb_query_start_loc h))"
    by (rule within_room [OF _ h(4)]) (use calculation r stride(1) in auto)
  moreover have "within (off_seq_lens ?o) (off_block_table ?o) 4 (length (hb_seq_lens h))"
    by (rule within_room [OF _ h(5)]) (use calculation r stride(1) in auto)
  moreover have "within (off_block_table ?o) (off_logits_indices ?o) (4 * stride) (length (hb_block_table h))"
    by (rule within_room [OF _ h(6)]) (use calculation r stride(1) in auto)
  moreover have "within (off_logits_indices ?o) (off_sample_params ?o) 4 (length (hb_logits_indices h))"
    by (rule within_room [OF _ h(7)]) (use calculation r stride(1) in auto)
  moreover have "within (off_sample_params ?o) (off_num_tokens ?o) 12 (length (hb_sample_params h))"
    by (rule within_room [OF _ h(8)]) (use calculation r stride(1) in auto)
  ultimately show ?thesis by (simp add: host_ok_def Let_def)
qed

subsection \<open>The flattened batch\<close>

definition entry_len :: "ScheduledRequest \<Rightarrow> int" where
  "entry_len e = int (length (tokens_to_compute e))"

definition request_positions :: "ScheduledRequest \<Rightarrow> int list" where
  "request_positions e = map (\<lambda>j. position_offset e + int j) [0..<length (tokens_to_compute e)]"

definition kv_slot :: "int \<Rightarrow> int list \<Rightarrow> int \<Rightarrow> int" where
  "kv_slot bs allocated p = allocated ! nat (p div bs) * bs + p mod bs"

definition request_slots :: "int \<Rightarrow> ScheduledRequest \<Rightarrow> int list" where
  "request_slots bs e = map (kv_slot bs (allocated_blocks e)) (request_positions e)"

fun query_starts :: "int \<Rightarrow> ScheduledRequest list \<Rightarrow> int list" where
  "query_starts acc [] = [acc]"
| "query_starts acc (e # es) = acc # query_starts (acc + entry_len e) es"

fun last_token_indices :: "int \<Rightarrow> ScheduledRequest list \<Rightarrow> int list" where
  \<comment> \<open>for every request that samples, the flat index of its last token\<close>
  "last_token_indices acc [] = []"
| "last_token_indices acc (e # es) =
     (if needs_sampling e then [acc + entry_len e - 1] else []) @ last_token_indices (acc + entry_len e) es"

definition entry_fits :: "int \<Rightarrow> ScheduledRequest \<Rightarrow> bool" where
  "entry_fits bs e \<longleftrightarrow> tokens_to_compute e \<noteq> [] \<and> 0 \<le> position_offset e
     \<and> position_offset e + entry_len e \<le> int (length (allocated_blocks e)) * bs"

lemma length_request_positions [simp]: "length (request_positions e) = length (tokens_to_compute e)"
  by (simp add: request_positions_def)

lemma length_request_slots [simp]: "length (request_slots bs e) = length (tokens_to_compute e)"
  by (simp add: request_slots_def)

lemma slot_of_eval:
  assumes "0 < bs" "0 \<le> p" "p < int (length allocated) * bs"
  shows "slot_of bs allocated p = Some (kv_slot bs allocated p)"
proof -
  have "p div bs < int (length allocated)"
    using div_le_iff_less [OF assms(1), of p "int (length allocated) - 1"] assms(3) by simp
  then have "in_bounds allocated (p div bs)" using assms by (simp add: in_bounds_def pos_imp_zdiv_nonneg_iff)
  then show ?thesis
    using assms by (simp add: slot_of_def c_div_nonneg kv_slot_def minus_mult_div_eq_mod)
qed

lemma request_slots_eval:
  assumes "0 < bs" "entry_fits bs e"
  shows "those (map (slot_of bs (allocated_blocks e)) (request_positions e)) = Some (request_slots bs e)"
  unfolding request_slots_def using assms
  by (intro those_map_Some slot_of_eval) (auto simp: request_positions_def entry_fits_def entry_len_def)

definition table_row :: "int \<Rightarrow> ScheduledRequest \<Rightarrow> int list" where
  "table_row stride e = allocated_blocks e @ replicate (nat (stride - int (length (allocated_blocks e)))) 0"

definition add_entry :: "int \<Rightarrow> int \<Rightarrow> ScheduledRequest \<Rightarrow> HostBatch \<Rightarrow> HostBatch" where
  "add_entry bs stride e h = (let n = int (length (hb_token_ids h)) in
     h\<lparr>hb_token_ids := hb_token_ids h @ tokens_to_compute e,
       hb_positions := hb_positions h @ request_positions e,
       hb_slot_mapping := hb_slot_mapping h @ request_slots bs e,
       hb_query_start_loc := hb_query_start_loc h @ [n + entry_len e],
       hb_seq_lens := hb_seq_lens h @ [position_offset e + entry_len e],
       hb_max_query_len := max (hb_max_query_len h) (entry_len e),
       hb_max_seq_len := max (hb_max_seq_len h) (position_offset e + entry_len e),
       hb_block_table := hb_block_table h @ [table_row stride e],
       hb_logits_indices := hb_logits_indices h @ (if needs_sampling e then [n + entry_len e - 1] else []),
       hb_sample_params := hb_sample_params h @ (if needs_sampling e then [sr_sample_params e] else [])\<rparr>)"

definition shape_ok :: "int \<Rightarrow> int \<Rightarrow> ScheduledRequest list \<Rightarrow> HostBatch \<Rightarrow> bool" where
  \<comment> \<open>the arrays agree in length and leave room for \<open>es\<close>\<close>
  "shape_ok t n es h \<longleftrightarrow> length (hb_positions h) = length (hb_token_ids h)
     \<and> length (hb_slot_mapping h) = length (hb_token_ids h)
     \<and> int (length (hb_token_ids h)) + (\<Sum>e\<leftarrow>es. entry_len e) \<le> t
     \<and> length (hb_query_start_loc h) = length (hb_seq_lens h) + 1
     \<and> length (hb_block_table h) = length (hb_seq_lens h)
     \<and> length (hb_logits_indices h) \<le> length (hb_seq_lens h)
     \<and> length (hb_sample_params h) \<le> length (hb_seq_lens h)
     \<and> int (length (hb_seq_lens h)) + int (length es) \<le> n"

lemma entry_len_sum_nonneg: "0 \<le> (\<Sum>e\<leftarrow>es. entry_len e)"
  by (induction es) (simp_all add: entry_len_def)

lemma add_entry_shape: "shape_ok t n (e # es) h \<Longrightarrow> shape_ok t n es (add_entry bs stride e h)"
  by (auto simp: shape_ok_def add_entry_def Let_def entry_len_def)

lemma shape_host_ok:
  assumes "bb_room b t n" "0 \<le> stride" "stride \<le> bb_block_table_stride b" "shape_ok t n es h"
  shows "host_ok b stride h"
  using assms(4) entry_len_sum_nonneg [of es]
  by (intro host_ok_room [OF assms(1-3)]) (auto simp: shape_ok_def)

lemma upload_request_eval:
  assumes room: "bb_room b t n" and bs: "0 < bb_block_size b" and stride: "0 \<le> stride" "stride \<le> bb_block_table_stride b"
    and e: "entry_fits (bb_block_size b) e" and h: "shape_ok t n (e # es) h"
  shows "upload_request b stride e h = Some (add_entry (bb_block_size b) stride e h)"
proof -
  let ?h = "add_entry (bb_block_size b) stride e h"
  have ok: "host_ok b stride ?h" using shape_host_ok [OF room stride add_entry_shape [OF h]] .
  have pos: "0 < int (length (tokens_to_compute e))" using e by (simp add: entry_fits_def)
  have slots: "those (map (slot_of (bb_block_size b) (allocated_blocks e))
      (map (\<lambda>j. position_offset e + int j) [0..<length (tokens_to_compute e)])) = Some (request_slots (bb_block_size b) e)"
    using request_slots_eval [OF bs e] by (simp add: request_positions_def)
  show ?thesis
    unfolding upload_request_def Let_def nat_int slots
    using ok pos
    by (auto simp: add_entry_def Let_def entry_len_def request_positions_def table_row_def cong: if_cong)
qed

lemma upload_requests_eval:
  assumes "bb_room b t n" "0 < bb_block_size b" "0 \<le> stride" "stride \<le> bb_block_table_stride b"
    and "\<And>e. e \<in> set es \<Longrightarrow> entry_fits (bb_block_size b) e" and "shape_ok t n es h"
  shows "fold_opt (upload_request b stride) es h = Some (fold (add_entry (bb_block_size b) stride) es h)"
  using assms(5,6)
proof (induction es arbitrary: h)
  case (Cons e es)
  show ?case
    using upload_request_eval [OF assms(1-4) _ Cons.prems(2)] Cons.prems(1)
      Cons.IH [OF _ add_entry_shape [OF Cons.prems(2)]] by simp
qed simp

lemma fold_add_entry:
  "fold (add_entry bs stride) es h = (let n = int (length (hb_token_ids h)) in
     h\<lparr>hb_token_ids := hb_token_ids h @ concat (map tokens_to_compute es),
       hb_positions := hb_positions h @ concat (map request_positions es),
       hb_slot_mapping := hb_slot_mapping h @ concat (map (request_slots bs) es),
       hb_query_start_loc := hb_query_start_loc h @ tl (query_starts n es),
       hb_seq_lens := hb_seq_lens h @ map (\<lambda>e. position_offset e + entry_len e) es,
       hb_max_query_len := fold (\<lambda>e m. max m (entry_len e)) es (hb_max_query_len h),
       hb_max_seq_len := fold (\<lambda>e m. max m (position_offset e + entry_len e)) es (hb_max_seq_len h),
       hb_block_table := hb_block_table h @ map (table_row stride) es,
       hb_logits_indices := hb_logits_indices h @ last_token_indices n es,
       hb_sample_params := hb_sample_params h @ map sr_sample_params (filter needs_sampling es)\<rparr>)"
proof (induction es arbitrary: h)
  case (Cons e es)
  have qs: "tl (query_starts x (e # es)) = (x + entry_len e) # tl (query_starts (x + entry_len e) es)" for x
    by (cases es) simp_all
  have n: "int (length (hb_token_ids (add_entry bs stride e h))) = int (length (hb_token_ids h)) + entry_len e"
    by (simp add: add_entry_def Let_def entry_len_def)
  show ?case
    unfolding fold_Cons comp_apply Cons.IH n Let_def qs
    by (simp add: add_entry_def Let_def)
qed (simp add: Let_def)

lemma host_stride_bounds:
  "0 \<le> host_block_table_stride es" "e \<in> set es \<Longrightarrow> int (length (allocated_blocks e)) \<le> host_block_table_stride es"
proof -
  have mono: "acc \<le> fold (\<lambda>r acc. max acc (int (length (allocated_blocks r)))) es acc" for acc es
    by (induction es arbitrary: acc) (auto intro: order_trans [OF max.cobounded1])
  show "0 \<le> host_block_table_stride es" unfolding host_block_table_stride_def by (rule mono)
  have "int (length (allocated_blocks e)) \<le> fold (\<lambda>r acc. max acc (int (length (allocated_blocks r)))) es acc"
    if "e \<in> set es" for acc es
    using that
  proof (induction es arbitrary: acc)
    case (Cons a es)
    then show ?case using mono [of "max acc (int (length (allocated_blocks a)))" es] by auto
  qed simp
  then show "e \<in> set es \<Longrightarrow> int (length (allocated_blocks e)) \<le> host_block_table_stride es"
    unfolding host_block_table_stride_def .
qed

lemma host_stride_le:
  assumes "0 \<le> b" "\<And>e. e \<in> set es \<Longrightarrow> int (length (allocated_blocks e)) \<le> b"
  shows "host_block_table_stride es \<le> b"
proof -
  have "fold (\<lambda>r acc. max acc (int (length (allocated_blocks r)))) es acc \<le> b" if "acc \<le> b" for acc
    using that assms(2) by (induction es arbitrary: acc) auto
  then show ?thesis using assms(1) by (simp add: host_block_table_stride_def)
qed

subsection \<open>Upload as a whole\<close>

definition flat_batch :: "BatchBuffer \<Rightarrow> ScheduledRequest list \<Rightarrow> int \<Rightarrow> ForwardBatch" where
  \<comment> \<open>the specification of the uploaded batch; \<open>padded\<close> tokens in all\<close>
  "flat_batch b es padded = (let n = (\<Sum>e\<leftarrow>es. entry_len e); pad = nat (padded - n) in
     \<lparr>fb_token_ids = concat (map tokens_to_compute es) @ replicate pad 0,
      fb_positions = concat (map request_positions es) @ replicate pad 0,
      fb_slot_mapping = concat (map (request_slots (bb_block_size b)) es) @ replicate pad (-1),
      fb_query_start_loc = query_starts 0 es,
      fb_seq_lens = map (\<lambda>e. position_offset e + entry_len e) es,
      fb_block_table = map (table_row (host_block_table_stride es)) es,
      fb_logits_indices = last_token_indices 0 es,
      fb_sample_params = map sr_sample_params (filter needs_sampling es),
      fb_num_tokens_device = n, fb_block_table_stride = bb_block_table_stride b, fb_num_tokens = n,
      fb_num_reqs = int (length es), fb_num_sampling_reqs = int (length (filter needs_sampling es)),
      fb_max_query_len = fold (\<lambda>e m. max m (entry_len e)) es 0,
      fb_max_seq_len = fold (\<lambda>e m. max m (position_offset e + entry_len e)) es 0\<rparr>)"

lemma length_concat_tokens: "int (length (concat (map tokens_to_compute es))) = (\<Sum>e\<leftarrow>es. entry_len e)"
  by (induction es) (simp_all add: entry_len_def)

lemma length_last_token_indices: "length (last_token_indices acc es) = length (filter needs_sampling es)"
  by (induction es arbitrary: acc) simp_all

lemma length_concat_same:
  "length (concat (map request_positions es)) = length (concat (map tokens_to_compute es))"
  "length (concat (map (request_slots bs) es)) = length (concat (map tokens_to_compute es))"
  by (induction es) simp_all

lemma length_query_starts: "length (query_starts acc es) = length es + 1"
  by (induction es arbitrary: acc) simp_all

lemma query_starts_Cons: "query_starts acc es = acc # tl (query_starts acc es)"
  by (cases es) simp_all

lemma upload_eval:
  assumes room: "bb_room b t n" and bs: "0 < bb_block_size b" and stride: "0 \<le> bb_block_table_stride b"
    and fit: "\<And>e. e \<in> set es \<Longrightarrow> entry_fits (bb_block_size b) e
       \<and> int (length (allocated_blocks e)) \<le> bb_block_table_stride b"
    and num: "int (length es) \<le> n" and total: "(\<Sum>e\<leftarrow>es. entry_len e) \<le> t"
    and pad: "p = 0 \<or> (\<Sum>e\<leftarrow>es. entry_len e) \<le> p \<and> p \<le> t"
  shows "upload b es p = Some (flat_batch b es (if p = 0 then \<Sum>e\<leftarrow>es. entry_len e else p))"
proof -
  let ?N = "\<Sum>e\<leftarrow>es. entry_len e" and ?s = "host_block_table_stride es"
  define q where "q = (if p = 0 then ?N else p)"
  have q: "?N \<le> q" "q \<le> t" using pad total by (auto simp: q_def)
  have s: "0 \<le> ?s" "?s \<le> bb_block_table_stride b"
    using host_stride_bounds(1) host_stride_le [OF stride] fit by auto
  have shape: "shape_ok t n es empty_host" using num total by (simp add: shape_ok_def empty_host_def)
  define h where "h = fold (add_entry (bb_block_size b) ?s) es empty_host"
  have run: "fold_opt (upload_request b ?s) es empty_host = Some h"
    unfolding h_def using fit by (intro upload_requests_eval [OF room bs s _ shape]) auto
  have h: "h = \<lparr>hb_token_ids = concat (map tokens_to_compute es), hb_positions = concat (map request_positions es),
      hb_slot_mapping = concat (map (request_slots (bb_block_size b)) es), hb_query_start_loc = query_starts 0 es,
      hb_seq_lens = map (\<lambda>e. position_offset e + entry_len e) es, hb_block_table = map (table_row ?s) es,
      hb_logits_indices = last_token_indices 0 es, hb_sample_params = map sr_sample_params (filter needs_sampling es),
      hb_max_query_len = fold (\<lambda>e m. max m (entry_len e)) es 0,
      hb_max_seq_len = fold (\<lambda>e m. max m (position_offset e + entry_len e)) es 0\<rparr>"
    unfolding h_def fold_add_entry by (simp add: empty_host_def query_starts_Cons [of 0 es, symmetric])
  define pd where "pd = nat (q - ?N)"
  define h1 where "h1 = h\<lparr>hb_token_ids := hb_token_ids h @ replicate pd 0,
     hb_positions := hb_positions h @ replicate pd 0, hb_slot_mapping := hb_slot_mapping h @ replicate pd (-1)\<rparr>"
  have len: "int (length (hb_token_ids h)) = ?N" by (simp add: h length_concat_tokens)
  have lf: "int (length (filter needs_sampling es)) \<le> n"
    using length_filter_le [of needs_sampling es] num by linarith
  have tok: "int (length (concat (map tokens_to_compute es))) = ?N" by (rule length_concat_tokens)
  have "host_ok b ?s h1"
    by (rule host_ok_room [OF room s])
      (use q num tok lf in \<open>simp_all add: h1_def h pd_def length_concat_same length_last_token_indices length_query_starts\<close>)
  moreover have "host_ok b ?s empty_host" using shape_host_ok [OF room s shape] .
  moreover have "within (off_num_tokens (bb_offsets b)) (bb_bytes b) 4 1"
    using room by (simp add: bb_room_def within_def Let_def)
  ultimately show ?thesis
    unfolding upload_def Let_def run Option.bind.bind_lunit len
    using q(1) s(2) unfolding q_def [symmetric] pd_def [symmetric] h1_def [symmetric]
    by (simp add: flat_batch_def Let_def h1_def h pd_def length_last_token_indices tok)
qed

end
