(* ===== verification/Free_List.thy ===== *)
theory Free_List
  imports Prelude
begin

text \<open>
  The state of \<open>KVCacheManager\<close> (csrc/scheduler/kv_cache_manager.h) and its intrusive
  doubly linked list of free blocks: \<open>push_free\<close>, \<open>pop_free\<close>, \<open>remove_free\<close> of
  csrc/scheduler/kv_cache_manager.cpp. Links are block ids with \<open>-1\<close> as the null link, as in
  the code. The lemmas show that the links implement a first-in first-out queue with removal
  from the middle, and that the three operations change nothing but the links.
\<close>

record Block =
  ref_count :: int
  prev_free :: int
  next_free :: int
  block_hash_of :: "64 word"
  hash_valid :: bool
  cached :: bool

definition new_block :: Block where
  "new_block = \<lparr>ref_count = 0, prev_free = -1, next_free = -1, block_hash_of = 0,
     hash_valid = False, cached = False\<rparr>"

record KVCacheConfig =
  cfg_num_block_slots :: int
  cfg_num_blocks :: int
  cfg_enable_prefix_caching :: bool

record PrefixCacheStats =
  num_queries :: int
  num_hits :: int
  num_reused_tokens :: int
  num_cached_blocks :: int
  stats_num_blocks :: int

record KVCacheManager =
  num_block_slots :: int
  enable_prefix_caching :: bool
  blocks :: "Block list"
  free_head :: int
  free_tail :: int
  num_free_blocks :: int
  hash_to_block :: "64 word \<rightharpoonup> int"
  req_to_allocated_blocks :: "string \<rightharpoonup> int list"
  stats :: PrefixCacheStats

abbreviation blk :: "KVCacheManager \<Rightarrow> int \<Rightarrow> Block" where
  "blk m b \<equiv> blocks m ! nat b"

abbreviation is_block :: "KVCacheManager \<Rightarrow> int \<Rightarrow> bool" where
  "is_block m b \<equiv> in_bounds (blocks m) b"

definition upd_block :: "int \<Rightarrow> (Block \<Rightarrow> Block) \<Rightarrow> KVCacheManager \<Rightarrow> KVCacheManager option" where
  \<comment> \<open>a write through the reference \<open>blocks_[b]\<close>\<close>
  "upd_block b f m = (if is_block m b
     then Some (m\<lparr>blocks := (blocks m)[nat b := f (blk m b)]\<rparr>) else None)"

subsection \<open>The operations\<close>

definition push_free :: "int \<Rightarrow> KVCacheManager \<Rightarrow> KVCacheManager option" where
  "push_free b m = do {
     block \<leftarrow> at_index (blocks m) b;
     require (ref_count block = 0);
     m1 \<leftarrow> upd_block b (\<lambda>x. x\<lparr>prev_free := free_tail m, next_free := -1\<rparr>) m;
     m2 \<leftarrow> (if free_tail m1 = -1 then Some (m1\<lparr>free_head := b\<rparr>)
            else upd_block (free_tail m1) (\<lambda>x. x\<lparr>next_free := b\<rparr>) m1);
     Some (m2\<lparr>free_tail := b, num_free_blocks := num_free_blocks m2 + 1\<rparr>)
   }"

definition pop_free :: "KVCacheManager \<Rightarrow> (int \<times> KVCacheManager) option" where
  "pop_free m = do {
     require (free_head m \<noteq> -1);
     let b = free_head m;
     block \<leftarrow> at_index (blocks m) b;
     let m1 = m\<lparr>free_head := next_free block\<rparr>;
     m2 \<leftarrow> (if free_head m1 = -1 then Some (m1\<lparr>free_tail := -1\<rparr>)
            else upd_block (free_head m1) (\<lambda>x. x\<lparr>prev_free := -1\<rparr>) m1);
     m3 \<leftarrow> upd_block b (\<lambda>x. x\<lparr>prev_free := -1, next_free := -1\<rparr>) m2;
     Some (b, m3\<lparr>num_free_blocks := num_free_blocks m3 - 1\<rparr>)
   }"

definition remove_free :: "int \<Rightarrow> KVCacheManager \<Rightarrow> KVCacheManager option" where
  "remove_free b m = do {
     block \<leftarrow> at_index (blocks m) b;
     require (ref_count block = 0);
     m1 \<leftarrow> (if prev_free block = -1 then Some (m\<lparr>free_head := next_free block\<rparr>)
            else upd_block (prev_free block) (\<lambda>x. x\<lparr>next_free := next_free block\<rparr>) m);
     block1 \<leftarrow> at_index (blocks m1) b;
     m2 \<leftarrow> (if next_free block1 = -1 then Some (m1\<lparr>free_tail := prev_free block1\<rparr>)
            else upd_block (next_free block1) (\<lambda>x. x\<lparr>prev_free := prev_free block1\<rparr>) m1);
     m3 \<leftarrow> upd_block b (\<lambda>x. x\<lparr>prev_free := -1, next_free := -1\<rparr>) m2;
     Some (m3\<lparr>num_free_blocks := num_free_blocks m3 - 1\<rparr>)
   }"

subsection \<open>The list a chain of links stands for\<close>

primrec dll :: "Block list \<Rightarrow> int \<Rightarrow> int list \<Rightarrow> int \<Rightarrow> bool" where
  "dll bs p [] e \<longleftrightarrow> True"
| "dll bs p (x # xs) e \<longleftrightarrow> in_bounds bs x \<and> prev_free (bs ! nat x) = p
     \<and> next_free (bs ! nat x) = (if xs = [] then e else hd xs) \<and> dll bs x xs e"

definition free_list :: "KVCacheManager \<Rightarrow> int list \<Rightarrow> bool" where
  "free_list m fl \<longleftrightarrow> dll (blocks m) (-1) fl (-1) \<and> distinct fl
     \<and> free_head m = (if fl = [] then -1 else hd fl)
     \<and> free_tail m = (if fl = [] then -1 else last fl)
     \<and> num_free_blocks m = int (length fl)"

text \<open>Everything the free list operations leave alone.\<close>

definition payload :: "KVCacheManager \<Rightarrow> KVCacheManager" where
  "payload m = m\<lparr>blocks := map (\<lambda>b. b\<lparr>prev_free := -1, next_free := -1\<rparr>) (blocks m),
     free_head := -1, free_tail := -1, num_free_blocks := 0\<rparr>"

lemma dll_append:
  "dll bs p (xs @ ys) e \<longleftrightarrow> dll bs p xs (if ys = [] then e else hd ys)
     \<and> dll bs (if xs = [] then p else last xs) ys e"
  by (induction xs arbitrary: p) (auto simp: hd_append)

lemma dll_in_bounds: "dll bs p xs e \<Longrightarrow> x \<in> set xs \<Longrightarrow> in_bounds bs x"
  by (induction xs arbitrary: p) auto

lemma dll_update:
  "0 \<le> x \<Longrightarrow> x \<notin> set xs \<Longrightarrow> dll (bs[nat x := b]) p xs e \<longleftrightarrow> dll bs p xs e"
proof (induction xs arbitrary: p)
  case (Cons y ys)
  then have "in_bounds bs y \<Longrightarrow> bs[nat x := b] ! nat y = bs ! nat y"
    by (auto simp: in_bounds_def nth_list_update nat_eq_iff2)
  with Cons show ?case by auto
qed simp

lemma payload_fields:
  assumes "payload m' = payload m"
  shows "num_block_slots m' = num_block_slots m"
    and "enable_prefix_caching m' = enable_prefix_caching m"
    and "hash_to_block m' = hash_to_block m"
    and "req_to_allocated_blocks m' = req_to_allocated_blocks m"
    and "stats m' = stats m"
    and "length (blocks m') = length (blocks m)"
proof -
  show "num_block_slots m' = num_block_slots m"
    using arg_cong [OF assms, of num_block_slots] by (simp add: payload_def)
  show "enable_prefix_caching m' = enable_prefix_caching m"
    using arg_cong [OF assms, of enable_prefix_caching] by (simp add: payload_def)
  show "hash_to_block m' = hash_to_block m"
    using arg_cong [OF assms, of hash_to_block] by (simp add: payload_def)
  show "req_to_allocated_blocks m' = req_to_allocated_blocks m"
    using arg_cong [OF assms, of req_to_allocated_blocks] by (simp add: payload_def)
  show "stats m' = stats m"
    using arg_cong [OF assms, of stats] by (simp add: payload_def)
  show "length (blocks m') = length (blocks m)"
    using arg_cong [OF assms, of "\<lambda>m. length (blocks m)"] by (simp add: payload_def)
qed

lemma payload_block:
  assumes "payload m' = payload m" "is_block m b"
  shows "ref_count (blk m' b) = ref_count (blk m b)"
    and "block_hash_of (blk m' b) = block_hash_of (blk m b)"
    and "hash_valid (blk m' b) = hash_valid (blk m b)"
    and "cached (blk m' b) = cached (blk m b)"
proof -
  let ?u = "\<lambda>x::Block. x\<lparr>prev_free := -1, next_free := -1\<rparr>"
  have len: "length (blocks m') = length (blocks m)" by (rule payload_fields(6) [OF assms(1)])
  have "map ?u (blocks m') ! nat b = map ?u (blocks m) ! nat b"
    using arg_cong [OF assms(1), of "\<lambda>m. blocks m ! nat b"] by (simp add: payload_def)
  then have eq: "?u (blk m' b) = ?u (blk m b)"
    using in_bounds_nat [OF assms(2)] len by simp
  show "ref_count (blk m' b) = ref_count (blk m b)"
    using arg_cong [OF eq, of ref_count] by simp
  show "block_hash_of (blk m' b) = block_hash_of (blk m b)"
    using arg_cong [OF eq, of block_hash_of] by simp
  show "hash_valid (blk m' b) = hash_valid (blk m b)"
    using arg_cong [OF eq, of hash_valid] by simp
  show "cached (blk m' b) = cached (blk m b)"
    using arg_cong [OF eq, of cached] by simp
qed

lemma payload_eqI:
  assumes "num_block_slots m' = num_block_slots m"
    and "enable_prefix_caching m' = enable_prefix_caching m"
    and "hash_to_block m' = hash_to_block m"
    and "req_to_allocated_blocks m' = req_to_allocated_blocks m"
    and "stats m' = stats m"
    and "length (blocks m') = length (blocks m)"
    and "\<And>i. i < length (blocks m) \<Longrightarrow>
      (blocks m' ! i)\<lparr>prev_free := -1, next_free := -1\<rparr> = (blocks m ! i)\<lparr>prev_free := -1, next_free := -1\<rparr>"
  shows "payload m' = payload m"
proof -
  have "map (\<lambda>b. b\<lparr>prev_free := -1, next_free := -1\<rparr>) (blocks m')
      = map (\<lambda>b. b\<lparr>prev_free := -1, next_free := -1\<rparr>) (blocks m)"
    using assms(6,7) by (intro nth_equalityI) simp_all
  then show ?thesis using assms(1-5) by (simp add: payload_def)
qed

lemma nth_update_if: "xs[i := v] ! j = (if i = j \<and> i < length xs then v else xs ! j)"
  by (cases "i < length xs") (simp_all add: nth_list_update list_update_beyond)

lemma payload_upd_block:
  assumes "upd_block b f m = Some m'"
    and "\<And>x. (f x)\<lparr>prev_free := -1, next_free := -1\<rparr> = x\<lparr>prev_free := -1, next_free := -1\<rparr>"
  shows "payload m' = payload m"
  using assms by (auto simp: upd_block_def nth_update_if split: if_splits intro!: payload_eqI)

lemma payload_links [simp]:
  "payload (m\<lparr>free_head := h\<rparr>) = payload m"
  "payload (m\<lparr>free_tail := t\<rparr>) = payload m"
  "payload (m\<lparr>num_free_blocks := n\<rparr>) = payload m"
  by (simp_all add: payload_def)

lemma upd_block_Some:
  "upd_block b f m = Some m' \<longleftrightarrow> is_block m b \<and> m' = m\<lparr>blocks := (blocks m)[nat b := f (blk m b)]\<rparr>"
  by (auto simp: upd_block_def)

lemma upd_block_in [simp]:
  "is_block m b \<Longrightarrow> upd_block b f m = Some (m\<lparr>blocks := (blocks m)[nat b := f (blk m b)]\<rparr>)"
  by (simp add: upd_block_def)

lemma free_list_in_bounds: "free_list m fl \<Longrightarrow> b \<in> set fl \<Longrightarrow> is_block m b"
  by (auto simp: free_list_def dll_in_bounds)

text \<open>\<open>push_free\<close> appends.\<close>

lemma push_free_correct:
  assumes fl: "free_list m fl" and b: "is_block m b" "b \<notin> set fl" "ref_count (blk m b) = 0"
  shows "\<exists>m'. push_free b m = Some m' \<and> free_list m' (fl @ [b]) \<and> payload m' = payload m"
proof (cases fl rule: rev_cases)
  case Nil
  have nb: "0 \<le> b" using b(1) by (rule in_bounds_nonneg)
  let ?m1 = "m\<lparr>blocks := (blocks m)[nat b := (blk m b)\<lparr>prev_free := -1, next_free := -1\<rparr>]\<rparr>"
  let ?m' = "?m1\<lparr>free_head := b, free_tail := b, num_free_blocks := 1\<rparr>"
  have "push_free b m = Some ?m'"
    using fl Nil b by (simp add: push_free_def free_list_def)
  moreover have "free_list ?m' (fl @ [b])"
    using Nil b in_bounds_nat [OF b(1)] by (simp add: free_list_def)
  moreover have "payload ?m' = payload m"
    by (rule payload_eqI) (auto simp: nth_update_if)
  ultimately show ?thesis by blast
next
  case (snoc ys t)
  have t: "is_block m t" using fl snoc by (auto intro: free_list_in_bounds)
  have nb: "0 \<le> b" "0 \<le> t" using b(1) t by (auto dest: in_bounds_nonneg)
  have neq: "t \<noteq> b" "nat t \<noteq> nat b" using b(2) snoc nb by (auto simp: nat_eq_iff2)
  have tail: "free_tail m = t" using fl snoc by (simp add: free_list_def)
  let ?B = "(blocks m)[nat b := (blk m b)\<lparr>prev_free := t, next_free := -1\<rparr>]"
  let ?C = "?B[nat t := (?B ! nat t)\<lparr>next_free := b\<rparr>]"
  let ?m' = "m\<lparr>blocks := ?C, free_tail := b, num_free_blocks := num_free_blocks m + 1\<rparr>"
  have "push_free b m = Some ?m'"
    using b t tail nb by (simp add: push_free_def)
  moreover have "free_list ?m' (fl @ [b])"
  proof -
    have d: "dll (blocks m) (-1) ys t" "prev_free (blk m t) = (if ys = [] then -1 else last ys)"
      and dist: "distinct fl" "t \<notin> set ys"
      using fl snoc by (auto simp: free_list_def dll_append)
    have "dll ?C (-1) ys t"
      using d(1) dist b(2) snoc nb by (simp add: dll_update)
    moreover have "dll ?C (if ys = [] then -1 else last ys) [t, b] (-1)"
      using d(2) b t neq in_bounds_nat [OF b(1)] in_bounds_nat [OF t]
      by (simp add: nth_list_update)
    ultimately have "dll ?C (-1) (ys @ [t, b]) (-1)" by (simp add: dll_append)
    then show ?thesis using fl snoc dist b(2) by (simp add: free_list_def hd_append)
  qed
  moreover have "payload ?m' = payload m"
    using neq by (intro payload_eqI) (auto simp: nth_update_if)
  ultimately show ?thesis by blast
qed

text \<open>\<open>pop_free\<close> takes the oldest block.\<close>

lemma pop_free_correct:
  assumes fl: "free_list m (b # fl)"
  shows "\<exists>m'. pop_free m = Some (b, m') \<and> free_list m' fl \<and> payload m' = payload m"
proof -
  have b: "is_block m b" using fl by (auto intro: free_list_in_bounds)
  have nb: "0 \<le> b" using b by (rule in_bounds_nonneg)
  have next_b: "next_free (blk m b) = (if fl = [] then -1 else hd fl)"
    and rest: "dll (blocks m) b fl (-1)" and dist: "b \<notin> set fl" "distinct fl"
    using fl by (simp_all add: free_list_def)
  show ?thesis
  proof (cases fl)
    case Nil
    let ?m' = "m\<lparr>blocks := (blocks m)[nat b := (blk m b)\<lparr>prev_free := -1, next_free := -1\<rparr>],
                 free_head := -1, free_tail := -1, num_free_blocks := 0\<rparr>"
    have "pop_free m = Some (b, ?m')"
      using fl Nil b nb next_b by (simp add: pop_free_def free_list_def)
    moreover have "free_list ?m' fl" using Nil by (simp add: free_list_def)
    moreover have "payload ?m' = payload m"
      by (rule payload_eqI) (auto simp: nth_update_if)
    ultimately show ?thesis by blast
  next
    case (Cons h xs)
    have h: "is_block m h" using fl Cons by (auto intro: free_list_in_bounds)
    have nh: "0 \<le> h" using h by (rule in_bounds_nonneg)
    have neq: "h \<noteq> b" "nat h \<noteq> nat b" using dist Cons nb nh by (auto simp: nat_eq_iff2)
    let ?B = "(blocks m)[nat h := (blk m h)\<lparr>prev_free := -1\<rparr>]"
    let ?C = "?B[nat b := (?B ! nat b)\<lparr>prev_free := -1, next_free := -1\<rparr>]"
    let ?m' = "m\<lparr>blocks := ?C, free_head := h, num_free_blocks := num_free_blocks m - 1\<rparr>"
    have "pop_free m = Some (b, ?m')"
      using fl Cons b h nb nh next_b by (simp add: pop_free_def free_list_def)
    moreover have "free_list ?m' fl"
    proof -
      have "dll ?C h xs (-1)" using rest Cons dist nb nh by (simp add: dll_update)
      then have "dll ?C (-1) fl (-1)"
        using rest Cons neq h in_bounds_nat [OF h] in_bounds_nat [OF b] by (simp add: nth_list_update)
      then show ?thesis using fl Cons dist by (simp add: free_list_def)
    qed
    moreover have "payload ?m' = payload m"
      using neq by (intro payload_eqI) (auto simp: nth_update_if)
    ultimately show ?thesis by blast
  qed
qed

lemma pop_free_empty: "free_list m [] \<Longrightarrow> pop_free m = None"
  by (simp add: pop_free_def free_list_def)

text \<open>\<open>remove_free\<close> unlinks a block from any position.\<close>

lemma dll_set_next:
  assumes "dll bs p xs e" "xs \<noteq> []" "distinct xs"
  shows "dll (bs[nat (last xs) := (bs ! nat (last xs))\<lparr>next_free := e'\<rparr>]) p xs e'"
  using assms
proof (cases xs rule: rev_cases)
  case (snoc ys y)
  then have y: "in_bounds bs y" "0 \<le> y" and d: "dll bs p ys y"
      "prev_free (bs ! nat y) = (if ys = [] then p else last ys)"
    using assms by (auto simp: dll_append dest: in_bounds_nonneg)
  have "dll (bs[nat y := (bs ! nat y)\<lparr>next_free := e'\<rparr>]) p ys y"
    using d(1) y(2) assms(3) snoc by (simp add: dll_update)
  then show ?thesis
    using snoc d(2) y in_bounds_nat [OF y(1)] by (simp add: dll_append)
qed simp

lemma dll_set_prev:
  assumes "dll bs p ys e" "ys \<noteq> []" "distinct ys"
  shows "dll (bs[nat (hd ys) := (bs ! nat (hd ys))\<lparr>prev_free := p'\<rparr>]) p' ys e"
proof (cases ys)
  case (Cons y zs)
  then have y: "in_bounds bs y" "0 \<le> y" using assms(1) by (auto dest: in_bounds_nonneg)
  have "dll (bs[nat y := (bs ! nat y)\<lparr>prev_free := p'\<rparr>]) y zs e"
    using assms(1,3) y(2) Cons by (simp add: dll_update)
  then show ?thesis using Cons assms(1) y in_bounds_nat [OF y(1)] by simp
qed (use assms in simp)

lemma remove_free_correct:
  assumes fl: "free_list m (xs @ b # ys)" and rc: "ref_count (blk m b) = 0"
  shows "\<exists>m'. remove_free b m = Some m' \<and> free_list m' (xs @ ys) \<and> payload m' = payload m"
proof -
  define p where "p = (if xs = [] then -1 else last xs)"
  define n where "n = (if ys = [] then -1 else hd ys)"
  have bnd: "\<And>x. x \<in> set (xs @ b # ys) \<Longrightarrow> is_block m x"
    using fl by (rule free_list_in_bounds)
  then have nn: "\<And>x. x \<in> set (xs @ b # ys) \<Longrightarrow> 0 \<le> x" by (auto dest: in_bounds_nonneg)
  have dist: "distinct (xs @ b # ys)" using fl by (simp add: free_list_def)
  have dx: "dll (blocks m) (-1) xs b" and dy: "dll (blocks m) b ys (-1)"
    and pb: "prev_free (blk m b) = p" and nb: "next_free (blk m b) = n"
    using fl by (auto simp: free_list_def dll_append p_def n_def)
  have ends: "xs \<noteq> [] \<Longrightarrow> 0 \<le> last xs" "ys \<noteq> [] \<Longrightarrow> 0 \<le> hd ys"
    using nn by simp_all
  have apart: "xs \<noteq> [] \<Longrightarrow> last xs \<notin> set ys" "ys \<noteq> [] \<Longrightarrow> hd ys \<notin> set xs"
    using dist by (cases xs rule: rev_cases; simp) (use dist in \<open>cases ys; auto\<close>)
  from ends have p_null: "p = -1 \<longleftrightarrow> xs = []" and n_null: "n = -1 \<longleftrightarrow> ys = []"
    by (auto simp: p_def n_def)
  define m1 where "m1 = (if xs = [] then m\<lparr>free_head := n\<rparr>
     else m\<lparr>blocks := (blocks m)[nat p := (blk m p)\<lparr>next_free := n\<rparr>]\<rparr>)"
  have p_neq: "xs \<noteq> [] \<Longrightarrow> nat p \<noteq> nat b \<and> p \<notin> set ys \<and> p \<noteq> b \<and> 0 \<le> p \<and> is_block m p"
    using dist apart nn [of "last xs"] nn [of b] bnd [of "last xs"] by (auto simp: p_def nat_eq_iff2)
  have n_neq: "ys \<noteq> [] \<Longrightarrow> nat n \<noteq> nat b \<and> n \<notin> set xs \<and> n \<noteq> b \<and> 0 \<le> n \<and> is_block m n"
    using dist apart nn [of "hd ys"] nn [of b] bnd [of "hd ys"] by (auto simp: n_def nat_eq_iff2)
  have b: "is_block m b" "0 \<le> b" using bnd nn by simp_all
  have d1: "dll (blocks m1) (-1) xs n" "dll (blocks m1) b ys (-1)" "blk m1 b = blk m b"
    using dx dy p_neq dist dll_set_next [of "blocks m" "-1" xs b n]
    by (auto simp: m1_def p_def dll_update)
  have b1: "is_block m1 x = is_block m x" for x by (simp add: m1_def)
  define m2 where "m2 = (if ys = [] then m1\<lparr>free_tail := p\<rparr>
     else m1\<lparr>blocks := (blocks m1)[nat n := (blk m1 n)\<lparr>prev_free := p\<rparr>]\<rparr>)"
  have d2: "dll (blocks m2) (-1) xs n" "dll (blocks m2) p ys (-1)" "blk m2 b = blk m b"
    using d1 n_neq dist dll_set_prev [of "blocks m1" b ys "-1" p]
    by (auto simp: m2_def n_def dll_update)
  have b2: "is_block m2 x = is_block m x" for x by (simp add: m2_def b1)
  let ?m' = "m2\<lparr>blocks := (blocks m2)[nat b := (blk m2 b)\<lparr>prev_free := -1, next_free := -1\<rparr>],
               num_free_blocks := num_free_blocks m2 - 1\<rparr>"
  have "remove_free b m = Some ?m'"
    using b p_neq n_neq rc p_null n_null pb nb d1(3) b1 b2
    by (cases "xs = []"; cases "ys = []") (simp_all add: remove_free_def m1_def m2_def)
  moreover have "free_list ?m' (xs @ ys)"
  proof -
    have "dll (blocks ?m') (-1) xs n" "dll (blocks ?m') p ys (-1)"
      using d2 b dist by (simp_all add: dll_update)
    then have "dll (blocks ?m') (-1) (xs @ ys) (-1)"
      by (simp add: dll_append p_def n_def)
    then show ?thesis
      using fl dist
      by (cases "xs = []"; cases "ys = []") (simp_all add: free_list_def m1_def m2_def p_def n_def)
  qed
  moreover have "payload ?m' = payload m"
  proof -
    have "payload m1 = payload m"
      by (auto simp: m1_def nth_update_if intro!: payload_eqI)
    moreover have "payload m2 = payload m1"
      by (auto simp: m2_def nth_update_if intro!: payload_eqI)
    moreover have "payload ?m' = payload m2"
      by (auto simp: nth_update_if intro!: payload_eqI)
    ultimately show ?thesis by simp
  qed
  ultimately show ?thesis by blast
qed

subsection \<open>The free list as an interface\<close>

text \<open>
  What the rest of the manager relies on: a queue of block ids over a state of which
  everything else (\<open>rest\<close>) is untouched. \<open>fits\<close> says which ids may be pushed.
\<close>

locale free_queue =
  fixes push :: "int \<Rightarrow> 'm \<Rightarrow> 'm option"
    and pop :: "'m \<Rightarrow> (int \<times> 'm) option"
    and unlink :: "int \<Rightarrow> 'm \<Rightarrow> 'm option"
    and contents :: "'m \<Rightarrow> int list \<Rightarrow> bool"
    and rest :: "'m \<Rightarrow> 'r"
    and fits :: "'m \<Rightarrow> int \<Rightarrow> bool"
  assumes push_law: "contents m fl \<Longrightarrow> fits m b \<Longrightarrow> b \<notin> set fl
      \<Longrightarrow> \<exists>m'. push b m = Some m' \<and> contents m' (fl @ [b]) \<and> rest m' = rest m"
    and pop_law: "contents m (b # fl)
      \<Longrightarrow> \<exists>m'. pop m = Some (b, m') \<and> contents m' fl \<and> rest m' = rest m"
    and unlink_law: "contents m (xs @ b # ys) \<Longrightarrow> fits m b
      \<Longrightarrow> \<exists>m'. unlink b m = Some m' \<and> contents m' (xs @ ys) \<and> rest m' = rest m"
    and fits_rest: "rest m' = rest m \<Longrightarrow> fits m' b = fits m b"
    and contents_distinct: "contents m fl \<Longrightarrow> distinct fl"
begin

lemma push_all:
  assumes "contents m fl" "distinct bs" "set bs \<inter> set fl = {}" "\<And>b. b \<in> set bs \<Longrightarrow> fits m b"
  shows "\<exists>m'. fold_opt push bs m = Some m' \<and> contents m' (fl @ bs) \<and> rest m' = rest m"
  using assms
proof (induction bs arbitrary: m fl)
  case (Cons b bs)
  from push_law [of m fl b] Cons.prems obtain m1
    where m1: "push b m = Some m1" "contents m1 (fl @ [b])" "rest m1 = rest m" by auto
  have "\<exists>m'. fold_opt push bs m1 = Some m' \<and> contents m' ((fl @ [b]) @ bs) \<and> rest m' = rest m1"
    using Cons.prems m1(2) fits_rest [OF m1(3)] by (intro Cons.IH) auto
  with m1 show ?case by auto
qed auto

lemma unlink_member:
  assumes "contents m fl" "b \<in> set fl" "fits m b"
  shows "\<exists>m'. unlink b m = Some m' \<and> contents m' (remove1 b fl) \<and> rest m' = rest m"
proof -
  obtain xs ys where fl: "fl = xs @ b # ys" "b \<notin> set xs"
    using split_list_first [OF assms(2)] by blast
  then have "remove1 b fl = xs @ ys" by (simp add: remove1_append)
  with unlink_law [of m xs b ys] assms fl show ?thesis by simp
qed

lemma pop_push_order:
  assumes "contents m fl" "fits m b" "b \<notin> set fl"
  shows "\<exists>m1 m2. push b m = Some m1 \<and> pop m1 = Some (hd (fl @ [b]), m2)
     \<and> contents m2 (tl (fl @ [b])) \<and> rest m2 = rest m"
proof -
  from push_law [OF assms] obtain m1
    where m1: "push b m = Some m1" "contents m1 (fl @ [b])" "rest m1 = rest m" by blast
  from m1(2) have "contents m1 (hd (fl @ [b]) # tl (fl @ [b]))" by simp
  from pop_law [OF this] m1 show ?thesis by auto
qed

end

definition pushable :: "KVCacheManager \<Rightarrow> int \<Rightarrow> bool" where
  "pushable m b \<longleftrightarrow> is_block m b \<and> ref_count (blk m b) = 0"

lemma pushable_payload:
  assumes "payload m' = payload m"
  shows "pushable m' b = pushable m b"
proof -
  have "is_block m' b = is_block m b"
    using payload_fields(6) [OF assms] by (rule in_bounds_length)
  then show ?thesis using payload_block(1) [OF assms] by (auto simp: pushable_def)
qed

interpretation fq: free_queue push_free pop_free remove_free free_list payload pushable
proof
  fix m fl b assume "free_list m fl" "pushable m b" "b \<notin> set fl"
  then show "\<exists>m'. push_free b m = Some m' \<and> free_list m' (fl @ [b]) \<and> payload m' = payload m"
    by (intro push_free_correct) (simp_all add: pushable_def)
next
  fix m b fl assume "free_list m (b # fl)"
  then show "\<exists>m'. pop_free m = Some (b, m') \<and> free_list m' fl \<and> payload m' = payload m"
    by (rule pop_free_correct)
next
  fix m xs b ys assume "free_list m (xs @ b # ys)" "pushable m b"
  then show "\<exists>m'. remove_free b m = Some m' \<and> free_list m' (xs @ ys) \<and> payload m' = payload m"
    by (intro remove_free_correct) (simp_all add: pushable_def)
next
  fix m m' b assume "payload m' = payload m"
  then show "pushable m' b = pushable m b" by (rule pushable_payload)
next
  fix m fl assume "free_list m fl"
  then show "distinct fl" by (simp add: free_list_def)
qed

end
