(* ===== verification/Block_Hash.thy ===== *)
theory Block_Hash
  imports Prelude
begin

text \<open>
  The hash under which a full block of the KV cache is published: \<open>mix\<close> and
  \<open>block_hash\<close> of csrc/scheduler/kv_cache_manager.cpp, on \<open>64 word\<close> (\<open>std::size_t\<close>).
  \<open>chain_hash\<close> is the specification the manager's incremental hashing is compared with:
  the hash of a whole token prefix.
\<close>

unbundle bit_operations_syntax

definition kHashSeed :: "64 word" where
  "kHashSeed = 0x9e3779b97f4a7c15"

definition mix :: "64 word \<Rightarrow> 64 word" where
  "mix v0 = (let v1 = (v0 XOR drop_bit 30 v0) * 0xbf58476d1ce4e5b9;
                 v2 = (v1 XOR drop_bit 27 v1) * 0x94d049bb133111eb
             in v2 XOR drop_bit 31 v2)"

definition token_bits :: "int \<Rightarrow> 64 word" where
  \<comment> \<open>\<open>static_cast<std::uint32_t>(token)\<close>, then widened\<close>
  "token_bits t = ucast (word_of_int t :: 32 word)"

fun block_hash :: "64 word \<Rightarrow> int list \<Rightarrow> 64 word" where
  "block_hash h [] = h"
| "block_hash h (t # ts) = block_hash (mix (h XOR token_bits t)) ts"

definition chain_hash :: "int list \<Rightarrow> 64 word" where
  "chain_hash ts = block_hash kHashSeed ts"

lemma block_hash_append: "block_hash h (xs @ ys) = block_hash (block_hash h xs) ys"
  by (induction xs arbitrary: h) simp_all

lemma chain_hash_Nil [simp]: "chain_hash [] = kHashSeed"
  by (simp add: chain_hash_def)

lemma chain_hash_append: "block_hash (chain_hash xs) ys = chain_hash (xs @ ys)"
  by (simp add: chain_hash_def block_hash_append)

text \<open>
  \<open>mix\<close> is a bijection, so hashing one more token loses nothing of the hash so far: two
  prefixes that differ only before a common tail of tokens cannot collide because of the tail.
\<close>

lemma shift_fixpoint:
  fixes d :: "64 word"
  assumes d: "d = drop_bit k d" and k: "0 < k"
  shows "d = 0"
proof (rule bit_word_eqI)
  fix i assume "i < LENGTH(64)"
  have "bit d i = bit d (i + n * k)" for n
  proof (induction n)
    case (Suc n)
    have "bit d (i + n * k) = bit (drop_bit k d) (i + n * k)" using d by simp
    also have "\<dots> = bit d (i + Suc n * k)" by (simp add: bit_drop_bit_eq algebra_simps)
    finally show ?case using Suc.IH by simp
  qed simp
  from this [of 64] have "bit d i = bit d (i + 64 * k)" .
  also have "\<dots> = False" using k by (auto dest: bit_imp_le_length)
  finally show "bit d i = bit (0 :: 64 word) i" by simp
qed

lemma xor_shift_inject:
  fixes v w :: "64 word"
  assumes "v XOR drop_bit k v = w XOR drop_bit k w" "0 < k"
  shows "v = w"
proof -
  have "v XOR w = drop_bit k (v XOR w)"
  proof (rule bit_eqI)
    fix i
    from arg_cong [OF assms(1), of "\<lambda>x. bit x i"]
    show "bit (v XOR w) i = bit (drop_bit k (v XOR w)) i"
      by (auto simp: bit_xor_iff bit_drop_bit_eq)
  qed
  then have z: "v XOR w = 0" using assms(2) by (rule shift_fixpoint)
  show ?thesis
  proof (rule bit_eqI)
    fix i
    from arg_cong [OF z, of "\<lambda>x. bit x i"] show "bit v i = bit w i"
      by (auto simp: bit_xor_iff)
  qed
qed

lemma mult_inject:
  fixes c c' v w :: "64 word"
  assumes "c * c' = 1" "v * c = w * c"
  shows "v = w"
proof -
  have "v * c * c' = w * c * c'" using assms(2) by simp
  then show ?thesis using assms(1) by (simp add: mult.assoc)
qed

lemma mix_factors:
  "(0xbf58476d1ce4e5b9 :: 64 word) * 10871156337175269513 = 1"
  "(0x94d049bb133111eb :: 64 word) * 3573116690164977347 = 1"
  by simp_all

lemma mix_inject: "mix v = mix w \<longleftrightarrow> v = w"
proof
  assume "mix v = mix w"
  then have "(v XOR drop_bit 30 v) * 0xbf58476d1ce4e5b9 = (w XOR drop_bit 30 w) * 0xbf58476d1ce4e5b9"
    unfolding mix_def Let_def
    by (blast dest: xor_shift_inject [of _ 31] xor_shift_inject [of _ 27]
        mult_inject [OF mix_factors(2)] intro: zero_less_numeral)
  then have "v XOR drop_bit 30 v = w XOR drop_bit 30 w"
    by (rule mult_inject [OF mix_factors(1)])
  then show "v = w" by (rule xor_shift_inject) simp
qed simp

lemma xor_cancel_right: "(a :: 64 word) XOR c = b XOR c \<longleftrightarrow> a = b"
proof
  assume "a XOR c = b XOR c"
  then have "(a XOR c) XOR c = (b XOR c) XOR c" by simp
  then show "a = b" by (simp add: xor.assoc)
qed simp

lemma block_hash_inject: "block_hash h ts = block_hash h' ts \<longleftrightarrow> h = h'"
  by (induction ts arbitrary: h h') (auto simp: mix_inject xor_cancel_right)

lemma token_bits_inject:
  assumes "- (2 ^ 31) \<le> t" "t < 2 ^ 31" "- (2 ^ 31) \<le> u" "u < 2 ^ 31" "token_bits t = token_bits u"
  shows "t = u"
proof -
  have widen: "uint (ucast x :: 64 word) = uint x" for x :: "32 word"
    by (simp add: uint_up_ucast is_up)
  have "word_of_int t = (word_of_int u :: 32 word)"
    using arg_cong [OF assms(5), of uint] unfolding token_bits_def widen by (simp add: word_uint_eq_iff)
  then have "sint (word_of_int t :: 32 word) = sint (word_of_int u :: 32 word)" by simp
  then show ?thesis
    using assms(1-4) by (simp add: sint_sbintrunc' signed_take_bit_int_eq_self)
qed

end
