(* ===== verification/Block_Pool.thy ===== *)
theory Block_Pool
  imports Free_List Block_Hash
begin

text \<open>
  Reference counts and the hash index over the free list: \<open>take_block\<close>, \<open>hold_block\<close>,
  \<open>insert_hash\<close> and the body of the loop of \<open>release_blocks\<close>
  (csrc/scheduler/kv_cache_manager.cpp). The core invariant \<open>pool\<close> says that a block is on
  the free list exactly when nobody references it and that the hash index is the inverse of
  the blocks marked \<open>cached\<close>; each operation is shown to keep it and to have exactly its
  documented effect.
\<close>

subsection \<open>The operations\<close>

definition take_block :: "KVCacheManager \<Rightarrow> (int \<times> KVCacheManager) option" where
  "take_block m = do {
     (b, m1) \<leftarrow> pop_free m;
     block \<leftarrow> at_index (blocks m1) b;
     m2 \<leftarrow> (if cached block
            then upd_block b (\<lambda>x. x\<lparr>cached := False\<rparr>)
                   (m1\<lparr>hash_to_block := (hash_to_block m1)(block_hash_of block := None)\<rparr>)
            else Some m1);
     m3 \<leftarrow> upd_block b (\<lambda>x. x\<lparr>hash_valid := False, ref_count := 1\<rparr>) m2;
     Some (b, m3)
   }"

definition hold_block :: "int \<Rightarrow> KVCacheManager \<Rightarrow> KVCacheManager option" where
  "hold_block b m = do {
     block \<leftarrow> at_index (blocks m) b;
     m1 \<leftarrow> (if ref_count block = 0 then remove_free b m else Some m);
     upd_block b (\<lambda>x. x\<lparr>ref_count := ref_count x + 1\<rparr>) m1
   }"

definition release_block :: "int \<Rightarrow> KVCacheManager \<Rightarrow> KVCacheManager option" where
  \<comment> \<open>the body of the loop of \<open>release_blocks\<close>\<close>
  "release_block b m = do {
     block \<leftarrow> at_index (blocks m) b;
     require (ref_count block > 0);
     m1 \<leftarrow> upd_block b (\<lambda>x. x\<lparr>ref_count := ref_count x - 1\<rparr>) m;
     block1 \<leftarrow> at_index (blocks m1) b;
     (if ref_count block1 = 0 then push_free b m1 else Some m1)
   }"

definition insert_hash :: "64 word \<Rightarrow> int \<Rightarrow> KVCacheManager \<Rightarrow> KVCacheManager option" where
  "insert_hash h b m = do {
     m1 \<leftarrow> upd_block b (\<lambda>x. x\<lparr>block_hash_of := h, hash_valid := True\<rparr>) m;
     (case hash_to_block m1 h of
        None \<Rightarrow> upd_block b (\<lambda>x. x\<lparr>cached := True\<rparr>)
                  (m1\<lparr>hash_to_block := (hash_to_block m1)(h \<mapsto> b)\<rparr>)
      | Some c \<Rightarrow> do {
          found \<leftarrow> at_index (blocks m1) c;
          (if ref_count found = 0
           then do {
             m2 \<leftarrow> upd_block c (\<lambda>x. x\<lparr>cached := False\<rparr>) m1;
             upd_block b (\<lambda>x. x\<lparr>cached := True\<rparr>)
               (m2\<lparr>hash_to_block := (hash_to_block m2)(h \<mapsto> b)\<rparr>)
           }
           else Some m1)
        })
   }"

subsection \<open>The core invariant\<close>

definition index_ok :: "KVCacheManager \<Rightarrow> bool" where
  "index_ok m \<longleftrightarrow> (\<forall>h b. hash_to_block m h = Some b
       \<longleftrightarrow> is_block m b \<and> cached (blk m b) \<and> block_hash_of (blk m b) = h)
     \<and> (\<forall>b. is_block m b \<and> cached (blk m b) \<longrightarrow> hash_valid (blk m b))"

definition pool :: "KVCacheManager \<Rightarrow> (int \<Rightarrow> nat) \<Rightarrow> int list \<Rightarrow> bool" where
  "pool m refs fl \<longleftrightarrow> free_list m fl \<and> index_ok m
     \<and> (\<forall>b. is_block m b \<longrightarrow> ref_count (blk m b) = int (refs b) \<and> (b \<in> set fl \<longleftrightarrow> refs b = 0))"

text \<open>What the pool operations never touch.\<close>

definition same_book :: "KVCacheManager \<Rightarrow> KVCacheManager \<Rightarrow> bool" where
  "same_book m m' \<longleftrightarrow> num_block_slots m' = num_block_slots m
     \<and> enable_prefix_caching m' = enable_prefix_caching m
     \<and> req_to_allocated_blocks m' = req_to_allocated_blocks m
     \<and> stats m' = stats m \<and> length (blocks m') = length (blocks m)"

definition same_tag :: "KVCacheManager \<Rightarrow> KVCacheManager \<Rightarrow> int \<Rightarrow> bool" where
  "same_tag m m' b \<longleftrightarrow> hash_valid (blk m' b) = hash_valid (blk m b)
     \<and> block_hash_of (blk m' b) = block_hash_of (blk m b)"

lemma same_book_refl [simp]: "same_book m m"
  by (simp add: same_book_def)

lemma same_book_trans: "same_book m m1 \<Longrightarrow> same_book m1 m2 \<Longrightarrow> same_book m m2"
  by (simp add: same_book_def)

lemma same_book_is_block: "same_book m m' \<Longrightarrow> is_block m' b = is_block m b"
  by (simp add: same_book_def in_bounds_def)

lemma same_tag_refl [simp]: "same_tag m m b"
  by (simp add: same_tag_def)

lemma same_tag_trans: "same_tag m m1 b \<Longrightarrow> same_tag m1 m2 b \<Longrightarrow> same_tag m m2 b"
  by (simp add: same_tag_def)

lemma payload_same_book: "payload m' = payload m \<Longrightarrow> same_book m m'"
  using payload_fields [of m' m] by (simp add: same_book_def)

lemma payload_same_tag: "payload m' = payload m \<Longrightarrow> is_block m b \<Longrightarrow> same_tag m m' b"
  using payload_block [of m' m b] by (simp add: same_tag_def)

lemma payload_index_ok:
  assumes "payload m' = payload m"
  shows "index_ok m' = index_ok m"
proof -
  have b: "is_block m' b = is_block m b" for b
    using payload_fields(6) [OF assms] by (rule in_bounds_length)
  have "(is_block m' b \<and> cached (blk m' b) \<and> block_hash_of (blk m' b) = h)
      = (is_block m b \<and> cached (blk m b) \<and> block_hash_of (blk m b) = h)" for b h
    by (cases "is_block m b") (simp_all add: b payload_block [OF assms])
  moreover have "(is_block m' b \<and> cached (blk m' b) \<longrightarrow> hash_valid (blk m' b))
      = (is_block m b \<and> cached (blk m b) \<longrightarrow> hash_valid (blk m b))" for b
    by (cases "is_block m b") (simp_all add: b payload_block [OF assms])
  ultimately show ?thesis
    by (simp only: index_ok_def payload_fields(3) [OF assms])
qed

lemma pool_free_list: "pool m refs fl \<Longrightarrow> free_list m fl"
  by (simp add: pool_def)

lemma pool_index: "pool m refs fl \<Longrightarrow> index_ok m"
  by (simp add: pool_def)

lemma pool_num_free: "pool m refs fl \<Longrightarrow> num_free_blocks m = int (length fl)"
  by (simp add: pool_def free_list_def)

lemma pool_free_is_block: "pool m refs fl \<Longrightarrow> b \<in> set fl \<Longrightarrow> is_block m b"
  by (auto simp: pool_def intro: free_list_in_bounds)

lemma pool_distinct: "pool m refs fl \<Longrightarrow> distinct fl"
  by (simp add: pool_def free_list_def)

lemma pool_refs: "pool m refs fl \<Longrightarrow> is_block m b \<Longrightarrow> ref_count (blk m b) = int (refs b)"
  by (simp add: pool_def)

lemma pool_free_iff: "pool m refs fl \<Longrightarrow> is_block m b \<Longrightarrow> b \<in> set fl \<longleftrightarrow> refs b = 0"
  by (simp add: pool_def)

text \<open>A write to one block that leaves its links alone keeps the free list.\<close>

lemma dll_map_links:
  assumes "\<And>x. x \<in> set xs \<Longrightarrow> in_bounds bs x \<Longrightarrow> in_bounds bs' x
      \<and> prev_free (bs' ! nat x) = prev_free (bs ! nat x) \<and> next_free (bs' ! nat x) = next_free (bs ! nat x)"
    and "dll bs p xs e"
  shows "dll bs' p xs e"
  using assms by (induction xs arbitrary: p) auto

lemma free_list_upd:
  assumes "free_list m fl" "is_block m b"
    and "\<And>x. prev_free (f x) = prev_free x" "\<And>x. next_free (f x) = next_free x"
    and "blocks m' = (blocks m)[nat b := f (blk m b)]"
    and "free_head m' = free_head m" "free_tail m' = free_tail m" "num_free_blocks m' = num_free_blocks m"
  shows "free_list m' fl"
proof -
  have "dll (blocks m') (-1) fl (-1)"
  proof (rule dll_map_links)
    show "dll (blocks m) (-1) fl (-1)" using assms(1) by (simp add: free_list_def)
  next
    fix x
    show "in_bounds (blocks m) x \<Longrightarrow> in_bounds (blocks m') x
      \<and> prev_free (blk m' x) = prev_free (blk m x) \<and> next_free (blk m' x) = next_free (blk m x)"
      by (simp add: assms(3-5) nth_update_if)
  qed
  then show ?thesis using assms by (simp add: free_list_def)
qed

text \<open>The fields of one updated block, and of the others.\<close>

lemma blk_upd_same [simp]:
  "is_block m b \<Longrightarrow> blocks m' = (blocks m)[nat b := x] \<Longrightarrow> blk m' b = x"
  by (simp add: in_bounds_nat)

lemma blk_upd_other:
  "is_block m b \<Longrightarrow> is_block m c \<Longrightarrow> c \<noteq> b \<Longrightarrow> blocks m' = (blocks m)[nat b := x] \<Longrightarrow> blk m' c = blk m c"
  by (auto simp: in_bounds_def nth_list_update nat_eq_iff2)

lemma pool_payload:
  assumes "pool m refs fl" "payload m' = payload m" "free_list m' fl'" "set fl' = set fl"
  shows "pool m' refs fl'"
proof -
  have "is_block m' b = is_block m b" for b
    using payload_fields(6) [OF assms(2)] by (rule in_bounds_length)
  then show ?thesis
    using assms payload_index_ok [OF assms(2)] payload_block(1) [OF assms(2)]
    by (auto simp: pool_def)
qed

lemma uncached_upd [simp]: "\<not> cached x \<Longrightarrow> x\<lparr>cached := False\<rparr> = (x :: Block)"
  by (cases x) simp

lemma take_block_pool:
  assumes p: "pool m refs (b # fl)"
  shows "\<exists>m'. take_block m = Some (b, m') \<and> pool m' (refs(b := 1)) fl \<and> same_book m m'
     \<and> \<not> hash_valid (blk m' b) \<and> (\<forall>x. is_block m x \<and> x \<noteq> b \<longrightarrow> same_tag m m' x)
     \<and> (\<forall>h. hash_to_block m' h = (if hash_to_block m h = Some b then None else hash_to_block m h))"
proof -
  from fq.pop_law [OF pool_free_list [OF p]] obtain m1
    where m1: "pop_free m = Some (b, m1)" "free_list m1 fl" "payload m1 = payload m" by blast
  have ib: "is_block m1 x = is_block m x" for x
    using payload_fields(6) [OF m1(3)] by (rule in_bounds_length)
  have b: "is_block m b" using p by (auto intro: pool_free_is_block)
  have b1: "is_block m1 b" using b ib by simp
  have dist: "b \<notin> set fl" using pool_distinct [OF p] by simp
  have idx: "index_ok m1" using pool_index [OF p] payload_index_ok [OF m1(3)] by simp
  define x' where "x' = (blk m1 b)\<lparr>cached := False, hash_valid := False, ref_count := 1\<rparr>"
  define H where "H = (if cached (blk m1 b) then (hash_to_block m1)(block_hash_of (blk m1 b) := None)
      else hash_to_block m1)"
  define m' where "m' = m1\<lparr>hash_to_block := H, blocks := (blocks m1)[nat b := x']\<rparr>"
  have take: "take_block m = Some (b, m')"
    using m1(1) b1 in_bounds_nat [OF b1]
    by (cases "cached (blk m1 b)") (simp_all add: take_block_def m'_def x'_def H_def)
  have same: "is_block m' x = is_block m x" for x by (simp add: m'_def ib)
  have at_b: "blk m' b = x'" using b1 by (simp add: m'_def in_bounds_nat)
  have at_x: "blk m' x = blk m1 x" if "is_block m x" "x \<noteq> b" for x
    using that b1 ib by (intro blk_upd_other [of m1 b x]) (simp_all add: m'_def)
  have fl': "free_list m' fl"
    using m1(2) b1 by (rule free_list_upd [where f = "\<lambda>x. x\<lparr>cached := False, hash_valid := False, ref_count := 1\<rparr>"])
      (simp_all add: m'_def x'_def)
  have H: "H h = (if hash_to_block m1 h = Some b then None else hash_to_block m1 h)" for h
    using idx b1 by (auto simp: H_def index_ok_def)
  have "index_ok m'"
    unfolding index_ok_def
  proof (intro conjI allI)
    fix h x
    show "(hash_to_block m' h = Some x) = (is_block m' x \<and> cached (blk m' x) \<and> block_hash_of (blk m' x) = h)"
    proof (cases "x = b")
      case True
      then show ?thesis using at_b H by (simp add: m'_def x'_def)
    next
      case False
      then have "(hash_to_block m' h = Some x) = (hash_to_block m1 h = Some x)"
        using H by (simp add: m'_def)
      then show ?thesis using idx False at_x same ib by (auto simp: index_ok_def)
    qed
  next
    fix x
    show "is_block m' x \<and> cached (blk m' x) \<longrightarrow> hash_valid (blk m' x)"
      using idx at_x at_b same ib by (cases "x = b") (auto simp: index_ok_def x'_def)
  qed
  moreover have "ref_count (blk m' x) = int ((refs(b := 1)) x) \<and> (x \<in> set fl \<longleftrightarrow> (refs(b := 1)) x = 0)"
    if x: "is_block m' x" for x
    using p x at_b at_x [of x] dist same payload_block(1) [OF m1(3), of x]
    by (cases "x = b") (auto simp: pool_def x'_def)
  ultimately have pool: "pool m' (refs(b := 1)) fl"
    using fl' by (simp add: pool_def)
  have book: "same_book m m'"
    using payload_same_book [OF m1(3)] by (simp add: same_book_def m'_def)
  have tags: "\<forall>x. is_block m x \<and> x \<noteq> b \<longrightarrow> same_tag m m' x"
    using payload_same_tag [OF m1(3)] at_x by (simp add: same_tag_def)
  have index: "\<forall>h. hash_to_block m' h = (if hash_to_block m h = Some b then None else hash_to_block m h)"
    using H payload_fields(3) [OF m1(3)] by (simp add: m'_def)
  have inv: "\<not> hash_valid (blk m' b)" by (simp add: at_b x'_def)
  from take pool book inv tags index show ?thesis by blast
qed

text \<open>Changing only reference counts.\<close>

lemma pool_upd_count:
  assumes fl: "free_list m fl" and idx: "index_ok m" and b: "is_block m b"
    and m': "m' = m\<lparr>blocks := (blocks m)[nat b := (blk m b)\<lparr>ref_count := c\<rparr>]\<rparr>"
  shows "free_list m' fl" "index_ok m'" "same_book m m'" "\<And>x. is_block m x \<Longrightarrow> same_tag m m' x"
    "hash_to_block m' = hash_to_block m"
    "\<And>x. is_block m x \<Longrightarrow> ref_count (blk m' x) = (if x = b then c else ref_count (blk m x))"
    "\<And>x. is_block m' x = is_block m x"
proof -
  show ib: "is_block m' x = is_block m x" for x by (simp add: m')
  have other: "is_block m x \<Longrightarrow> cached (blk m' x) = cached (blk m x)
      \<and> block_hash_of (blk m' x) = block_hash_of (blk m x) \<and> hash_valid (blk m' x) = hash_valid (blk m x)
      \<and> ref_count (blk m' x) = (if x = b then c else ref_count (blk m x))" for x
    using b by (simp add: m' nth_update_in_bounds)
  show "free_list m' fl" using fl b
    by (rule free_list_upd [where f = "\<lambda>x. x\<lparr>ref_count := c\<rparr>"]) (simp_all add: m')
  show H: "hash_to_block m' = hash_to_block m" by (simp add: m')
  show "index_ok m'"
    using idx other by (simp add: index_ok_def H ib cong: conj_cong)
  show "same_book m m'" by (simp add: same_book_def m')
  show "is_block m x \<Longrightarrow> same_tag m m' x" for x using other by (simp add: same_tag_def)
  show "is_block m x \<Longrightarrow> ref_count (blk m' x) = (if x = b then c else ref_count (blk m x))" for x
    using other by simp
qed

lemma hold_block_pool:
  assumes p: "pool m refs fl" and b: "is_block m b"
  shows "\<exists>m'. hold_block b m = Some m' \<and> pool m' (refs(b := refs b + 1)) (remove1 b fl) \<and> same_book m m'
     \<and> (\<forall>x. is_block m x \<longrightarrow> same_tag m m' x) \<and> hash_to_block m' = hash_to_block m"
proof -
  obtain m1 where m1: "(if ref_count (blk m b) = 0 then remove_free b m else Some m) = Some m1"
      "free_list m1 (remove1 b fl)" "payload m1 = payload m"
  proof (cases "ref_count (blk m b) = 0")
    case True
    then have "b \<in> set fl" "pushable m b"
      using p b by (simp_all add: pool_refs pool_free_iff pushable_def)
    with fq.unlink_member [OF pool_free_list [OF p]] True that show ?thesis by auto
  next
    case False
    then have "b \<notin> set fl" using p b by (simp add: pool_refs pool_free_iff)
    with False that pool_free_list [OF p] show ?thesis by (simp add: remove1_idem)
  qed
  have ib: "is_block m1 x = is_block m x" for x
    using payload_fields(6) [OF m1(3)] by (rule in_bounds_length)
  have b1: "is_block m1 b" using b ib by simp
  have idx: "index_ok m1" using pool_index [OF p] payload_index_ok [OF m1(3)] by simp
  define m' where "m' = m1\<lparr>blocks := (blocks m1)[nat b := (blk m1 b)\<lparr>ref_count := ref_count (blk m1 b) + 1\<rparr>]\<rparr>"
  note upd = pool_upd_count [OF m1(2) idx b1 m'_def]
  have "hold_block b m = Some m'"
    using m1(1) b b1 by (simp add: hold_block_def m'_def)
  moreover have "pool m' (refs(b := refs b + 1)) (remove1 b fl)"
    unfolding pool_def
  proof (intro conjI allI impI)
    show "free_list m' (remove1 b fl)" "index_ok m'" by (rule upd)+
  next
    fix x assume "is_block m' x"
    then have x: "is_block m x" using upd(7) ib by simp
    show "ref_count (blk m' x) = int ((refs(b := refs b + 1)) x)"
      using upd(6) [of x] x ib p payload_block(1) [OF m1(3) x] payload_block(1) [OF m1(3) b]
      by (simp add: pool_refs b)
    show "(x \<in> set (remove1 b fl)) = ((refs(b := refs b + 1)) x = 0)"
      using p x pool_distinct [OF p] by (simp add: set_remove1_eq pool_free_iff)
  qed
  moreover have "same_book m m'"
    using payload_same_book [OF m1(3)] upd(3) by (rule same_book_trans)
  moreover have "\<forall>x. is_block m x \<longrightarrow> same_tag m m' x"
    using payload_same_tag [OF m1(3)] upd(4) ib same_tag_trans by blast
  moreover have "hash_to_block m' = hash_to_block m"
    using upd(5) payload_fields(3) [OF m1(3)] by simp
  ultimately show ?thesis by blast
qed

lemma release_block_pool:
  assumes p: "pool m refs fl" and b: "is_block m b" and pos: "0 < refs b"
  shows "\<exists>m'. release_block b m = Some m'
     \<and> pool m' (refs(b := refs b - 1)) (if refs b = 1 then fl @ [b] else fl) \<and> same_book m m'
     \<and> (\<forall>x. is_block m x \<longrightarrow> same_tag m m' x) \<and> hash_to_block m' = hash_to_block m"
proof -
  define m1 where "m1 = m\<lparr>blocks := (blocks m)[nat b := (blk m b)\<lparr>ref_count := ref_count (blk m b) - 1\<rparr>]\<rparr>"
  note upd = pool_upd_count [OF pool_free_list [OF p] pool_index [OF p] b m1_def]
  have cnt: "ref_count (blk m1 b) = int (refs b) - 1"
    using upd(6) [OF b] pool_refs [OF p b] by simp
  have notin: "b \<notin> set fl" using p b pos by (simp add: pool_free_iff)
  have start: "release_block b m = (if refs b = 1 then push_free b m1 else Some m1)"
    using b upd(7) pos cnt pool_refs [OF p b] by (auto simp: release_block_def m1_def)
  have counts: "ref_count (blk m1 x) = int ((refs(b := refs b - 1)) x)" if "is_block m x" for x
    using that upd(6) p pos b by (auto simp: pool_refs)
  have goal: "\<exists>m'. release_block b m = Some m' \<and> free_list m' (if refs b = 1 then fl @ [b] else fl)
      \<and> payload m' = payload m1"
  proof (cases "refs b = 1")
    case True
    then have "pushable m1 b" using cnt upd(7) b by (simp add: pushable_def)
    with fq.push_law [OF upd(1) _ notin] True start show ?thesis by auto
  next
    case False
    then show ?thesis using start upd(1) by simp
  qed
  then obtain m' where m': "release_block b m = Some m'"
      "free_list m' (if refs b = 1 then fl @ [b] else fl)" "payload m' = payload m1" by blast
  have "pool m' (refs(b := refs b - 1)) (if refs b = 1 then fl @ [b] else fl)"
    unfolding pool_def
  proof (intro conjI allI impI)
    show "free_list m' (if refs b = 1 then fl @ [b] else fl)" by (rule m')
    show "index_ok m'" using upd(2) payload_index_ok [OF m'(3)] by simp
  next
    fix x assume "is_block m' x"
    then have x1: "is_block m1 x"
      using payload_fields(6) [OF m'(3)] by (simp add: in_bounds_def)
    then have x: "is_block m x" using upd(7) by simp
    show "ref_count (blk m' x) = int ((refs(b := refs b - 1)) x)"
      using counts [OF x] payload_block(1) [OF m'(3) x1] by simp
    show "(x \<in> set (if refs b = 1 then fl @ [b] else fl)) = ((refs(b := refs b - 1)) x = 0)"
      using pool_free_iff [OF p x] pos by auto
  qed
  moreover have "same_book m m'"
    using upd(3) payload_same_book [OF m'(3)] by (rule same_book_trans)
  moreover have "\<forall>x. is_block m x \<longrightarrow> same_tag m m' x"
    using upd(4,7) payload_same_tag [OF m'(3)] same_tag_trans by blast
  moreover have "hash_to_block m' = hash_to_block m"
    using upd(5) payload_fields(3) [OF m'(3)] by simp
  ultimately show ?thesis using m'(1) by blast
qed

lemma free_list_links:
  assumes "free_list m fl"
    and "\<And>x. is_block m x \<Longrightarrow> is_block m' x
      \<and> prev_free (blk m' x) = prev_free (blk m x) \<and> next_free (blk m' x) = next_free (blk m x)"
    and "free_head m' = free_head m" "free_tail m' = free_tail m" "num_free_blocks m' = num_free_blocks m"
  shows "free_list m' fl"
proof -
  have "dll (blocks m') (-1) fl (-1)"
    by (rule dll_map_links [where bs = "blocks m"]) (use assms(1,2) in \<open>simp_all add: free_list_def\<close>)
  then show ?thesis using assms by (simp add: free_list_def)
qed

text \<open>
  \<open>insert_hash\<close> publishes a block under \<open>h\<close>, replaces an entry nobody references, and
  otherwise keeps the entry of the block that is in use.
\<close>

definition published :: "KVCacheManager \<Rightarrow> (int \<Rightarrow> nat) \<Rightarrow> 64 word \<Rightarrow> bool" where
  "published m refs h \<longleftrightarrow> (case hash_to_block m h of None \<Rightarrow> True | Some c \<Rightarrow> refs c = 0)"

lemma insert_hash_eval:
  assumes p: "pool m refs fl" and b: "is_block m b" and nv: "\<not> hash_valid (blk m b)"
  shows "\<exists>m'. insert_hash h b m = Some m' \<and> same_book m m'
     \<and> free_head m' = free_head m \<and> free_tail m' = free_tail m \<and> num_free_blocks m' = num_free_blocks m
     \<and> hash_to_block m' = (if published m refs h then (hash_to_block m)(h \<mapsto> b) else hash_to_block m)
     \<and> (\<forall>x. is_block m x \<longrightarrow> blk m' x =
         (if x = b then (blk m b)\<lparr>block_hash_of := h, hash_valid := True,
            cached := (published m refs h \<or> cached (blk m b))\<rparr>
          else if hash_to_block m h = Some x \<and> published m refs h then (blk m x)\<lparr>cached := False\<rparr>
          else blk m x))"
proof -
  have ok: "index_ok m" using p by (rule pool_index)
  let ?B = "(blocks m)[nat b := (blk m b)\<lparr>block_hash_of := h, hash_valid := True\<rparr>]"
  show ?thesis
  proof (cases "hash_to_block m h")
    case None
    then show ?thesis
      using b in_bounds_nat [OF b]
      by (auto simp: insert_hash_def published_def same_book_def nth_update_in_bounds)
  next
    case (Some c)
    then have c: "is_block m c" "cached (blk m c)" using ok by (auto simp: index_ok_def)
    then have neq: "c \<noteq> b" using nv ok by (auto simp: index_ok_def)
    have found: "?B ! nat c = blk m c" using c b neq by (simp add: nth_update_in_bounds)
    have eq: "ref_count (blk m c) = 0 \<longleftrightarrow> refs c = 0" using pool_refs [OF p c(1)] by simp
    show ?thesis
      using Some c b neq found eq in_bounds_nat [OF b]
      by (cases "refs c = 0")
         (auto simp: insert_hash_def published_def same_book_def nth_update_in_bounds)
  qed
qed

lemma insert_hash_pool:
  assumes p: "pool m refs fl" and b: "is_block m b" and nv: "\<not> hash_valid (blk m b)"
  shows "\<exists>m'. insert_hash h b m = Some m' \<and> pool m' refs fl \<and> same_book m m'
     \<and> hash_valid (blk m' b) \<and> block_hash_of (blk m' b) = h
     \<and> (\<forall>x. is_block m x \<and> x \<noteq> b \<longrightarrow> same_tag m m' x)
     \<and> hash_to_block m' = (if published m refs h then (hash_to_block m)(h \<mapsto> b) else hash_to_block m)"
proof -
  from insert_hash_eval [OF assms, of h] obtain m' where
    run: "insert_hash h b m = Some m'" and book: "same_book m m'"
    and ends: "free_head m' = free_head m" "free_tail m' = free_tail m" "num_free_blocks m' = num_free_blocks m"
    and index: "hash_to_block m' = (if published m refs h then (hash_to_block m)(h \<mapsto> b) else hash_to_block m)"
    and at: "\<And>x. is_block m x \<Longrightarrow> blk m' x =
         (if x = b then (blk m b)\<lparr>block_hash_of := h, hash_valid := True,
            cached := (published m refs h \<or> cached (blk m b))\<rparr>
          else if hash_to_block m h = Some x \<and> published m refs h then (blk m x)\<lparr>cached := False\<rparr>
          else blk m x)" by blast
  have ib: "is_block m' x = is_block m x" for x using book by (rule same_book_is_block)
  have ok: "index_ok m" using p by (rule pool_index)
  have nc: "\<not> cached (blk m b)" using ok b nv by (auto simp: index_ok_def)
  have "free_list m' fl"
    by (rule free_list_links [OF pool_free_list [OF p]]) (simp_all add: at ib ends)
  moreover have "index_ok m'"
    unfolding index_ok_def
  proof (intro conjI allI)
    fix k x
    show "(hash_to_block m' k = Some x) = (is_block m' x \<and> cached (blk m' x) \<and> block_hash_of (blk m' x) = k)"
    proof (cases "is_block m x")
      case True
      have old: "(hash_to_block m j = Some x) = (cached (blk m x) \<and> block_hash_of (blk m x) = j)" for j
        using ok True by (simp add: index_ok_def)
      then show ?thesis
        using nc True at [OF True] by (auto simp: ib index)
    next
      case False
      then have "hash_to_block m k \<noteq> Some x" "x \<noteq> b" using ok b by (auto simp: index_ok_def)
      then show ?thesis using False by (simp add: ib index)
    qed
  next
    fix x
    show "is_block m' x \<and> cached (blk m' x) \<longrightarrow> hash_valid (blk m' x)"
      using ok at [of x] ib by (auto simp: index_ok_def)
  qed
  moreover have "\<forall>x. is_block m' x \<longrightarrow> ref_count (blk m' x) = int (refs x) \<and> (x \<in> set fl \<longleftrightarrow> refs x = 0)"
    using p at ib by (simp add: pool_def)
  ultimately have "pool m' refs fl" by (simp add: pool_def)
  moreover have "\<forall>x. is_block m x \<and> x \<noteq> b \<longrightarrow> same_tag m m' x"
    using at by (simp add: same_tag_def)
  moreover have "hash_valid (blk m' b)" "block_hash_of (blk m' b) = h"
    using at [OF b] by simp_all
  ultimately show ?thesis using run book index by blast
qed

end
