(* ===== verification/KV_Manager.thy ===== *)
theory KV_Manager
  imports Block_Pool Request
begin

text \<open>
  The public operations of \<open>KVCacheManager\<close> (csrc/scheduler/kv_cache_manager.cpp):
  construction, \<open>reuse_prefix\<close>, \<open>record_prefix_reuse\<close>, \<open>allocate_slots\<close>,
  \<open>release_blocks\<close>, \<open>get_allocated_blocks\<close>, \<open>prefix_cache_stats\<close>, and the private
  \<open>cache_full_blocks\<close>.
\<close>

subsection \<open>The operations\<close>

definition KVCacheManager_create :: "KVCacheConfig \<Rightarrow> KVCacheManager option" where
  "KVCacheManager_create cfg = do {
     require (0 \<le> cfg_num_blocks cfg);
     fold_opt push_free [0..cfg_num_blocks cfg - 1]
       \<lparr>num_block_slots = cfg_num_block_slots cfg,
        enable_prefix_caching = cfg_enable_prefix_caching cfg,
        blocks = replicate (nat (cfg_num_blocks cfg)) new_block,
        free_head = -1, free_tail = -1, num_free_blocks = 0,
        hash_to_block = Map.empty, req_to_allocated_blocks = Map.empty,
        stats = \<lparr>num_queries = 0, num_hits = 0, num_reused_tokens = 0,
          num_cached_blocks = 0, stats_num_blocks = 0\<rparr>\<rparr>
   }"

definition blocks_of :: "KVCacheManager \<Rightarrow> string \<Rightarrow> int list" where
  \<comment> \<open>\<open>req_to_allocated_blocks_[id]\<close>, which creates an empty vector for a new key\<close>
  "blocks_of m rid = (case req_to_allocated_blocks m rid of None \<Rightarrow> [] | Some bs \<Rightarrow> bs)"

definition set_blocks :: "string \<Rightarrow> int list \<Rightarrow> KVCacheManager \<Rightarrow> KVCacheManager" where
  "set_blocks rid bs m = m\<lparr>req_to_allocated_blocks := (req_to_allocated_blocks m)(rid \<mapsto> bs)\<rparr>"

fun leading_valid :: "KVCacheManager \<Rightarrow> int list \<Rightarrow> nat option" where
  \<comment> \<open>the \<open>while\<close> loop that finds the first block without a valid hash\<close>
  "leading_valid m [] = Some 0"
| "leading_valid m (b # bs) = do {
     block \<leftarrow> at_index (blocks m) b;
     (if hash_valid block then map_option Suc (leading_valid m bs) else Some 0)
   }"

fun hash_blocks :: "int list \<Rightarrow> int \<Rightarrow> 64 word \<Rightarrow> int list \<Rightarrow> KVCacheManager \<Rightarrow> KVCacheManager option" where
  \<comment> \<open>the \<open>for\<close> loop from block index \<open>i\<close> on\<close>
  "hash_blocks toks i h [] m = Some m"
| "hash_blocks toks i h (b # bs) m = do {
     ts \<leftarrow> subvec toks (i * num_block_slots m) (num_block_slots m);
     let h' = block_hash h ts;
     m1 \<leftarrow> insert_hash h' b m;
     hash_blocks toks (i + 1) h' bs m1
   }"

definition cache_full_blocks :: "Request \<Rightarrow> int list \<Rightarrow> KVCacheManager \<Rightarrow> KVCacheManager option" where
  "cache_full_blocks r allocated m =
     (if \<not> enable_prefix_caching m then Some m
      else do {
        full \<leftarrow> c_div (num_computed_tokens r) (num_block_slots m);
        let num_full_blocks = min (int (length allocated)) full;
        let candidates = take (nat num_full_blocks) allocated;
        first \<leftarrow> leading_valid m candidates;
        (if int first = num_full_blocks then Some m
         else do {
           h \<leftarrow> (if first = 0 then Some kHashSeed
                else map_option block_hash_of (at_index (blocks m) (allocated ! (first - 1))));
           hash_blocks (token_ids r) (int first) h (drop first candidates) m
         })
      })"

fun match_blocks :: "int list \<Rightarrow> int \<Rightarrow> 64 word \<Rightarrow> nat \<Rightarrow> KVCacheManager \<Rightarrow> int list option" where
  "match_blocks toks i h 0 m = Some []"
| "match_blocks toks i h (Suc n) m = do {
     ts \<leftarrow> subvec toks (i * num_block_slots m) (num_block_slots m);
     let h' = block_hash h ts;
     (case hash_to_block m h' of
        None \<Rightarrow> Some []
      | Some b \<Rightarrow> map_option (Cons b) (match_blocks toks (i + 1) h' n m))
   }"

definition share_block :: "string \<Rightarrow> int \<Rightarrow> KVCacheManager \<Rightarrow> KVCacheManager option" where
  "share_block rid b m = do {
     m1 \<leftarrow> hold_block b m;
     Some (set_blocks rid (blocks_of m1 rid @ [b]) m1)
   }"

definition reuse_prefix :: "Request \<Rightarrow> KVCacheManager \<Rightarrow> (int \<times> KVCacheManager) option" where
  "reuse_prefix r m =
     (if \<not> enable_prefix_caching m then Some (0, m)
      else do {
        num_shared_blocks \<leftarrow> c_div (num_tokens r - 1) (num_block_slots m);
        matched \<leftarrow> match_blocks (token_ids r) 0 kHashSeed (nat num_shared_blocks) m;
        (if matched = [] then Some (0, m)
         else do {
           m1 \<leftarrow> fold_opt (share_block (req_id r)) matched (set_blocks (req_id r) (blocks_of m (req_id r)) m);
           Some (int (length matched) * num_block_slots m1, m1)
         })
      })"

definition record_prefix_reuse :: "int \<Rightarrow> KVCacheManager \<Rightarrow> KVCacheManager" where
  "record_prefix_reuse reused m =
     (if \<not> enable_prefix_caching m then m
      else let s = (stats m)\<lparr>num_queries := num_queries (stats m) + 1\<rparr>
           in m\<lparr>stats := (if reused > 0
                then s\<lparr>num_hits := num_hits s + 1, num_reused_tokens := num_reused_tokens s + reused\<rparr>
                else s)\<rparr>)"

definition append_block :: "string \<Rightarrow> KVCacheManager \<Rightarrow> KVCacheManager option" where
  \<comment> \<open>\<open>allocated_blocks.push_back(take_block())\<close>\<close>
  "append_block rid m = do {
     (b, m1) \<leftarrow> take_block m;
     Some (set_blocks rid (blocks_of m1 rid @ [b]) m1)
   }"

definition allocate_slots :: "Request \<Rightarrow> int \<Rightarrow> KVCacheManager \<Rightarrow> (bool \<times> KVCacheManager) option" where
  "allocate_slots r num_scheduled_tokens m = do {
     require (num_scheduled_tokens > 0);
     let num_allocated_blocks = int (length (blocks_of m (req_id r)));
     let num_required_slots = num_computed_tokens r + num_scheduled_tokens;
     num_required_blocks \<leftarrow> c_div (num_required_slots + num_block_slots m - 1) (num_block_slots m);
     require (num_required_blocks \<ge> num_allocated_blocks);
     let num_blocks_to_allocate = num_required_blocks - num_allocated_blocks;
     (if num_blocks_to_allocate > num_free_blocks m then Some (False, m)
      else do {
        m1 \<leftarrow> repeat_opt (nat num_blocks_to_allocate) (append_block (req_id r))
                (set_blocks (req_id r) (blocks_of m (req_id r)) m);
        m2 \<leftarrow> cache_full_blocks r (blocks_of m1 (req_id r)) m1;
        Some (True, m2)
      })
   }"

definition release_blocks :: "Request \<Rightarrow> KVCacheManager \<Rightarrow> KVCacheManager option" where
  "release_blocks r m =
     (case req_to_allocated_blocks m (req_id r) of
        None \<Rightarrow> Some m
      | Some allocated \<Rightarrow> do {
          m1 \<leftarrow> cache_full_blocks r allocated m;
          m2 \<leftarrow> fold_opt release_block allocated m1;
          Some (m2\<lparr>req_to_allocated_blocks := (req_to_allocated_blocks m2)(req_id r := None)\<rparr>)
        })"

definition get_allocated_blocks :: "string \<Rightarrow> KVCacheManager \<Rightarrow> int list option" where
  "get_allocated_blocks rid m = req_to_allocated_blocks m rid"

definition prefix_cache_stats :: "KVCacheManager \<Rightarrow> PrefixCacheStats" where
  "prefix_cache_stats m = (stats m)\<lparr>
     num_cached_blocks := int (length (filter cached (blocks m))),
     stats_num_blocks := int (length (blocks m))\<rparr>"

end
