(* ===== verification/Scheduler.thy ===== *)
theory Scheduler
  imports KV_Manager Protocol Model_Config
begin

text \<open>
  The continuous-batching scheduler, csrc/scheduler/scheduler.h and scheduler.cpp. The three
  \<open>std::list<Request>\<close> are lists of node addresses into the store \<open>nodes\<close>; an iterator is an
  address, \<open>splice\<close> moves an address between lists, and \<open>id_to_request\<close> maps an id to the
  address of its node, as in the code.
\<close>

record Scheduler =
  nodes :: "nat \<rightharpoonup> Request"
  next_node :: nat
  running :: "nat list"
  waiting :: "nat list"
  preempted :: "nat list"
  id_to_request :: "string \<rightharpoonup> nat"
  kv_cache_manager :: KVCacheManager
  max_num_seqs :: int
  max_num_scheduled_tokens :: int
  max_model_len :: int

definition Scheduler_create :: "Config \<Rightarrow> ModelConfig \<Rightarrow> KVCacheConfig \<Rightarrow> Scheduler option" where
  "Scheduler_create config model_config kv_config = do {
     m \<leftarrow> KVCacheManager_create kv_config;
     Some \<lparr>nodes = Map.empty, next_node = 0, running = [], waiting = [], preempted = [],
       id_to_request = Map.empty, kv_cache_manager = m,
       max_num_seqs = cfg_max_num_seqs config,
       max_num_scheduled_tokens = cfg_max_num_scheduled_tokens config,
       max_model_len = mc_max_model_len model_config\<rparr>
   }"

definition add_request :: "Request \<Rightarrow> Scheduler \<Rightarrow> Scheduler" where
  "add_request request s =
     (let n = next_node s;
          r = request\<lparr>status := kWaiting, num_prompt_tokens := num_tokens request,
                num_prefill_tokens := num_tokens request, num_computed_tokens := 0\<rparr>
      in s\<lparr>nodes := (nodes s)(n \<mapsto> r), next_node := n + 1, waiting := waiting s @ [n],
           id_to_request := (case id_to_request s (req_id r) of
               None \<Rightarrow> (id_to_request s)(req_id r \<mapsto> n)
             | Some _ \<Rightarrow> id_to_request s)\<rparr>)"

definition queue_of :: "RequestStatus \<Rightarrow> Scheduler \<Rightarrow> nat list" where
  "queue_of st s = (case st of kRunning \<Rightarrow> running s | kPreempted \<Rightarrow> preempted s | kWaiting \<Rightarrow> waiting s)"

definition set_queue :: "RequestStatus \<Rightarrow> nat list \<Rightarrow> Scheduler \<Rightarrow> Scheduler" where
  "set_queue st q s = (case st of kRunning \<Rightarrow> s\<lparr>running := q\<rparr>
     | kPreempted \<Rightarrow> s\<lparr>preempted := q\<rparr> | kWaiting \<Rightarrow> s\<lparr>waiting := q\<rparr>)"

definition remove_request :: "nat \<Rightarrow> Scheduler \<Rightarrow> Scheduler option" where
  \<comment> \<open>\<open>list::erase\<close> needs an iterator of that very list\<close>
  "remove_request n s = do {
     r \<leftarrow> nodes s n;
     m \<leftarrow> release_blocks r (kv_cache_manager s);
     let s1 = s\<lparr>kv_cache_manager := m, id_to_request := (id_to_request s)(req_id r := None)\<rparr>;
     require (n \<in> set (queue_of (status r) s1));
     Some ((set_queue (status r) (remove1 n (queue_of (status r) s1)) s1)\<lparr>nodes := (nodes s)(n := None)\<rparr>)
   }"

definition abort_request :: "string \<Rightarrow> Scheduler \<Rightarrow> Scheduler option" where
  "abort_request rid s = (case id_to_request s rid of None \<Rightarrow> Some s | Some n \<Rightarrow> remove_request n s)"

definition abort_requests :: "string list \<Rightarrow> Scheduler \<Rightarrow> Scheduler option" where
  "abort_requests request_ids s = fold_opt abort_request request_ids s"

definition has_requests :: "Scheduler \<Rightarrow> bool" where
  "has_requests s \<longleftrightarrow> id_to_request s \<noteq> Map.empty"

subsection \<open>One scheduling step\<close>

definition fewer_than_seqs :: "'a list \<Rightarrow> Scheduler \<Rightarrow> bool" where
  \<comment> \<open>\<open>scheduled.size() < max_num_seqs_\<close> compares as \<open>std::size_t\<close>\<close>
  "fewer_than_seqs scheduled s \<longleftrightarrow> (word_of_nat (length scheduled) :: 64 word) < word_of_int (max_num_seqs s)"

definition preempt_last :: "Scheduler \<Rightarrow> (Request \<times> Scheduler) option" where
  "preempt_last s = do {
     require (running s \<noteq> []);
     let v = last (running s);
     victim \<leftarrow> nodes s v;
     m \<leftarrow> release_blocks victim (kv_cache_manager s);
     let victim1 = victim\<lparr>num_computed_tokens := 0, status := kPreempted\<rparr>;
     Some (victim1, s\<lparr>kv_cache_manager := m, nodes := (nodes s)(v \<mapsto> victim1),
       running := butlast (running s), preempted := v # preempted s\<rparr>)
   }"

lemma preempt_last_shrinks: "preempt_last s = Some (v, s') \<Longrightarrow> length (running s') < length (running s)"
  by (auto simp: preempt_last_def Let_def bind_eq_Some_conv)

function acquire_slots :: "nat \<Rightarrow> int \<Rightarrow> Scheduler \<Rightarrow> (bool \<times> Scheduler) option" where
  \<comment> \<open>the inner \<open>while (true)\<close> of pass 1\<close>
  "acquire_slots cur k s = do {
     r \<leftarrow> nodes s cur;
     (granted, m) \<leftarrow> allocate_slots r k (kv_cache_manager s);
     let s1 = s\<lparr>kv_cache_manager := m\<rparr>;
     (if granted then Some (True, s1)
      else do {
        (victim, s2) \<leftarrow> preempt_last s1;
        r' \<leftarrow> nodes s2 cur;
        (if req_id victim = req_id r' then Some (False, s2) else acquire_slots cur k s2)
      })
   }"
  by pat_completeness auto
termination
  by (relation "measure (\<lambda>(cur, k, s). length (running s))") (auto dest!: preempt_last_shrinks)

declare acquire_slots.simps [simp del]

definition scheduled_request :: "Request \<Rightarrow> int \<Rightarrow> int \<Rightarrow> bool \<Rightarrow> KVCacheManager \<Rightarrow> ScheduledRequest option" where
  \<comment> \<open>the braced initializer of \<open>push_back\<close>: \<open>count\<close> tokens from \<open>offset\<close>\<close>
  "scheduled_request r offset count prefill m = do {
     toks \<leftarrow> subvec (token_ids r) offset count;
     bs \<leftarrow> get_allocated_blocks (req_id r) m;
     Some \<lparr>sr_request_id = req_id r, is_prefill = prefill,
       needs_sampling = offset + count \<ge> num_prefill_tokens r,
       position_offset = offset, tokens_to_compute = toks, allocated_blocks = bs,
       sr_sample_params = sample_params r\<rparr>
   }"

definition schedule_running :: "nat \<Rightarrow> int \<Rightarrow> Scheduler
    \<Rightarrow> ((int \<times> ScheduledRequest) option \<times> Scheduler) option" where
  \<comment> \<open>the body of the loop of pass 1; \<open>None\<close> in the result when nothing was allocated\<close>
  "schedule_running n budget s = do {
     cur \<leftarrow> nodes s n;
     let k = min (num_tokens cur - num_computed_tokens cur) budget;
     require (k > 0);
     (granted, s1) \<leftarrow> acquire_slots n k s;
     (if \<not> granted then Some (None, s1)
      else do {
        r \<leftarrow> nodes s1 n;
        e \<leftarrow> scheduled_request r (num_computed_tokens r) k
               (num_computed_tokens r < num_prefill_tokens r) (kv_cache_manager s1);
        Some (Some (k, e),
          s1\<lparr>nodes := (nodes s1)(n \<mapsto> r\<lparr>num_computed_tokens := num_computed_tokens r + k\<rparr>)\<rparr>)
      })
   }"

text \<open>Induction over the attempts of one \<open>acquire_slots\<close>.\<close>

lemma acquire_slots_induct [consumes 1, case_names granted itself retry]:
  assumes "acquire_slots cur k s = Some (g, s')"
    and granted: "\<And>s r m. nodes s cur = Some r \<Longrightarrow> allocate_slots r k (kv_cache_manager s) = Some (True, m)
      \<Longrightarrow> P s True (s\<lparr>kv_cache_manager := m\<rparr>)"
    and itself: "\<And>s r m v s2 r'. nodes s cur = Some r \<Longrightarrow> allocate_slots r k (kv_cache_manager s) = Some (False, m)
      \<Longrightarrow> preempt_last (s\<lparr>kv_cache_manager := m\<rparr>) = Some (v, s2) \<Longrightarrow> nodes s2 cur = Some r'
      \<Longrightarrow> req_id v = req_id r' \<Longrightarrow> P s False s2"
    and retry: "\<And>s r m v s2 r' g s'. nodes s cur = Some r \<Longrightarrow> allocate_slots r k (kv_cache_manager s) = Some (False, m)
      \<Longrightarrow> preempt_last (s\<lparr>kv_cache_manager := m\<rparr>) = Some (v, s2) \<Longrightarrow> nodes s2 cur = Some r'
      \<Longrightarrow> req_id v \<noteq> req_id r' \<Longrightarrow> acquire_slots cur k s2 = Some (g, s') \<Longrightarrow> P s2 g s' \<Longrightarrow> P s g s'"
  shows "P s g s'"
  using assms(1)
proof (induction "length (running s)" arbitrary: s g s' rule: less_induct)
  case (less s)
  from less.prems obtain r a m where a: "nodes s cur = Some r"
    "allocate_slots r k (kv_cache_manager s) = Some (a, m)"
    by (auto simp: acquire_slots.simps [of cur k s] bind_eq_Some_conv split: prod.splits)
  show ?case
  proof (cases a)
    case True
    then show ?thesis using less.prems a granted [of s r m] by (auto simp: acquire_slots.simps [of cur k s])
  next
    case False
    with less.prems a obtain v s2 r' where b: "preempt_last (s\<lparr>kv_cache_manager := m\<rparr>) = Some (v, s2)"
      "nodes s2 cur = Some r'" "(if req_id v = req_id r' then Some (False, s2) else acquire_slots cur k s2) = Some (g, s')"
      by (subst (asm) acquire_slots.simps) (auto simp: bind_eq_Some_conv split: prod.splits)
    show ?thesis
    proof (cases "req_id v = req_id r'")
      case True
      then show ?thesis using itself [OF a(1) _ b(1,2) True] a(2) b(3) False by auto
    next
      case ne: False
      then have again: "acquire_slots cur k s2 = Some (g, s')" using b(3) by simp
      have "length (running s2) < length (running s)" using preempt_last_shrinks [OF b(1)] by simp
      from retry [OF a(1) _ b(1,2) ne again less.hyps [OF this again]] a(2) False show ?thesis by simp
    qed
  qed
qed

lemma acquire_slots_running:
  "acquire_slots cur k s = Some (g, s') \<Longrightarrow> length (running s') \<le> length (running s)"
  by (induction rule: acquire_slots_induct) (auto dest!: preempt_last_shrinks)

lemma schedule_running_running:
  "schedule_running n budget s = Some (e, s') \<Longrightarrow> length (running s') \<le> length (running s)"
  by (auto simp: schedule_running_def Let_def bind_eq_Some_conv split: prod.splits if_splits
      dest!: acquire_slots_running)

function schedule_pass1 :: "nat \<Rightarrow> int \<Rightarrow> ScheduledRequest list \<Rightarrow> Scheduler
    \<Rightarrow> (int \<times> ScheduledRequest list \<times> Scheduler) option" where
  \<comment> \<open>\<open>cur_iter\<close> is the position \<open>i\<close> of \<open>running_\<close>: only later positions are ever spliced out\<close>
  "schedule_pass1 i budget scheduled s =
     (if i < length (running s) \<and> budget > 0 \<and> fewer_than_seqs scheduled s
      then do {
        (res, s1) \<leftarrow> schedule_running (running s ! i) budget s;
        (case res of
           None \<Rightarrow> Some (budget, scheduled, s1)
         | Some (k, e) \<Rightarrow> schedule_pass1 (i + 1) (budget - k) (scheduled @ [e]) s1)
      }
      else Some (budget, scheduled, s))"
  by pat_completeness auto
termination
  by (relation "measure (\<lambda>(i, budget, scheduled, s). length (running s) - i)")
    (auto dest!: schedule_running_running)

declare schedule_pass1.simps [simp del]

definition next_admission :: "Scheduler \<Rightarrow> nat option" where
  \<comment> \<open>the head of \<open>preempted_.empty() ? waiting_ : preempted_\<close>\<close>
  "next_admission s = (let q = (if preempted s = [] then waiting s else preempted s)
     in if q = [] then None else Some (hd q))"

definition admit_request :: "nat \<Rightarrow> Scheduler \<Rightarrow> Scheduler" where
  \<comment> \<open>\<open>running_.splice(running_.end(), request_queue, cur_iter)\<close>\<close>
  "admit_request n s = (if preempted s = [] then s\<lparr>waiting := remove1 n (waiting s), running := running s @ [n]\<rparr>
     else s\<lparr>preempted := remove1 n (preempted s), running := running s @ [n]\<rparr>)"

definition schedule_new :: "nat \<Rightarrow> int \<Rightarrow> Scheduler
    \<Rightarrow> ((int \<times> ScheduledRequest) option \<times> Scheduler) option" where
  \<comment> \<open>the body of the loop of pass 2; \<open>None\<close> in the result when nothing was allocated\<close>
  "schedule_new n budget s = do {
     cur \<leftarrow> nodes s n;
     (reused, m1) \<leftarrow> reuse_prefix cur (kv_cache_manager s);
     let r = cur\<lparr>num_computed_tokens := reused\<rparr>;
     let k = min (num_tokens r - reused) budget;
     require (k > 0);
     (granted, m2) \<leftarrow> allocate_slots r k m1;
     (if \<not> granted then do {
        m3 \<leftarrow> release_blocks r m2;
        Some (None, s\<lparr>kv_cache_manager := m3, nodes := (nodes s)(n \<mapsto> r\<lparr>num_computed_tokens := 0\<rparr>)\<rparr>)
      }
      else do {
        let r1 = r\<lparr>num_prefill_tokens := num_tokens r\<rparr>;
        let m3 = record_prefix_reuse reused m2;
        e \<leftarrow> scheduled_request r1 reused k True m3;
        let r2 = r1\<lparr>num_computed_tokens := reused + k, status := kRunning\<rparr>;
        Some (Some (k, e), admit_request n (s\<lparr>kv_cache_manager := m3, nodes := (nodes s)(n \<mapsto> r2)\<rparr>))
      })
   }"

lemma next_admission_head:
  "next_admission s = Some n \<Longrightarrow> preempted s = n # tl (preempted s) \<or> preempted s = [] \<and> waiting s = n # tl (waiting s)"
  by (auto simp: next_admission_def Let_def split: if_splits)

lemma schedule_new_Some:
  assumes "schedule_new n budget s = Some (Some (k, e), s')"
  obtains m r where "s' = admit_request n (s\<lparr>kv_cache_manager := m, nodes := (nodes s)(n \<mapsto> r)\<rparr>)"
  using assms by (auto simp: schedule_new_def Let_def bind_eq_Some_conv split: prod.splits if_splits)

lemma admit_request_pending:
  assumes "next_admission s = Some n"
  shows "length (preempted (admit_request n s)) + length (waiting (admit_request n s))
     < length (preempted s) + length (waiting s)"
  using next_admission_head [OF assms]
  by (cases "preempted s"; cases "waiting s") (auto simp: admit_request_def)

lemma schedule_new_pending:
  assumes "schedule_new n budget s = Some (Some (k, e), s')" "next_admission s = Some n"
  shows "length (preempted s') + length (waiting s') < length (preempted s) + length (waiting s)"
proof -
  from assms(1) obtain m r where s': "s' = admit_request n (s\<lparr>kv_cache_manager := m, nodes := (nodes s)(n \<mapsto> r)\<rparr>)"
    by (rule schedule_new_Some)
  have "next_admission (s\<lparr>kv_cache_manager := m, nodes := (nodes s)(n \<mapsto> r)\<rparr>) = next_admission s"
    by (simp add: next_admission_def)
  then have "next_admission (s\<lparr>kv_cache_manager := m, nodes := (nodes s)(n \<mapsto> r)\<rparr>) = Some n"
    using assms(2) by simp
  from admit_request_pending [OF this] show ?thesis unfolding s' by simp
qed

function schedule_pass2 :: "int \<Rightarrow> ScheduledRequest list \<Rightarrow> Scheduler
    \<Rightarrow> (ScheduledRequest list \<times> Scheduler) option" where
  "schedule_pass2 budget scheduled s =
     (case next_admission s of
        None \<Rightarrow> Some (scheduled, s)
      | Some n \<Rightarrow>
          if budget > 0 \<and> fewer_than_seqs scheduled s
          then do {
            (res, s1) \<leftarrow> schedule_new n budget s;
            (case res of
               None \<Rightarrow> Some (scheduled, s1)
             | Some (k, e) \<Rightarrow> schedule_pass2 (budget - k) (scheduled @ [e]) s1)
          }
          else Some (scheduled, s))"
  by pat_completeness auto
termination
  by (relation "measure (\<lambda>(budget, scheduled, s). length (preempted s) + length (waiting s))")
    (auto dest: schedule_new_pending)

declare schedule_pass2.simps [simp del]

definition schedule :: "Scheduler \<Rightarrow> (ScheduledRequest list \<times> Scheduler) option" where
  "schedule s = do {
     (budget, scheduled, s1) \<leftarrow> schedule_pass1 0 (max_num_scheduled_tokens s) [] s;
     (if length (preempted s1) = length (preempted s)
      then schedule_pass2 budget scheduled s1
      else Some (scheduled, s1))
   }"

subsection \<open>The results of a step\<close>

definition finish_reason :: "Scheduler \<Rightarrow> Request \<Rightarrow> bool \<Rightarrow> FinishReason" where
  "finish_reason s r eos =
     (if \<not> ignore_eos r \<and> eos then kStop
      else if num_tokens r - num_prompt_tokens r \<ge> max_output_tokens r \<or> num_tokens r \<ge> max_model_len s
      then kLength
      else kReasonRunning)"

definition update_one :: "SampledToken \<Rightarrow> Scheduler \<Rightarrow> (EngineCoreOutput \<times> Scheduler) option" where
  "update_one t s = do {
     n \<leftarrow> id_to_request s (st_request_id t);
     r \<leftarrow> nodes s n;
     let r1 = r\<lparr>token_ids := token_ids r @ [token_id t]\<rparr>;
     let s1 = s\<lparr>nodes := (nodes s)(n \<mapsto> r1)\<rparr>;
     let reason = finish_reason s1 r1 (eos_token t);
     s2 \<leftarrow> (if reason \<noteq> kReasonRunning then remove_request n s1 else Some s1);
     Some (\<lparr>out_request_id = st_request_id t, new_token_ids = [token_id t],
       out_finish_reason = reason\<rparr>, s2)
   }"

fun update_scheduler :: "SampledToken list \<Rightarrow> Scheduler \<Rightarrow> (EngineCoreOutput list \<times> Scheduler) option" where
  \<comment> \<open>\<open>Scheduler::update\<close>\<close>
  "update_scheduler [] s = Some ([], s)"
| "update_scheduler (t # ts) s = do {
     (out, s1) \<leftarrow> update_one t s;
     (outs, s2) \<leftarrow> update_scheduler ts s1;
     Some (out # outs, s2)
   }"

definition scheduler_prefix_cache_stats :: "Scheduler \<Rightarrow> PrefixCacheStats" where
  "scheduler_prefix_cache_stats s = prefix_cache_stats (kv_cache_manager s)"

end
