(* ===== verification/KV_Invariant.thy ===== *)
theory KV_Invariant
  imports KV_Manager
begin

text \<open>
  The invariant of the whole manager and its preservation. \<open>block_refs\<close> counts the entries of
  the requests' block lists that name a block. The invariant \<open>kv_ok\<close> says: the reference
  counts are these numbers, the free list holds exactly the unreferenced blocks, in every
  request's list the blocks with a valid hash come first, and a block without a valid hash
  (one that is still being filled) belongs to one request only.
\<close>

definition block_refs :: "(string \<rightharpoonup> int list) \<Rightarrow> int \<Rightarrow> nat" where
  "block_refs A b = (\<Sum>r\<in>dom A. count_list (the (A r)) b)"

definition prefix_ok :: "KVCacheManager \<Rightarrow> int list \<Rightarrow> bool" where
  "prefix_ok m bs \<longleftrightarrow> sorted_wrt (\<lambda>x y. hash_valid (blk m y) \<longrightarrow> hash_valid (blk m x)) bs"

definition kv_ok :: "KVCacheManager \<Rightarrow> int list \<Rightarrow> bool" where
  "kv_ok m fl \<longleftrightarrow> 0 < num_block_slots m
     \<and> finite (dom (req_to_allocated_blocks m))
     \<and> pool m (block_refs (req_to_allocated_blocks m)) fl
     \<and> (\<forall>r bs. req_to_allocated_blocks m r = Some bs \<longrightarrow> (\<forall>b \<in> set bs. is_block m b) \<and> prefix_ok m bs)
     \<and> (\<forall>b. is_block m b \<and> \<not> hash_valid (blk m b) \<longrightarrow> block_refs (req_to_allocated_blocks m) b \<le> 1)"

subsection \<open>Counting references\<close>

lemma block_refs_empty [simp]: "block_refs Map.empty b = 0"
  by (simp add: block_refs_def)

lemma block_refs_split:
  assumes "finite (dom A)"
  shows "block_refs A b = block_refs (A(r := None)) b
      + count_list (case A r of None \<Rightarrow> [] | Some bs \<Rightarrow> bs) b"
proof (cases "A r")
  case None
  then have "A(r := None) = A" by auto
  with None show ?thesis by simp
next
  case (Some bs)
  then have "r \<in> dom A" by auto
  then have "block_refs A b = count_list (the (A r)) b + (\<Sum>s\<in>dom A - {r}. count_list (the (A s)) b)"
    unfolding block_refs_def by (rule sum.remove [OF assms])
  also have "dom A - {r} = dom (A(r := None))" by auto
  also have "(\<Sum>s\<in>dom (A(r := None)). count_list (the (A s)) b) = block_refs (A(r := None)) b"
    unfolding block_refs_def by (rule sum.cong) auto
  finally show ?thesis using Some by simp
qed

lemma block_refs_upd:
  assumes "finite (dom A)"
  shows "block_refs (A(r \<mapsto> bs)) b = block_refs (A(r := None)) b + count_list bs b"
  using block_refs_split [of "A(r \<mapsto> bs)" b r] assms by simp

lemma block_refs_append:
  assumes "finite (dom A)" "A r = Some bs"
  shows "block_refs (A(r \<mapsto> bs @ cs)) b = block_refs A b + count_list cs b"
  using block_refs_upd [OF assms(1), of r "bs @ cs" b] block_refs_split [OF assms(1), of b r] assms(2)
  by simp

lemma block_refs_touch:
  assumes "finite (dom A)" "A r = None"
  shows "block_refs (A(r \<mapsto> [])) b = block_refs A b"
  using block_refs_upd [OF assms(1), of r "[]" b] block_refs_split [OF assms(1), of b r] assms(2)
  by simp

lemma block_refs_member:
  assumes "finite (dom A)" "A r = Some bs"
  shows "count_list bs b \<le> block_refs A b"
  using block_refs_split [OF assms(1), of b r] assms(2) by simp

lemma block_refs_pos:
  "finite (dom A) \<Longrightarrow> A r = Some bs \<Longrightarrow> b \<in> set bs \<Longrightarrow> 0 < block_refs A b"
  using block_refs_member [of A r bs b] by (metis count_list_0_iff gr0I le_zero_eq)

lemma block_refs_two:
  assumes "finite (dom A)" "A r = Some bs" "A s = Some cs" "r \<noteq> s"
  shows "count_list bs b + count_list cs b \<le> block_refs A b"
proof -
  have "count_list cs b \<le> block_refs (A(r := None)) b"
    using assms by (intro block_refs_member [of _ s]) auto
  then show ?thesis using block_refs_split [OF assms(1), of b r] assms(2) by simp
qed

lemma block_refs_free:
  "finite (dom A) \<Longrightarrow> block_refs A b = 0 \<longleftrightarrow> (\<forall>r bs. A r = Some bs \<longrightarrow> b \<notin> set bs)"
  by (auto simp: block_refs_def count_list_0_iff dom_def)

lemma count_list_le_1_distinct:
  assumes "i < length xs" "j < length xs" "i \<noteq> j" "xs ! i = xs ! j"
  shows "2 \<le> count_list xs (xs ! i)"
  using assms
proof (induction i j rule: linorder_wlog)
  case (le i j)
  then have ij: "i < j" by simp
  have "xs = take j xs @ xs ! j # drop (Suc j) xs" using le by (simp add: id_take_nth_drop)
  then have "count_list xs (xs ! i) = count_list (take j xs) (xs ! i) + Suc (count_list (drop (Suc j) xs) (xs ! i))"
    using le(5) by (metis count_list.simps(2) count_list_append add_Suc_right plus_1_eq_Suc add.commute)
  moreover have "xs ! i \<in> set (take j xs)" using ij le(2) by (auto simp: in_set_conv_nth intro!: exI [of _ i])
  then have "0 < count_list (take j xs) (xs ! i)" by (metis count_list_0_iff gr0I)
  ultimately show ?case by simp
next
  case (sym i j)
  then show ?case by simp
qed

subsection \<open>Facts read off the invariant\<close>

lemma kv_ok_pool: "kv_ok m fl \<Longrightarrow> pool m (block_refs (req_to_allocated_blocks m)) fl"
  by (simp add: kv_ok_def)

lemma kv_ok_slots: "kv_ok m fl \<Longrightarrow> 0 < num_block_slots m"
  by (simp add: kv_ok_def)

lemma kv_ok_finite: "kv_ok m fl \<Longrightarrow> finite (dom (req_to_allocated_blocks m))"
  by (simp add: kv_ok_def)

lemma kv_ok_is_block:
  "kv_ok m fl \<Longrightarrow> req_to_allocated_blocks m r = Some bs \<Longrightarrow> b \<in> set bs \<Longrightarrow> is_block m b"
  by (auto simp: kv_ok_def)

lemma kv_ok_prefix: "kv_ok m fl \<Longrightarrow> req_to_allocated_blocks m r = Some bs \<Longrightarrow> prefix_ok m bs"
  by (auto simp: kv_ok_def)

lemma kv_ok_exclusive:
  "kv_ok m fl \<Longrightarrow> is_block m b \<Longrightarrow> \<not> hash_valid (blk m b) \<Longrightarrow> block_refs (req_to_allocated_blocks m) b \<le> 1"
  by (auto simp: kv_ok_def)

lemma kv_ok_num_free: "kv_ok m fl \<Longrightarrow> num_free_blocks m = int (length fl)"
  by (auto dest: kv_ok_pool intro: pool_num_free)

lemma prefix_ok_cong:
  assumes "\<And>b. b \<in> set bs \<Longrightarrow> same_tag m m' b"
  shows "prefix_ok m' bs = prefix_ok m bs"
  unfolding prefix_ok_def using assms
  by (intro iffI) (auto elim!: sorted_wrt_mono_rel [rotated] simp: same_tag_def)

lemma prefix_ok_nth:
  "prefix_ok m bs \<Longrightarrow> i < j \<Longrightarrow> j < length bs \<Longrightarrow> hash_valid (blk m (bs ! j)) \<Longrightarrow> hash_valid (blk m (bs ! i))"
  by (auto simp: prefix_ok_def sorted_wrt_iff_nth_less)

text \<open>The part of the state no operation but the statistics ever changes.\<close>

definition same_static :: "KVCacheManager \<Rightarrow> KVCacheManager \<Rightarrow> bool" where
  "same_static m m' \<longleftrightarrow> num_block_slots m' = num_block_slots m
     \<and> enable_prefix_caching m' = enable_prefix_caching m
     \<and> stats m' = stats m \<and> length (blocks m') = length (blocks m)"

lemma same_static_refl [simp]: "same_static m m"
  by (simp add: same_static_def)

lemma same_static_trans: "same_static m m1 \<Longrightarrow> same_static m1 m2 \<Longrightarrow> same_static m m2"
  by (simp add: same_static_def)

lemma same_book_static: "same_book m m' \<Longrightarrow> same_static m m'"
  by (simp add: same_book_def same_static_def)

lemma same_static_is_block: "same_static m m' \<Longrightarrow> is_block m' b = is_block m b"
  by (simp add: same_static_def in_bounds_def)

lemma same_book_req: "same_book m m' \<Longrightarrow> req_to_allocated_blocks m' = req_to_allocated_blocks m"
  by (simp add: same_book_def)

lemma set_blocks_simps [simp]:
  "req_to_allocated_blocks (set_blocks r bs m) = (req_to_allocated_blocks m)(r \<mapsto> bs)"
  "blocks (set_blocks r bs m) = blocks m"
  "hash_to_block (set_blocks r bs m) = hash_to_block m"
  "num_block_slots (set_blocks r bs m) = num_block_slots m"
  "enable_prefix_caching (set_blocks r bs m) = enable_prefix_caching m"
  "stats (set_blocks r bs m) = stats m"
  "num_free_blocks (set_blocks r bs m) = num_free_blocks m"
  "same_static m (set_blocks r bs m)"
  "same_static m' (set_blocks r bs m) = same_static m' m"
  "same_tag m' (set_blocks r bs m) b = same_tag m' m b"
  "free_list (set_blocks r bs m) fl = free_list m fl"
  "index_ok (set_blocks r bs m) = index_ok m"
  "pool (set_blocks r bs m) R fl = pool m R fl"
  "prefix_ok (set_blocks r bs m) cs = prefix_ok m cs"
  by (simp_all add: set_blocks_def same_static_def same_tag_def free_list_def index_ok_def pool_def prefix_ok_def)

lemma blocks_of_Some: "req_to_allocated_blocks m r = Some bs \<Longrightarrow> blocks_of m r = bs"
  by (simp add: blocks_of_def)

lemma pool_cong: "(\<And>b. R b = R' b) \<Longrightarrow> pool m R fl = pool m R' fl"
  by (simp add: pool_def)

text \<open>An entry for a request that has none yet.\<close>

lemma kv_ok_touch:
  assumes "kv_ok m fl"
  shows "kv_ok (set_blocks r (blocks_of m r) m) fl"
proof (cases "req_to_allocated_blocks m r")
  case None
  have "block_refs ((req_to_allocated_blocks m)(r \<mapsto> [])) b = block_refs (req_to_allocated_blocks m) b" for b
    using kv_ok_finite [OF assms] None by (rule block_refs_touch)
  with assms None show ?thesis
    by (auto simp: kv_ok_def blocks_of_def prefix_ok_def cong: pool_cong)
next
  case (Some bs)
  then have "set_blocks r (blocks_of m r) m = m"
    by (simp add: set_blocks_def blocks_of_def fun_upd_idem)
  with assms show ?thesis by simp
qed

text \<open>Extending one request's list, after the pool changed accordingly.\<close>

lemma kv_ok_extend:
  assumes ok: "kv_ok m fl" and own: "req_to_allocated_blocks m r = Some bs"
    and book: "same_book m m1" and b: "is_block m b"
    and pool1: "pool m1 (\<lambda>x. block_refs (req_to_allocated_blocks m) x + (if x = b then 1 else 0)) fl'"
    and tags: "\<And>x. is_block m x \<Longrightarrow> x \<noteq> b \<Longrightarrow> same_tag m m1 x"
    and fresh: "\<not> hash_valid (blk m1 b) \<longrightarrow> block_refs (req_to_allocated_blocks m) b = 0"
    and stable: "block_refs (req_to_allocated_blocks m) b \<noteq> 0 \<longrightarrow> same_tag m m1 b"
    and after: "hash_valid (blk m1 b) \<longrightarrow> (\<forall>x \<in> set bs. hash_valid (blk m x))"
  shows "kv_ok (set_blocks r (bs @ [b]) m1) fl'"
proof -
  let ?A = "req_to_allocated_blocks m"
  have fin: "finite (dom ?A)" using ok by (rule kv_ok_finite)
  have req: "req_to_allocated_blocks m1 = ?A" using book by (rule same_book_req)
  have refs: "block_refs (?A(r \<mapsto> bs @ [b])) x = block_refs ?A x + (if x = b then 1 else 0)" for x
    using block_refs_append [where r = r and A = ?A and bs = bs and cs = "[b]", OF fin own] by simp
  have ib: "is_block m1 x = is_block m x" for x using book by (rule same_book_is_block)
  have tag: "same_tag m m1 x" if x: "x \<in> set cs" "?A s = Some cs" for x cs s
  proof (cases "x = b")
    case True
    then show ?thesis using block_refs_pos [where A = ?A, OF fin x(2,1)] stable by auto
  next
    case False
    then show ?thesis using tags kv_ok_is_block [OF ok x(2,1)] by blast
  qed
  have pre: "prefix_ok m1 cs" if "?A s = Some cs" for s cs
    using prefix_ok_cong [of cs m m1] tag that kv_ok_prefix [OF ok that] by blast
  have "prefix_ok m1 (bs @ [b])"
    using pre [OF own] after tag [OF _ own]
    by (auto simp: prefix_ok_def sorted_wrt_append same_tag_def)
  moreover have "block_refs ?A x + (if x = b then 1 else 0) \<le> 1"
    if "is_block m x" "\<not> hash_valid (blk m1 x)" for x
    using that fresh tags [of x] kv_ok_exclusive [OF ok, of x] by (auto simp: same_tag_def)
  moreover have "num_block_slots m1 = num_block_slots m" using book by (simp add: same_book_def)
  moreover have "pool m1 (block_refs (?A(r \<mapsto> bs @ [b]))) fl'"
    using pool1 refs by (simp cong: pool_cong)
  ultimately show ?thesis
    using kv_ok_slots [OF ok] fin pre kv_ok_is_block [OF ok] own b
    by (auto simp: kv_ok_def req refs ib)
qed

lemma append_block_ok:
  assumes ok: "kv_ok m (b # fl)" and own: "req_to_allocated_blocks m r = Some bs"
  shows "\<exists>m'. append_block r m = Some m' \<and> kv_ok m' fl \<and> same_static m m'
     \<and> req_to_allocated_blocks m' = (req_to_allocated_blocks m)(r \<mapsto> bs @ [b])
     \<and> \<not> hash_valid (blk m' b) \<and> (\<forall>x. is_block m x \<and> x \<noteq> b \<longrightarrow> same_tag m m' x)"
proof -
  let ?R = "block_refs (req_to_allocated_blocks m)"
  from take_block_pool [OF kv_ok_pool [OF ok]] obtain m1 where m1: "take_block m = Some (b, m1)"
    "pool m1 (?R(b := 1)) fl" "same_book m m1" "\<not> hash_valid (blk m1 b)"
    "\<And>x. is_block m x \<Longrightarrow> x \<noteq> b \<Longrightarrow> same_tag m m1 x" by blast
  have b: "is_block m b" using kv_ok_pool [OF ok] by (auto intro: pool_free_is_block)
  have zero: "?R b = 0" using pool_free_iff [OF kv_ok_pool [OF ok] b] by simp
  have "?R(b := 1) = (\<lambda>x. ?R x + (if x = b then 1 else 0))" using zero by auto
  then have "kv_ok (set_blocks r (bs @ [b]) m1) fl"
    using m1 zero b by (intro kv_ok_extend [OF ok own]) auto
  then show ?thesis
    using m1 own same_book_static [OF m1(3)]
    by (simp add: append_block_def blocks_of_def same_book_req)
qed

lemma append_blocks_ok:
  assumes "kv_ok m (xs @ fl)" "req_to_allocated_blocks m r = Some bs"
  shows "\<exists>m'. repeat_opt (length xs) (append_block r) m = Some m' \<and> kv_ok m' fl \<and> same_static m m'
     \<and> req_to_allocated_blocks m' = (req_to_allocated_blocks m)(r \<mapsto> bs @ xs)
     \<and> (\<forall>x \<in> set xs. \<not> hash_valid (blk m' x))
     \<and> (\<forall>x. is_block m x \<and> x \<notin> set xs \<longrightarrow> same_tag m m' x)"
  using assms
proof (induction xs arbitrary: m bs)
  case Nil
  then show ?case by (simp add: fun_upd_idem)
next
  case (Cons b xs)
  from append_block_ok [OF Cons.prems(1)[simplified] Cons.prems(2)] obtain m1 where m1:
    "append_block r m = Some m1" "kv_ok m1 (xs @ fl)" "same_static m m1"
    "req_to_allocated_blocks m1 = (req_to_allocated_blocks m)(r \<mapsto> bs @ [b])"
    "\<not> hash_valid (blk m1 b)" "\<And>x. is_block m x \<Longrightarrow> x \<noteq> b \<Longrightarrow> same_tag m m1 x" by blast
  have own1: "req_to_allocated_blocks m1 r = Some (bs @ [b])" using m1(4) by simp
  from Cons.IH [OF m1(2) own1] obtain m' where m':
    "repeat_opt (length xs) (append_block r) m1 = Some m'" "kv_ok m' fl" "same_static m1 m'"
    "req_to_allocated_blocks m' = (req_to_allocated_blocks m1)(r \<mapsto> (bs @ [b]) @ xs)"
    "\<forall>x \<in> set xs. \<not> hash_valid (blk m' x)"
    "\<And>x. is_block m1 x \<Longrightarrow> x \<notin> set xs \<Longrightarrow> same_tag m1 m' x" by blast
  have b: "is_block m b" "b \<notin> set xs"
    using kv_ok_pool [OF Cons.prems(1)] by (auto intro: pool_free_is_block dest: pool_distinct)
  have ib: "is_block m1 x = is_block m x" for x using m1(3) by (rule same_static_is_block)
  have "\<not> hash_valid (blk m' b)" using m'(6) [of b] m1(5) b ib by (simp add: same_tag_def)
  moreover have "same_tag m m' x" if "is_block m x" "x \<notin> set (b # xs)" for x
    using that m1(6) [of x] m'(6) [of x] ib by (auto intro: same_tag_trans)
  ultimately show ?case
    using m1 m' same_static_trans [OF m1(3) m'(3)] by auto
qed

subsection \<open>Publishing full blocks\<close>

definition chain_ok :: "KVCacheManager \<Rightarrow> int list \<Rightarrow> int list \<Rightarrow> bool" where
  \<comment> \<open>every valid hash of a request's list is the hash of the request's own token prefix\<close>
  "chain_ok m toks bs \<longleftrightarrow> (\<forall>k < length bs. hash_valid (blk m (bs ! k))
     \<longrightarrow> block_hash_of (blk m (bs ! k)) = chain_hash (take (Suc k * nat (num_block_slots m)) toks))"

definition full_blocks :: "KVCacheManager \<Rightarrow> Request \<Rightarrow> int list \<Rightarrow> nat" where
  "full_blocks m r bs = min (length bs) (nat (num_computed_tokens r div num_block_slots m))"

lemma count_le_1_distinct: "(\<And>b. b \<in> set xs \<Longrightarrow> count_list xs b \<le> 1) \<Longrightarrow> distinct xs"
proof (induction xs)
  case (Cons a xs)
  from Cons.prems [of a] have "a \<notin> set xs" by (simp add: count_list_0_iff)
  moreover have "count_list xs b \<le> 1" if "b \<in> set xs" for b
    using Cons.prems [of b] that by (auto split: if_splits)
  ultimately show ?case using Cons.IH by simp
qed simp

lemma leading_valid_eval:
  "(\<And>b. b \<in> set bs \<Longrightarrow> is_block m b)
    \<Longrightarrow> leading_valid m bs = Some (length (takeWhile (\<lambda>b. hash_valid (blk m b)) bs))"
  by (induction bs) auto

lemma prefix_ok_drop_leading:
  assumes "prefix_ok m bs" "x \<in> set (drop (length (takeWhile (\<lambda>b. hash_valid (blk m b)) bs)) bs)"
  shows "\<not> hash_valid (blk m x)"
  using assms
proof (induction bs)
  case (Cons b bs)
  then show ?case by (auto simp: prefix_ok_def split: if_splits)
qed simp

lemma prefix_ok_take: "prefix_ok m bs \<Longrightarrow> prefix_ok m (take n bs)"
  by (simp add: prefix_ok_def sorted_wrt_take)

lemma subvec_nat:
  assumes "(i + 1) * s \<le> length xs"
  shows "subvec xs (int i * int s) (int s) = Some (take s (drop (i * s) xs))"
proof -
  have "int i * int s + int s \<le> int (length xs)"
    using assms by (simp flip: of_nat_mult of_nat_add add: add.commute)
  then show ?thesis by (simp add: subvec_def nat_mult_distrib)
qed

lemma hash_blocks_pool:
  assumes "pool m R fl" "distinct bs" "\<And>b. b \<in> set bs \<Longrightarrow> is_block m b \<and> \<not> hash_valid (blk m b)"
    and "num_block_slots m = int s" "(i + length bs) * s \<le> length toks"
  shows "\<exists>m'. hash_blocks toks (int i) h bs m = Some m' \<and> pool m' R fl \<and> same_book m m'
     \<and> (\<forall>x. is_block m x \<and> x \<notin> set bs \<longrightarrow> same_tag m m' x)
     \<and> (\<forall>k < length bs. hash_valid (blk m' (bs ! k))
          \<and> block_hash_of (blk m' (bs ! k)) = block_hash h (take (Suc k * s) (drop (i * s) toks)))"
  using assms
proof (induction bs arbitrary: i h m)
  case (Cons b bs)
  let ?h' = "block_hash h (take s (drop (i * s) toks))"
  have b: "is_block m b" "\<not> hash_valid (blk m b)" "b \<notin> set bs" using Cons.prems(2,3) by auto
  have "(i + 1) * s \<le> (i + length (b # bs)) * s" by simp
  then have in_range: "(i + 1) * s \<le> length toks" using Cons.prems(5) by linarith
  have subvec: "subvec toks (int i * num_block_slots m) (num_block_slots m) = Some (take s (drop (i * s) toks))"
    using in_range Cons.prems(4) by (simp add: subvec_nat)
  from insert_hash_pool [OF Cons.prems(1) b(1,2), of ?h'] obtain m1 where m1:
    "insert_hash ?h' b m = Some m1" "pool m1 R fl" "same_book m m1"
    "hash_valid (blk m1 b)" "block_hash_of (blk m1 b) = ?h'"
    "\<And>x. is_block m x \<Longrightarrow> x \<noteq> b \<Longrightarrow> same_tag m m1 x" by blast
  have ib: "is_block m1 x = is_block m x" for x using m1(3) by (rule same_book_is_block)
  have rest: "\<And>x. x \<in> set bs \<Longrightarrow> is_block m1 x \<and> \<not> hash_valid (blk m1 x)"
    using Cons.prems(2,3) m1(6) b(3) ib by (auto simp: same_tag_def)
  have s1: "num_block_slots m1 = int s" using m1(3) Cons.prems(4) by (simp add: same_book_def)
  have len: "(Suc i + length bs) * s \<le> length toks" using Cons.prems(5) by simp
  from Cons.IH [OF m1(2) _ rest s1 len, of ?h'] Cons.prems(2) obtain m' where m':
    "hash_blocks toks (int (Suc i)) ?h' bs m1 = Some m'" "pool m' R fl" "same_book m1 m'"
    "\<And>x. is_block m1 x \<Longrightarrow> x \<notin> set bs \<Longrightarrow> same_tag m1 m' x"
    "\<And>k. k < length bs \<Longrightarrow> hash_valid (blk m' (bs ! k))
      \<and> block_hash_of (blk m' (bs ! k)) = block_hash ?h' (take (Suc k * s) (drop (Suc i * s) toks))" by auto
  have run: "hash_blocks toks (int i) h (b # bs) m = Some m'"
    using subvec m1(1) m'(1) by (simp add: add.commute)
  have tags: "\<forall>x. is_block m x \<and> x \<notin> set (b # bs) \<longrightarrow> same_tag m m' x"
    using m1(6) m'(4) ib by (auto intro: same_tag_trans)
  have "hash_valid (blk m' ((b # bs) ! k))
      \<and> block_hash_of (blk m' ((b # bs) ! k)) = block_hash h (take (Suc k * s) (drop (i * s) toks))"
    if k: "k < length (b # bs)" for k
  proof (cases k)
    case 0
    then show ?thesis using m'(4) [of b] ib b m1(4,5) by (simp add: same_tag_def)
  next
    case (Suc j)
    have "take (Suc k * s) (drop (i * s) toks)
        = take s (drop (i * s) toks) @ take (Suc j * s) (drop (Suc i * s) toks)"
      unfolding Suc by (simp add: take_add add.commute)
    then show ?thesis using m'(5) [of j] k Suc by (simp add: block_hash_append)
  qed
  with run m'(2) same_book_trans [OF m1(3) m'(3)] tags show ?case by blast
qed simp

text \<open>
  What \<open>cache_full_blocks\<close> does to the tags: the first \<open>full_blocks\<close> blocks of the list become
  valid, under the chained hash; a block that was valid before keeps its hash.
\<close>

lemma cache_full_blocks_pool:
  assumes ok: "kv_ok m fl" and own: "req_to_allocated_blocks m rid = Some bs"
    and range: "0 \<le> num_computed_tokens r" "num_computed_tokens r \<le> num_tokens r"
    and en: "enable_prefix_caching m"
  defines "F \<equiv> full_blocks m r bs"
    and "t \<equiv> length (takeWhile (\<lambda>b. hash_valid (blk m b)) (take (full_blocks m r bs) bs))"
  shows "\<exists>m'. cache_full_blocks r bs m = Some m'
     \<and> pool m' (block_refs (req_to_allocated_blocks m)) fl \<and> same_book m m'
     \<and> (\<forall>x. is_block m x \<and> x \<notin> set (drop t (take F bs)) \<longrightarrow> same_tag m m' x)
     \<and> (\<forall>k. t \<le> k \<and> k < F \<longrightarrow> hash_valid (blk m' (bs ! k))
          \<and> block_hash_of (blk m' (bs ! k)) =
              block_hash (if t = 0 then kHashSeed else block_hash_of (blk m (bs ! (t - 1))))
                (take (Suc (k - t) * nat (num_block_slots m)) (drop (t * nat (num_block_slots m)) (token_ids r))))"
proof -
  let ?s = "nat (num_block_slots m)"
  let ?h = "if t = 0 then kHashSeed else block_hash_of (blk m (bs ! (t - 1)))"
  have slots: "0 < num_block_slots m" using ok by (rule kv_ok_slots)
  have F: "F \<le> length bs" "int F = min (int (length bs)) (num_computed_tokens r div num_block_slots m)"
  proof -
    have "0 \<le> num_computed_tokens r div num_block_slots m"
      using range(1) slots by (simp add: pos_imp_zdiv_nonneg_iff)
    then show "F \<le> length bs" "int F = min (int (length bs)) (num_computed_tokens r div num_block_slots m)"
      by (simp_all add: F_def full_blocks_def of_nat_min)
  qed
  have bnd: "\<And>b. b \<in> set (take F bs) \<Longrightarrow> is_block m b"
    using kv_ok_is_block [OF ok own] by (auto dest: in_set_takeD)
  have tF: "t \<le> F" unfolding t_def F_def [symmetric]
    using length_takeWhile_le [of "\<lambda>b. hash_valid (blk m b)" "take F bs"] F(1) by simp
  have lead: "leading_valid m (take F bs) = Some t"
    unfolding t_def F_def [symmetric] using bnd by (rule leading_valid_eval)
  have natF: "nat (min (int (length bs)) (num_computed_tokens r div num_block_slots m)) = F"
    using F(2) by linarith
  have eval: "cache_full_blocks r bs m = (if t = F then Some m
      else hash_blocks (token_ids r) (int t) ?h (drop t (take F bs)) m)"
    using en slots range(1) lead F(2) natF tF kv_ok_is_block [OF ok own, of "bs ! (t - 1)"] F(1)
    by (auto simp: cache_full_blocks_def c_div_nonneg simp flip: F(2))
  show ?thesis
  proof (cases "t = F")
    case True
    then show ?thesis using eval kv_ok_pool [OF ok] by auto
  next
    case False
    have inv: "\<not> hash_valid (blk m x)" if "x \<in> set (drop t (take F bs))" for x
      using that unfolding t_def F_def [symmetric]
      by (rule prefix_ok_drop_leading [OF prefix_ok_take [OF kv_ok_prefix [OF ok own]]])
    have fresh: "is_block m x \<and> \<not> hash_valid (blk m x)" if "x \<in> set (drop t (take F bs))" for x
      using that inv bnd by (auto dest: in_set_dropD)
    have "distinct (drop t (take F bs))"
    proof (rule count_le_1_distinct)
      fix x assume x: "x \<in> set (drop t (take F bs))"
      have "count_list (drop t (take F bs)) x \<le> count_list bs x"
        by (metis append_take_drop_id count_list_append le_add1 le_add2 order_trans)
      also have "\<dots> \<le> block_refs (req_to_allocated_blocks m) x"
        using kv_ok_finite [OF ok] own by (rule block_refs_member)
      also have "\<dots> \<le> 1" using kv_ok_exclusive [OF ok] fresh [OF x] by blast
      finally show "count_list (drop t (take F bs)) x \<le> 1" .
    qed
    moreover have "(t + length (drop t (take F bs))) * ?s \<le> length (token_ids r)"
    proof -
      have "int F * num_block_slots m \<le> num_computed_tokens r div num_block_slots m * num_block_slots m"
        using F(2) slots by (intro mult_right_mono) auto
      also have "\<dots> \<le> num_computed_tokens r"
        using slots by (metis div_mult_mod_eq le_add_same_cancel1 pos_mod_sign)
      finally have "int (F * ?s) \<le> num_tokens r" using range(2) slots by simp
      then have "F * ?s \<le> length (token_ids r)" unfolding num_tokens_def of_nat_le_iff .
      then show ?thesis using tF F(1) by simp
    qed
    ultimately obtain m' where m': "hash_blocks (token_ids r) (int t) ?h (drop t (take F bs)) m = Some m'"
      "pool m' (block_refs (req_to_allocated_blocks m)) fl" "same_book m m'"
      "\<And>x. is_block m x \<Longrightarrow> x \<notin> set (drop t (take F bs)) \<Longrightarrow> same_tag m m' x"
      "\<And>k. k < F - t \<Longrightarrow> hash_valid (blk m' (drop t (take F bs) ! k))
        \<and> block_hash_of (blk m' (drop t (take F bs) ! k))
          = block_hash ?h (take (Suc k * ?s) (drop (t * ?s) (token_ids r)))"
      using hash_blocks_pool [OF kv_ok_pool [OF ok] _ fresh, of "drop t (take F bs)" ?s t "token_ids r" ?h]
        slots F(1) by auto
    have "hash_valid (blk m' (bs ! k)) \<and> block_hash_of (blk m' (bs ! k))
        = block_hash ?h (take (Suc (k - t) * ?s) (drop (t * ?s) (token_ids r)))"
      if "t \<le> k" "k < F" for k
      using m'(5) [of "k - t"] that F(1) by simp
    with False eval m' show ?thesis by auto
  qed
qed

text \<open>Two entries that name the same unfinished block are the same entry.\<close>

lemma kv_ok_invalid_unique:
  assumes ok: "kv_ok m fl" and own: "req_to_allocated_blocks m rid = Some bs"
    and ij: "i < length bs" "j < length bs" "bs ! i = bs ! j" and nv: "\<not> hash_valid (blk m (bs ! i))"
  shows "i = j"
proof (rule ccontr)
  assume "i \<noteq> j"
  with ij have "2 \<le> count_list bs (bs ! i)" by (intro count_list_le_1_distinct) auto
  also have "\<dots> \<le> block_refs (req_to_allocated_blocks m) (bs ! i)"
    using kv_ok_finite [OF ok] own by (rule block_refs_member)
  also have "\<dots> \<le> 1" using kv_ok_exclusive [OF ok _ nv] kv_ok_is_block [OF ok own] ij(1) by simp
  finally show False by simp
qed

lemma kv_ok_invalid_owner:
  assumes ok: "kv_ok m fl" and own: "req_to_allocated_blocks m r = Some bs" "req_to_allocated_blocks m s = Some cs"
    and b: "b \<in> set bs" "b \<in> set cs" and nv: "\<not> hash_valid (blk m b)"
  shows "r = s"
proof (rule ccontr)
  assume "r \<noteq> s"
  then have "count_list bs b + count_list cs b \<le> block_refs (req_to_allocated_blocks m) b"
    using kv_ok_finite [OF ok] own by (intro block_refs_two)
  also have "\<dots> \<le> 1" using kv_ok_exclusive [OF ok _ nv] kv_ok_is_block [OF ok own(1) b(1)] by simp
  finally have "count_list bs b = 0 \<or> count_list cs b = 0" by linarith
  then show False using b by (auto simp: count_list_0_iff)
qed

text \<open>Making some of a list's unfinished blocks valid, in order, keeps the invariant.\<close>

lemma kv_ok_publish:
  assumes ok: "kv_ok m fl" and own: "req_to_allocated_blocks m rid = Some bs"
    and pool': "pool m' (block_refs (req_to_allocated_blocks m)) fl" and book: "same_book m m'"
    and tags: "\<And>x. is_block m x \<Longrightarrow> hash_valid (blk m x) \<or> x \<notin> set bs \<Longrightarrow> same_tag m m' x"
    and valid: "\<And>k. k < length bs \<Longrightarrow> hash_valid (blk m' (bs ! k)) \<longleftrightarrow> hash_valid (blk m (bs ! k)) \<or> k < F"
  shows "kv_ok m' fl"
proof -
  let ?A = "req_to_allocated_blocks m"
  have req: "req_to_allocated_blocks m' = ?A" using book by (rule same_book_req)
  have ib: "is_block m' x = is_block m x" for x using book by (rule same_book_is_block)
  have "prefix_ok m' bs"
    unfolding prefix_ok_def sorted_wrt_iff_nth_less
    using valid prefix_ok_nth [OF kv_ok_prefix [OF ok own]] by fastforce
  moreover have "prefix_ok m' cs" if cs: "?A s = Some cs" "s \<noteq> rid" for s cs
  proof -
    have "same_tag m m' x" if "x \<in> set cs" for x
      using tags [of x] kv_ok_invalid_owner [OF ok own cs(1) _ that] cs(2) kv_ok_is_block [OF ok cs(1) that]
      by blast
    then show ?thesis using prefix_ok_cong [of cs m m'] kv_ok_prefix [OF ok cs(1)] by blast
  qed
  ultimately have "prefix_ok m' cs" if "?A s = Some cs" for s cs
    using that own by (cases "s = rid") auto
  moreover have "block_refs ?A x \<le> 1" if x: "is_block m x" "\<not> hash_valid (blk m' x)" for x
    using kv_ok_exclusive [OF ok x(1)] tags [OF x(1)] x(2) by (auto simp: same_tag_def)
  moreover have "num_block_slots m' = num_block_slots m" using book by (simp add: same_book_def)
  ultimately show ?thesis
    using kv_ok_slots [OF ok] kv_ok_finite [OF ok] kv_ok_is_block [OF ok] pool'
    by (auto simp: kv_ok_def req ib)
qed

lemma cache_full_blocks_ok:
  assumes ok: "kv_ok m fl" and own: "req_to_allocated_blocks m rid = Some bs"
    and range: "0 \<le> num_computed_tokens r" "num_computed_tokens r \<le> num_tokens r"
  shows "\<exists>m'. cache_full_blocks r bs m = Some m' \<and> kv_ok m' fl \<and> same_book m m'
     \<and> (\<forall>x. is_block m x \<and> (hash_valid (blk m x) \<or> x \<notin> set bs) \<longrightarrow> same_tag m m' x)
     \<and> (\<forall>k < length bs. hash_valid (blk m' (bs ! k)) \<longleftrightarrow> hash_valid (blk m (bs ! k))
          \<or> enable_prefix_caching m \<and> k < full_blocks m r bs)
     \<and> (chain_ok m (token_ids r) bs \<longrightarrow> chain_ok m' (token_ids r) bs)"
proof (cases "enable_prefix_caching m")
  case False
  then show ?thesis using ok by (simp add: cache_full_blocks_def)
next
  case en: True
  define F where "F = full_blocks m r bs"
  define t where "t = length (takeWhile (\<lambda>b. hash_valid (blk m b)) (take F bs))"
  let ?s = "nat (num_block_slots m)" and ?new = "set (drop t (take F bs))"
  from cache_full_blocks_pool [OF ok own range en, folded F_def, folded t_def] obtain m' where
    run: "cache_full_blocks r bs m = Some m'" and
    pool': "pool m' (block_refs (req_to_allocated_blocks m)) fl" and book: "same_book m m'" and
    tags: "\<And>x. is_block m x \<Longrightarrow> x \<notin> ?new \<Longrightarrow> same_tag m m' x" and
    new: "\<And>k. t \<le> k \<Longrightarrow> k < F \<Longrightarrow> hash_valid (blk m' (bs ! k)) \<and> block_hash_of (blk m' (bs ! k)) =
              block_hash (if t = 0 then kHashSeed else block_hash_of (blk m (bs ! (t - 1))))
                (take (Suc (k - t) * ?s) (drop (t * ?s) (token_ids r)))" by blast
  have F: "F \<le> length bs" by (simp add: F_def full_blocks_def)
  have lead: "hash_valid (blk m (bs ! k))" if "k < t" for k
    using that nth_mem [of k "takeWhile (\<lambda>b. hash_valid (blk m b)) (take F bs)"] F
      takeWhile_nth [of k "\<lambda>b. hash_valid (blk m b)" "take F bs"]
      length_takeWhile_le [of "\<lambda>b. hash_valid (blk m b)" "take F bs"]
    by (auto simp: t_def dest!: set_takeWhileD)
  have inv: "\<not> hash_valid (blk m x)" if "x \<in> ?new" for x
    using that unfolding t_def
    by (rule prefix_ok_drop_leading [OF prefix_ok_take [OF kv_ok_prefix [OF ok own]]])
  have in_new: "bs ! k \<in> ?new \<longleftrightarrow> t \<le> k \<and> k < F" if k: "k < length bs" for k
  proof
    assume x: "bs ! k \<in> ?new"
    then obtain j where j: "j < F - t" "bs ! (t + j) = bs ! k" using F by (auto simp: in_set_conv_nth)
    then have "t + j = k" using k F inv [OF x] by (intro kv_ok_invalid_unique [OF ok own]) auto
    then show "t \<le> k \<and> k < F" using j by auto
  next
    assume "t \<le> k \<and> k < F"
    then show "bs ! k \<in> ?new" using F by (auto simp: in_set_conv_nth intro!: exI [of _ "k - t"])
  qed
  have tags': "same_tag m m' x" if "is_block m x" "hash_valid (blk m x) \<or> x \<notin> set bs" for x
    using that tags inv by (meson in_set_dropD in_set_takeD)
  have valid: "hash_valid (blk m' (bs ! k)) \<longleftrightarrow> hash_valid (blk m (bs ! k)) \<or> k < F" if k: "k < length bs" for k
    using tags [of "bs ! k"] kv_ok_is_block [OF ok own, of "bs ! k"] in_new [OF k] new [of k] lead [of k] k
    by (cases "t \<le> k \<and> k < F") (auto simp: same_tag_def)
  have ok': "kv_ok m' fl" by (rule kv_ok_publish [OF ok own pool' book tags' valid])
  have "chain_ok m' (token_ids r) bs" if chain: "chain_ok m (token_ids r) bs"
    unfolding chain_ok_def
  proof (intro allI impI)
    fix k assume k: "k < length bs" "hash_valid (blk m' (bs ! k))"
    have slots: "num_block_slots m' = num_block_slots m" using book by (simp add: same_book_def)
    have h0: "(if t = 0 then kHashSeed else block_hash_of (blk m (bs ! (t - 1))))
        = chain_hash (take (t * ?s) (token_ids r))" if "t < F"
    proof (cases t)
      case (Suc j)
      then show ?thesis using chain lead [of j] that F by (auto simp: chain_ok_def)
    qed simp
    show "block_hash_of (blk m' (bs ! k)) = chain_hash (take (Suc k * nat (num_block_slots m')) (token_ids r))"
    proof (cases "t \<le> k \<and> k < F")
      case True
      have "Suc k = t + Suc (k - t)" using True by simp
      then have "take (Suc k * ?s) (token_ids r) = take (t * ?s) (token_ids r)
          @ take (Suc (k - t) * ?s) (drop (t * ?s) (token_ids r))"
        by (simp only: add_mult_distrib take_add)
      then show ?thesis using new [of k] True h0 slots by (simp add: chain_hash_append)
    next
      case False
      then have "same_tag m m' (bs ! k)"
        using tags in_new [OF k(1)] kv_ok_is_block [OF ok own] k(1) by simp
      then show ?thesis using chain k slots by (simp add: chain_ok_def same_tag_def)
    qed
  qed
  with run ok' book tags' valid en show ?thesis unfolding F_def by blast
qed

end
