(* ===== verification/KV_Contract.thy ===== *)
theory KV_Contract
  imports KV_Invariant
begin

text \<open>
  The contract of the public operations of \<open>KVCacheManager\<close>: each returns (no failed
  \<open>assert\<close>, no index out of range), keeps the invariant, and has the stated effect on the free
  list and on the block lists of the requests.
\<close>

subsection \<open>Construction\<close>

lemma map_replicate_new: "x \<in> set (replicate n new_block) \<Longrightarrow> x = new_block"
  by simp

lemma create_ok:
  assumes "0 \<le> cfg_num_blocks cfg" "0 < cfg_num_block_slots cfg"
  shows "\<exists>m. KVCacheManager_create cfg = Some m \<and> kv_ok m [0..cfg_num_blocks cfg - 1]
     \<and> req_to_allocated_blocks m = Map.empty \<and> num_block_slots m = cfg_num_block_slots cfg
     \<and> enable_prefix_caching m = cfg_enable_prefix_caching cfg
     \<and> int (length (blocks m)) = cfg_num_blocks cfg
     \<and> (\<forall>b. is_block m b \<longrightarrow> \<not> hash_valid (blk m b))"
proof -
  let ?n = "cfg_num_blocks cfg"
  define m0 where "m0 = \<lparr>num_block_slots = cfg_num_block_slots cfg,
        enable_prefix_caching = cfg_enable_prefix_caching cfg,
        blocks = replicate (nat ?n) new_block, free_head = -1, free_tail = -1, num_free_blocks = 0,
        hash_to_block = Map.empty, req_to_allocated_blocks = Map.empty,
        stats = \<lparr>num_queries = 0, num_hits = 0, num_reused_tokens = 0,
          num_cached_blocks = 0, stats_num_blocks = 0\<rparr>\<rparr>"
  have ib: "is_block m0 b \<longleftrightarrow> 0 \<le> b \<and> b < ?n" for b using assms(1) by (auto simp: m0_def in_bounds_def)
  have blk0: "blk m0 b = new_block" if "is_block m0 b" for b
    using in_bounds_nat [OF that] by (simp add: m0_def)
  have "free_list m0 []" by (simp add: free_list_def m0_def)
  moreover have "pushable m0 b" if "b \<in> set [0..?n - 1]" for b
    using that ib blk0 [of b] by (simp add: pushable_def new_block_def)
  ultimately obtain m where m: "fold_opt push_free [0..?n - 1] m0 = Some m"
      "free_list m ([] @ [0..?n - 1])" "payload m = payload m0"
    using fq.push_all [of m0 "[]" "[0..?n - 1]"] by auto
  have ibm: "is_block m b \<longleftrightarrow> is_block m0 b" for b
    using payload_fields(6) [OF m(3)] by (simp add: in_bounds_def)
  have "index_ok m0" using blk0 by (auto simp: index_ok_def m0_def new_block_def)
  then have "index_ok m" using payload_index_ok [OF m(3)] by simp
  moreover have req: "req_to_allocated_blocks m = Map.empty" using payload_fields(4) [OF m(3)] by (simp add: m0_def)
  moreover have "ref_count (blk m b) = 0 \<and> \<not> hash_valid (blk m b)" if "is_block m b" for b
    using that payload_block(1,3) [OF m(3), of b] ibm blk0 by (simp add: new_block_def)
  moreover have slots: "num_block_slots m = cfg_num_block_slots cfg" using payload_fields(1) [OF m(3)] by (simp add: m0_def)
  ultimately have "kv_ok m [0..?n - 1]"
    using m(2) assms(2) ibm ib by (simp add: kv_ok_def pool_def)
  moreover have "KVCacheManager_create cfg = Some m"
    using m(1) assms(1) unfolding KVCacheManager_create_def m0_def by simp
  moreover have "enable_prefix_caching m = cfg_enable_prefix_caching cfg"
    using payload_fields(2) [OF m(3)] by (simp add: m0_def)
  moreover have "int (length (blocks m)) = ?n" using payload_fields(6) [OF m(3)] assms(1) by (simp add: m0_def)
  moreover have "\<forall>b. is_block m b \<longrightarrow> \<not> hash_valid (blk m b)"
    using payload_block(3) [OF m(3)] ibm blk0 by (simp add: new_block_def)
  ultimately show ?thesis using req slots by blast
qed

subsection \<open>Allocation\<close>

definition blocks_needed :: "KVCacheManager \<Rightarrow> Request \<Rightarrow> int \<Rightarrow> int" where
  "blocks_needed m r n = (num_computed_tokens r + n + num_block_slots m - 1) div num_block_slots m
     - int (length (blocks_of m (req_id r)))"

lemma allocate_slots_fail:
  assumes "kv_ok m fl" "0 < n" "0 \<le> num_computed_tokens r" "blocks_needed m r n > int (length fl)"
  shows "allocate_slots r n m = Some (False, m)"
  using assms kv_ok_slots [OF assms(1)] kv_ok_num_free [OF assms(1)]
  by (simp add: allocate_slots_def c_div_nonneg blocks_needed_def)

lemma allocate_slots_ok:
  assumes ok: "kv_ok m fl" and n: "0 < n"
    and range: "0 \<le> num_computed_tokens r" "num_computed_tokens r \<le> num_tokens r"
    and need: "0 \<le> blocks_needed m r n" "blocks_needed m r n \<le> int (length fl)"
  defines "k \<equiv> nat (blocks_needed m r n)"
  defines "bs \<equiv> blocks_of m (req_id r)"
  defines "bs' \<equiv> bs @ take k fl"
  shows "\<exists>m'. allocate_slots r n m = Some (True, m') \<and> kv_ok m' (drop k fl) \<and> same_static m m'
     \<and> req_to_allocated_blocks m' = (req_to_allocated_blocks m)(req_id r \<mapsto> bs')
     \<and> (\<forall>x. is_block m x \<and> x \<notin> set (take k fl) \<and> (hash_valid (blk m x) \<or> x \<notin> set bs) \<longrightarrow> same_tag m m' x)
     \<and> (\<forall>i < length bs'. hash_valid (blk m' (bs' ! i)) \<longleftrightarrow> i < length bs \<and> hash_valid (blk m (bs ! i))
          \<or> enable_prefix_caching m \<and> i < full_blocks m r bs')
     \<and> (chain_ok m (token_ids r) bs \<longrightarrow> chain_ok m' (token_ids r) bs')"
proof -
  let ?A = "req_to_allocated_blocks m" and ?id = "req_id r"
  have slots: "0 < num_block_slots m" using ok by (rule kv_ok_slots)
  have len: "length (take k fl) = k" using need by (simp add: k_def)
  define m0 where "m0 = set_blocks ?id bs m"
  have ok0: "kv_ok m0 (take k fl @ drop k fl)" using kv_ok_touch [OF ok, of ?id] by (simp add: m0_def bs_def)
  have own0: "req_to_allocated_blocks m0 ?id = Some bs" by (simp add: m0_def)
  from append_blocks_ok [OF ok0 own0] len obtain m1 where m1:
    "repeat_opt k (append_block ?id) m0 = Some m1" "kv_ok m1 (drop k fl)" "same_static m0 m1"
    "req_to_allocated_blocks m1 = (req_to_allocated_blocks m0)(?id \<mapsto> bs')"
    "\<And>x. x \<in> set (take k fl) \<Longrightarrow> \<not> hash_valid (blk m1 x)"
    "\<And>x. is_block m0 x \<Longrightarrow> x \<notin> set (take k fl) \<Longrightarrow> same_tag m0 m1 x"
    by (auto simp: bs'_def)
  have own1: "req_to_allocated_blocks m1 ?id = Some bs'" using m1(4) by simp
  have static1: "same_static m m1" using m1(3) by (simp add: m0_def same_static_def)
  have tag1: "same_tag m m1 x" if "is_block m x" "x \<notin> set (take k fl)" for x
    using m1(6) [of x] that by (simp add: m0_def same_tag_def)
  from cache_full_blocks_ok [OF m1(2) own1 range] obtain m' where m':
    "cache_full_blocks r bs' m1 = Some m'" "kv_ok m' (drop k fl)" "same_book m1 m'"
    "\<And>x. is_block m1 x \<Longrightarrow> hash_valid (blk m1 x) \<or> x \<notin> set bs' \<Longrightarrow> same_tag m1 m' x"
    "\<And>i. i < length bs' \<Longrightarrow> hash_valid (blk m' (bs' ! i)) \<longleftrightarrow> hash_valid (blk m1 (bs' ! i))
       \<or> enable_prefix_caching m1 \<and> i < full_blocks m1 r bs'"
    "chain_ok m1 (token_ids r) bs' \<longrightarrow> chain_ok m' (token_ids r) bs'" by blast
  have ib: "is_block m1 x = is_block m x" for x using static1 by (rule same_static_is_block)
  have same: "num_block_slots m1 = num_block_slots m" "enable_prefix_caching m1 = enable_prefix_caching m"
    "full_blocks m1 r bs' = full_blocks m r bs'"
    using static1 by (simp_all add: same_static_def full_blocks_def)
  have bs_old: "is_block m x \<and> x \<notin> set (take k fl)" if "x \<in> set bs" for x
  proof -
    have own: "?A ?id = Some bs" using that by (cases "?A ?id") (simp_all add: bs_def blocks_of_def)
    have "is_block m x" using kv_ok_is_block [OF ok own that] .
    moreover have "x \<notin> set fl"
      using block_refs_pos [where A = ?A, OF kv_ok_finite [OF ok] own that] pool_free_iff [OF kv_ok_pool [OF ok]] calculation by simp
    ultimately show ?thesis by (auto dest: in_set_takeD)
  qed
  have old: "hash_valid (blk m1 (bs' ! i)) \<longleftrightarrow> i < length bs \<and> hash_valid (blk m (bs ! i))" if "i < length bs'" for i
  proof (cases "i < length bs")
    case True
    then show ?thesis using tag1 [of "bs ! i"] bs_old [of "bs ! i"] by (simp add: bs'_def nth_append same_tag_def)
  next
    case False
    moreover have "take k fl ! (i - length bs) \<in> set (take k fl)"
      using that False by (intro nth_mem, simp add: bs'_def, linarith)
    ultimately have "bs' ! i \<in> set (take k fl)" by (simp add: bs'_def nth_append del: nth_take)
    then show ?thesis using m1(5) False by simp
  qed
  have "allocate_slots r n m = Some (True, m')"
    using n slots range(1) need m1(1) m'(1) kv_ok_num_free [OF ok] own1
    by (simp add: allocate_slots_def c_div_nonneg blocks_needed_def k_def bs_def [symmetric] m0_def [symmetric] blocks_of_Some)
  moreover have "same_static m m'"
    using static1 same_book_static [OF m'(3)] by (rule same_static_trans)
  moreover have "req_to_allocated_blocks m' = ?A(?id \<mapsto> bs')"
    using m1(4) m'(3) by (simp add: m0_def same_book_req)
  moreover have "same_tag m m' x"
    if "is_block m x" "x \<notin> set (take k fl)" "hash_valid (blk m x) \<or> x \<notin> set bs" for x
    using tag1 [OF that(1,2)] m'(4) [of x] that ib by (auto simp: same_tag_def bs'_def)
  moreover have "hash_valid (blk m' (bs' ! i)) \<longleftrightarrow> i < length bs \<and> hash_valid (blk m (bs ! i))
      \<or> enable_prefix_caching m \<and> i < full_blocks m r bs'" if "i < length bs'" for i
    using m'(5) [OF that] old [OF that] same by simp
  moreover have "chain_ok m' (token_ids r) bs'" if "chain_ok m (token_ids r) bs"
  proof -
    have "chain_ok m1 (token_ids r) bs'"
      unfolding chain_ok_def
    proof (intro allI impI)
      fix i assume i: "i < length bs'" "hash_valid (blk m1 (bs' ! i))"
      then have j: "i < length bs" "hash_valid (blk m (bs ! i))" using old by auto
      then show "block_hash_of (blk m1 (bs' ! i)) = chain_hash (take (Suc i * nat (num_block_slots m1)) (token_ids r))"
        using that tag1 [of "bs ! i"] bs_old [of "bs ! i"] same(1)
        by (simp add: chain_ok_def bs'_def nth_append same_tag_def)
    qed
    then show ?thesis using m'(6) by blast
  qed
  ultimately show ?thesis using m'(2) by blast
qed

subsection \<open>Release\<close>

fun freed :: "(int \<Rightarrow> nat) \<Rightarrow> int list \<Rightarrow> int list" where
  \<comment> \<open>the blocks whose last reference a list drops, in the order of the list\<close>
  "freed R [] = []"
| "freed R (b # bs) = (if R b = 1 then [b] else []) @ freed (R(b := R b - 1)) bs"

lemma set_freed:
  "(\<And>b. count_list bs b \<le> R b) \<Longrightarrow> set (freed R bs) = {b \<in> set bs. R b = count_list bs b}"
proof (induction bs arbitrary: R)
  case (Cons a bs)
  have le: "count_list bs b \<le> (R(a := R a - 1)) b" for b
    using Cons.prems [of b] by (auto split: if_splits)
  have ge: "Suc (count_list bs a) \<le> R a" using Cons.prems [of a] by simp
  have zero: "count_list bs a = 0 \<longleftrightarrow> a \<notin> set bs" by (simp add: count_list_0_iff)
  have IH: "set (freed (R(a := R a - 1)) bs) = {b \<in> set bs. (R(a := R a - 1)) b = count_list bs b}"
    using le by (rule Cons.IH)
  show ?case
  proof (rule set_eqI)
    fix x
    have "x \<in> set (freed R (a # bs)) \<longleftrightarrow> R a = 1 \<and> x = a
        \<or> x \<in> set bs \<and> (R(a := R a - 1)) x = count_list bs x"
      unfolding freed.simps set_append IH by simp
    then show "x \<in> set (freed R (a # bs)) \<longleftrightarrow> x \<in> {b \<in> set (a # bs). R b = count_list (a # bs) b}"
      using ge zero by (cases "x = a") auto
  qed
qed simp

lemma release_all_pool:
  assumes "pool m R fl" "\<And>b. b \<in> set bs \<Longrightarrow> is_block m b" "\<And>b. count_list bs b \<le> R b"
  shows "\<exists>m'. fold_opt release_block bs m = Some m'
     \<and> pool m' (\<lambda>b. R b - count_list bs b) (fl @ freed R bs) \<and> same_book m m'
     \<and> (\<forall>x. is_block m x \<longrightarrow> same_tag m m' x)"
  using assms
proof (induction bs arbitrary: m R fl)
  case (Cons a bs)
  have pos: "0 < R a" using Cons.prems(3) [of a] by simp
  have a: "is_block m a" using Cons.prems(2) by simp
  from release_block_pool [OF Cons.prems(1) a pos] obtain m1 where m1:
    "release_block a m = Some m1" "pool m1 (R(a := R a - 1)) (if R a = 1 then fl @ [a] else fl)"
    "same_book m m1" "\<And>x. is_block m x \<Longrightarrow> same_tag m m1 x" by blast
  have ib: "is_block m1 x = is_block m x" for x using m1(3) by (rule same_book_is_block)
  have le: "count_list bs b \<le> (R(a := R a - 1)) b" for b
    using Cons.prems(3) [of b] by (auto split: if_splits)
  have bnd: "\<And>b. b \<in> set bs \<Longrightarrow> is_block m1 b" using Cons.prems(2) ib by simp
  from Cons.IH [OF m1(2) bnd le] obtain m' where m':
    "fold_opt release_block bs m1 = Some m'"
    "pool m' (\<lambda>b. (R(a := R a - 1)) b - count_list bs b)
       ((if R a = 1 then fl @ [a] else fl) @ freed (R(a := R a - 1)) bs)"
    "same_book m1 m'" "\<And>x. is_block m1 x \<Longrightarrow> same_tag m1 m' x" by blast
  have "(\<lambda>b. (R(a := R a - 1)) b - count_list bs b) = (\<lambda>b. R b - count_list (a # bs) b)" by auto
  then have "pool m' (\<lambda>b. R b - count_list (a # bs) b) (fl @ freed R (a # bs))"
    using m'(2) by (auto split: if_splits)
  moreover have "same_tag m m' x" if "is_block m x" for x
    using m1(4) m'(4) ib that by (auto intro: same_tag_trans)
  ultimately show ?case
    using m1(1) m'(1) same_book_trans [OF m1(3) m'(3)] by auto
qed simp

lemma release_blocks_none:
  "req_to_allocated_blocks m (req_id r) = None \<Longrightarrow> release_blocks r m = Some m"
  by (simp add: release_blocks_def)

lemma release_blocks_ok:
  assumes ok: "kv_ok m fl" and own: "req_to_allocated_blocks m (req_id r) = Some bs"
    and range: "0 \<le> num_computed_tokens r" "num_computed_tokens r \<le> num_tokens r"
  shows "\<exists>m'. release_blocks r m = Some m'
     \<and> kv_ok m' (fl @ freed (block_refs (req_to_allocated_blocks m)) bs) \<and> same_static m m'
     \<and> req_to_allocated_blocks m' = (req_to_allocated_blocks m)(req_id r := None)
     \<and> (\<forall>x. is_block m x \<and> (hash_valid (blk m x) \<or> x \<notin> set bs) \<longrightarrow> same_tag m m' x)
     \<and> (\<forall>k < length bs. hash_valid (blk m' (bs ! k)) \<longleftrightarrow> hash_valid (blk m (bs ! k))
          \<or> enable_prefix_caching m \<and> k < full_blocks m r bs)
     \<and> (chain_ok m (token_ids r) bs \<longrightarrow> chain_ok m' (token_ids r) bs)"
proof -
  let ?A = "req_to_allocated_blocks m" and ?id = "req_id r"
  have fin: "finite (dom ?A)" using ok by (rule kv_ok_finite)
  from cache_full_blocks_ok [OF ok own range] obtain m1 where m1:
    "cache_full_blocks r bs m = Some m1" "kv_ok m1 fl" "same_book m m1"
    "\<And>x. is_block m x \<Longrightarrow> hash_valid (blk m x) \<or> x \<notin> set bs \<Longrightarrow> same_tag m m1 x"
    "\<And>k. k < length bs \<Longrightarrow> hash_valid (blk m1 (bs ! k)) \<longleftrightarrow> hash_valid (blk m (bs ! k))
       \<or> enable_prefix_caching m \<and> k < full_blocks m r bs"
    "chain_ok m (token_ids r) bs \<longrightarrow> chain_ok m1 (token_ids r) bs" by blast
  have req1: "req_to_allocated_blocks m1 = ?A" using m1(3) by (rule same_book_req)
  have ib1: "is_block m1 x = is_block m x" for x using m1(3) by (rule same_book_is_block)
  have cnt: "count_list bs b \<le> block_refs ?A b" for b using fin own by (rule block_refs_member)
  from release_all_pool [of m1 "block_refs ?A" fl bs] kv_ok_pool [OF m1(2)] req1 ib1
    kv_ok_is_block [OF ok own] cnt
  obtain m2 where m2: "fold_opt release_block bs m1 = Some m2"
    "pool m2 (\<lambda>b. block_refs ?A b - count_list bs b) (fl @ freed (block_refs ?A) bs)" "same_book m1 m2"
    "\<And>x. is_block m1 x \<Longrightarrow> same_tag m1 m2 x" by auto
  have req2: "req_to_allocated_blocks m2 = ?A" using m2(3) req1 by (simp add: same_book_req)
  have ib2: "is_block m2 x = is_block m x" for x using same_book_is_block [OF m2(3)] ib1 by simp
  define m' where "m' = m2\<lparr>req_to_allocated_blocks := ?A(?id := None)\<rparr>"
  have refs: "block_refs ?A b - count_list bs b = block_refs (?A(?id := None)) b" for b
    using block_refs_split [OF fin, of b ?id] own by simp
  have tag2: "same_tag m1 m' x" if "is_block m x" for x
    using m2(4) that ib1 by (simp add: m'_def same_tag_def)
  have pool': "pool m' (block_refs (?A(?id := None))) (fl @ freed (block_refs ?A) bs)"
    using m2(2) by (simp add: refs m'_def pool_def free_list_def index_ok_def)
  have "prefix_ok m' cs" if "?A s = Some cs" for s cs
    using prefix_ok_cong [of cs m1 m'] kv_ok_prefix [OF m1(2)] tag2 kv_ok_is_block [OF ok that] that req1 by auto
  moreover have "block_refs (?A(?id := None)) x \<le> 1" if "is_block m x" "\<not> hash_valid (blk m' x)" for x
  proof -
    have "block_refs (?A(?id := None)) x \<le> block_refs ?A x" using refs [of x] by simp
    also have "\<dots> \<le> 1" using kv_ok_exclusive [OF m1(2), of x] that tag2 [of x] ib1 req1 by (auto simp: same_tag_def)
    finally show ?thesis .
  qed
  ultimately have "kv_ok m' (fl @ freed (block_refs ?A) bs)"
    using pool' fin kv_ok_slots [OF ok] kv_ok_is_block [OF ok] m1(3) m2(3) ib2
    by (auto simp: kv_ok_def m'_def same_book_def split: if_splits)
  moreover have "release_blocks r m = Some m'"
    using own m1(1) m2(1) req2 by (simp add: release_blocks_def m'_def)
  moreover have "same_static m m'" using m1(3) m2(3) by (simp add: m'_def same_book_def same_static_def)
  moreover have "req_to_allocated_blocks m' = ?A(?id := None)" by (simp add: m'_def)
  moreover have "same_tag m m' x" if "is_block m x" "hash_valid (blk m x) \<or> x \<notin> set bs" for x
    using m1(4) [OF that] tag2 [OF that(1)] by (rule same_tag_trans)
  moreover have "hash_valid (blk m' (bs ! k)) \<longleftrightarrow> hash_valid (blk m (bs ! k))
      \<or> enable_prefix_caching m \<and> k < full_blocks m r bs" if "k < length bs" for k
    using m1(5) [OF that] tag2 [of "bs ! k"] kv_ok_is_block [OF ok own] that by (simp add: same_tag_def)
  moreover have "chain_ok m' (token_ids r) bs" if "chain_ok m (token_ids r) bs"
    using m1(6) that tag2 kv_ok_is_block [OF ok own] m2(3)
    by (auto simp: chain_ok_def same_tag_def m'_def same_book_def)
  ultimately show ?thesis by blast
qed

subsection \<open>Reuse of a cached prefix\<close>

text \<open>
  The matched blocks are those published under the chained hashes of the request's own prefix,
  from the first block on and without a gap.
\<close>

lemma match_blocks_eval:
  assumes "num_block_slots m = int s" "(i + n) * s \<le> length toks" "h = chain_hash (take (i * s) toks)"
  shows "\<exists>bs. match_blocks toks (int i) h n m = Some bs \<and> length bs \<le> n
     \<and> (\<forall>k < length bs. hash_to_block m (chain_hash (take ((i + Suc k) * s) toks)) = Some (bs ! k))
     \<and> (length bs < n \<longrightarrow> hash_to_block m (chain_hash (take ((i + Suc (length bs)) * s) toks)) = None)"
  using assms(2,3)
proof (induction n arbitrary: i h)
  case (Suc n)
  have "(i + 1) * s \<le> (i + Suc n) * s" by simp
  then have in_range: "(i + 1) * s \<le> length toks" using Suc.prems(1) by linarith
  have slice: "subvec toks (int i * num_block_slots m) (num_block_slots m) = Some (take s (drop (i * s) toks))"
    unfolding assms(1) using in_range by (rule subvec_nat)
  define h' where "h' = chain_hash (take (Suc i * s) toks)"
  have h': "block_hash h (take s (drop (i * s) toks)) = h'"
  proof -
    have "take (Suc i * s) toks = take (i * s) toks @ take s (drop (i * s) toks)"
      by (metis add.commute mult_Suc take_add)
    then show ?thesis by (simp only: h'_def Suc.prems(2) chain_hash_append)
  qed
  show ?case
  proof (cases "hash_to_block m h'")
    case None
    then show ?thesis using slice h' by (simp add: h'_def)
  next
    case (Some b)
    from Suc.IH [of "Suc i" h'] Suc.prems(1) obtain bs where bs:
      "match_blocks toks (int (Suc i)) h' n m = Some bs" "length bs \<le> n"
      "\<And>k. k < length bs \<Longrightarrow> hash_to_block m (chain_hash (take ((Suc i + Suc k) * s) toks)) = Some (bs ! k)"
      "length bs < n \<Longrightarrow> hash_to_block m (chain_hash (take ((Suc i + Suc (length bs)) * s) toks)) = None"
      by (auto simp: h'_def)
    have "match_blocks toks (int i) h (Suc n) m = Some (b # bs)"
      using slice h' Some bs(1) by (simp add: add.commute)
    moreover have "hash_to_block m (chain_hash (take ((i + Suc k) * s) toks)) = Some ((b # bs) ! k)"
      if "k < length (b # bs)" for k
      using that Some bs(3) [of "k - 1"] by (cases k) (simp_all add: h'_def)
    ultimately show ?thesis using bs(2,4) by auto
  qed
qed simp

lemma share_block_ok:
  assumes ok: "kv_ok m fl" and own: "req_to_allocated_blocks m r = Some bs"
    and b: "is_block m b" "hash_valid (blk m b)" and valid: "\<forall>x \<in> set bs. hash_valid (blk m x)"
  shows "\<exists>m'. share_block r b m = Some m' \<and> kv_ok m' (remove1 b fl) \<and> same_static m m'
     \<and> req_to_allocated_blocks m' = (req_to_allocated_blocks m)(r \<mapsto> bs @ [b])
     \<and> (\<forall>x. is_block m x \<longrightarrow> same_tag m m' x) \<and> hash_to_block m' = hash_to_block m"
proof -
  let ?R = "block_refs (req_to_allocated_blocks m)"
  from hold_block_pool [OF kv_ok_pool [OF ok] b(1)] obtain m1 where m1: "hold_block b m = Some m1"
    "pool m1 (?R(b := ?R b + 1)) (remove1 b fl)" "same_book m m1"
    "\<And>x. is_block m x \<Longrightarrow> same_tag m m1 x" "hash_to_block m1 = hash_to_block m" by blast
  have "?R(b := ?R b + 1) = (\<lambda>x. ?R x + (if x = b then 1 else 0))" by auto
  then have "kv_ok (set_blocks r (bs @ [b]) m1) (remove1 b fl)"
    using m1(2,4) b valid by (intro kv_ok_extend [OF ok own m1(3) b(1)]) (auto simp: same_tag_def)
  then show ?thesis
    using m1 own same_book_static [OF m1(3)]
    by (simp add: share_block_def blocks_of_def same_book_req)
qed

lemma share_blocks_ok:
  assumes "kv_ok m fl" "req_to_allocated_blocks m r = Some bs" "\<forall>x \<in> set bs. hash_valid (blk m x)"
    and "\<And>b. b \<in> set cs \<Longrightarrow> is_block m b \<and> hash_valid (blk m b)"
  shows "\<exists>m'. fold_opt (share_block r) cs m = Some m' \<and> kv_ok m' (fold remove1 cs fl) \<and> same_static m m'
     \<and> req_to_allocated_blocks m' = (req_to_allocated_blocks m)(r \<mapsto> bs @ cs)
     \<and> (\<forall>x. is_block m x \<longrightarrow> same_tag m m' x) \<and> hash_to_block m' = hash_to_block m"
  using assms
proof (induction cs arbitrary: m fl bs)
  case Nil
  then show ?case by (simp add: fun_upd_idem)
next
  case (Cons b cs)
  from share_block_ok [OF Cons.prems(1,2) _ _ Cons.prems(3), of b] Cons.prems(4) obtain m1 where m1:
    "share_block r b m = Some m1" "kv_ok m1 (remove1 b fl)" "same_static m m1"
    "req_to_allocated_blocks m1 = (req_to_allocated_blocks m)(r \<mapsto> bs @ [b])"
    "\<And>x. is_block m x \<Longrightarrow> same_tag m m1 x" "hash_to_block m1 = hash_to_block m" by auto
  have ib: "is_block m1 x = is_block m x" for x using m1(3) by (rule same_static_is_block)
  have own1: "req_to_allocated_blocks m1 r = Some (bs @ [b])" using m1(4) by simp
  have valid1: "\<forall>x \<in> set (bs @ [b]). hash_valid (blk m1 x)"
    using Cons.prems(3,4) m1(5) kv_ok_is_block [OF Cons.prems(1,2)] by (auto simp: same_tag_def)
  have rest: "\<And>x. x \<in> set cs \<Longrightarrow> is_block m1 x \<and> hash_valid (blk m1 x)"
    using Cons.prems(4) m1(5) ib by (auto simp: same_tag_def)
  from Cons.IH [OF m1(2) own1 valid1 rest] obtain m' where m':
    "fold_opt (share_block r) cs m1 = Some m'" "kv_ok m' (fold remove1 cs (remove1 b fl))" "same_static m1 m'"
    "req_to_allocated_blocks m' = (req_to_allocated_blocks m1)(r \<mapsto> (bs @ [b]) @ cs)"
    "\<And>x. is_block m1 x \<Longrightarrow> same_tag m1 m' x" "hash_to_block m' = hash_to_block m1" by blast
  have "same_tag m m' x" if "is_block m x" for x
    using m1(5) m'(5) ib that by (auto intro: same_tag_trans)
  then show ?case using m1 m' same_static_trans [OF m1(3) m'(3)] by auto
qed

definition sharable_blocks :: "KVCacheManager \<Rightarrow> Request \<Rightarrow> nat" where
  "sharable_blocks m r = nat ((num_tokens r - 1) div num_block_slots m)"

lemma fold_remove1_distinct: "distinct fl \<Longrightarrow> fold remove1 bs fl = filter (\<lambda>x. x \<notin> set bs) fl"
  by (induction bs arbitrary: fl) (auto simp: distinct_remove1_removeAll removeAll_filter_not_eq
      intro: filter_cong)

lemma reuse_prefix_ok:
  assumes ok: "kv_ok m fl" and new: "req_to_allocated_blocks m (req_id r) = None"
  shows "\<exists>bs m'. reuse_prefix r m = Some (int (length bs) * num_block_slots m, m')
     \<and> kv_ok m' (filter (\<lambda>x. x \<notin> set bs) fl) \<and> same_static m m'
     \<and> req_to_allocated_blocks m' = (if bs = [] then req_to_allocated_blocks m
          else (req_to_allocated_blocks m)(req_id r \<mapsto> bs))
     \<and> hash_to_block m' = hash_to_block m \<and> (\<forall>x. is_block m x \<longrightarrow> same_tag m m' x)
     \<and> (enable_prefix_caching m \<longrightarrow> length bs \<le> sharable_blocks m r)
     \<and> (\<not> enable_prefix_caching m \<longrightarrow> bs = [])
     \<and> (\<forall>k < length bs. hash_to_block m (chain_hash (take (Suc k * nat (num_block_slots m)) (token_ids r))) = Some (bs ! k))
     \<and> (enable_prefix_caching m \<and> length bs < sharable_blocks m r \<longrightarrow>
          hash_to_block m (chain_hash (take (Suc (length bs) * nat (num_block_slots m)) (token_ids r))) = None)"
proof (cases "enable_prefix_caching m")
  case False
  then show ?thesis using ok by (auto simp: reuse_prefix_def intro!: exI [of _ "[]"])
next
  case en: True
  let ?s = "nat (num_block_slots m)" and ?n = "sharable_blocks m r"
  have slots: "0 < num_block_slots m" using ok by (rule kv_ok_slots)
  obtain q where q: "c_div (num_tokens r - 1) (num_block_slots m) = Some q" "nat q = ?n"
  proof (cases "token_ids r = []")
    case True
    then have m1: "num_tokens r - 1 = - 1" by (simp add: num_tokens_def)
    have "(- 1) div num_block_slots m < 0" using slots by (simp add: pos_imp_zdiv_neg_iff)
    then have z: "sharable_blocks m r = 0" unfolding sharable_blocks_def m1 by simp
    from that [of "if num_block_slots m = 1 then - 1 else 0"] show ?thesis
      using c_div_neg_one [OF slots] unfolding m1 z by simp
  next
    case False
    then have "0 \<le> num_tokens r - 1" by (cases "token_ids r") (simp_all add: num_tokens_def)
    then show ?thesis using slots that by (simp add: c_div_nonneg sharable_blocks_def)
  qed
  have fits: "?n * ?s \<le> length (token_ids r)"
  proof (cases "token_ids r = []")
    case True
    then have "(num_tokens r - 1) div num_block_slots m < 0"
      using slots by (simp add: num_tokens_def pos_imp_zdiv_neg_iff)
    then show ?thesis by (simp add: sharable_blocks_def)
  next
    case False
    then have nn: "0 \<le> num_tokens r - 1" by (cases "token_ids r") (simp_all add: num_tokens_def)
    have "(num_tokens r - 1) div num_block_slots m * num_block_slots m \<le> num_tokens r - 1"
      using slots by (metis div_mult_mod_eq le_add_same_cancel1 pos_mod_sign)
    then have "int (?n * ?s) \<le> int (length (token_ids r))"
      using slots nn by (simp add: sharable_blocks_def num_tokens_def pos_imp_zdiv_nonneg_iff)
    then show ?thesis by (simp only: of_nat_le_iff)
  qed
  from match_blocks_eval [of m ?s 0 ?n "token_ids r" kHashSeed] slots fits obtain bs where bs:
    "match_blocks (token_ids r) 0 kHashSeed ?n m = Some bs" "length bs \<le> ?n"
    "\<And>k. k < length bs \<Longrightarrow> hash_to_block m (chain_hash (take (Suc k * ?s) (token_ids r))) = Some (bs ! k)"
    "length bs < ?n \<Longrightarrow> hash_to_block m (chain_hash (take (Suc (length bs) * ?s) (token_ids r))) = None"
    by auto
  show ?thesis
  proof (cases "bs = []")
    case True
    have "reuse_prefix r m = Some (0, m)" using en q bs(1) True by (simp add: reuse_prefix_def)
    with ok en bs True show ?thesis by (intro exI [of _ bs] exI [of _ m]) simp
  next
    case False
    define m0 where "m0 = set_blocks (req_id r) [] m"
    have "kv_ok m0 fl" using kv_ok_touch [OF ok, of "req_id r"] new by (simp add: m0_def blocks_of_def)
    moreover have "is_block m0 b \<and> hash_valid (blk m0 b)" if "b \<in> set bs" for b
      using that bs(3) pool_index [OF kv_ok_pool [OF ok]]
      by (auto simp: in_set_conv_nth index_ok_def m0_def)
    ultimately obtain m' where m':
      "fold_opt (share_block (req_id r)) bs m0 = Some m'" "kv_ok m' (fold remove1 bs fl)" "same_static m0 m'"
      "req_to_allocated_blocks m' = (req_to_allocated_blocks m0)(req_id r \<mapsto> bs)"
      "\<And>x. is_block m0 x \<Longrightarrow> same_tag m0 m' x" "hash_to_block m' = hash_to_block m0"
      using share_blocks_ok [of m0 fl "req_id r" "[]" bs] by (auto simp: m0_def)
    have "reuse_prefix r m = Some (int (length bs) * num_block_slots m, m')"
      using en q bs(1) False m'(1,3) new
      by (simp add: reuse_prefix_def blocks_of_def m0_def [symmetric] same_static_def) (simp add: m0_def)
    moreover have "fold remove1 bs fl = filter (\<lambda>x. x \<notin> set bs) fl"
      using pool_distinct [OF kv_ok_pool [OF ok]] by (rule fold_remove1_distinct)
    moreover have "same_static m m'" using m'(3) by (simp add: m0_def same_static_def)
    moreover have "same_tag m m' x" if "is_block m x" for x
      using m'(5) [of x] that by (simp add: m0_def same_tag_def)
    ultimately show ?thesis
      using m' bs en False by (intro exI [of _ bs] exI [of _ m']) (simp add: m0_def)
  qed
qed

end
