(* ===== verification/KV_Interface.thy ===== *)
theory KV_Interface
  imports KV_Contract
begin

text \<open>
  The interface the scheduler relies on. A client of \<open>KVCacheManager\<close> sees, for every request,
  the list of its blocks together with their published hashes (\<open>view\<close>); an operation for
  one request leaves the view of every other request alone. The locale \<open>block_allocator\<close>
  states the laws of allocation, release and prefix reuse over views, proves what a client
  concludes from them once, and is interpreted on the model of the manager.
\<close>

type_synonym tagged_block = "int \<times> bool \<times> 64 word"

abbreviation block_id :: "tagged_block \<Rightarrow> int" where "block_id t \<equiv> fst t"
abbreviation published_tag :: "tagged_block \<Rightarrow> bool" where "published_tag t \<equiv> fst (snd t)"
abbreviation hash_tag :: "tagged_block \<Rightarrow> 64 word" where "hash_tag t \<equiv> snd (snd t)"

definition tagged :: "KVCacheManager \<Rightarrow> int \<Rightarrow> tagged_block" where
  "tagged m b = (b, hash_valid (blk m b), block_hash_of (blk m b))"

definition view :: "KVCacheManager \<Rightarrow> string \<Rightarrow> tagged_block list option" where
  "view m q = map_option (map (tagged m)) (req_to_allocated_blocks m q)"

definition blocks_for :: "int \<Rightarrow> int \<Rightarrow> int" where
  \<comment> \<open>the number of blocks of \<open>s\<close> slots that hold \<open>n\<close> tokens\<close>
  "blocks_for s n = (n + s - 1) div s"

definition published_upto :: "int \<Rightarrow> int list \<Rightarrow> int \<Rightarrow> tagged_block list \<Rightarrow> bool" where
  \<comment> \<open>a published block lies inside the first \<open>c\<close> tokens and carries their hash\<close>
  "published_upto s toks c tv \<longleftrightarrow> (\<forall>i < length tv. published_tag (tv ! i) \<longrightarrow>
     (int i + 1) * s \<le> c \<and> hash_tag (tv ! i) = chain_hash (take (Suc i * nat s) toks))"

definition others_same :: "string \<Rightarrow> (string \<Rightarrow> tagged_block list option)
    \<Rightarrow> (string \<Rightarrow> tagged_block list option) \<Rightarrow> bool" where
  "others_same r v v' \<longleftrightarrow> (\<forall>q. q \<noteq> r \<longrightarrow> v' q = v q)"

definition view_list :: "tagged_block list option \<Rightarrow> tagged_block list" where
  "view_list v = (case v of None \<Rightarrow> [] | Some tv \<Rightarrow> tv)"

lemma view_list_simps [simp]: "view_list None = []" "view_list (Some tv) = tv"
  by (simp_all add: view_list_def)

lemma others_same_trans: "others_same r v v1 \<Longrightarrow> others_same r v1 v2 \<Longrightarrow> others_same r v v2"
  by (simp add: others_same_def)

lemma others_sameD: "others_same r v v' \<Longrightarrow> q \<noteq> r \<Longrightarrow> v' q = v q"
  by (simp add: others_same_def)

lemma others_same_refl [simp]: "others_same r v v"
  by (simp add: others_same_def)

lemma published_upto_mono: "published_upto s toks c tv \<Longrightarrow> c \<le> d \<Longrightarrow> published_upto s toks d tv"
  by (fastforce simp: published_upto_def)

lemma published_upto_Nil [simp]: "published_upto s toks c []"
  by (simp add: published_upto_def)

lemma published_upto_extend_tokens:
  assumes "published_upto s toks c tv" "c \<le> int (length toks)" "0 < s"
  shows "published_upto s (toks @ us) c tv"
  unfolding published_upto_def
proof (intro allI impI)
  fix i assume i: "i < length tv" "published_tag (tv ! i)"
  then have b: "(int i + 1) * s \<le> c" and h: "hash_tag (tv ! i) = chain_hash (take (Suc i * nat s) toks)"
    using assms(1) by (simp_all add: published_upto_def)
  have "int (Suc i * nat s) = (int i + 1) * s"
    using assms(3) by (simp add: of_nat_mult distrib_right del: mult_Suc)
  then have "Suc i * nat s \<le> length toks" using b assms(2) by linarith
  then show "(int i + 1) * s \<le> c \<and> hash_tag (tv ! i) = chain_hash (take (Suc i * nat s) (toks @ us))"
    using b h by simp
qed

lemma blocks_for_le_iff: "0 < s \<Longrightarrow> blocks_for s n \<le> k \<longleftrightarrow> n \<le> k * s"
  by (simp add: blocks_for_def ceil_div_le_iff)

lemma blocks_for_mono: "0 < s \<Longrightarrow> a \<le> b \<Longrightarrow> blocks_for s a \<le> blocks_for s b"
  by (simp add: blocks_for_def zdiv_mono1)

lemma blocks_for_mult: "0 < s \<Longrightarrow> blocks_for s (k * s) = k"
  by (simp add: blocks_for_def add_diff_eq [symmetric] del: add_diff_eq)

lemma blocks_for_nonneg: "0 < s \<Longrightarrow> 0 \<le> n \<Longrightarrow> 0 \<le> blocks_for s n"
  by (simp add: blocks_for_def pos_imp_zdiv_nonneg_iff)

subsection \<open>The interface\<close>

locale block_allocator =
  fixes ok :: "'m \<Rightarrow> bool"
    and seen :: "'m \<Rightarrow> string \<Rightarrow> tagged_block list option"
    and room :: "'m \<Rightarrow> int"
    and slots :: "'m \<Rightarrow> int"
    and capacity :: "'m \<Rightarrow> int"
    and allocate :: "Request \<Rightarrow> int \<Rightarrow> 'm \<Rightarrow> (bool \<times> 'm) option"
    and release :: "Request \<Rightarrow> 'm \<Rightarrow> 'm option"
    and reuse :: "Request \<Rightarrow> 'm \<Rightarrow> (int \<times> 'm) option"
  assumes slots_pos: "ok m \<Longrightarrow> 0 < slots m"
    and room_alone: "ok m \<Longrightarrow> (\<And>q. q \<noteq> owner \<Longrightarrow> seen m q = None)
      \<Longrightarrow> capacity m - int (length (view_list (seen m owner))) \<le> room m"
    and allocate_refused: "ok m \<Longrightarrow> 0 < n \<Longrightarrow> 0 \<le> num_computed_tokens r
      \<Longrightarrow> room m < blocks_for (slots m) (num_computed_tokens r + n) - int (length (view_list (seen m (req_id r))))
      \<Longrightarrow> allocate r n m = Some (False, m)"
    and allocate_granted: "ok m \<Longrightarrow> 0 < n \<Longrightarrow> 0 \<le> num_computed_tokens r
      \<Longrightarrow> num_computed_tokens r + n \<le> num_tokens r
      \<Longrightarrow> blocks_for (slots m) (num_computed_tokens r + n) - int (length (view_list (seen m (req_id r)))) \<le> room m
      \<Longrightarrow> int (length (view_list (seen m (req_id r)))) \<le> blocks_for (slots m) (num_computed_tokens r + n)
      \<Longrightarrow> published_upto (slots m) (token_ids r) (num_computed_tokens r) (view_list (seen m (req_id r)))
      \<Longrightarrow> \<exists>m' tv. allocate r n m = Some (True, m') \<and> ok m' \<and> others_same (req_id r) (seen m) (seen m')
            \<and> slots m' = slots m \<and> capacity m' = capacity m
            \<and> seen m' (req_id r) = Some tv
            \<and> map block_id (take (length (view_list (seen m (req_id r)))) tv) = map block_id (view_list (seen m (req_id r)))
            \<and> int (length tv) = blocks_for (slots m) (num_computed_tokens r + n)
            \<and> published_upto (slots m) (token_ids r) (num_computed_tokens r) tv"
    and release_frees: "ok m \<Longrightarrow> 0 \<le> num_computed_tokens r \<Longrightarrow> num_computed_tokens r \<le> num_tokens r
      \<Longrightarrow> \<exists>m'. release r m = Some m' \<and> ok m' \<and> others_same (req_id r) (seen m) (seen m')
            \<and> slots m' = slots m \<and> capacity m' = capacity m \<and> seen m' (req_id r) = None"
    and reuse_shares: "ok m \<Longrightarrow> token_ids r \<noteq> [] \<Longrightarrow> seen m (req_id r) = None
      \<Longrightarrow> \<exists>m' tv. reuse r m = Some (int (length tv) * slots m, m') \<and> ok m'
            \<and> others_same (req_id r) (seen m) (seen m')
            \<and> slots m' = slots m \<and> capacity m' = capacity m
            \<and> seen m' (req_id r) = (if tv = [] then None else Some tv)
            \<and> int (length tv) * slots m < num_tokens r
            \<and> published_upto (slots m) (token_ids r) (int (length tv) * slots m) tv"
begin

text \<open>A request that owns exactly the blocks its computed tokens fill can always ask for more.\<close>

lemma allocate_total:
  assumes "ok m" "0 < n" "0 \<le> num_computed_tokens r" "num_computed_tokens r + n \<le> num_tokens r"
    and "int (length (view_list (seen m (req_id r)))) = blocks_for (slots m) (num_computed_tokens r)"
    and "published_upto (slots m) (token_ids r) (num_computed_tokens r) (view_list (seen m (req_id r)))"
  shows "allocate r n m = Some (False, m) \<and>
       room m < blocks_for (slots m) (num_computed_tokens r + n) - blocks_for (slots m) (num_computed_tokens r)
     \<or> (\<exists>m' tv. allocate r n m = Some (True, m') \<and> ok m' \<and> others_same (req_id r) (seen m) (seen m')
            \<and> slots m' = slots m \<and> capacity m' = capacity m
            \<and> seen m' (req_id r) = Some tv
            \<and> map block_id (take (length (view_list (seen m (req_id r)))) tv) = map block_id (view_list (seen m (req_id r)))
            \<and> int (length tv) = blocks_for (slots m) (num_computed_tokens r + n)
            \<and> published_upto (slots m) (token_ids r) (num_computed_tokens r) tv)"
proof (cases "room m < blocks_for (slots m) (num_computed_tokens r + n) - blocks_for (slots m) (num_computed_tokens r)")
  case True
  then show ?thesis using allocate_refused [OF assms(1-3)] assms(5) by simp
next
  case False
  have "blocks_for (slots m) (num_computed_tokens r) \<le> blocks_for (slots m) (num_computed_tokens r + n)"
    using slots_pos [OF assms(1)] assms(2) by (intro blocks_for_mono) auto
  then show ?thesis using allocate_granted [OF assms(1-4) _ _ assms(6)] assms(5) False by simp
qed

text \<open>
  A request whose tokens fit into the whole cache is granted its blocks when nobody else holds
  any: this is what makes preempting from the tail of the queue terminate with success.
\<close>

lemma alone_granted:
  assumes "ok m" "0 < n" "0 \<le> num_computed_tokens r" "num_computed_tokens r + n \<le> num_tokens r"
    and "\<And>q. q \<noteq> req_id r \<Longrightarrow> seen m q = None"
    and "num_computed_tokens r + n \<le> capacity m * slots m"
    and "int (length (view_list (seen m (req_id r)))) = blocks_for (slots m) (num_computed_tokens r)"
    and "published_upto (slots m) (token_ids r) (num_computed_tokens r) (view_list (seen m (req_id r)))"
  shows "\<exists>m'. allocate r n m = Some (True, m')"
proof -
  have "blocks_for (slots m) (num_computed_tokens r + n) \<le> capacity m"
    using blocks_for_le_iff [OF slots_pos [OF assms(1)]] assms(6) by simp
  moreover have "capacity m - blocks_for (slots m) (num_computed_tokens r) \<le> room m"
    using room_alone [of m "req_id r"] assms(1,5,7) by simp
  ultimately show ?thesis using allocate_total [OF assms(1-4,7,8)] by auto
qed

text \<open>Reuse followed by allocation, as a request is admitted.\<close>

lemma reuse_then_owns:
  assumes "ok m" "token_ids r \<noteq> []" "seen m (req_id r) = None"
  shows "\<exists>k m'. reuse r m = Some (k, m') \<and> ok m' \<and> others_same (req_id r) (seen m) (seen m')
     \<and> slots m' = slots m \<and> capacity m' = capacity m \<and> 0 \<le> k \<and> k < num_tokens r
     \<and> int (length (view_list (seen m' (req_id r)))) = blocks_for (slots m) k
     \<and> published_upto (slots m) (token_ids r) k (view_list (seen m' (req_id r)))"
proof -
  from reuse_shares [OF assms] obtain m' tv where
    "reuse r m = Some (int (length tv) * slots m, m')" "ok m'" "others_same (req_id r) (seen m) (seen m')"
    "slots m' = slots m" "capacity m' = capacity m" "seen m' (req_id r) = (if tv = [] then None else Some tv)"
    "int (length tv) * slots m < num_tokens r"
    "published_upto (slots m) (token_ids r) (int (length tv) * slots m) tv" by blast
  then show ?thesis using slots_pos [OF assms(1)]
    by (intro exI [of _ "int (length tv) * slots m"] exI [of _ m']) (auto simp: blocks_for_mult)
qed

end

subsection \<open>The manager implements the interface\<close>

definition kv_inv :: "KVCacheManager \<Rightarrow> bool" where
  "kv_inv m \<longleftrightarrow> (\<exists>fl. kv_ok m fl)"

definition num_blocks :: "KVCacheManager \<Rightarrow> int" where
  "num_blocks m = int (length (blocks m))"

lemma kv_inv_slots: "kv_inv m \<Longrightarrow> 0 < num_block_slots m"
  by (auto simp: kv_inv_def dest: kv_ok_slots)

lemma length_view_list: "length (view_list (view m r)) = length (blocks_of m r)"
  by (simp add: view_def view_list_def blocks_of_def split: option.splits)

lemma view_list_ids: "map block_id (view_list (view m r)) = blocks_of m r"
  by (simp add: view_def view_list_def blocks_of_def tagged_def comp_def split: option.splits)

lemma view_Some: "view m r = Some tv \<Longrightarrow> \<exists>bs. req_to_allocated_blocks m r = Some bs \<and> tv = map (tagged m) bs"
  by (auto simp: view_def)

lemma view_eqI:
  assumes "req_to_allocated_blocks m' q = req_to_allocated_blocks m q"
    and "\<And>cs x. req_to_allocated_blocks m q = Some cs \<Longrightarrow> x \<in> set cs \<Longrightarrow> same_tag m m' x"
  shows "view m' q = view m q"
proof (cases "req_to_allocated_blocks m q")
  case (Some cs)
  then have "map (tagged m') cs = map (tagged m) cs"
    using assms(2) by (auto simp: tagged_def same_tag_def)
  then show ?thesis using Some assms(1) by (simp add: view_def)
qed (simp add: view_def assms(1))

text \<open>Changing only unpublished blocks of one request, and free blocks, is invisible to the others.\<close>

lemma kv_ok_frame:
  assumes ok: "kv_ok m fl" and bs: "blocks_of m r = bs"
    and req: "\<And>q. q \<noteq> r \<Longrightarrow> req_to_allocated_blocks m' q = req_to_allocated_blocks m q"
    and tags: "\<And>x. is_block m x \<Longrightarrow> x \<notin> set fl \<Longrightarrow> hash_valid (blk m x) \<or> x \<notin> set bs \<Longrightarrow> same_tag m m' x"
  shows "others_same r (view m) (view m')"
  unfolding others_same_def
proof (intro allI impI view_eqI)
  fix q assume q: "q \<noteq> r"
  then show "req_to_allocated_blocks m' q = req_to_allocated_blocks m q" by (rule req)
  fix cs x assume own: "req_to_allocated_blocks m q = Some cs" and x: "x \<in> set cs"
  have ib: "is_block m x" using kv_ok_is_block [OF ok own x] .
  have "x \<notin> set fl"
    using block_refs_pos [where A = "req_to_allocated_blocks m", OF kv_ok_finite [OF ok] own x]
      pool_free_iff [OF kv_ok_pool [OF ok] ib] by simp
  moreover have "hash_valid (blk m x) \<or> x \<notin> set bs"
  proof (rule ccontr)
    assume "\<not> ?thesis"
    then have x2: "x \<in> set bs" "\<not> hash_valid (blk m x)" by auto
    then have "req_to_allocated_blocks m r = Some bs"
      using bs by (cases "req_to_allocated_blocks m r") (simp_all add: blocks_of_def)
    from kv_ok_invalid_owner [OF ok own this x x2] q show False by simp
  qed
  ultimately show "same_tag m m' x" using tags ib by blast
qed

lemma num_free_lower:
  assumes ok: "kv_ok m fl" and alone: "\<And>q. q \<noteq> r \<Longrightarrow> req_to_allocated_blocks m q = None"
  shows "num_blocks m - int (length (blocks_of m r)) \<le> num_free_blocks m"
proof -
  let ?A = "req_to_allocated_blocks m"
  have used: "block_refs ?A b = 0 \<longleftrightarrow> b \<notin> set (blocks_of m r)" for b
  proof -
    have "(\<forall>q bs. ?A q = Some bs \<longrightarrow> b \<notin> set bs) \<longleftrightarrow> b \<notin> set (blocks_of m r)"
    proof (cases "?A r")
      case None
      then show ?thesis using alone by (auto simp: blocks_of_def) (metis option.distinct(1))
    next
      case (Some cs)
      then show ?thesis using alone by (auto simp: blocks_of_def) (metis option.distinct(1) option.inject)
    qed
    then show ?thesis using block_refs_free [OF kv_ok_finite [OF ok]] by simp
  qed
  have "{0..<int (length (blocks m))} \<subseteq> set fl \<union> set (blocks_of m r)"
    using pool_free_iff [OF kv_ok_pool [OF ok]] used by (auto simp: in_bounds_def)
  then have "card {0..<int (length (blocks m))} \<le> card (set fl \<union> set (blocks_of m r))"
    by (intro card_mono) auto
  also have "\<dots> \<le> length fl + length (blocks_of m r)"
    by (meson add_mono card_Un_le card_length le_trans)
  finally have "length (blocks m) \<le> length fl + length (blocks_of m r)" by simp
  then show ?thesis by (simp add: num_blocks_def kv_ok_num_free [OF ok])
qed

lemma nth_tagged: "i < length bs \<Longrightarrow> map (tagged m) bs ! i = tagged m (bs ! i)"
  by simp

lemma published_upto_tagged:
  "published_upto (num_block_slots m) toks c (map (tagged m) bs) \<longleftrightarrow>
     chain_ok m toks bs \<and> (\<forall>i < length bs. hash_valid (blk m (bs ! i)) \<longrightarrow> (int i + 1) * num_block_slots m \<le> c)"
  by (auto simp: published_upto_def chain_ok_def tagged_def)

lemma published_upto_view:
  "published_upto (num_block_slots m) toks c (view_list (view m r)) \<longleftrightarrow>
     chain_ok m toks (blocks_of m r)
     \<and> (\<forall>i < length (blocks_of m r). hash_valid (blk m (blocks_of m r ! i)) \<longrightarrow> (int i + 1) * num_block_slots m \<le> c)"
  unfolding published_upto_tagged [symmetric]
  by (simp add: view_def view_list_def blocks_of_def split: option.splits)

lemma full_block_bound:
  assumes "0 < num_block_slots m" "0 \<le> num_computed_tokens r" "i < full_blocks m r bs"
  shows "(int i + 1) * num_block_slots m \<le> num_computed_tokens r"
proof -
  have "int i < num_computed_tokens r div num_block_slots m" using assms(3) by (simp add: full_blocks_def zless_nat_eq_int_zless)
  then have "int i + 1 \<le> num_computed_tokens r div num_block_slots m" by simp
  then have "(int i + 1) * num_block_slots m \<le> (num_computed_tokens r div num_block_slots m) * num_block_slots m"
    using assms(1) by (intro mult_right_mono) auto
  also have "\<dots> \<le> num_computed_tokens r"
    using assms(1) by (metis div_mult_mod_eq le_add_same_cancel1 pos_mod_sign)
  finally show ?thesis .
qed

lemma blocks_needed_for:
  "blocks_needed m r n = blocks_for (num_block_slots m) (num_computed_tokens r + n)
     - int (length (view_list (view m (req_id r))))"
  by (simp add: blocks_needed_def blocks_for_def length_view_list)

lemma allocate_slots_granted:
  assumes inv: "kv_inv m" and n: "0 < n" and range: "0 \<le> num_computed_tokens r" "num_computed_tokens r + n \<le> num_tokens r"
    and fits: "blocks_needed m r n \<le> num_free_blocks m" "0 \<le> blocks_needed m r n"
    and pub: "published_upto (num_block_slots m) (token_ids r) (num_computed_tokens r) (view_list (view m (req_id r)))"
  shows "\<exists>m' tv. allocate_slots r n m = Some (True, m') \<and> kv_inv m' \<and> others_same (req_id r) (view m) (view m')
     \<and> num_block_slots m' = num_block_slots m \<and> num_blocks m' = num_blocks m \<and> view m' (req_id r) = Some tv
     \<and> map block_id (take (length (view_list (view m (req_id r)))) tv) = map block_id (view_list (view m (req_id r)))
     \<and> int (length tv) = blocks_for (num_block_slots m) (num_computed_tokens r + n)
     \<and> published_upto (num_block_slots m) (token_ids r) (num_computed_tokens r) tv"
proof -
  from inv obtain fl where ok: "kv_ok m fl" by (auto simp: kv_inv_def)
  let ?bs = "blocks_of m (req_id r)" and ?k = "nat (blocks_needed m r n)"
  have "num_computed_tokens r \<le> num_tokens r" using n range by simp
  from allocate_slots_ok [OF ok n range(1) this fits(2)] fits(1) kv_ok_num_free [OF ok]
  obtain m' where m': "allocate_slots r n m = Some (True, m')" "kv_ok m' (drop ?k fl)" "same_static m m'"
    "req_to_allocated_blocks m' = (req_to_allocated_blocks m)(req_id r \<mapsto> ?bs @ take ?k fl)"
    "\<And>x. is_block m x \<Longrightarrow> x \<notin> set (take ?k fl) \<Longrightarrow> hash_valid (blk m x) \<or> x \<notin> set ?bs \<Longrightarrow> same_tag m m' x"
    "\<And>i. i < length (?bs @ take ?k fl) \<Longrightarrow> hash_valid (blk m' ((?bs @ take ?k fl) ! i)) \<longleftrightarrow>
       i < length ?bs \<and> hash_valid (blk m (?bs ! i)) \<or> enable_prefix_caching m \<and> i < full_blocks m r (?bs @ take ?k fl)"
    "chain_ok m (token_ids r) ?bs \<Longrightarrow> chain_ok m' (token_ids r) (?bs @ take ?k fl)" by auto
  have slots: "num_block_slots m' = num_block_slots m" "num_blocks m' = num_blocks m"
    using m'(3) by (simp_all add: same_static_def num_blocks_def)
  have len: "length (take ?k fl) = ?k" using fits(1) kv_ok_num_free [OF ok] by simp
  have "others_same (req_id r) (view m) (view m')"
    using m'(4,5) by (intro kv_ok_frame [OF ok refl]) (auto dest: in_set_takeD)
  moreover have v: "view m' (req_id r) = Some (map (tagged m') (?bs @ take ?k fl))"
    using m'(4) by (simp add: view_def)
  moreover have "int (length (?bs @ take ?k fl)) = blocks_for (num_block_slots m) (num_computed_tokens r + n)"
    using len fits(2) by (simp add: blocks_needed_for length_view_list)
  moreover have "published_upto (num_block_slots m) (token_ids r) (num_computed_tokens r) (map (tagged m') (?bs @ take ?k fl))"
    unfolding slots(1) [symmetric] published_upto_tagged
    using m'(6,7) pub full_block_bound [OF kv_inv_slots [OF inv] range(1)] slots(1)
    by (auto simp: published_upto_view)
  ultimately show ?thesis using m'(1,2) slots
    by (intro exI [of _ m'] exI [of _ "map (tagged m') (?bs @ take ?k fl)"])
      (auto simp: kv_inv_def length_view_list view_list_ids tagged_def comp_def take_map)
qed

lemma release_blocks_frees:
  assumes inv: "kv_inv m" and range: "0 \<le> num_computed_tokens r" "num_computed_tokens r \<le> num_tokens r"
  shows "\<exists>m'. release_blocks r m = Some m' \<and> kv_inv m' \<and> others_same (req_id r) (view m) (view m')
     \<and> num_block_slots m' = num_block_slots m \<and> num_blocks m' = num_blocks m \<and> view m' (req_id r) = None"
proof (cases "req_to_allocated_blocks m (req_id r)")
  case None
  then show ?thesis using inv by (simp add: release_blocks_none view_def)
next
  case (Some bs)
  from inv obtain fl where ok: "kv_ok m fl" by (auto simp: kv_inv_def)
  from release_blocks_ok [OF ok Some range] obtain m' where m':
    "release_blocks r m = Some m'" "kv_inv m'" "same_static m m'"
    "req_to_allocated_blocks m' = (req_to_allocated_blocks m)(req_id r := None)"
    "\<And>x. is_block m x \<Longrightarrow> hash_valid (blk m x) \<or> x \<notin> set bs \<Longrightarrow> same_tag m m' x"
    by (auto simp: kv_inv_def)
  have "others_same (req_id r) (view m) (view m')"
    using m'(4,5) by (intro kv_ok_frame [OF ok blocks_of_Some [OF Some]]) auto
  then show ?thesis using m' by (auto simp: same_static_def num_blocks_def view_def)
qed

lemma sharable_blocks_bound:
  assumes "0 < num_block_slots m" "token_ids r \<noteq> []" "k \<le> sharable_blocks m r"
  shows "int k * num_block_slots m < num_tokens r"
proof -
  let ?n = "num_tokens r - 1"
  have "0 \<le> ?n" using assms(2) by (cases "token_ids r") (simp_all add: num_tokens_def)
  then have "int k \<le> ?n div num_block_slots m"
    using assms(1,3) by (simp add: sharable_blocks_def pos_imp_zdiv_nonneg_iff le_nat_iff)
  then have "int k * num_block_slots m \<le> (?n div num_block_slots m) * num_block_slots m"
    using assms(1) by (intro mult_right_mono) auto
  also have "\<dots> \<le> ?n" using assms(1) by (metis div_mult_mod_eq le_add_same_cancel1 pos_mod_sign)
  finally show ?thesis by simp
qed

lemma published_index:
  "kv_ok m fl \<Longrightarrow> hash_to_block m h = Some b
    \<Longrightarrow> is_block m b \<and> hash_valid (blk m b) \<and> block_hash_of (blk m b) = h"
  using pool_index [OF kv_ok_pool, of m fl] by (simp add: index_ok_def)

lemma reuse_prefix_shares:
  assumes inv: "kv_inv m" and toks: "token_ids r \<noteq> []" and new: "view m (req_id r) = None"
  shows "\<exists>m' tv. reuse_prefix r m = Some (int (length tv) * num_block_slots m, m') \<and> kv_inv m'
     \<and> others_same (req_id r) (view m) (view m')
     \<and> num_block_slots m' = num_block_slots m \<and> num_blocks m' = num_blocks m
     \<and> view m' (req_id r) = (if tv = [] then None else Some tv)
     \<and> int (length tv) * num_block_slots m < num_tokens r
     \<and> published_upto (num_block_slots m) (token_ids r) (int (length tv) * num_block_slots m) tv"
proof -
  from inv obtain fl where ok: "kv_ok m fl" by (auto simp: kv_inv_def)
  have slots: "0 < num_block_slots m" using inv by (rule kv_inv_slots)
  from new have none: "req_to_allocated_blocks m (req_id r) = None" by (simp add: view_def)
  from reuse_prefix_ok [OF ok none] obtain bs m' where m':
    "reuse_prefix r m = Some (int (length bs) * num_block_slots m, m')"
    "kv_inv m'" "same_static m m'"
    "req_to_allocated_blocks m' = (if bs = [] then req_to_allocated_blocks m
       else (req_to_allocated_blocks m)(req_id r \<mapsto> bs))"
    "hash_to_block m' = hash_to_block m" "\<And>x. is_block m x \<Longrightarrow> same_tag m m' x"
    "enable_prefix_caching m \<Longrightarrow> length bs \<le> sharable_blocks m r" "\<not> enable_prefix_caching m \<Longrightarrow> bs = []"
    "\<And>k. k < length bs \<Longrightarrow>
       hash_to_block m (chain_hash (take (Suc k * nat (num_block_slots m)) (token_ids r))) = Some (bs ! k)"
    unfolding kv_inv_def by blast
  have s: "num_block_slots m' = num_block_slots m" "num_blocks m' = num_blocks m"
    using m'(3) by (simp_all add: same_static_def num_blocks_def)
  have hash: "hash_valid (blk m' (bs ! k)) \<and>
      block_hash_of (blk m' (bs ! k)) = chain_hash (take (Suc k * nat (num_block_slots m)) (token_ids r))"
    if "k < length bs" for k
    using published_index [OF ok m'(9) [OF that]] m'(6) [of "bs ! k"] by (auto simp: same_tag_def)
  have "length bs \<le> sharable_blocks m r" using m'(7,8) by (cases "enable_prefix_caching m") auto
  then have "int (length bs) * num_block_slots m < num_tokens r"
    by (rule sharable_blocks_bound [OF slots toks])
  moreover have "others_same (req_id r) (view m) (view m')"
    using m'(4,6) by (intro kv_ok_frame [OF ok refl]) auto
  moreover have "published_upto (num_block_slots m) (token_ids r) (int (length bs) * num_block_slots m) (map (tagged m') bs)"
    unfolding s(1) [symmetric] published_upto_tagged chain_ok_def
    using hash slots by (auto simp: s(1) intro!: mult_right_mono)
  moreover have "view m' (req_id r) = (if map (tagged m') bs = [] then None else Some (map (tagged m') bs))"
    unfolding view_def m'(4) using none by simp
  ultimately show ?thesis using m'(1,2) s
    by (intro exI [of _ m'] exI [of _ "map (tagged m') bs"]) (simp only: length_map simp_thms)
qed

interpretation kv: block_allocator kv_inv view num_free_blocks num_block_slots num_blocks
  allocate_slots release_blocks reuse_prefix
proof
  fix m :: KVCacheManager and owner
  assume inv: "kv_inv m" and alone: "\<And>q. q \<noteq> owner \<Longrightarrow> view m q = None"
  from inv obtain fl where "kv_ok m fl" by (auto simp: kv_inv_def)
  then show "num_blocks m - int (length (view_list (view m owner))) \<le> num_free_blocks m"
    unfolding length_view_list using alone by (intro num_free_lower) (auto simp: view_def)
next
  fix m and n :: int and r :: Request
  assume a: "kv_inv m" "0 < n" "0 \<le> num_computed_tokens r" "num_free_blocks m < blocks_for (num_block_slots m)
    (num_computed_tokens r + n) - int (length (view_list (view m (req_id r))))"
  from a(1) obtain fl where "kv_ok m fl" by (auto simp: kv_inv_def)
  then show "allocate_slots r n m = Some (False, m)"
    using a by (intro allocate_slots_fail) (simp_all add: blocks_needed_for kv_ok_num_free)
next
  fix m and n :: int and r :: Request
  let ?l = "int (length (view_list (view m (req_id r))))" and ?b = "blocks_for (num_block_slots m) (num_computed_tokens r + n)"
  assume a: "kv_inv m" "0 < n" "0 \<le> num_computed_tokens r" "num_computed_tokens r + n \<le> num_tokens r"
    "?b - ?l \<le> num_free_blocks m" "?l \<le> ?b"
    "published_upto (num_block_slots m) (token_ids r) (num_computed_tokens r) (view_list (view m (req_id r)))"
  from a(5,6) have "blocks_needed m r n \<le> num_free_blocks m" "0 \<le> blocks_needed m r n"
    by (simp_all add: blocks_needed_for)
  note allocate_slots_granted [OF a(1-4) this a(7)]
  then show "\<exists>m' tv. allocate_slots r n m = Some (True, m') \<and> kv_inv m' \<and> others_same (req_id r) (view m) (view m')
     \<and> num_block_slots m' = num_block_slots m \<and> num_blocks m' = num_blocks m \<and> view m' (req_id r) = Some tv
     \<and> map block_id (take (length (view_list (view m (req_id r)))) tv) = map block_id (view_list (view m (req_id r)))
     \<and> int (length tv) = ?b \<and> published_upto (num_block_slots m) (token_ids r) (num_computed_tokens r) tv" .
qed (rule kv_inv_slots release_blocks_frees reuse_prefix_shares; assumption)+

end
