(* ===== verification/Scheduler_Invariant.thy ===== *)
theory Scheduler_Invariant
  imports Scheduler KV_Interface
begin

text \<open>
  The invariant of the scheduler. \<open>store_ok\<close> describes the three queues and the id index,
  \<open>limits_ok\<close> the configuration, \<open>holds\<close> the blocks of a running request, and \<open>step_inv W\<close>
  the whole scheduler between two steps, where \<open>W\<close> are the ids that still wait for the token
  sampled in the current step. \<open>sched_inv out\<close> is the loop invariant of one \<open>schedule()\<close>: the
  first \<open>length out\<close> running requests already have their entry in \<open>out\<close>.
\<close>

definition node :: "Scheduler \<Rightarrow> nat \<Rightarrow> Request" where
  "node s n = the (nodes s n)"

definition queue :: "Scheduler \<Rightarrow> nat list" where
  \<comment> \<open>the live requests in the order in which they are served\<close>
  "queue s = running s @ preempted s @ waiting s"

definition store_ok :: "Scheduler \<Rightarrow> bool" where
  "store_ok s \<longleftrightarrow> distinct (queue s) \<and> dom (nodes s) = set (queue s)
     \<and> (\<forall>n \<in> set (queue s). n < next_node s)
     \<and> (\<forall>rid n. id_to_request s rid = Some n \<longleftrightarrow> n \<in> set (queue s) \<and> req_id (node s n) = rid)
     \<and> (\<forall>n \<in> set (running s). status (node s n) = kRunning)
     \<and> (\<forall>n \<in> set (preempted s). status (node s n) = kPreempted)
     \<and> (\<forall>n \<in> set (waiting s). status (node s n) = kWaiting)"

definition limits_ok :: "Scheduler \<Rightarrow> bool" where
  "limits_ok s \<longleftrightarrow> kv_inv (kv_cache_manager s) \<and> 0 < max_num_seqs s \<and> max_num_seqs s < 2 ^ 31
     \<and> 0 < max_num_scheduled_tokens s
     \<and> max_model_len s \<le> num_blocks (kv_cache_manager s) * num_block_slots (kv_cache_manager s)"

definition limits :: "Scheduler \<Rightarrow> int \<times> int \<times> int \<times> int \<times> int" where
  \<comment> \<open>what no operation changes\<close>
  "limits s = (max_num_seqs s, max_num_scheduled_tokens s, max_model_len s, num_block_slots (kv_cache_manager s),
     num_blocks (kv_cache_manager s))"

definition owners_ok :: "Scheduler \<Rightarrow> bool" where
  \<comment> \<open>only running requests own blocks\<close>
  "owners_ok s \<longleftrightarrow> (\<forall>q. view (kv_cache_manager s) q \<noteq> None \<longrightarrow> (\<exists>n \<in> set (running s). req_id (node s n) = q))"

definition live :: "Scheduler \<Rightarrow> Request \<Rightarrow> bool" where
  "live s r \<longleftrightarrow> 0 < num_prompt_tokens r \<and> num_prompt_tokens r \<le> num_tokens r \<and> num_tokens r < max_model_len s
     \<and> num_tokens r - num_prompt_tokens r < max_output_tokens r"

definition pending_ok :: "Scheduler \<Rightarrow> bool" where
  "pending_ok s \<longleftrightarrow> (\<forall>n \<in> set (preempted s @ waiting s). live s (node s n)
     \<and> num_computed_tokens (node s n) = 0)"

definition holds :: "KVCacheManager \<Rightarrow> Request \<Rightarrow> int \<Rightarrow> bool" where
  \<comment> \<open>\<open>r\<close> owns the blocks of its computed tokens, published at most within the first \<open>c\<close>\<close>
  "holds m r c \<longleftrightarrow> (\<exists>tv. view m (req_id r) = Some tv
     \<and> int (length tv) = blocks_for (num_block_slots m) (num_computed_tokens r)
     \<and> published_upto (num_block_slots m) (token_ids r) c tv)"

definition idle_ok :: "Scheduler \<Rightarrow> Request \<Rightarrow> bool" where
  \<comment> \<open>a running request with tokens to compute; past its prefill that is the last sampled one\<close>
  "idle_ok s r \<longleftrightarrow> live s r \<and> 0 \<le> num_computed_tokens r \<and> num_computed_tokens r < num_tokens r
     \<and> num_prefill_tokens r \<le> num_tokens r
     \<and> (num_prefill_tokens r = num_tokens r \<or> num_computed_tokens r + 1 = num_tokens r)
     \<and> holds (kv_cache_manager s) r (num_computed_tokens r)"

definition awaiting_ok :: "Scheduler \<Rightarrow> Request \<Rightarrow> bool" where
  \<comment> \<open>all tokens computed, the next one is being sampled\<close>
  "awaiting_ok s r \<longleftrightarrow> live s r \<and> num_computed_tokens r = num_tokens r
     \<and> num_prefill_tokens r \<le> num_tokens r
     \<and> holds (kv_cache_manager s) r (num_computed_tokens r)"

definition step_inv :: "string set \<Rightarrow> Scheduler \<Rightarrow> bool" where
  "step_inv W s \<longleftrightarrow> store_ok s \<and> limits_ok s \<and> owners_ok s \<and> pending_ok s
     \<and> (\<forall>n \<in> set (running s). if req_id (node s n) \<in> W then awaiting_ok s (node s n) else idle_ok s (node s n))
     \<and> int (length (running s)) \<le> max_num_seqs s"

definition entry_ok :: "Scheduler \<Rightarrow> Request \<Rightarrow> ScheduledRequest \<Rightarrow> bool" where
  "entry_ok s r e \<longleftrightarrow> live s r \<and> sr_request_id e = req_id r
     \<and> 0 \<le> position_offset e \<and> position_offset e < num_computed_tokens r \<and> num_computed_tokens r \<le> num_tokens r
     \<and> subvec (token_ids r) (position_offset e) (num_computed_tokens r - position_offset e) = Some (tokens_to_compute e)
     \<and> num_prefill_tokens r \<le> num_tokens r
     \<and> (num_prefill_tokens r = num_tokens r \<or> num_computed_tokens r = num_tokens r)
     \<and> needs_sampling e = (num_computed_tokens r = num_tokens r)
     \<and> is_prefill e = (position_offset e < num_prefill_tokens r)
     \<and> get_allocated_blocks (req_id r) (kv_cache_manager s) = Some (allocated_blocks e)
     \<and> sr_sample_params e = sample_params r
     \<and> holds (kv_cache_manager s) r (position_offset e)"

definition sched_inv :: "ScheduledRequest list \<Rightarrow> Scheduler \<Rightarrow> bool" where
  "sched_inv out s \<longleftrightarrow> store_ok s \<and> limits_ok s \<and> owners_ok s \<and> pending_ok s
     \<and> length out \<le> length (running s) \<and> int (length (running s)) \<le> max_num_seqs s
     \<and> (\<forall>i < length (running s). if i < length out then entry_ok s (node s (running s ! i)) (out ! i)
          else idle_ok s (node s (running s ! i)))"

text \<open>What scheduling never changes: the configuration, the ids, and the requests' content.\<close>

definition content :: "Request \<Rightarrow> Request" where
  "content r = r\<lparr>status := kWaiting, num_prefill_tokens := 0, num_computed_tokens := 0\<rparr>"

definition same_requests :: "Scheduler \<Rightarrow> Scheduler \<Rightarrow> bool" where
  "same_requests s s' \<longleftrightarrow> (\<forall>n. map_option content (nodes s' n) = map_option content (nodes s n))
     \<and> next_node s' = next_node s \<and> id_to_request s' = id_to_request s
     \<and> max_num_seqs s' = max_num_seqs s \<and> max_num_scheduled_tokens s' = max_num_scheduled_tokens s
     \<and> max_model_len s' = max_model_len s
     \<and> num_block_slots (kv_cache_manager s') = num_block_slots (kv_cache_manager s)
     \<and> num_blocks (kv_cache_manager s') = num_blocks (kv_cache_manager s)"

lemma same_requests_limits: "same_requests s s' \<Longrightarrow> limits s' = limits s"
  by (simp add: same_requests_def limits_def)

lemma same_requests_refl [simp]: "same_requests s s"
  by (simp add: same_requests_def)

lemma same_requests_trans: "same_requests s s1 \<Longrightarrow> same_requests s1 s2 \<Longrightarrow> same_requests s s2"
  by (simp add: same_requests_def)

lemma content_fields:
  assumes "content r' = content r"
  shows "req_id r' = req_id r" "token_ids r' = token_ids r" "num_tokens r' = num_tokens r"
    "num_prompt_tokens r' = num_prompt_tokens r" "max_output_tokens r' = max_output_tokens r"
    "ignore_eos r' = ignore_eos r" "sample_params r' = sample_params r"
  using assms by (cases r; cases r'; simp add: content_def num_tokens_def)+

lemma same_requests_node:
  assumes "same_requests s s'" "nodes s n = Some r"
  shows "\<exists>r'. nodes s' n = Some r' \<and> content r' = content r"
  using assms unfolding same_requests_def by (metis map_option_eq_Some option.simps(9))

lemma same_requests_content:
  "same_requests s s' \<Longrightarrow> nodes s n \<noteq> None \<Longrightarrow> content (node s' n) = content (node s n)"
  using same_requests_node [of s s' n] by (auto simp: node_def)

lemma same_requests_dom: "same_requests s s' \<Longrightarrow> dom (nodes s') = dom (nodes s)"
proof -
  assume "same_requests s s'"
  then have "nodes s' n = None \<longleftrightarrow> nodes s n = None" for n
    unfolding same_requests_def by (metis option.map_disc_iff)
  then show ?thesis by (intro set_eqI) (simp add: domIff)
qed

subsection \<open>Reading the invariant\<close>

lemma store_ok_node: "store_ok s \<Longrightarrow> n \<in> set (queue s) \<Longrightarrow> nodes s n = Some (node s n)"
proof -
  assume "store_ok s" "n \<in> set (queue s)"
  then have "n \<in> dom (nodes s)" by (simp add: store_ok_def)
  then show ?thesis by (auto simp: node_def)
qed

lemma queue_parts:
  "n \<in> set (running s) \<Longrightarrow> n \<in> set (queue s)" "n \<in> set (preempted s) \<Longrightarrow> n \<in> set (queue s)"
  "n \<in> set (waiting s) \<Longrightarrow> n \<in> set (queue s)"
  by (simp_all add: queue_def)

lemma store_ok_inj:
  "store_ok s \<Longrightarrow> n \<in> set (queue s) \<Longrightarrow> n' \<in> set (queue s) \<Longrightarrow> req_id (node s n) = req_id (node s n') \<Longrightarrow> n = n'"
  unfolding store_ok_def by (metis option.inject)

lemma store_ok_distinct:
  assumes "store_ok s"
  shows "distinct (running s)" "distinct (preempted s)" "distinct (waiting s)"
    "set (running s) \<inter> set (preempted s) = {}" "set (running s) \<inter> set (waiting s) = {}"
    "set (preempted s) \<inter> set (waiting s) = {}"
  using assms by (auto simp: store_ok_def queue_def)

lemma live_content: "content r' = content r \<Longrightarrow> max_model_len s' = max_model_len s \<Longrightarrow> live s' r' = live s r"
  using content_fields [of r' r] by (simp add: live_def)

lemma holds_frame:
  assumes "others_same rid (view m) (view m')" "num_block_slots m' = num_block_slots m" "req_id r \<noteq> rid"
  shows "holds m' r c = holds m r c"
  using assms by (simp add: holds_def others_same_def)

lemma holds_mono: "holds m r c \<Longrightarrow> c \<le> d \<Longrightarrow> holds m r d"
  by (auto simp: holds_def intro: published_upto_mono)

lemma get_allocated_view: "get_allocated_blocks q m = map_option (map block_id) (view m q)"
  by (cases "req_to_allocated_blocks m q") (simp_all add: view_def get_allocated_blocks_def tagged_def comp_def)

lemma entry_ok_view:
  assumes "entry_ok s r e"
  shows "int (length (allocated_blocks e)) = blocks_for (num_block_slots (kv_cache_manager s)) (num_computed_tokens r)"
proof -
  from assms obtain tv where "view (kv_cache_manager s) (req_id r) = Some tv"
      "int (length tv) = blocks_for (num_block_slots (kv_cache_manager s)) (num_computed_tokens r)"
      "map_option (map block_id) (view (kv_cache_manager s) (req_id r)) = Some (allocated_blocks e)"
    by (auto simp: entry_ok_def holds_def get_allocated_view)
  moreover from this have "allocated_blocks e = map block_id tv" by simp
  ultimately show ?thesis by simp
qed

lemma view_get_allocated: "view m' q = view m q \<Longrightarrow> get_allocated_blocks q m' = get_allocated_blocks q m"
  by (simp add: get_allocated_view)

lemma entry_ok_frame:
  assumes "others_same rid (view (kv_cache_manager s)) (view (kv_cache_manager s'))"
    and "num_block_slots (kv_cache_manager s') = num_block_slots (kv_cache_manager s)" "max_model_len s' = max_model_len s"
    and "req_id r \<noteq> rid"
  shows "entry_ok s' r e = entry_ok s r e" "idle_ok s' r = idle_ok s r" "awaiting_ok s' r = awaiting_ok s r"
  using holds_frame [OF assms(1,2,4)] view_get_allocated [OF others_sameD [OF assms(1,4)]] assms(3)
  by (simp_all add: entry_ok_def idle_ok_def awaiting_ok_def live_def)

lemma sched_invD:
  assumes "sched_inv out s"
  shows "store_ok s" "limits_ok s" "owners_ok s" "pending_ok s" "kv_inv (kv_cache_manager s)"
    "length out \<le> length (running s)" "int (length (running s)) \<le> max_num_seqs s"
  using assms by (simp_all add: sched_inv_def limits_ok_def)

lemma sched_inv_entry:
  "sched_inv out s \<Longrightarrow> i < length out \<Longrightarrow> entry_ok s (node s (running s ! i)) (out ! i)"
  by (auto simp: sched_inv_def)

lemma sched_inv_idle:
  "sched_inv out s \<Longrightarrow> length out \<le> i \<Longrightarrow> i < length (running s) \<Longrightarrow> idle_ok s (node s (running s ! i))"
  by (auto simp: sched_inv_def)

lemma step_inv_sched: "step_inv {} s \<longleftrightarrow> sched_inv [] s"
  unfolding step_inv_def sched_inv_def by (auto simp: all_set_conv_all_nth)

lemma node_upd: "nodes s' = (nodes s)(n \<mapsto> r) \<Longrightarrow> node s' x = (if x = n then r else node s x)"
  by (simp add: node_def)

subsection \<open>Moving one request\<close>

text \<open>The shape of every move: one node is rewritten, its id kept, and the service order is kept.\<close>

definition moved :: "nat \<Rightarrow> Request \<Rightarrow> Scheduler \<Rightarrow> Scheduler \<Rightarrow> bool" where
  "moved n r s s' \<longleftrightarrow> queue s' = queue s \<and> nodes s' = (nodes s)(n \<mapsto> r) \<and> n \<in> set (queue s)
     \<and> content r = content (node s n) \<and> next_node s' = next_node s \<and> id_to_request s' = id_to_request s
     \<and> max_num_seqs s' = max_num_seqs s \<and> max_num_scheduled_tokens s' = max_num_scheduled_tokens s
     \<and> max_model_len s' = max_model_len s
     \<and> others_same (req_id r) (view (kv_cache_manager s)) (view (kv_cache_manager s'))
     \<and> num_block_slots (kv_cache_manager s') = num_block_slots (kv_cache_manager s)
     \<and> num_blocks (kv_cache_manager s') = num_blocks (kv_cache_manager s)"

lemma moved_node: "moved n r s s' \<Longrightarrow> node s' x = (if x = n then r else node s x)"
  by (simp add: moved_def node_upd)

lemma moved_req_id: "moved n r s s' \<Longrightarrow> req_id (node s' x) = req_id (node s x)"
  using content_fields(1) [of r "node s n"] by (simp add: moved_node) (simp add: moved_def)

lemma moved_same_requests:
  assumes "moved n r s s'" "store_ok s"
  shows "same_requests s s'"
  using assms store_ok_node [OF assms(2), of n] by (auto simp: moved_def same_requests_def)

lemma moved_store:
  assumes mv: "moved n r s s'" and ok: "store_ok s"
    and status: "status r = kRunning \<and> n \<in> set (running s') \<or> status r = kPreempted \<and> n \<in> set (preempted s')
      \<or> status r = kWaiting \<and> n \<in> set (waiting s')"
    and rest: "\<And>x. x \<noteq> n \<Longrightarrow> (x \<in> set (running s') \<longleftrightarrow> x \<in> set (running s)) \<and> (x \<in> set (preempted s') \<longleftrightarrow> x \<in> set (preempted s))
      \<and> (x \<in> set (waiting s') \<longleftrightarrow> x \<in> set (waiting s))"
  shows "store_ok s'"
proof -
  have q: "queue s' = queue s" using mv by (simp add: moved_def)
  have dis: "distinct (queue s')" using q ok by (simp add: store_ok_def)
  have st: "status (node s' x) = (if x = n then status r else status (node s x))" for x
    by (simp add: moved_node [OF mv])
  have parts: "set (running s') \<inter> set (preempted s') = {}" "set (running s') \<inter> set (waiting s') = {}"
    "set (preempted s') \<inter> set (waiting s') = {}" using dis by (auto simp: queue_def)
  have "dom (nodes s') = set (queue s')" using mv ok by (auto simp: moved_def store_ok_def)
  moreover have "\<forall>x \<in> set (queue s'). x < next_node s'" using mv ok by (simp add: moved_def store_ok_def)
  moreover have "\<forall>rid x. id_to_request s' rid = Some x \<longleftrightarrow> x \<in> set (queue s') \<and> req_id (node s' x) = rid"
    using ok mv moved_req_id [OF mv] by (simp add: store_ok_def moved_def)
  moreover have "\<forall>x \<in> set (running s'). status (node s' x) = kRunning"
    using status rest ok parts by (auto simp: st store_ok_def)
  moreover have "\<forall>x \<in> set (preempted s'). status (node s' x) = kPreempted"
    using status rest ok parts by (auto simp: st store_ok_def)
  moreover have "\<forall>x \<in> set (waiting s'). status (node s' x) = kWaiting"
    using status rest ok parts by (auto simp: st store_ok_def)
  ultimately show ?thesis using dis by (simp add: store_ok_def)
qed

lemma moved_other:
  assumes mv: "moved n r s s'" and ok: "store_ok s" and x: "x \<in> set (queue s)" "x \<noteq> n"
  shows "node s' x = node s x" "live s' (node s x) = live s (node s x)" "entry_ok s' (node s x) e = entry_ok s (node s x) e"
    "idle_ok s' (node s x) = idle_ok s (node s x)" "awaiting_ok s' (node s x) = awaiting_ok s (node s x)"
proof -
  show "node s' x = node s x" using x(2) by (simp add: moved_node [OF mv])
  have len: "max_model_len s' = max_model_len s" using mv by (simp add: moved_def)
  then show "live s' (node s x) = live s (node s x)" by (simp add: live_def)
  have "req_id (node s x) \<noteq> req_id (node s n)" using store_ok_inj [OF ok x(1), of n] x(2) mv by (auto simp: moved_def)
  then have "req_id (node s x) \<noteq> req_id r" using mv content_fields(1) [of r "node s n"] by (simp add: moved_def)
  from entry_ok_frame [OF _ _ len this] mv
  show "entry_ok s' (node s x) e = entry_ok s (node s x) e" "idle_ok s' (node s x) = idle_ok s (node s x)"
    "awaiting_ok s' (node s x) = awaiting_ok s (node s x)" by (simp_all add: moved_def)
qed

lemma moved_limits: "moved n r s s' \<Longrightarrow> limits_ok s \<Longrightarrow> kv_inv (kv_cache_manager s') \<Longrightarrow> limits_ok s'"
  by (simp add: moved_def limits_ok_def)

lemma moved_owners:
  assumes mv: "moved n r s s'" and ok: "owners_ok s"
    and self: "view (kv_cache_manager s') (req_id r) \<noteq> None \<Longrightarrow> n \<in> set (running s')"
    and keep: "\<And>x. x \<in> set (running s) \<Longrightarrow> x \<noteq> n \<Longrightarrow> x \<in> set (running s')"
  shows "owners_ok s'"
  unfolding owners_ok_def
proof (intro allI impI)
  fix q assume q: "view (kv_cache_manager s') q \<noteq> None"
  show "\<exists>x \<in> set (running s'). req_id (node s' x) = q"
  proof (cases "q = req_id r")
    case True
    with self q show ?thesis using moved_node [OF mv, of n] by auto
  next
    case False
    then have "view (kv_cache_manager s) q \<noteq> None" using q mv by (simp add: moved_def others_same_def)
    then obtain x where x: "x \<in> set (running s)" "req_id (node s x) = q" using ok by (auto simp: owners_ok_def)
    have "x \<noteq> n" using x(2) False mv content_fields(1) [of r "node s n"] by (auto simp: moved_def)
    then show ?thesis using x keep moved_req_id [OF mv] by auto
  qed
qed

lemma moved_pending:
  assumes mv: "moved n r s s'" and st: "store_ok s" and ok: "pending_ok s"
    and self: "n \<in> set (preempted s' @ waiting s') \<Longrightarrow> live s (node s n) \<and> num_computed_tokens r = 0"
    and rest: "\<And>x. x \<noteq> n \<Longrightarrow> x \<in> set (preempted s' @ waiting s') \<Longrightarrow> x \<in> set (preempted s @ waiting s)"
  shows "pending_ok s'"
  unfolding pending_ok_def
proof
  fix x assume x: "x \<in> set (preempted s' @ waiting s')"
  show "live s' (node s' x) \<and> num_computed_tokens (node s' x) = 0"
  proof (cases "x = n")
    case True
    have "live s' r = live s (node s n)" using mv by (intro live_content) (simp_all add: moved_def)
    then show ?thesis using True x self by (simp add: moved_node [OF mv])
  next
    case False
    then have "x \<in> set (preempted s @ waiting s)" using rest x by blast
    then show ?thesis using ok moved_other [OF mv st _ False] by (auto simp: pending_ok_def queue_def)
  qed
qed

end
