(* ===== verification/Scheduler_Step.thy ===== *)
theory Scheduler_Step
  imports Scheduler_Invariant
begin

text \<open>
  One call of \<open>Scheduler::schedule\<close>: neither pass fails an assertion or reads outside a vector,
  and each keeps \<open>sched_inv\<close>. Every lemma also says that the service order \<open>queue\<close> is kept.
\<close>

subsection \<open>Preemption\<close>

lemma preempt_last_ok:
  assumes inv: "sched_inv out s" and len: "length out < length (running s)"
  defines "v \<equiv> last (running s)"
  shows "\<exists>r s'. preempt_last s = Some (r, s') \<and> sched_inv out s' \<and> moved v r s s'
     \<and> running s' = butlast (running s) \<and> preempted s' = v # preempted s \<and> waiting s' = waiting s
     \<and> r = (node s v)\<lparr>num_computed_tokens := 0, status := kPreempted\<rparr>"
proof -
  note parts = sched_invD [OF inv]
  have ne: "running s \<noteq> []" using len by auto
  have v: "v \<in> set (running s)" "v \<in> set (queue s)" using ne by (simp_all add: v_def queue_def)
  have split: "running s = butlast (running s) @ [v]" using ne by (simp add: v_def)
  have vi: "v = running s ! (length (running s) - 1)" using ne by (simp add: v_def last_conv_nth)
  have idle: "idle_ok s (node s v)" unfolding vi using len by (intro sched_inv_idle [OF inv]) auto
  then have range: "0 \<le> num_computed_tokens (node s v)" "num_computed_tokens (node s v) \<le> num_tokens (node s v)"
    by (simp_all add: idle_ok_def)
  from kv.release_frees [OF parts(5) range] obtain m where m: "release_blocks (node s v) (kv_cache_manager s) = Some m"
    "kv_inv m" "others_same (req_id (node s v)) (view (kv_cache_manager s)) (view m)"
    "num_block_slots m = num_block_slots (kv_cache_manager s)" "num_blocks m = num_blocks (kv_cache_manager s)"
    "view m (req_id (node s v)) = None" by blast
  define r where "r = (node s v)\<lparr>num_computed_tokens := 0, status := kPreempted\<rparr>"
  define s' where "s' = s\<lparr>kv_cache_manager := m, nodes := (nodes s)(v \<mapsto> r),
       running := butlast (running s), preempted := v # preempted s\<rparr>"
  have run: "preempt_last s = Some (r, s')"
    using ne store_ok_node [OF parts(1) v(2)] m(1) by (simp add: preempt_last_def Let_def r_def s'_def v_def [symmetric])
  have q: "queue s' = queue s" using split unfolding queue_def s'_def by simp
  have mv: "moved v r s s'"
    using q v(2) m by (simp add: moved_def s'_def r_def content_def)
  have dis: "distinct (running s)" "v \<notin> set (butlast (running s))"
    using store_ok_distinct(1) [OF parts(1)] split by (auto, metis distinct_append disjoint_insert(1) list.set(2))
  have rest: "x \<in> set (butlast (running s)) \<longleftrightarrow> x \<in> set (running s)" if "x \<noteq> v" for x
    by (subst (2) split) (use that in auto)
  have store: "store_ok s'"
    by (rule moved_store [OF mv parts(1)]) (use rest in \<open>auto simp: s'_def r_def\<close>)
  moreover have "limits_ok s'" using moved_limits [OF mv parts(2)] m(2) by (simp add: s'_def)
  moreover have "owners_ok s'"
    by (rule moved_owners [OF mv parts(3)]) (use m(6) rest in \<open>auto simp: s'_def r_def\<close>)
  moreover have "pending_ok s'"
    by (rule moved_pending [OF mv parts(1,4)]) (use idle in \<open>auto simp: s'_def r_def idle_ok_def\<close>)
  moreover have "if i < length out then entry_ok s' (node s' (running s' ! i)) (out ! i)
      else idle_ok s' (node s' (running s' ! i))" if i: "i < length (running s')" for i
  proof -
    have j: "i < length (running s)" "running s' ! i = running s ! i"
      using i by (simp_all add: s'_def nth_butlast)
    have "running s' ! i \<in> set (butlast (running s))" using i nth_mem [of i "butlast (running s)"] by (simp add: s'_def)
    then have ne: "running s ! i \<noteq> v" using dis(2) j(2) by auto
    have "running s ! i \<in> set (queue s)" using j(1) by (simp add: queue_def)
    from moved_other [OF mv parts(1) this ne] show ?thesis
      using sched_inv_entry [OF inv, of i] sched_inv_idle [OF inv, of i] j by simp
  qed
  moreover have "length out \<le> length (running s')" using len by (simp add: s'_def)
  moreover have "int (length (running s')) \<le> max_num_seqs s'" using parts(7) by (simp add: s'_def)
  ultimately have "sched_inv out s'" by (simp add: sched_inv_def)
  with run mv show ?thesis by (intro exI [of _ r] exI [of _ s']) (simp add: s'_def r_def)
qed

lemma last_drop_one: "length xs = Suc n \<Longrightarrow> drop n xs = [last xs]"
  by (cases xs rule: rev_cases) simp_all

lemma take_butlast_le: "j \<le> length xs - 1 \<Longrightarrow> take j (butlast xs) = take j xs"
  by (cases xs rule: rev_cases) simp_all

lemma drop_butlast_last: "xs \<noteq> [] \<Longrightarrow> j \<le> length xs - 1 \<Longrightarrow> drop j (butlast xs) @ last xs # ys = drop j xs @ ys"
  by (cases xs rule: rev_cases) simp_all

definition granted_from :: "ScheduledRequest list \<Rightarrow> nat \<Rightarrow> int \<Rightarrow> Scheduler \<Rightarrow> Scheduler \<Rightarrow> bool" where
  \<comment> \<open>the last attempt succeeded in state \<open>s\<close> and led to \<open>s'\<close>\<close>
  "granted_from out cur k s s' \<longleftrightarrow> sched_inv out s \<and> length out < length (running s) \<and> running s ! length out = cur
     \<and> s' = s\<lparr>kv_cache_manager := kv_cache_manager s'\<rparr> \<and> kv_inv (kv_cache_manager s')
     \<and> others_same (req_id (node s cur)) (view (kv_cache_manager s)) (view (kv_cache_manager s'))
     \<and> num_block_slots (kv_cache_manager s') = num_block_slots (kv_cache_manager s)
     \<and> num_blocks (kv_cache_manager s') = num_blocks (kv_cache_manager s)
     \<and> (\<exists>tv. view (kv_cache_manager s') (req_id (node s cur)) = Some tv
        \<and> int (length tv) = blocks_for (num_block_slots (kv_cache_manager s)) (num_computed_tokens (node s cur) + k)
        \<and> published_upto (num_block_slots (kv_cache_manager s)) (token_ids (node s cur)) (num_computed_tokens (node s cur)) tv)"

lemma holds_view_list:
  "holds m r c \<Longrightarrow> int (length (view_list (view m (req_id r)))) = blocks_for (num_block_slots m) (num_computed_tokens r)
     \<and> published_upto (num_block_slots m) (token_ids r) c (view_list (view m (req_id r)))"
  by (auto simp: holds_def)

lemma live_fits:
  "limits_ok s \<Longrightarrow> live s r \<Longrightarrow> n \<le> num_tokens r
    \<Longrightarrow> n \<le> num_blocks (kv_cache_manager s) * num_block_slots (kv_cache_manager s)"
  by (auto simp: limits_ok_def live_def)

lemma allocate_idle:
  assumes inv: "sched_inv out s" and cur: "length out < length (running s)" "running s ! length out = cur"
    and k: "0 < k" "num_computed_tokens (node s cur) + k \<le> num_tokens (node s cur)"
  shows "allocate_slots (node s cur) k (kv_cache_manager s) = Some (False, kv_cache_manager s)
       \<and> (length (running s) = 1 \<longrightarrow> False)
     \<or> (\<exists>m. allocate_slots (node s cur) k (kv_cache_manager s) = Some (True, m)
          \<and> granted_from out cur k s (s\<lparr>kv_cache_manager := m\<rparr>))"
proof -
  note parts = sched_invD [OF inv]
  let ?r = "node s cur" and ?m = "kv_cache_manager s"
  have idle: "idle_ok s ?r" using sched_inv_idle [OF inv _ cur(1)] cur(2) by simp
  then have c: "0 \<le> num_computed_tokens ?r" by (simp add: idle_ok_def)
  have own: "int (length (view_list (view ?m (req_id ?r)))) = blocks_for (num_block_slots ?m) (num_computed_tokens ?r)"
      "published_upto (num_block_slots ?m) (token_ids ?r) (num_computed_tokens ?r) (view_list (view ?m (req_id ?r)))"
    using holds_view_list [of ?m ?r] idle by (auto simp: idle_ok_def)
  have "\<exists>m'. allocate_slots ?r k ?m = Some (True, m')" if one: "length (running s) = 1"
  proof (rule kv.alone_granted [OF parts(5) k(1) c k(2) _ _ own])
    have "set (running s) = {cur}" using one cur by (auto simp: length_Suc_conv)
    then show "view ?m q = None" if "q \<noteq> req_id ?r" for q
      using parts(3) that by (force simp: owners_ok_def)
    show "num_computed_tokens ?r + k \<le> num_blocks ?m * num_block_slots ?m"
      using live_fits [OF parts(2) _ k(2)] idle by (simp add: idle_ok_def)
  qed
  then show ?thesis
    using kv.allocate_total [OF parts(5) k(1) c k(2) own] inv cur by (auto simp: granted_from_def)
qed

lemma acquire_slots_ok:
  assumes "sched_inv out s" "length out < length (running s)" "running s ! length out = cur"
    and k: "0 < k" "num_computed_tokens (node s cur) + k \<le> num_tokens (node s cur)"
  shows "\<exists>g s' j. acquire_slots cur k s = Some (g, s') \<and> same_requests s s' \<and> queue s' = queue s \<and> waiting s' = waiting s
     \<and> j \<le> length (running s) \<and> running s' = take j (running s) \<and> preempted s' = drop j (running s) @ preempted s
     \<and> node s' cur = (if g then node s cur else (node s cur)\<lparr>num_computed_tokens := 0, status := kPreempted\<rparr>)
     \<and> (if g then length out < j \<and> (\<exists>s0. granted_from out cur k s0 s') else j = length out \<and> out \<noteq> [] \<and> sched_inv out s')"
  using assms
proof (induction "length (running s)" arbitrary: s rule: less_induct)
  case (less s)
  note parts = sched_invD [OF less.prems(1)]
  have in_q: "cur \<in> set (queue s)" using less.prems(2,3) by (auto simp: queue_def)
  have n: "nodes s cur = Some (node s cur)" using store_ok_node [OF parts(1) in_q] .
  consider (refused) "allocate_slots (node s cur) k (kv_cache_manager s) = Some (False, kv_cache_manager s)"
      "length (running s) \<noteq> 1"
    | (granted) m where "allocate_slots (node s cur) k (kv_cache_manager s) = Some (True, m)"
      "granted_from out cur k s (s\<lparr>kv_cache_manager := m\<rparr>)"
    using allocate_idle [OF less.prems] by blast
  then show ?case
  proof cases
    case granted
    then have same: "same_requests s (s\<lparr>kv_cache_manager := m\<rparr>)"
      by (auto simp: same_requests_def granted_from_def)
    have "acquire_slots cur k s = Some (True, s\<lparr>kv_cache_manager := m\<rparr>)"
      using n granted(1) by (simp add: acquire_slots.simps [of cur k s])
    then show ?thesis using granted(2) less.prems(2) same
      by (intro exI [of _ True] exI [of _ "s\<lparr>kv_cache_manager := m\<rparr>"] exI [of _ "length (running s)"])
        (auto simp: queue_def node_def)
  next
    case refused
    have s1: "s\<lparr>kv_cache_manager := kv_cache_manager s\<rparr> = s" by simp
    let ?v = "last (running s)"
    from preempt_last_ok [OF less.prems(1,2)] obtain r s2 where p: "preempt_last s = Some (r, s2)" "sched_inv out s2"
      "moved ?v r s s2" "running s2 = butlast (running s)" "preempted s2 = ?v # preempted s" "waiting s2 = waiting s"
      "r = (node s ?v)\<lparr>num_computed_tokens := 0, status := kPreempted\<rparr>" by blast
    have ne: "running s \<noteq> []" using less.prems(2) by auto
    have same: "same_requests s s2" using moved_same_requests [OF p(3) parts(1)] .
    have q2: "queue s2 = queue s" using p(3) by (simp add: moved_def)
    have n2: "nodes s2 cur = Some (node s2 cur)"
      using store_ok_node [OF sched_invD(1) [OF p(2)]] in_q q2 by simp
    have ids: "req_id (node s2 cur) = req_id (node s cur)" using moved_req_id [OF p(3)] .
    have run: "acquire_slots cur k s = (if req_id r = req_id (node s2 cur) then Some (False, s2) else acquire_slots cur k s2)"
      using n refused(1) p(1) n2 by (simp add: acquire_slots.simps [of cur k s])
    show ?thesis
    proof (cases "cur = ?v")
      case True
      have last: "length (running s) = Suc (length out)"
      proof (rule ccontr)
        assume "\<not> ?thesis"
        then have "length out < length (running s) - 1" using less.prems(2) by simp
        moreover have "running s ! length out = running s ! (length (running s) - 1)"
          using True less.prems(3) ne by (simp add: last_conv_nth)
        ultimately show False
          using store_ok_distinct(1) [OF parts(1)] less.prems(2) nth_eq_iff_index_eq [of "running s"] by auto
      qed
      have "req_id r = req_id (node s2 cur)" using ids p(7) True by simp
      then have "acquire_slots cur k s = Some (False, s2)" using run by simp
      moreover have "running s2 = take (length out) (running s)" "drop (length out) (running s) = [?v]"
        using p(4) last ne by (simp_all add: butlast_conv_take last_drop_one)
      ultimately show ?thesis
        using p same q2 refused(2) last True
        by (intro exI [of _ False] exI [of _ s2] exI [of _ "length out"]) (auto simp: moved_node [OF p(3)])
    next
      case False
      have longer: "length out < length (running s) - 1"
        using False less.prems(2,3) ne by (cases "length out = length (running s) - 1") (auto simp: last_conv_nth)
      have v: "?v \<in> set (queue s)" using ne by (simp add: queue_def)
      have "req_id r \<noteq> req_id (node s2 cur)"
        using ids p(7) store_ok_inj [OF parts(1) in_q v] False by auto
      then have again: "acquire_slots cur k s = acquire_slots cur k s2" using run by simp
      have same_node: "node s2 cur = node s cur" using False by (simp add: moved_node [OF p(3)])
      have "length (running s2) < length (running s)" using p(4) ne by simp
      moreover have cur2: "length out < length (running s2)" "running s2 ! length out = cur"
        using longer less.prems(3) p(4) by (simp_all add: nth_butlast)
      ultimately obtain g s' j where IH: "acquire_slots cur k s2 = Some (g, s')" "same_requests s2 s'" "queue s' = queue s2"
        "waiting s' = waiting s2" "j \<le> length (running s2)" "running s' = take j (running s2)"
        "preempted s' = drop j (running s2) @ preempted s2"
        "node s' cur = (if g then node s2 cur else (node s2 cur)\<lparr>num_computed_tokens := 0, status := kPreempted\<rparr>)"
        "if g then length out < j \<and> (\<exists>s0. granted_from out cur k s0 s') else j = length out \<and> out \<noteq> [] \<and> sched_inv out s'"
        using less.hyps [OF _ p(2)] less.prems(4,5) same_node by metis
      have "running s' = take j (running s)" "preempted s' = drop j (running s) @ preempted s" "j \<le> length (running s)"
        using IH(5,6,7) p(4,5) ne by (simp_all add: take_butlast_le drop_butlast_last)
      then show ?thesis
        using again IH same_requests_trans [OF same IH(2)] q2 p(6) same_node
        by (intro exI [of _ g] exI [of _ s'] exI [of _ j]) auto
    qed
  qed
qed

subsection \<open>Pass 1\<close>

lemma subvec_in: "0 \<le> off \<Longrightarrow> 0 \<le> n \<Longrightarrow> off + n \<le> int (length xs)
    \<Longrightarrow> \<exists>ys. subvec xs off n = Some ys \<and> int (length ys) = n"
  by (simp add: subvec_def)

lemma scheduled_request_ok:
  assumes "0 \<le> c" "0 < k" "c + k \<le> num_tokens r" "view m (req_id r) = Some tv"
  shows "\<exists>e. scheduled_request r c k p m = Some e \<and> int (length (tokens_to_compute e)) = k
     \<and> subvec (token_ids r) c k = Some (tokens_to_compute e) \<and> position_offset e = c \<and> sr_request_id e = req_id r
     \<and> needs_sampling e = (c + k \<ge> num_prefill_tokens r) \<and> is_prefill e = p \<and> sr_sample_params e = sample_params r
     \<and> get_allocated_blocks (req_id r) m = Some (allocated_blocks e)"
proof -
  from subvec_in [of c k "token_ids r"] assms obtain ys where "subvec (token_ids r) c k = Some ys" "int (length ys) = k"
    by (auto simp: num_tokens_def)
  then show ?thesis using assms(4) by (simp add: scheduled_request_def get_allocated_view)
qed

lemma commit_ok:
  assumes g: "granted_from out cur k s0 s1" and k: "0 < k" "num_computed_tokens (node s0 cur) + k \<le> num_tokens (node s0 cur)"
  defines "r \<equiv> node s0 cur"
  shows "\<exists>e. scheduled_request r (num_computed_tokens r) k (num_computed_tokens r < num_prefill_tokens r) (kv_cache_manager s1) = Some e
     \<and> int (length (tokens_to_compute e)) = k
     \<and> sched_inv (out @ [e]) (s1\<lparr>nodes := (nodes s1)(cur \<mapsto> r\<lparr>num_computed_tokens := num_computed_tokens r + k\<rparr>)\<rparr>)"
proof -
  let ?c = "num_computed_tokens r" and ?m = "kv_cache_manager s1"
  define r' where "r' = r\<lparr>num_computed_tokens := ?c + k\<rparr>"
  define s' where "s' = s1\<lparr>nodes := (nodes s1)(cur \<mapsto> r')\<rparr>"
  from g have inv: "sched_inv out s0" and len: "length out < length (running s0)" and cur: "running s0 ! length out = cur"
    and s1: "s1 = s0\<lparr>kv_cache_manager := ?m\<rparr>" and ok: "kv_inv ?m"
    by (simp_all add: granted_from_def)
  from g obtain tv where tv: "view ?m (req_id r) = Some tv"
      "int (length tv) = blocks_for (num_block_slots (kv_cache_manager s0)) (?c + k)"
      "published_upto (num_block_slots (kv_cache_manager s0)) (token_ids r) ?c tv"
    by (auto simp: granted_from_def r_def)
  note parts = sched_invD [OF inv]
  have idle: "idle_ok s0 r" using sched_inv_idle [OF inv _ len] cur by (simp add: r_def)
  then have c: "0 \<le> ?c" by (simp add: idle_ok_def)
  have in_run: "cur \<in> set (running s0)" using len cur by auto
  from scheduled_request_ok [OF c k(1) k(2) [folded r_def] tv(1)] obtain e where e:
    "scheduled_request r ?c k (?c < num_prefill_tokens r) ?m = Some e" "int (length (tokens_to_compute e)) = k"
    "subvec (token_ids r) ?c k = Some (tokens_to_compute e)" "position_offset e = ?c" "sr_request_id e = req_id r"
    "needs_sampling e = (?c + k \<ge> num_prefill_tokens r)" "is_prefill e = (?c < num_prefill_tokens r)"
    "sr_sample_params e = sample_params r" "get_allocated_blocks (req_id r) ?m = Some (allocated_blocks e)" by blast
  have fields: "running s' = running s0" "preempted s' = preempted s0" "waiting s' = waiting s0" "kv_cache_manager s' = ?m"
    "nodes s' = (nodes s0)(cur \<mapsto> r')" "max_model_len s' = max_model_len s0" "max_num_seqs s' = max_num_seqs s0"
    "next_node s' = next_node s0" "id_to_request s' = id_to_request s0"
    "max_num_scheduled_tokens s' = max_num_scheduled_tokens s0"
    unfolding s'_def by (subst s1, simp)+
  have st: "status r = kRunning" using parts(1) in_run by (simp add: store_ok_def r_def)
  have mv: "moved cur r' s0 s'"
    using in_run g unfolding moved_def fields
    by (simp add: queue_def fields r'_def r_def content_def granted_from_def)
  have "store_ok s'" by (rule moved_store [OF mv parts(1)]) (use in_run st in \<open>auto simp: fields r'_def\<close>)
  moreover have "limits_ok s'" using moved_limits [OF mv parts(2)] ok by (simp add: fields)
  moreover have "owners_ok s'" by (rule moved_owners [OF mv parts(3)]) (use in_run in \<open>auto simp: fields\<close>)
  moreover have "pending_ok s'"
    by (rule moved_pending [OF mv parts(1,4)])
      (use in_run store_ok_distinct(4,5) [OF parts(1)] in \<open>auto simp: fields\<close>)
  moreover have "if i < length (out @ [e]) then entry_ok s' (node s' (running s' ! i)) ((out @ [e]) ! i)
      else idle_ok s' (node s' (running s' ! i))" if i: "i < length (running s')" for i
  proof (cases "i = length out")
    case True
    have "live s' r'" using idle live_content [of r' r s' s0] by (simp add: r'_def content_def fields idle_ok_def)
    moreover have "needs_sampling e = (?c + k = num_tokens r)"
        "num_prefill_tokens r = num_tokens r \<or> ?c + k = num_tokens r"
      using idle k by (auto simp: e(6) idle_ok_def r_def)
    moreover have "holds ?m r' ?c" using tv g by (simp add: holds_def r'_def granted_from_def)
    ultimately have "entry_ok s' r' e"
      using e(3-5,7-9) idle c k by (simp add: entry_ok_def fields r'_def idle_ok_def num_tokens_def r_def)
    then show ?thesis using True by (simp add: moved_node [OF mv] fields cur)
  next
    case False
    then have ne: "running s0 ! i \<noteq> cur"
      using store_ok_distinct(1) [OF parts(1)] i len cur by (auto simp: fields nth_eq_iff_index_eq)
    have "running s0 ! i \<in> set (queue s0)" using i by (simp add: fields queue_def)
    from moved_other [OF mv parts(1) this ne] show ?thesis
      using sched_inv_entry [OF inv, of i] sched_inv_idle [OF inv, of i] i False
      by (auto simp: fields nth_append)
  qed
  moreover have "length (out @ [e]) \<le> length (running s')" "int (length (running s')) \<le> max_num_seqs s'"
    using len parts(7) by (simp_all add: fields)
  ultimately have "sched_inv (out @ [e]) s'" unfolding sched_inv_def by blast
  with e(1,2) show ?thesis by (auto simp: s'_def r'_def)
qed

text \<open>What pass 1 does to the queues: the tail of the running queue may go to the preempted one.\<close>

definition tail_preempted :: "Scheduler \<Rightarrow> Scheduler \<Rightarrow> bool" where
  "tail_preempted s s' \<longleftrightarrow> (\<exists>j \<le> length (running s). running s' = take j (running s)
     \<and> preempted s' = drop j (running s) @ preempted s) \<and> waiting s' = waiting s"

lemma tail_preempted_refl [simp]: "tail_preempted s s"
  by (auto simp: tail_preempted_def)

lemma tail_preempted_trans: "tail_preempted s s1 \<Longrightarrow> tail_preempted s1 s2 \<Longrightarrow> tail_preempted s s2"
proof -
  assume a: "tail_preempted s s1" "tail_preempted s1 s2"
  then obtain i j where i: "i \<le> length (running s)" "running s1 = take i (running s)" "preempted s1 = drop i (running s) @ preempted s"
    and j: "j \<le> length (running s1)" "running s2 = take j (running s1)" "preempted s2 = drop j (running s1) @ preempted s1"
    by (auto simp: tail_preempted_def)
  have "drop j (take i (running s)) @ drop i (running s) = drop j (running s)"
    using i(1,2) j(1) append_take_drop_id [of "i - j" "drop j (running s)"] by (simp add: drop_take)
  moreover have le: "j \<le> i" using i(1,2) j(1) by simp
  ultimately have "running s2 = take j (running s)" "preempted s2 = drop j (running s) @ preempted s" "j \<le> length (running s)"
    using i j by (simp_all add: min_def)
  then show ?thesis using a unfolding tail_preempted_def by auto
qed

lemma tail_preempted_queue: "tail_preempted s s' \<Longrightarrow> queue s' = queue s"
  by (auto simp: tail_preempted_def queue_def)

lemma tail_preempted_same:
  "tail_preempted s s' \<Longrightarrow> length (preempted s') = length (preempted s)
    \<Longrightarrow> running s' = running s \<and> preempted s' = preempted s \<and> waiting s' = waiting s"
  by (auto simp: tail_preempted_def)

lemma tail_preempted_length: "tail_preempted s s' \<Longrightarrow> length (preempted s) \<le> length (preempted s')"
  by (auto simp: tail_preempted_def)

lemma tail_preempted_squeeze:
  assumes "tail_preempted s s1" "tail_preempted s1 s'" "preempted s' = preempted s"
  shows "preempted s' = preempted s1"
proof -
  have "length (preempted s') = length (preempted s1)"
    using tail_preempted_length [OF assms(1)] tail_preempted_length [OF assms(2)] assms(3) by simp
  with tail_preempted_same [OF assms(2)] show ?thesis by simp
qed

lemma schedule_running_ok:
  assumes inv: "sched_inv out s" and len: "length out < length (running s)" and budget: "0 < budget"
  shows "\<exists>res s'. schedule_running (running s ! length out) budget s = Some (res, s')
     \<and> same_requests s s' \<and> tail_preempted s s'
     \<and> (case res of
          None \<Rightarrow> out \<noteq> [] \<and> sched_inv out s' \<and> length (running s') = length out
        | Some (k, e) \<Rightarrow> 0 < k \<and> k \<le> budget \<and> int (length (tokens_to_compute e)) = k
            \<and> sched_inv (out @ [e]) s')"
proof -
  let ?n = "running s ! length out"
  let ?r = "node s ?n"
  define k where "k = min (num_tokens ?r - num_computed_tokens ?r) budget"
  note parts = sched_invD [OF inv]
  have in_q: "?n \<in> set (queue s)" using len by (simp add: queue_def)
  have n: "nodes s ?n = Some ?r" using store_ok_node [OF parts(1) in_q] .
  have idle: "idle_ok s ?r" using sched_inv_idle [OF inv _ len] by simp
  then have pos: "num_computed_tokens ?r < num_tokens ?r" by (simp add: idle_ok_def)
  have k: "0 < k" "num_computed_tokens ?r + k \<le> num_tokens ?r" "k \<le> budget"
    using pos budget by (simp_all add: k_def)
  from acquire_slots_ok [OF inv len refl k(1,2)] obtain g s1 j where a: "acquire_slots ?n k s = Some (g, s1)"
    "same_requests s s1" "queue s1 = queue s" "waiting s1 = waiting s" "j \<le> length (running s)" "running s1 = take j (running s)"
    "preempted s1 = drop j (running s) @ preempted s"
    "node s1 ?n = (if g then ?r else ?r\<lparr>num_computed_tokens := 0, status := kPreempted\<rparr>)"
    "if g then length out < j \<and> (\<exists>s0. granted_from out ?n k s0 s1) else j = length out \<and> out \<noteq> [] \<and> sched_inv out s1"
    by blast
  have tp: "tail_preempted s s1" using a(4-7) by (auto simp: tail_preempted_def)
  show ?thesis
  proof (cases g)
    case False
    then have "schedule_running ?n budget s = Some (None, s1)"
      using n pos budget a(1) by (simp add: schedule_running_def k_def [symmetric])
    then show ?thesis using a False tp by (intro exI [of _ None] exI [of _ s1]) auto
  next
    case True
    then obtain s0 where g: "granted_from out ?n k s0 s1" using a(9) by auto
    have "node s1 ?n = node s0 ?n" using g unfolding granted_from_def node_def by (metis Scheduler.simps(1) Scheduler.update_convs(7) Scheduler.surjective)
    then have r0: "node s0 ?n = ?r" using a(8) True by simp
    from commit_ok [OF g k(1)] r0 k(2) obtain e where e:
      "scheduled_request ?r (num_computed_tokens ?r) k (num_computed_tokens ?r < num_prefill_tokens ?r) (kv_cache_manager s1) = Some e"
      "int (length (tokens_to_compute e)) = k"
      "sched_inv (out @ [e]) (s1\<lparr>nodes := (nodes s1)(?n \<mapsto> ?r\<lparr>num_computed_tokens := num_computed_tokens ?r + k\<rparr>)\<rparr>)"
      by auto
    define s2 where "s2 = s1\<lparr>nodes := (nodes s1)(?n \<mapsto> ?r\<lparr>num_computed_tokens := num_computed_tokens ?r + k\<rparr>)\<rparr>"
    have n1: "nodes s1 ?n = Some ?r" using same_requests_node [OF a(2) n] a(8) True by (auto simp: node_def)
    have "schedule_running ?n budget s = Some (Some (k, e), s2)"
      using n pos budget a(1) True n1 e(1) by (simp add: schedule_running_def Let_def k_def [symmetric] s2_def)
    moreover have "same_requests s s2"
      using a(2) n n1 unfolding same_requests_def s2_def by (auto simp: content_def)
    moreover have "tail_preempted s s2" using tp by (simp add: tail_preempted_def s2_def)
    ultimately show ?thesis using k e(2,3) by (intro exI [of _ "Some (k, e)"] exI [of _ s2]) (simp add: s2_def)
  qed
qed

definition total_tokens :: "ScheduledRequest list \<Rightarrow> int" where
  "total_tokens out = (\<Sum>e\<leftarrow>out. int (length (tokens_to_compute e)))"

lemma total_tokens_simps [simp]:
  "total_tokens [] = 0" "total_tokens (out @ [e]) = total_tokens out + int (length (tokens_to_compute e))"
  by (simp_all add: total_tokens_def)

lemma fewer_than_seqs_iff:
  assumes "0 \<le> max_num_seqs s" "max_num_seqs s < 2 ^ 31" "int (length out) \<le> max_num_seqs s"
  shows "fewer_than_seqs out s \<longleftrightarrow> int (length out) < max_num_seqs s"
proof -
  have "uint (word_of_nat (length out) :: 64 word) = int (length out)"
    using assms by (simp add: unsigned_of_nat take_bit_nat_eq_self)
  moreover have "uint (word_of_int (max_num_seqs s) :: 64 word) = max_num_seqs s"
    using assms by (simp add: unsigned_of_int take_bit_int_eq_self)
  ultimately show ?thesis by (simp add: fewer_than_seqs_def word_less_def)
qed

lemma sched_inv_fewer:
  assumes "sched_inv out s"
  shows "fewer_than_seqs out s \<longleftrightarrow> int (length out) < max_num_seqs s"
  using sched_invD [OF assms] by (intro fewer_than_seqs_iff) (auto simp: limits_ok_def)

lemma schedule_pass1_ok:
  assumes "sched_inv out s" "0 \<le> budget"
  shows "\<exists>b out' s'. schedule_pass1 (length out) budget out s = Some (b, out', s')
     \<and> sched_inv out' s' \<and> same_requests s s' \<and> tail_preempted s s'
     \<and> 0 \<le> b \<and> total_tokens out' + b = total_tokens out + budget
     \<and> (\<exists>es. out' = out @ es)
     \<and> (preempted s' = preempted s \<and> 0 < b \<and> fewer_than_seqs out' s' \<longrightarrow> length out' = length (running s'))
     \<and> (0 < budget \<and> running s \<noteq> [] \<longrightarrow> out' \<noteq> [])"
  using assms
proof (induction "length (running s) - length out" arbitrary: budget out s rule: less_induct)
  case less
  show ?case
  proof (cases "length out < length (running s) \<and> budget > 0 \<and> fewer_than_seqs out s")
    case stop: False
    then have "schedule_pass1 (length out) budget out s = Some (budget, out, s)"
      by (subst schedule_pass1.simps) auto
    moreover have "out \<noteq> []" if "0 < budget" "running s \<noteq> []"
      using stop that sched_inv_fewer [OF less.prems(1)] sched_invD(2) [OF less.prems(1)] by (auto simp: limits_ok_def)
    ultimately show ?thesis using less.prems stop sched_invD(6) [OF less.prems(1)] by auto
  next
    case go: True
    from schedule_running_ok [OF less.prems(1)] go obtain res s1 where r:
      "schedule_running (running s ! length out) budget s = Some (res, s1)" "same_requests s s1" "tail_preempted s s1"
      "case res of None \<Rightarrow> out \<noteq> [] \<and> sched_inv out s1 \<and> length (running s1) = length out
        | Some (k, e) \<Rightarrow> 0 < k \<and> k \<le> budget \<and> int (length (tokens_to_compute e)) = k \<and> sched_inv (out @ [e]) s1"
      by blast
    show ?thesis
    proof (cases res)
      case None
      then have "schedule_pass1 (length out) budget out s = Some (budget, out, s1)"
        using go r(1) by (subst schedule_pass1.simps) auto
      then show ?thesis using r None less.prems(2) by auto
    next
      case (Some ke)
      obtain k e where res: "res = Some (k, e)" using Some by (cases ke) auto
      with r(4) have k: "0 < k" "k \<le> budget" "int (length (tokens_to_compute e)) = k" "sched_inv (out @ [e]) s1" by auto
      have "length (running s1) \<le> length (running s)" using r(3) by (auto simp: tail_preempted_def)
      then have "length (running s1) - length (out @ [e]) < length (running s) - length out"
        using go by (simp, linarith)
      from less.hyps [OF this k(4), of "budget - k"] k(2) obtain b out' s' where IH:
        "schedule_pass1 (length (out @ [e])) (budget - k) (out @ [e]) s1 = Some (b, out', s')"
        "sched_inv out' s'" "same_requests s1 s'" "tail_preempted s1 s'" "0 \<le> b"
        "total_tokens out' + b = total_tokens (out @ [e]) + (budget - k)" "\<exists>es. out' = (out @ [e]) @ es"
        "preempted s' = preempted s1 \<and> 0 < b \<and> fewer_than_seqs out' s' \<longrightarrow> length out' = length (running s')" by auto
      have "schedule_pass1 (length out) budget out s = Some (b, out', s')"
        using go r(1) IH(1) res by (subst schedule_pass1.simps) auto
      moreover have "preempted s' = preempted s \<Longrightarrow> preempted s' = preempted s1"
        using tail_preempted_squeeze [OF r(3) IH(4)] .
      moreover have "total_tokens out' + b = total_tokens out + budget" using IH(6) k(3) by simp
      moreover from IH(7) obtain es where "out' = out @ (e # es)" by auto
      moreover from this have "out' \<noteq> []" by simp
      ultimately show ?thesis
        using IH(2,5,8) same_requests_trans [OF r(2) IH(3)] tail_preempted_trans [OF r(3) IH(4)] by blast
    qed
  qed
qed

subsection \<open>Pass 2\<close>

lemma tagged_stats [simp]: "tagged (m\<lparr>stats := x\<rparr>) = tagged m"
  by (simp add: tagged_def fun_eq_iff)

lemma stats_upd_kv:
  "kv_ok (m\<lparr>stats := x\<rparr>) fl = kv_ok m fl" "view (m\<lparr>stats := x\<rparr>) = view m" "num_blocks (m\<lparr>stats := x\<rparr>) = num_blocks m"
  by (simp_all add: kv_ok_def pool_def free_list_def index_ok_def prefix_ok_def view_def num_blocks_def fun_eq_iff)

lemma record_prefix_reuse_kv [simp]:
  "kv_inv (record_prefix_reuse k m) = kv_inv m" "view (record_prefix_reuse k m) = view m"
  "num_blocks (record_prefix_reuse k m) = num_blocks m" "num_block_slots (record_prefix_reuse k m) = num_block_slots m"
  by (simp_all add: record_prefix_reuse_def Let_def kv_inv_def stats_upd_kv)

lemma next_admission_pending:
  assumes "next_admission s = Some n"
  shows "n \<in> set (preempted s @ waiting s)" "n \<in> set (queue s)"
  using next_admission_head [OF assms] by (auto simp: queue_def) (metis list.set_intros(1))+

lemma admit_request_lists:
  assumes "next_admission s = Some n" "distinct (queue s)"
  shows "running (admit_request n s) = running s @ [n]" "queue (admit_request n s) = queue s"
    "set (preempted (admit_request n s)) = set (preempted s) - {n}" "set (waiting (admit_request n s)) = set (waiting s) - {n}"
  using next_admission_head [OF assms(1)] assms(2)
  by (cases "preempted s"; cases "waiting s"; auto simp: admit_request_def queue_def)+

lemma admit_request_same [simp]:
  "nodes (admit_request n s) = nodes s" "kv_cache_manager (admit_request n s) = kv_cache_manager s"
  "next_node (admit_request n s) = next_node s" "id_to_request (admit_request n s) = id_to_request s"
  "max_num_seqs (admit_request n s) = max_num_seqs s" "max_model_len (admit_request n s) = max_model_len s"
  "max_num_scheduled_tokens (admit_request n s) = max_num_scheduled_tokens s"
  by (simp_all add: admit_request_def)

lemma pending_view:
  assumes inv: "sched_inv out s" and n: "n \<in> set (preempted s @ waiting s)"
  shows "view (kv_cache_manager s) (req_id (node s n)) = None" "live s (node s n)" "num_computed_tokens (node s n) = 0"
proof -
  note parts = sched_invD [OF inv]
  show "live s (node s n)" "num_computed_tokens (node s n) = 0" using parts(4) n by (auto simp: pending_ok_def)
  show "view (kv_cache_manager s) (req_id (node s n)) = None"
  proof (rule ccontr)
    assume "\<not> ?thesis"
    then obtain x where x: "x \<in> set (running s)" "req_id (node s x) = req_id (node s n)"
      using parts(3) by (auto simp: owners_ok_def)
    have "x = n" using store_ok_inj [OF parts(1) _ _ x(2)] x(1) n by (auto simp: queue_def)
    then show False using x(1) n store_ok_distinct(4,5) [OF parts(1)] by auto
  qed
qed

lemma sched_inv_refused:
  assumes inv: "sched_inv out s" and n: "n \<in> set (preempted s @ waiting s)" and m: "kv_inv m"
    "others_same (req_id (node s n)) (view (kv_cache_manager s)) (view m)" "view m (req_id (node s n)) = None"
    "num_block_slots m = num_block_slots (kv_cache_manager s)" "num_blocks m = num_blocks (kv_cache_manager s)"
  shows "sched_inv out (s\<lparr>kv_cache_manager := m\<rparr>)"
proof -
  note parts = sched_invD [OF inv]
  let ?s = "s\<lparr>kv_cache_manager := m\<rparr>"
  have "view m q = view (kv_cache_manager s) q" for q
    using m(2,3) pending_view(1) [OF inv n] by (cases "q = req_id (node s n)") (auto simp: others_same_def)
  then have v: "view m = view (kv_cache_manager s)" by auto
  then have "get_allocated_blocks q m = get_allocated_blocks q (kv_cache_manager s)" for q
    by (simp add: get_allocated_view)
  then have "entry_ok ?s r e = entry_ok s r e" "idle_ok ?s r = idle_ok s r" for r e
    by (simp_all add: entry_ok_def idle_ok_def live_def holds_def v m(4))
  moreover have "store_ok ?s = store_ok s" "owners_ok ?s = owners_ok s" "pending_ok ?s = pending_ok s" "node ?s = node s"
    by (simp_all add: store_ok_def queue_def node_def [abs_def] owners_ok_def pending_ok_def live_def v)
  moreover have "limits_ok ?s" using parts(2) m(1,4,5) by (simp add: limits_ok_def)
  ultimately show ?thesis using inv by (simp add: sched_inv_def)
qed

text \<open>The state after an admission: \<open>r\<close> is the admitted request, \<open>c\<close> its reused prefix.\<close>

lemma sched_inv_admitted:
  assumes inv: "sched_inv out s" and all: "length out = length (running s)" and room: "int (length out) < max_num_seqs s"
    and adm: "next_admission s = Some n"
    and m: "kv_inv m" "others_same (req_id (node s n)) (view (kv_cache_manager s)) (view m)"
      "num_block_slots m = num_block_slots (kv_cache_manager s)" "num_blocks m = num_blocks (kv_cache_manager s)"
    and r: "content r = content (node s n)" "status r = kRunning"
    and e: "entry_ok (s\<lparr>kv_cache_manager := m\<rparr>) r e"
  shows "moved n r s (admit_request n (s\<lparr>kv_cache_manager := m, nodes := (nodes s)(n \<mapsto> r)\<rparr>))"
    "sched_inv (out @ [e]) (admit_request n (s\<lparr>kv_cache_manager := m, nodes := (nodes s)(n \<mapsto> r)\<rparr>))"
proof -
  note parts = sched_invD [OF inv]
  define t where "t = s\<lparr>kv_cache_manager := m, nodes := (nodes s)(n \<mapsto> r)\<rparr>"
  define s' where "s' = admit_request n t"
  have "next_admission t = next_admission s" by (simp add: t_def next_admission_def)
  then have adm': "next_admission t = Some n" using adm by simp
  have q: "queue t = queue s" by (simp add: t_def queue_def)
  have dis: "distinct (queue t)" using parts(1) q by (simp add: store_ok_def)
  have lists: "running s' = running s @ [n]" "queue s' = queue s" "set (preempted s') = set (preempted s) - {n}"
    "set (waiting s') = set (waiting s) - {n}"
    using admit_request_lists [OF adm' dis] by (simp_all add: s'_def q) (simp_all add: t_def)
  have fields: "nodes s' = (nodes s)(n \<mapsto> r)" "kv_cache_manager s' = m" "max_num_seqs s' = max_num_seqs s"
    "max_model_len s' = max_model_len s" by (simp_all add: s'_def t_def)
  have n: "n \<in> set (preempted s @ waiting s)" "n \<in> set (queue s)" using next_admission_pending [OF adm] .
  have ids: "req_id r = req_id (node s n)" using r(1) by (rule content_fields)
  show mv: "moved n r s (admit_request n (s\<lparr>kv_cache_manager := m, nodes := (nodes s)(n \<mapsto> r)\<rparr>))"
    using lists(2) n(2) r(1) m(2-4) by (simp add: moved_def s'_def t_def ids)
  then have mv: "moved n r s s'" by (simp add: s'_def t_def)
  have "store_ok s'" by (rule moved_store [OF mv parts(1)]) (use r(2) in \<open>auto simp: lists\<close>)
  moreover have "limits_ok s'" using moved_limits [OF mv parts(2)] m(1) by (simp add: fields)
  moreover have "owners_ok s'" by (rule moved_owners [OF mv parts(3)]) (auto simp: lists)
  moreover have "pending_ok s'" by (rule moved_pending [OF mv parts(1,4)]) (auto simp: lists)
  moreover have "if i < length (out @ [e]) then entry_ok s' (node s' (running s' ! i)) ((out @ [e]) ! i)
      else idle_ok s' (node s' (running s' ! i))" if i: "i < length (running s')" for i
  proof (cases "i = length out")
    case True
    have "entry_ok s' r e" using e by (simp add: entry_ok_def live_def fields)
    then show ?thesis using True all by (simp add: lists nth_append moved_node [OF mv])
  next
    case False
    then have lt: "i < length (running s)" using i all by (simp add: lists)
    then have x: "running s ! i \<in> set (running s)" by simp
    have ne: "running s ! i \<noteq> n" using x n(1) store_ok_distinct(4,5) [OF parts(1)] by auto
    from moved_other [OF mv parts(1) queue_parts(1) [OF x] ne] show ?thesis
      using sched_inv_entry [OF inv, of i] lt all by (simp add: lists nth_append)
  qed
  moreover have "length (out @ [e]) \<le> length (running s')" "int (length (running s')) \<le> max_num_seqs s'"
    using all room by (simp_all add: lists fields)
  ultimately have "sched_inv (out @ [e]) s'" unfolding sched_inv_def by blast
  then show "sched_inv (out @ [e]) (admit_request n (s\<lparr>kv_cache_manager := m, nodes := (nodes s)(n \<mapsto> r)\<rparr>))"
    by (simp add: s'_def t_def)
qed

lemma schedule_new_ok:
  assumes inv: "sched_inv out s" and all: "length out = length (running s)" and room: "int (length out) < max_num_seqs s"
    and adm: "next_admission s = Some n" and budget: "0 < budget"
  shows "\<exists>res s'. schedule_new n budget s = Some (res, s') \<and> same_requests s s' \<and> queue s' = queue s
     \<and> (case res of
          None \<Rightarrow> out \<noteq> [] \<and> sched_inv out s' \<and> running s' = running s
        | Some (k, e) \<Rightarrow> 0 < k \<and> k \<le> budget \<and> int (length (tokens_to_compute e)) = k
            \<and> sched_inv (out @ [e]) s' \<and> running s' = running s @ [n])"
proof -
  note parts = sched_invD [OF inv]
  let ?m = "kv_cache_manager s" and ?q = "node s n"
  have n: "n \<in> set (preempted s @ waiting s)" "n \<in> set (queue s)" using next_admission_pending [OF adm] .
  note pend = pending_view [OF inv n(1)]
  have node: "nodes s n = Some ?q" using store_ok_node [OF parts(1) n(2)] .
  have toks: "token_ids ?q \<noteq> []" using pend(2) by (auto simp: live_def num_tokens_def)
  from kv.reuse_then_owns [OF parts(5) toks pend(1)] obtain c m1 where c: "reuse_prefix ?q ?m = Some (c, m1)"
    "kv_inv m1" "others_same (req_id ?q) (view ?m) (view m1)" "num_block_slots m1 = num_block_slots ?m"
    "num_blocks m1 = num_blocks ?m" "0 \<le> c" "c < num_tokens ?q"
    "int (length (view_list (view m1 (req_id ?q)))) = blocks_for (num_block_slots ?m) c"
    "published_upto (num_block_slots ?m) (token_ids ?q) c (view_list (view m1 (req_id ?q)))" by blast
  define r where "r = ?q\<lparr>num_computed_tokens := c\<rparr>"
  define k where "k = min (num_tokens ?q - c) budget"
  have k: "0 < k" "c + k \<le> num_tokens ?q" "k \<le> budget" using c(7) budget by (simp_all add: k_def)
  have rf: "req_id r = req_id ?q" "num_computed_tokens r = c" "token_ids r = token_ids ?q" "num_tokens r = num_tokens ?q"
    "num_prefill_tokens r = num_prefill_tokens ?q" by (simp_all add: r_def num_tokens_def)
  show ?thesis
  proof (cases "\<exists>m2. allocate_slots r k m1 = Some (True, m2)")
    case False
    have "out \<noteq> []"
    proof
      assume "out = []"
      then have none: "view m1 q = None" if "q \<noteq> req_id r" for q
        using that parts(3) all c(3) by (auto simp: owners_ok_def others_same_def rf)
      have "c + k \<le> num_blocks ?m * num_block_slots ?m" using live_fits [OF parts(2) pend(2) k(2)] .
      then show False using kv.alone_granted [of m1 k r] False c k none by (simp add: rf)
    qed
    have "allocate_slots r k m1 = Some (False, m1)"
      using kv.allocate_total [of m1 k r] c k False by (auto simp: rf)
    moreover from kv.release_frees [OF c(2), of r] obtain m3 where m3: "release_blocks r m1 = Some m3" "kv_inv m3"
      "others_same (req_id ?q) (view m1) (view m3)" "num_block_slots m3 = num_block_slots m1"
      "num_blocks m3 = num_blocks m1" "view m3 (req_id ?q) = None" using c(6,7) by (auto simp: rf)
    moreover have "(nodes s)(n \<mapsto> r\<lparr>num_computed_tokens := 0\<rparr>) = nodes s"
      using node pend(3) by (simp add: r_def fun_upd_idem)
    ultimately have "schedule_new n budget s = Some (None, s\<lparr>kv_cache_manager := m3\<rparr>)"
      using node c(1,7) k(1) budget by (simp add: schedule_new_def r_def [symmetric] k_def [symmetric] rf)
    moreover have "sched_inv out (s\<lparr>kv_cache_manager := m3\<rparr>)"
      using m3 c others_same_trans [OF c(3) m3(3)] by (intro sched_inv_refused [OF inv n(1)]) auto
    ultimately show ?thesis using \<open>out \<noteq> []\<close> m3 c
      by (intro exI [of _ None] exI [of _ "s\<lparr>kv_cache_manager := m3\<rparr>"]) (simp add: same_requests_def queue_def)
  next
    case True
    then obtain m2 tv where m2: "allocate_slots r k m1 = Some (True, m2)" "kv_inv m2" "others_same (req_id ?q) (view m1) (view m2)"
      "num_block_slots m2 = num_block_slots ?m" "num_blocks m2 = num_blocks ?m" "view m2 (req_id ?q) = Some tv"
      "int (length tv) = blocks_for (num_block_slots ?m) (c + k)" "published_upto (num_block_slots ?m) (token_ids ?q) c tv"
      using kv.allocate_total [of m1 k r] c k by (auto simp: rf)
    define m3 where "m3 = record_prefix_reuse c m2"
    define r2 where "r2 = ?q\<lparr>num_prefill_tokens := num_tokens ?q, num_computed_tokens := c + k, status := kRunning\<rparr>"
    define s' where "s' = admit_request n (s\<lparr>kv_cache_manager := m3, nodes := (nodes s)(n \<mapsto> r2)\<rparr>)"
    from scheduled_request_ok [of c k "r\<lparr>num_prefill_tokens := num_tokens ?q\<rparr>" m3 tv] c(6) k m2(6) obtain e where e:
      "scheduled_request (r\<lparr>num_prefill_tokens := num_tokens ?q\<rparr>) c k True m3 = Some e"
      "int (length (tokens_to_compute e)) = k"
      "subvec (token_ids ?q) c k = Some (tokens_to_compute e)" "position_offset e = c" "sr_request_id e = req_id ?q"
      "needs_sampling e = (c + k \<ge> num_tokens ?q)" "is_prefill e" "sr_sample_params e = sample_params ?q"
      "get_allocated_blocks (req_id ?q) m3 = Some (allocated_blocks e)"
      by (auto simp: rf num_tokens_def m3_def r_def)
    have cont: "content r2 = content ?q" by (simp add: r2_def content_def)
    have "holds m3 r2 c" using m2 by (simp add: holds_def m3_def r2_def)
    then have entry: "entry_ok (s\<lparr>kv_cache_manager := m3\<rparr>) r2 e"
      using e c(6,7) k pend(2) live_content [OF cont, of "s\<lparr>kv_cache_manager := m3\<rparr>" s]
      by (auto simp: entry_ok_def r2_def num_tokens_def)
    have "kv_inv m3" "others_same (req_id ?q) (view ?m) (view m3)" "num_block_slots m3 = num_block_slots ?m"
      "num_blocks m3 = num_blocks ?m"
      using m2 others_same_trans [OF c(3) m2(3)] by (simp_all add: m3_def)
    from sched_inv_admitted [OF inv all room adm this cont _ entry]
    have mv: "moved n r2 s s'" and inv': "sched_inv (out @ [e]) s'" by (simp_all add: s'_def r2_def)
    have "schedule_new n budget s = Some (Some (k, e), s')"
      using node c(1,7) k(1) budget m2(1) e(1)
      by (simp add: schedule_new_def Let_def r_def [symmetric] k_def [symmetric] rf m3_def [symmetric] s'_def)
        (simp add: r_def r2_def)
    moreover have "running s' = running s @ [n]"
      by (simp add: s'_def admit_request_def)
    ultimately show ?thesis using mv inv' moved_same_requests [OF mv parts(1)] k e(2)
      by (intro exI [of _ "Some (k, e)"] exI [of _ s']) (simp add: moved_def)
  qed
qed

lemma schedule_pass2_ok:
  assumes "sched_inv out s" "0 \<le> budget" "0 < budget \<and> fewer_than_seqs out s \<Longrightarrow> length out = length (running s)"
  shows "\<exists>out' s'. schedule_pass2 budget out s = Some (out', s') \<and> sched_inv out' s' \<and> same_requests s s'
     \<and> queue s' = queue s \<and> total_tokens out' \<le> total_tokens out + budget
     \<and> (\<exists>es ns. out' = out @ es \<and> running s' = running s @ ns)
     \<and> (0 < budget \<and> next_admission s \<noteq> None \<longrightarrow> out' \<noteq> [])"
  using assms
proof (induction "length (preempted s) + length (waiting s)" arbitrary: budget out s rule: less_induct)
  case less
  note inv = less.prems(1)
  have sub: "\<exists>es ns. out = out @ es \<and> running s = running s @ ns" by auto
  have nonempty: "out \<noteq> []" if "\<not> fewer_than_seqs out s"
    using that sched_inv_fewer [OF inv] sched_invD(2) [OF inv] by (auto simp: limits_ok_def)
  show ?case
  proof (cases "next_admission s")
    case None
    then have "schedule_pass2 budget out s = Some (out, s)" by (subst schedule_pass2.simps) simp
    then show ?thesis using inv less.prems(2) sub None by auto
  next
    case (Some n)
    show ?thesis
    proof (cases "0 < budget \<and> fewer_than_seqs out s")
      case False
      then have "schedule_pass2 budget out s = Some (out, s)" using Some by (subst schedule_pass2.simps) auto
      then show ?thesis using inv less.prems(2) sub nonempty False by auto
    next
      case True
      have all: "length out = length (running s)" using less.prems(3) True by blast
      have room: "int (length out) < max_num_seqs s" using True sched_inv_fewer [OF inv] by blast
      from schedule_new_ok [OF inv all room Some] True obtain res s1 where r:
        "schedule_new n budget s = Some (res, s1)" "same_requests s s1" "queue s1 = queue s"
        "case res of None \<Rightarrow> out \<noteq> [] \<and> sched_inv out s1 \<and> running s1 = running s
          | Some (k, e) \<Rightarrow> 0 < k \<and> k \<le> budget \<and> int (length (tokens_to_compute e)) = k
              \<and> sched_inv (out @ [e]) s1 \<and> running s1 = running s @ [n]" by blast
      show ?thesis
      proof (cases res)
        case None
        then have "schedule_pass2 budget out s = Some (out, s1)"
          using Some True r(1) by (subst schedule_pass2.simps) auto
        then show ?thesis using r None less.prems(2) by auto
      next
        case res: (Some ke)
        obtain k e where ke: "ke = (k, e)" by (cases ke)
        with r(4) res have k: "0 < k" "k \<le> budget" "int (length (tokens_to_compute e)) = k" "sched_inv (out @ [e]) s1"
          "running s1 = running s @ [n]" by auto
        have "length (out @ [e]) = length (running s1)" using all k(5) by simp
        then have all1: "0 < budget - k \<and> fewer_than_seqs (out @ [e]) s1 \<Longrightarrow> length (out @ [e]) = length (running s1)"
          by simp
        have "length (preempted s1) + length (waiting s1) < length (preempted s) + length (waiting s)"
          using schedule_new_pending [OF _ Some] r(1) res ke by simp
        moreover have "0 \<le> budget - k" using k(2) by simp
        ultimately obtain out' s' es ns where IH:
          "schedule_pass2 (budget - k) (out @ [e]) s1 = Some (out', s')" "sched_inv out' s'" "same_requests s1 s'"
          "queue s' = queue s1" "total_tokens out' \<le> total_tokens (out @ [e]) + (budget - k)"
          "out' = (out @ [e]) @ es" "running s' = running s1 @ ns"
          using less.hyps [OF _ k(4) _ all1] by blast
        have "schedule_pass2 budget out s = Some (out', s')"
          using Some True r(1) IH(1) res ke by (subst schedule_pass2.simps) auto
        moreover have "total_tokens out' \<le> total_tokens out + budget" using IH(5) k(3) by simp
        moreover have "out' = out @ (e # es)" "running s' = running s @ (n # ns)" using IH(6,7) k(5) by simp_all
        moreover from this have "out' \<noteq> []" by simp
        ultimately show ?thesis
          using IH(2,4) r(3) same_requests_trans [OF r(2) IH(3)] by metis
      qed
    qed
  qed
qed

lemma next_admission_None: "next_admission s = None \<longleftrightarrow> preempted s = [] \<and> waiting s = []"
  by (simp add: next_admission_def Let_def)

text \<open>One scheduling step from a state between steps.\<close>

lemma schedule_ok:
  assumes inv: "step_inv {} s"
  shows "\<exists>out s'. schedule s = Some (out, s') \<and> sched_inv out s' \<and> same_requests s s' \<and> queue s' = queue s
     \<and> total_tokens out \<le> max_num_scheduled_tokens s \<and> (queue s \<noteq> [] \<longrightarrow> out \<noteq> [])"
proof -
  let ?B = "max_num_scheduled_tokens s"
  have inv0: "sched_inv [] s" using inv by (simp add: step_inv_sched)
  have B: "0 < ?B" using sched_invD(2) [OF inv0] by (simp add: limits_ok_def)
  from schedule_pass1_ok [OF inv0, of ?B] B obtain b out1 s1 where p1: "schedule_pass1 0 ?B [] s = Some (b, out1, s1)"
    "sched_inv out1 s1" "same_requests s s1" "tail_preempted s s1" "0 \<le> b" "total_tokens out1 + b = ?B"
    "preempted s1 = preempted s \<and> 0 < b \<and> fewer_than_seqs out1 s1 \<longrightarrow> length out1 = length (running s1)"
    "running s \<noteq> [] \<longrightarrow> out1 \<noteq> []" by auto
  show ?thesis
  proof (cases "length (preempted s1) = length (preempted s)")
    case False
    have "running s \<noteq> []" using p1(4) False by (auto simp: tail_preempted_def)
    then show ?thesis
      using p1 False tail_preempted_queue [OF p1(4)]
      by (intro exI [of _ out1] exI [of _ s1]) (simp add: schedule_def)
  next
    case True
    note same = tail_preempted_same [OF p1(4) True]
    have "length out1 = length (running s1)" if "0 < b \<and> fewer_than_seqs out1 s1"
      using p1(7) same that by simp
    from schedule_pass2_ok [OF p1(2,5) this] obtain out s' es where p2: "schedule_pass2 b out1 s1 = Some (out, s')"
      "sched_inv out s'" "same_requests s1 s'" "queue s' = queue s1" "total_tokens out \<le> total_tokens out1 + b"
      "out = out1 @ es" "0 < b \<and> next_admission s1 \<noteq> None \<longrightarrow> out \<noteq> []" by blast
    have "schedule s = Some (out, s')" using p1(1) p2(1) True by (simp add: schedule_def)
    moreover have "out \<noteq> []" if ne: "queue s \<noteq> []"
    proof (cases "running s = []")
      case False
      then show ?thesis using p1(8) p2(6) by simp
    next
      case empty: True
      then have "out1 = []" using sched_invD(6) [OF p1(2)] same by simp
      then have "0 < b" using p1(6) B by simp
      moreover have "next_admission s1 \<noteq> None" using empty ne same by (auto simp: next_admission_None queue_def)
      ultimately show ?thesis using p2(7) by blast
    qed
    ultimately show ?thesis
      using p2 p1(6) same_requests_trans [OF p1(3) p2(3)] tail_preempted_queue [OF p1(4)] by auto
  qed
qed

end
