(* ===== verification/Scheduler_Update.thy ===== *)
theory Scheduler_Update
  imports Scheduler_Step
begin

text \<open>
  Arrival, abortion and the results of a step: \<open>add_request\<close>, \<open>abort_requests\<close>,
  \<open>remove_request\<close> and \<open>update\<close> keep the invariant and never fail.
\<close>

lemma step_invD:
  assumes "step_inv W s"
  shows "store_ok s" "limits_ok s" "owners_ok s" "pending_ok s" "kv_inv (kv_cache_manager s)"
    "int (length (running s)) \<le> max_num_seqs s"
  using assms by (simp_all add: step_inv_def limits_ok_def)

lemma step_inv_running:
  "step_inv W s \<Longrightarrow> n \<in> set (running s) \<Longrightarrow> req_id (node s n) \<in> W \<Longrightarrow> awaiting_ok s (node s n)"
  "step_inv W s \<Longrightarrow> n \<in> set (running s) \<Longrightarrow> req_id (node s n) \<notin> W \<Longrightarrow> idle_ok s (node s n)"
  by (auto simp: step_inv_def)

lemma step_inv_range:
  assumes "step_inv W s" "n \<in> set (queue s)"
  shows "0 \<le> num_computed_tokens (node s n)" "num_computed_tokens (node s n) \<le> num_tokens (node s n)"
  using assms step_inv_running [OF assms(1), of n] step_invD(4) [OF assms(1)]
  by (cases "n \<in> set (running s)"; cases "req_id (node s n) \<in> W";
      auto simp: queue_def awaiting_ok_def idle_ok_def pending_ok_def live_def num_tokens_def)+

subsection \<open>Arrival\<close>

lemma add_request_ok:
  assumes inv: "step_inv W s" and fresh: "id_to_request s (req_id r) = None"
    and valid: "0 < num_tokens r" "num_tokens r < max_model_len s" "0 < max_output_tokens r"
  shows "step_inv W (add_request r s)" "queue (add_request r s) = queue s @ [next_node s]"
proof -
  note parts = step_invD [OF inv]
  let ?n = "next_node s"
  define q where "q = r\<lparr>status := kWaiting, num_prompt_tokens := num_tokens r, num_prefill_tokens := num_tokens r,
      num_computed_tokens := 0\<rparr>"
  define s' where "s' = add_request r s"
  have fields: "running s' = running s" "preempted s' = preempted s" "waiting s' = waiting s @ [?n]"
    "kv_cache_manager s' = kv_cache_manager s" "max_model_len s' = max_model_len s" "max_num_seqs s' = max_num_seqs s"
    "max_num_scheduled_tokens s' = max_num_scheduled_tokens s"
    "nodes s' = (nodes s)(?n \<mapsto> q)" "next_node s' = ?n + 1" "id_to_request s' = (id_to_request s)(req_id r \<mapsto> ?n)"
    using fresh by (simp_all add: s'_def add_request_def Let_def q_def num_tokens_def)
  show queue: "queue (add_request r s) = queue s @ [next_node s]"
    unfolding s'_def [symmetric] by (simp add: queue_def fields)
  then have q': "queue s' = queue s @ [?n]" by (simp add: s'_def)
  have new: "?n \<notin> set (queue s)" using parts(1) by (auto simp: store_ok_def)
  have node: "node s' x = (if x = ?n then q else node s x)" for x by (simp add: node_upd [OF fields(8)])
  have old: "x \<noteq> ?n" if "x \<in> set (queue s)" for x using that new by auto
  have ids: "req_id (node s x) \<noteq> req_id r" if "x \<in> set (queue s)" for x
    using parts(1) fresh that unfolding store_ok_def by (metis option.distinct(1))
  have same: "entry_ok s' y e = entry_ok s y e" "idle_ok s' y = idle_ok s y" "awaiting_ok s' y = awaiting_ok s y"
    "live s' y = live s y" for y e
    by (simp_all add: entry_ok_def idle_ok_def awaiting_ok_def live_def fields)
  have "store_ok s'"
    unfolding store_ok_def
  proof (intro conjI allI ballI)
    show "distinct (queue s')" using q' new parts(1) by (simp add: store_ok_def)
    show "dom (nodes s') = set (queue s')" using q' parts(1) by (simp add: fields store_ok_def)
    show "x < next_node s'" if "x \<in> set (queue s')" for x
      using that q' parts(1) by (auto simp: fields store_ok_def less_Suc_eq)
    show "id_to_request s' rid = Some x \<longleftrightarrow> x \<in> set (queue s') \<and> req_id (node s' x) = rid" for rid x
      using q' parts(1) new ids by (auto simp: fields store_ok_def node q_def)
  qed (use parts(1) old in \<open>auto simp: fields node store_ok_def q_def queue_def\<close>)
  moreover have "limits_ok s'" using parts(2) by (simp add: limits_ok_def fields)
  moreover have "owners_ok s'" using parts(3) old by (fastforce simp: owners_ok_def fields node queue_def)
  moreover have "live s q" using valid by (simp add: live_def q_def num_tokens_def)
  moreover have "pending_ok s'" using parts(4) \<open>live s q\<close> old
    by (auto simp: pending_ok_def fields node same queue_def q_def)
  moreover have "if req_id (node s' x) \<in> W then awaiting_ok s' (node s' x) else idle_ok s' (node s' x)"
    if "x \<in> set (running s')" for x
    using that inv old [of x] by (auto simp: step_inv_def fields node same queue_def)
  ultimately show "step_inv W (add_request r s)"
    using parts(6) unfolding s'_def [symmetric] by (simp add: step_inv_def fields)
qed

subsection \<open>Removal\<close>

lemma queue_of_member:
  assumes "store_ok s" "n \<in> set (queue s)"
  shows "n \<in> set (queue_of (status (node s n)) s)"
  using assms by (auto simp: store_ok_def queue_def queue_of_def)

lemma remove1_parts:
  assumes "distinct (xs @ ys @ zs)"
  shows "remove1 n (xs @ ys @ zs) = remove1 n xs @ remove1 n ys @ remove1 n zs"
proof -
  have "n \<in> set xs \<Longrightarrow> n \<notin> set ys \<and> n \<notin> set zs" "n \<in> set ys \<Longrightarrow> n \<notin> set zs" using assms by auto
  then show ?thesis
    by (cases "n \<in> set xs"; cases "n \<in> set ys") (simp_all add: remove1_append remove1_idem)
qed

lemma remove_request_ok:
  assumes inv: "step_inv W s" and n: "n \<in> set (queue s)"
    and r: "req_id r = req_id (node s n)" "status r = status (node s n)"
      "0 \<le> num_computed_tokens r" "num_computed_tokens r \<le> num_tokens r"
  shows "\<exists>s'. remove_request n (s\<lparr>nodes := (nodes s)(n \<mapsto> r)\<rparr>) = Some s' \<and> step_inv (W - {req_id r}) s'
     \<and> queue s' = remove1 n (queue s) \<and> running s' = remove1 n (running s)
     \<and> nodes s' = (nodes s)(n := None) \<and> next_node s' = next_node s
     \<and> id_to_request s' = (id_to_request s)(req_id r := None)
     \<and> max_model_len s' = max_model_len s \<and> limits s' = limits s
     \<and> view (kv_cache_manager s') (req_id r) = None"
proof -
  note parts = step_invD [OF inv]
  let ?t = "s\<lparr>nodes := (nodes s)(n \<mapsto> r)\<rparr>"
  from kv.release_frees [OF parts(5) r(3,4)] obtain m where m: "release_blocks r (kv_cache_manager s) = Some m"
    "kv_inv m" "others_same (req_id r) (view (kv_cache_manager s)) (view m)"
    "num_block_slots m = num_block_slots (kv_cache_manager s)" "num_blocks m = num_blocks (kv_cache_manager s)"
    "view m (req_id r) = None" by blast
  define u where "u = ?t\<lparr>kv_cache_manager := m, id_to_request := (id_to_request s)(req_id r := None)\<rparr>"
  define s' where "s' = (set_queue (status r) (remove1 n (queue_of (status r) u)) u)\<lparr>nodes := (nodes s)(n := None)\<rparr>"
  have qu: "queue_of (status r) u = queue_of (status r) s" by (simp add: u_def queue_of_def split: RequestStatus.splits)
  have mem: "n \<in> set (queue_of (status r) u)" using queue_of_member [OF parts(1) n] r(2) qu by simp
  have run: "remove_request n ?t = Some s'"
    using m(1) mem by (simp add: remove_request_def Let_def u_def s'_def fun_upd_twist)
  have dis: "distinct (queue s)" using parts(1) by (simp add: store_ok_def)
  have lists: "running s' = remove1 n (running s)" "preempted s' = remove1 n (preempted s)" "waiting s' = remove1 n (waiting s)"
    using mem dis by (auto simp: s'_def qu set_queue_def u_def queue_of_def queue_def disjoint_iff
        split: RequestStatus.splits intro!: remove1_idem [symmetric])
  have fields: "kv_cache_manager s' = m" "max_model_len s' = max_model_len s" "max_num_seqs s' = max_num_seqs s"
    "max_num_scheduled_tokens s' = max_num_scheduled_tokens s"
    "nodes s' = (nodes s)(n := None)" "next_node s' = next_node s" "id_to_request s' = (id_to_request s)(req_id r := None)"
    by (simp_all add: s'_def set_queue_def u_def split: RequestStatus.splits)
  have q: "queue s' = remove1 n (queue s)"
    unfolding queue_def lists by (rule remove1_parts [symmetric]) (use dis in \<open>simp only: queue_def\<close>)
  have set_q: "set (queue s') = set (queue s) - {n}" using dis q by simp
  have node: "node s' x = node s x" if "x \<noteq> n" for x using that by (simp add: node_def fields)
  have other: "req_id (node s x) \<noteq> req_id r" if "x \<in> set (queue s)" "x \<noteq> n" for x
    using store_ok_inj [OF parts(1) that(1) n] that(2) r(1) by auto
  have in_q: "x \<in> set (queue s)" if "x \<in> set (running s) \<or> x \<in> set (preempted s) \<or> x \<in> set (waiting s)" for x
    using that by (auto simp: queue_def)
  have sets: "set (running s') = set (running s) - {n}" "set (preempted s') = set (preempted s) - {n}"
    "set (waiting s') = set (waiting s) - {n}" using store_ok_distinct(1-3) [OF parts(1)] by (simp_all add: lists)
  have "store_ok s'"
    unfolding store_ok_def
  proof (intro conjI allI ballI)
    show "distinct (queue s')" using q dis by (simp add: distinct_remove1)
    show "dom (nodes s') = set (queue s')" using set_q parts(1) by (simp add: fields store_ok_def)
    show "x < next_node s'" if "x \<in> set (queue s')" for x using that set_q parts(1) by (auto simp: fields store_ok_def)
    show "id_to_request s' rid = Some x \<longleftrightarrow> x \<in> set (queue s') \<and> req_id (node s' x) = rid" for rid x
    proof (cases "x = n")
      case True
      then show ?thesis using parts(1) set_q r(1) by (simp add: fields store_ok_def)
    next
      case False
      then show ?thesis using parts(1) set_q other [of x] node [OF False] by (auto simp: fields store_ok_def)
    qed
  qed (use parts(1) node in \<open>auto simp: sets store_ok_def\<close>)
  moreover have "limits_ok s'" using parts(2) m by (simp add: limits_ok_def fields)
  moreover have "owners_ok s'"
    unfolding owners_ok_def
  proof (intro allI impI)
    fix p assume p: "view (kv_cache_manager s') p \<noteq> None"
    then have "p \<noteq> req_id r" using m(6) by (auto simp: fields)
    then have "view (kv_cache_manager s) p \<noteq> None" using p m(3) by (simp add: fields others_same_def)
    then obtain x where "x \<in> set (running s)" "req_id (node s x) = p" using parts(3) by (auto simp: owners_ok_def)
    moreover from this \<open>p \<noteq> req_id r\<close> r(1) have "x \<noteq> n" by auto
    ultimately show "\<exists>x \<in> set (running s'). req_id (node s' x) = p" using node by (auto simp: sets)
  qed
  moreover have "pending_ok s'" using parts(4) node by (auto simp: pending_ok_def sets live_def fields)
  moreover have "if req_id (node s' x) \<in> W - {req_id r} then awaiting_ok s' (node s' x) else idle_ok s' (node s' x)"
    if x: "x \<in> set (running s')" for x
  proof -
    have x': "x \<in> set (running s)" "x \<noteq> n" using x by (auto simp: sets)
    have ne: "req_id (node s x) \<noteq> req_id r" using other in_q x' by blast
    from entry_ok_frame(2,3) [of "req_id r" s s' "node s x"] m(3,4) ne
    have "idle_ok s' (node s x) = idle_ok s (node s x)" "awaiting_ok s' (node s x) = awaiting_ok s (node s x)"
      by (simp_all add: fields)
    then show ?thesis using step_inv_running [OF inv x'(1)] node x'(2) ne by auto
  qed
  moreover have "int (length (running s')) \<le> max_num_seqs s'"
    using parts(6) by (simp add: lists fields length_remove1) linarith
  ultimately have "step_inv (W - {req_id r}) s'" by (simp add: step_inv_def)
  with run q m(4-6) show ?thesis by (intro exI [of _ s']) (simp add: fields lists limits_def)
qed

subsection \<open>Abortion\<close>

lemma abort_request_ok:
  assumes inv: "step_inv {} s"
  shows "\<exists>s'. abort_request rid s = Some s' \<and> step_inv {} s'
     \<and> queue s' = filter (\<lambda>n. req_id (node s n) \<noteq> rid) (queue s)
     \<and> (\<forall>n. n \<in> set (queue s') \<longrightarrow> node s' n = node s n)
     \<and> id_to_request s' = (id_to_request s)(rid := None) \<and> limits s' = limits s"
proof (cases "id_to_request s rid")
  case None
  then have "req_id (node s n) \<noteq> rid" if "n \<in> set (queue s)" for n
    using step_invD(1) [OF inv] that unfolding store_ok_def by (metis option.distinct(1))
  then have "filter (\<lambda>n. req_id (node s n) \<noteq> rid) (queue s) = queue s" by (simp add: filter_id_conv)
  then show ?thesis using inv None by (auto simp: abort_request_def fun_upd_idem)
next
  case (Some n)
  note store = step_invD(1) [OF inv]
  have n: "n \<in> set (queue s)" "req_id (node s n) = rid" using store Some by (auto simp: store_ok_def)
  have t: "s\<lparr>nodes := (nodes s)(n \<mapsto> node s n)\<rparr> = s" using store_ok_node [OF store n(1)] by (simp add: fun_upd_idem)
  from remove_request_ok [OF inv n(1) refl refl step_inv_range [OF inv n(1)], unfolded t] n(2)
  obtain s' where s': "remove_request n s = Some s'" "step_inv {} s'" "queue s' = remove1 n (queue s)"
    "nodes s' = (nodes s)(n := None)" "id_to_request s' = (id_to_request s)(rid := None)"
    "limits s' = limits s" by auto
  have dis: "distinct (queue s)" using store by (simp add: store_ok_def)
  have same: "(n \<noteq> x) = (req_id (node s x) \<noteq> rid)" if "x \<in> set (queue s)" for x
    using store_ok_inj [OF store that n(1)] n(2) by metis
  have "remove1 n (queue s) = filter (\<lambda>x. req_id (node s x) \<noteq> rid) (queue s)"
    unfolding distinct_remove1_removeAll [OF dis] removeAll_filter_not_eq
    by (rule filter_cong [OF refl same])
  moreover have "node s' x = node s x" if "x \<in> set (queue s')" for x
  proof -
    have "x \<noteq> n" using that dis unfolding s'(3) by auto
    then show ?thesis by (simp add: node_def s'(4))
  qed
  ultimately show ?thesis using s' Some by (auto simp: abort_request_def)
qed

lemma abort_requests_ok:
  assumes "step_inv {} s"
  shows "\<exists>s'. abort_requests rids s = Some s' \<and> step_inv {} s'
     \<and> queue s' = filter (\<lambda>n. req_id (node s n) \<notin> set rids) (queue s)
     \<and> (\<forall>n. n \<in> set (queue s') \<longrightarrow> node s' n = node s n) \<and> limits s' = limits s"
  using assms
proof (induction rids arbitrary: s)
  case Nil
  then show ?case by (auto simp: abort_requests_def)
next
  case (Cons rid rids)
  from abort_request_ok [OF Cons.prems, of rid] obtain s1 where s1: "abort_request rid s = Some s1" "step_inv {} s1"
    "queue s1 = filter (\<lambda>n. req_id (node s n) \<noteq> rid) (queue s)" "\<And>n. n \<in> set (queue s1) \<Longrightarrow> node s1 n = node s n"
    "limits s1 = limits s" by blast
  from Cons.IH [OF s1(2)] obtain s' where s': "abort_requests rids s1 = Some s'" "step_inv {} s'"
    "queue s' = filter (\<lambda>n. req_id (node s1 n) \<notin> set rids) (queue s1)"
    "\<And>n. n \<in> set (queue s') \<Longrightarrow> node s' n = node s1 n" "limits s' = limits s1" by blast
  have "queue s' = filter (\<lambda>n. req_id (node s n) \<notin> set rids) (queue s1)"
    unfolding s'(3) using s1(4) by (intro filter_cong) auto
  then have "queue s' = filter (\<lambda>n. req_id (node s n) \<notin> set (rid # rids)) (queue s)"
    unfolding s1(3) by (simp add: conj_commute)
  moreover have "node s' n = node s n" if "n \<in> set (queue s')" for n
  proof -
    have "n \<in> set (queue s1)" using that unfolding s'(3) by simp
    then show ?thesis using s'(4) [OF that] s1(4) by simp
  qed
  moreover have "abort_requests (rid # rids) s = Some s'"
    using s1(1) s'(1) by (simp add: abort_requests_def)
  ultimately show ?case using s'(2) s'(5) s1(5) by auto
qed

subsection \<open>Results\<close>

definition appended :: "Request \<Rightarrow> int \<Rightarrow> Request" where
  "appended r t = r\<lparr>token_ids := token_ids r @ [t]\<rparr>"

lemma appended_fields [simp]:
  "req_id (appended r t) = req_id r" "status (appended r t) = status r" "num_tokens (appended r t) = num_tokens r + 1"
  "num_computed_tokens (appended r t) = num_computed_tokens r" "num_prompt_tokens (appended r t) = num_prompt_tokens r"
  "num_prefill_tokens (appended r t) = num_prefill_tokens r" "max_output_tokens (appended r t) = max_output_tokens r"
  "ignore_eos (appended r t) = ignore_eos r" "token_ids (appended r t) = token_ids r @ [t]"
  by (simp_all add: appended_def num_tokens_def)

lemma awaiting_continues:
  assumes aw: "awaiting_ok s r" and slots: "0 < num_block_slots (kv_cache_manager s)"
    and reason: "finish_reason s (appended r t) eos = kReasonRunning"
  shows "idle_ok s (appended r t)"
proof -
  have "live s (appended r t)" using aw reason by (auto simp: finish_reason_def awaiting_ok_def live_def split: if_splits)
  moreover have "holds (kv_cache_manager s) (appended r t) (num_computed_tokens r)"
  proof -
    have "num_computed_tokens r = int (length (token_ids r))" using aw by (simp add: awaiting_ok_def num_tokens_def)
    then show ?thesis using aw published_upto_extend_tokens [OF _ _ slots, of "token_ids r" "num_computed_tokens r"]
      by (auto simp: awaiting_ok_def holds_def)
  qed
  ultimately show ?thesis using aw by (auto simp: idle_ok_def awaiting_ok_def num_tokens_def)
qed

lemma update_one_ok:
  assumes inv: "step_inv W s" and n: "n \<in> set (running s)" "req_id (node s n) = st_request_id t" and W: "st_request_id t \<in> W"
  defines "r \<equiv> appended (node s n) (token_id t)"
  defines "reason \<equiv> finish_reason s r (eos_token t)"
  shows "\<exists>s'. update_one t s = Some (\<lparr>out_request_id = st_request_id t, new_token_ids = [token_id t], out_finish_reason = reason\<rparr>, s')
     \<and> step_inv (W - {st_request_id t}) s'
     \<and> running s' = (if reason = kReasonRunning then running s else remove1 n (running s))
     \<and> queue s' = (if reason = kReasonRunning then queue s else remove1 n (queue s))
     \<and> nodes s' = (nodes s)(n := if reason = kReasonRunning then Some r else None)
     \<and> max_model_len s' = max_model_len s \<and> limits s' = limits s"
proof -
  note parts = step_invD [OF inv]
  have in_q: "n \<in> set (queue s)" using n(1) by (rule queue_parts)
  have node: "nodes s n = Some (node s n)" using store_ok_node [OF parts(1) in_q] .
  have idm: "id_to_request s (st_request_id t) = Some n" using parts(1) in_q n(2) by (auto simp: store_ok_def)
  have aw: "awaiting_ok s (node s n)" using step_inv_running(1) [OF inv n(1)] n(2) W by simp
  let ?t = "s\<lparr>nodes := (nodes s)(n \<mapsto> r)\<rparr>"
  have fr: "finish_reason ?t r e = finish_reason s r e" for e by (simp add: finish_reason_def)
  have fold: "(node s n)\<lparr>token_ids := token_ids (node s n) @ [token_id t]\<rparr> = r" by (simp add: r_def appended_def)
  show ?thesis
  proof (cases "reason = kReasonRunning")
    case True
    have idle: "idle_ok s r"
      using awaiting_continues [OF aw kv_inv_slots [OF parts(5)]] True by (simp add: r_def reason_def)
    have nd: "node ?t x = (if x = n then r else node s x)" for x by (simp add: node_def)
    have same: "entry_ok ?t y e = entry_ok s y e" "idle_ok ?t y = idle_ok s y" "awaiting_ok ?t y = awaiting_ok s y"
      "live ?t y = live s y" for y e by (simp_all add: entry_ok_def idle_ok_def awaiting_ok_def live_def)
    have rid: "req_id r = req_id (node s n)" "status r = status (node s n)" by (simp_all add: r_def)
    have store: "store_ok ?t" using parts(1) in_q rid by (auto simp: store_ok_def nd queue_def)
    have n_pend: "n \<notin> set (preempted s)" "n \<notin> set (waiting s)" using n(1) store_ok_distinct(4,5) [OF parts(1)] by auto
    have owners: "owners_ok ?t"
      using parts(3) rid(1) unfolding owners_ok_def by (simp add: nd) metis
    have pend: "pending_ok ?t" using parts(4) n_pend by (auto simp: pending_ok_def nd same)
    have run: "if req_id (node ?t x) \<in> W - {st_request_id t} then awaiting_ok ?t (node ?t x) else idle_ok ?t (node ?t x)"
      if x: "x \<in> set (running s)" for x
    proof (cases "x = n")
      case True
      then show ?thesis using idle n(2) by (simp add: nd same rid)
    next
      case False
      then have "req_id (node s x) \<noteq> st_request_id t"
        using store_ok_inj [OF parts(1) queue_parts(1) [OF x] in_q] n(2) by auto
      then show ?thesis using step_inv_running [OF inv x] False by (auto simp: nd same)
    qed
    have "step_inv (W - {st_request_id t}) ?t"
      using store owners pend run parts(2,6) by (simp add: step_inv_def limits_ok_def)
    then show ?thesis using idm node True
      by (intro exI [of _ ?t]) (simp add: update_one_def Let_def fold fr reason_def [symmetric] queue_def limits_def)
  next
    case False
    have "0 \<le> num_computed_tokens r" "num_computed_tokens r \<le> num_tokens r"
      using aw by (auto simp: r_def awaiting_ok_def num_tokens_def)
    from remove_request_ok [OF inv in_q _ _ this] n(2) obtain s' where
      "remove_request n ?t = Some s'" "step_inv (W - {st_request_id t}) s'" "running s' = remove1 n (running s)"
      "queue s' = remove1 n (queue s)" "nodes s' = (nodes s)(n := None)" "max_model_len s' = max_model_len s" "limits s' = limits s"
      by (auto simp: r_def)
    then show ?thesis using idm node False
      by (intro exI [of _ s']) (simp add: update_one_def Let_def fold fr reason_def [symmetric])
  qed
qed

definition awaiting :: "ScheduledRequest list \<Rightarrow> string list" where
  \<comment> \<open>the requests of a step for which a token is sampled, in the order of the batch\<close>
  "awaiting out = map sr_request_id (filter needs_sampling out)"

lemma sched_inv_ids:
  assumes "sched_inv out s"
  shows "map sr_request_id out = map (\<lambda>n. req_id (node s n)) (take (length out) (running s))"
  using sched_inv_entry [OF assms] sched_invD(6) [OF assms]
  by (auto simp: list_eq_iff_nth_eq entry_ok_def)

lemma sched_inv_distinct_ids:
  assumes inv: "sched_inv out s"
  shows "distinct (map sr_request_id out)"
proof -
  note store = sched_invD(1) [OF inv]
  have "inj_on (\<lambda>n. req_id (node s n)) (set (running s))"
    using store_ok_inj [OF store] by (auto intro!: inj_onI simp: queue_def)
  then show ?thesis
    unfolding sched_inv_ids [OF inv] using store_ok_distinct(1) [OF store]
    by (auto simp: distinct_map intro: inj_on_subset dest: in_set_takeD)
qed

lemma awaiting_distinct: "sched_inv out s \<Longrightarrow> distinct (awaiting out)"
  using sched_inv_distinct_ids [of out s] unfolding awaiting_def by (rule distinct_map_filter)

lemma sched_inv_step:
  assumes inv: "sched_inv out s"
  shows "step_inv (set (awaiting out)) s"
proof -
  note parts = sched_invD [OF inv]
  have "if req_id (node s n) \<in> set (awaiting out) then awaiting_ok s (node s n) else idle_ok s (node s n)"
    if n: "n \<in> set (running s)" for n
  proof -
    from n obtain i where i: "i < length (running s)" "running s ! i = n" by (auto simp: in_set_conv_nth)
    have mem: "req_id (node s n) \<in> set (awaiting out) \<longleftrightarrow> i < length out \<and> needs_sampling (out ! i)"
    proof
      assume "req_id (node s n) \<in> set (awaiting out)"
      then obtain j where j: "j < length out" "needs_sampling (out ! j)" "sr_request_id (out ! j) = req_id (node s n)"
        by (auto simp: awaiting_def in_set_conv_nth)
      have jr: "j < length (running s)" using j(1) parts(6) by simp
      have "req_id (node s (running s ! j)) = req_id (node s (running s ! i))"
        using sched_inv_entry [OF inv j(1)] j(3) i(2) by (simp add: entry_ok_def)
      then have "running s ! j = running s ! i"
        using store_ok_inj [OF parts(1)] i(1) jr by (simp add: queue_def)
      then have "j = i" using store_ok_distinct(1) [OF parts(1)] i(1) jr by (simp add: nth_eq_iff_index_eq)
      then show "i < length out \<and> needs_sampling (out ! i)" using j by simp
    next
      assume a: "i < length out \<and> needs_sampling (out ! i)"
      then have "sr_request_id (out ! i) = req_id (node s n)" using sched_inv_entry [OF inv] i(2) by (auto simp: entry_ok_def)
      then show "req_id (node s n) \<in> set (awaiting out)" using a by (force simp: awaiting_def)
    qed
    show ?thesis
    proof (cases "i < length out")
      case True
      then have e: "entry_ok s (node s n) (out ! i)" using sched_inv_entry [OF inv True] i(2) by simp
      then have "holds (kv_cache_manager s) (node s n) (num_computed_tokens (node s n))"
        by (auto simp: entry_ok_def intro: holds_mono)
      then show ?thesis using e True mem by (auto simp: entry_ok_def awaiting_ok_def idle_ok_def)
    next
      case False
      then show ?thesis using sched_inv_idle [OF inv _ i(1)] i(2) mem by simp
    qed
  qed
  then show ?thesis using parts(1-4,7) by (simp add: step_inv_def)
qed

lemma step_inv_no_more: "step_inv W s \<Longrightarrow> (\<And>n. n \<in> set (running s) \<Longrightarrow> req_id (node s n) \<notin> W) \<Longrightarrow> step_inv {} s"
  by (simp add: step_inv_def)

definition final_outputs :: "EngineCoreOutput list \<Rightarrow> EngineCoreOutput list" where
  \<comment> \<open>the outputs that end their request\<close>
  "final_outputs outs = filter (\<lambda>o'. out_finish_reason o' \<noteq> kReasonRunning) outs"

definition final_ids :: "EngineCoreOutput list \<Rightarrow> string list" where
  "final_ids outs = map out_request_id (final_outputs outs)"

definition token_effect :: "string set \<Rightarrow> Scheduler \<Rightarrow> Scheduler \<Rightarrow> bool" where
  \<comment> \<open>the requests that stay got their token if they were waiting for one\<close>
  "token_effect W s s' \<longleftrightarrow> (\<forall>n \<in> set (queue s'). if req_id (node s n) \<in> W then \<exists>t. node s' n = appended (node s n) t
     else node s' n = node s n)"

lemma update_scheduler_ok:
  assumes "step_inv W s" "distinct (map st_request_id ts)" "set (map st_request_id ts) = W"
    and "W \<subseteq> (\<lambda>n. req_id (node s n)) ` set (running s)"
  shows "\<exists>outs s'. update_scheduler ts s = Some (outs, s') \<and> step_inv {} s'
     \<and> map (\<lambda>o'. (out_request_id o', new_token_ids o')) outs = map (\<lambda>t. (st_request_id t, [token_id t])) ts
     \<and> limits s' = limits s \<and> queue s' = filter (\<lambda>n. req_id (node s n) \<notin> set (final_ids outs)) (queue s)
     \<and> token_effect W s s'"
  using assms
proof (induction ts arbitrary: s W)
  case Nil
  then show ?case by (simp add: final_ids_def final_outputs_def token_effect_def)
next
  case (Cons t ts)
  then obtain n where n: "n \<in> set (running s)" "req_id (node s n) = st_request_id t" by auto
  note store = step_invD(1) [OF Cons.prems(1)]
  have W: "st_request_id t \<in> W" using Cons.prems(3) by auto
  from update_one_ok [OF Cons.prems(1) n W] obtain reason s1 where s1:
    "update_one t s = Some (\<lparr>out_request_id = st_request_id t, new_token_ids = [token_id t], out_finish_reason = reason\<rparr>, s1)"
    "step_inv (W - {st_request_id t}) s1"
    "running s1 = (if reason = kReasonRunning then running s else remove1 n (running s))"
    "queue s1 = (if reason = kReasonRunning then queue s else remove1 n (queue s))"
    "nodes s1 = (nodes s)(n := if reason = kReasonRunning then Some (appended (node s n) (token_id t)) else None)"
    "limits s1 = limits s"
    by blast
  have nd: "node s1 x = node s x" if "x \<noteq> n" for x using that by (simp add: node_def s1(5))
  have nn: "node s1 n = appended (node s n) (token_id t)" if "reason = kReasonRunning" using that by (simp add: node_def s1(5))
  have same_id: "x = n" if "x \<in> set (queue s)" "req_id (node s x) = st_request_id t" for x
    using store_ok_inj [OF store that(1) queue_parts(1) [OF n(1)]] that(2) n(2) by simp
  have sub: "W - {st_request_id t} \<subseteq> (\<lambda>x. req_id (node s1 x)) ` set (running s1)"
  proof
    fix q assume q: "q \<in> W - {st_request_id t}"
    then obtain x where x: "x \<in> set (running s)" "req_id (node s x) = q" using Cons.prems(4) by auto
    then have "x \<noteq> n" using q n(2) by auto
    then have "x \<in> set (running s1)" "req_id (node s1 x) = q" using x by (auto simp: s1(3) nd)
    then show "q \<in> (\<lambda>x. req_id (node s1 x)) ` set (running s1)" by auto
  qed
  have "set (map st_request_id ts) = W - {st_request_id t}"
    using Cons.prems(2,3) by (metis Diff_insert_absorb distinct.simps(2) list.simps(15) list.simps(9))
  from Cons.IH [OF s1(2) _ this sub] Cons.prems(2) obtain outs s' where r:
    "update_scheduler ts s1 = Some (outs, s')" "step_inv {} s'"
    "map (\<lambda>o'. (out_request_id o', new_token_ids o')) outs = map (\<lambda>t. (st_request_id t, [token_id t])) ts"
    "limits s' = limits s1" "queue s' = filter (\<lambda>n. req_id (node s1 n) \<notin> set (final_ids outs)) (queue s1)"
    "token_effect (W - {st_request_id t}) s1 s'" by auto
  let ?o = "\<lparr>out_request_id = st_request_id t, new_token_ids = [token_id t], out_finish_reason = reason\<rparr>"
  have dis: "distinct (queue s)" using store by (simp add: store_ok_def)
  have q1: "queue s1 = filter (\<lambda>x. reason = kReasonRunning \<or> req_id (node s x) \<noteq> st_request_id t) (queue s)"
  proof (cases "reason = kReasonRunning")
    case False
    have "remove1 n (queue s) = filter (\<lambda>x. n \<noteq> x) (queue s)"
      by (simp only: distinct_remove1_removeAll [OF dis] removeAll_filter_not_eq)
    also have "\<dots> = filter (\<lambda>x. req_id (node s x) \<noteq> st_request_id t) (queue s)"
      by (rule filter_cong) (use same_id n(2) in auto)
    finally show ?thesis using False s1(4) by simp
  qed (simp add: s1(4))
  have ids: "req_id (node s1 x) = req_id (node s x)" if "x \<in> set (queue s1)" for x
    using that nn nd [of x] n(2) unfolding q1 by (cases "x = n") auto
  have "queue s' = filter (\<lambda>x. req_id (node s x) \<notin> set (final_ids outs)) (queue s1)"
    unfolding r(5) by (rule filter_cong) (simp_all add: ids)
  then have q': "queue s' = filter (\<lambda>x. req_id (node s x) \<notin> set (final_ids (?o # outs))) (queue s)"
    unfolding q1 by (auto simp: final_ids_def final_outputs_def intro!: filter_cong)
  have "token_effect W s s'"
    unfolding token_effect_def
  proof
    fix x assume x: "x \<in> set (queue s')"
    then have x1: "x \<in> set (queue s1)" "x \<in> set (queue s)" unfolding r(5) q1 by simp_all
    show "if req_id (node s x) \<in> W then \<exists>t. node s' x = appended (node s x) t else node s' x = node s x"
    proof (cases "x = n")
      case True
      then have "reason = kReasonRunning" using x1(1) n(2) unfolding q1 by auto
      moreover have "node s' n = node s1 n" using r(6) x n(2) ids [OF x1(1)] True by (auto simp: token_effect_def)
      ultimately show ?thesis using True W n(2) nn by auto
    next
      case False
      then have "req_id (node s x) \<noteq> st_request_id t" using same_id [OF x1(2)] by blast
      then show ?thesis using r(6) x nd [OF False] by (auto simp: token_effect_def)
    qed
  qed
  moreover have "update_scheduler (t # ts) s = Some (?o # outs, s')" using s1(1) r(1) by simp
  ultimately show ?case using r(2-4) s1(6) q' by (intro exI [of _ "?o # outs"] exI [of _ s']) simp
qed

text \<open>
  One whole step: schedule, then hand back one sampled token for every request that asked for
  one. The runner's part is only that it returns the tokens of the requests in batch order.
\<close>

lemma sched_inv_awaiting_running:
  assumes "sched_inv out s"
  shows "set (awaiting out) \<subseteq> (\<lambda>n. req_id (node s n)) ` set (running s)"
proof -
  have "set (map sr_request_id out) \<subseteq> (\<lambda>n. req_id (node s n)) ` set (running s)"
    unfolding sched_inv_ids [OF assms] by (auto dest: in_set_takeD)
  then show ?thesis by (auto simp: awaiting_def)
qed

lemma step_effect:
  assumes inv: "step_inv {} s" and run: "schedule s = Some (out, s1)" and ts: "map st_request_id ts = awaiting out"
  shows "\<exists>outs s'. update_scheduler ts s1 = Some (outs, s') \<and> step_inv {} s'
     \<and> map (\<lambda>o'. (out_request_id o', new_token_ids o')) outs = map (\<lambda>t. (st_request_id t, [token_id t])) ts
     \<and> limits s' = limits s \<and> queue s' = filter (\<lambda>n. req_id (node s n) \<notin> set (final_ids outs)) (queue s)
     \<and> token_effect (set (awaiting out)) s1 s' \<and> distinct (map out_request_id outs)
     \<and> set (map out_request_id outs) \<subseteq> (\<lambda>n. req_id (node s n)) ` set (queue s)"
proof -
  from schedule_ok [OF inv] run have o: "sched_inv out s1" "same_requests s s1" "queue s1 = queue s" by auto
  obtain outs s' where u: "update_scheduler ts s1 = Some (outs, s')" "step_inv {} s'"
      "map (\<lambda>o'. (out_request_id o', new_token_ids o')) outs = map (\<lambda>t. (st_request_id t, [token_id t])) ts"
      "limits s' = limits s1" "queue s' = filter (\<lambda>n. req_id (node s1 n) \<notin> set (final_ids outs)) (queue s1)"
      "token_effect (set (awaiting out)) s1 s'"
    using update_scheduler_ok [OF sched_inv_step [OF o(1)] _ _ sched_inv_awaiting_running [OF o(1)], of ts]
      awaiting_distinct [OF o(1)] ts by auto
  have "map fst (map (\<lambda>o'. (out_request_id o', new_token_ids o')) outs) = map fst (map (\<lambda>t. (st_request_id t, [token_id t])) ts)"
    unfolding u(3) ..
  then have ids: "map out_request_id outs = awaiting out" by (simp add: comp_def ts)
  have id: "req_id (node s1 n) = req_id (node s n)" if "n \<in> set (queue s)" for n
    using content_fields(1) [OF same_requests_content [OF o(2)]] store_ok_node [OF step_invD(1) [OF inv] that] by auto
  have "set (awaiting out) \<subseteq> (\<lambda>n. req_id (node s1 n)) ` set (queue s1)"
    using sched_inv_awaiting_running [OF o(1)] queue_parts(1) by fastforce
  then have sub: "set (awaiting out) \<subseteq> (\<lambda>n. req_id (node s n)) ` set (queue s)" using id unfolding o(3) by (auto simp: image_iff)
  have "filter (\<lambda>n. req_id (node s1 n) \<notin> set (final_ids outs)) (queue s) = filter (\<lambda>n. req_id (node s n) \<notin> set (final_ids outs)) (queue s)"
    by (rule filter_cong) (simp_all add: id)
  then show ?thesis using u ids sub awaiting_distinct [OF o(1)] same_requests_limits [OF o(2)]
    by (simp add: o(3) set_map [symmetric] del: set_map)
qed

lemma step_outputs:
  assumes inv: "step_inv {} s" and run: "schedule s = Some (out, s1)" and ts: "map st_request_id ts = awaiting out"
  shows "\<exists>outs s'. update_scheduler ts s1 = Some (outs, s') \<and> step_inv {} s'
     \<and> map (\<lambda>o'. (out_request_id o', new_token_ids o')) outs = map (\<lambda>t. (st_request_id t, [token_id t])) ts"
  using step_effect [OF assms] by blast

end
