(* ===== verification/KV_Properties.thy ===== *)
theory KV_Properties
  imports KV_Interface
begin

text \<open>
  The properties of the KV cache manager and their instances on a small concrete cache: four
  blocks of two slots, and a request of five tokens.
\<close>

subsection \<open>A concrete cache\<close>

definition demo_config :: KVCacheConfig where
  "demo_config = \<lparr>cfg_num_block_slots = 2, cfg_num_blocks = 4, cfg_enable_prefix_caching = True\<rparr>"

definition demo_cache :: KVCacheManager where
  "demo_cache = the (KVCacheManager_create demo_config)"

definition demo_request :: "string \<Rightarrow> int \<Rightarrow> Request" where
  "demo_request rid computed = \<lparr>req_id = rid, status = kRunning, num_prompt_tokens = 5,
     num_prefill_tokens = 5, num_computed_tokens = computed, max_output_tokens = 3,
     ignore_eos = False, token_ids = [11, 12, 13, 14, 15],
     sample_params = \<lparr>temperature = 0, top_k = 0, top_p = 0\<rparr>\<rparr>"

definition demo_held :: KVCacheManager where
  \<comment> \<open>the cache after request \<open>a\<close> was given room for all its tokens\<close>
  "demo_held = snd (the (allocate_slots (demo_request ''a'' 0) 5 demo_cache))"

lemma demo_request_fields [simp]:
  "req_id (demo_request i c) = i" "num_computed_tokens (demo_request i c) = c"
  "token_ids (demo_request i c) = [11, 12, 13, 14, 15]" "num_tokens (demo_request i c) = 5"
  by (simp_all add: demo_request_def num_tokens_def)

lemma demo_cache_ok: "kv_ok demo_cache [0, 1, 2, 3]"
  and demo_cache_fields: "req_to_allocated_blocks demo_cache = Map.empty" "num_block_slots demo_cache = 2"
    "enable_prefix_caching demo_cache"
proof -
  have "0 \<le> cfg_num_blocks demo_config" "0 < cfg_num_block_slots demo_config" by (simp_all add: demo_config_def)
  from create_ok [OF this] obtain m where m: "KVCacheManager_create demo_config = Some m"
    "kv_ok m [0..3]" "req_to_allocated_blocks m = Map.empty" "num_block_slots m = 2" "enable_prefix_caching m"
    by (auto simp: demo_config_def)
  moreover have "[0..3] = [0, 1, 2, 3 :: int]" by (simp add: upto.simps)
  ultimately show "kv_ok demo_cache [0, 1, 2, 3]" "req_to_allocated_blocks demo_cache = Map.empty"
    "num_block_slots demo_cache = 2" "enable_prefix_caching demo_cache" by (simp_all add: demo_cache_def)
qed

lemma demo_needed: "blocks_needed demo_cache (demo_request ''a'' 0) 5 = 3"
  by (simp add: blocks_needed_def demo_cache_fields blocks_of_def)

lemma demo_held_ok: "kv_ok demo_held [3]"
  and demo_held_fields: "req_to_allocated_blocks demo_held = [''a'' \<mapsto> [0, 1, 2]]" "num_block_slots demo_held = 2"
    "enable_prefix_caching demo_held"
proof -
  let ?r = "demo_request ''a'' 0"
  from allocate_slots_ok [OF demo_cache_ok, of 5 ?r] obtain m' where
    "allocate_slots ?r 5 demo_cache = Some (True, m')" "kv_ok m' [3]" "same_static demo_cache m'"
    "req_to_allocated_blocks m' = [''a'' \<mapsto> [0, 1, 2]]"
    by (auto simp: demo_needed demo_cache_fields blocks_of_def)
  then show "kv_ok demo_held [3]" "req_to_allocated_blocks demo_held = [''a'' \<mapsto> [0, 1, 2]]"
    "num_block_slots demo_held = 2" "enable_prefix_caching demo_held"
    by (simp_all add: demo_held_def same_static_def demo_cache_fields)
qed

subsection \<open>The properties\<close>

text \<open>
  A manager is created with every block free, in the order of the ids, no request owning a
  block and nothing published.
\<close>

theorem create_manager_free:
  assumes "0 \<le> cfg_num_blocks cfg" "0 < cfg_num_block_slots cfg"
  shows "\<exists>m. KVCacheManager_create cfg = Some m \<and> kv_ok m [0..cfg_num_blocks cfg - 1]
     \<and> req_to_allocated_blocks m = Map.empty \<and> num_free_blocks m = cfg_num_blocks cfg
     \<and> hash_to_block m = Map.empty"
proof -
  from create_ok [OF assms] obtain m where m: "KVCacheManager_create cfg = Some m"
    "kv_ok m [0..cfg_num_blocks cfg - 1]" "req_to_allocated_blocks m = Map.empty"
    "\<And>b. is_block m b \<Longrightarrow> \<not> hash_valid (blk m b)" by blast
  have "hash_to_block m h = None" for h
    using published_index [OF m(2), of h] m(4) by (cases "hash_to_block m h") auto
  then show ?thesis using m assms(1) by (auto simp: kv_ok_num_free)
qed

theorem create_manager_free_witness:
  "\<exists>m. KVCacheManager_create demo_config = Some m \<and> kv_ok m [0..3] \<and> num_free_blocks m = 4"
  using create_manager_free [of demo_config] by (auto simp: demo_config_def)



end
