(* ===== verification/Scheduler_Properties.thy ===== *)
theory Scheduler_Properties
  imports Scheduler_Update KV_Properties
begin

text \<open>
  The properties of the scheduler, and a small concrete scheduler on which they are instantiated:
  four blocks of two slots, at most two sequences and four tokens a step.
\<close>

lemma Scheduler_create_ok:
  assumes kvc: "0 \<le> cfg_num_blocks kvc" "0 < cfg_num_block_slots kvc"
    and fits: "mc_max_model_len mc \<le> cfg_num_blocks kvc * cfg_num_block_slots kvc"
    and cfg: "0 < cfg_max_num_seqs c" "cfg_max_num_seqs c < 2 ^ 31" "0 < cfg_max_num_scheduled_tokens c"
  shows "\<exists>s. Scheduler_create c mc kvc = Some s \<and> step_inv {} s \<and> queue s = [] \<and> next_node s = 0
     \<and> id_to_request s = Map.empty
     \<and> max_model_len s = mc_max_model_len mc \<and> max_num_seqs s = cfg_max_num_seqs c
     \<and> max_num_scheduled_tokens s = cfg_max_num_scheduled_tokens c"
proof -
  from create_ok [OF kvc] obtain m where m: "KVCacheManager_create kvc = Some m" "kv_ok m [0..cfg_num_blocks kvc - 1]"
    "req_to_allocated_blocks m = Map.empty" "num_block_slots m = cfg_num_block_slots kvc"
    "int (length (blocks m)) = cfg_num_blocks kvc" by blast
  define s where "s = \<lparr>nodes = Map.empty, next_node = 0, running = [], waiting = [], preempted = [],
       id_to_request = Map.empty, kv_cache_manager = m, max_num_seqs = cfg_max_num_seqs c,
       max_num_scheduled_tokens = cfg_max_num_scheduled_tokens c, max_model_len = mc_max_model_len mc\<rparr>"
  have "Scheduler_create c mc kvc = Some s" using m(1) by (simp add: Scheduler_create_def s_def)
  moreover have "step_inv {} s"
    using m fits cfg by (auto simp: step_inv_def store_ok_def limits_ok_def owners_ok_def pending_ok_def s_def queue_def
        kv_inv_def num_blocks_def view_def)
  ultimately show ?thesis by (simp add: s_def queue_def)
qed

subsection \<open>A concrete scheduler\<close>

definition demo_engine_config :: Config where
  "demo_engine_config = \<lparr>model_path = ''m'', gpu_memory_utilization = 0, block_size = 2,
     cfg_max_num_scheduled_tokens = 4, cfg_max_num_seqs = 2, cfg_prefix_caching = True, enable_cuda_graph = False\<rparr>"

definition demo_model_config :: ModelConfig where
  "demo_model_config = \<lparr>arch = kQwen3, mc_dtype = kBf16, mc_max_model_len = 8, vocab_size = 100,
     num_hidden_layers = 1, hidden_size = 4, intermediate_size = 8, num_attention_heads = 2, num_kv_heads = 1,
     head_dim = 64, rms_norm_eps = 0, rope_theta = 0, has_qk_norm = True, tie_word_embeddings = True,
     eos_token_ids = [99], rope_scaling = None, moe = None\<rparr>"

definition demo_empty :: Scheduler where
  "demo_empty = the (Scheduler_create demo_engine_config demo_model_config demo_config)"

definition demo_sched :: Scheduler where
  \<comment> \<open>one request of five tokens has arrived\<close>
  "demo_sched = add_request (demo_request ''a'' 0) demo_empty"

lemma demo_empty_ok:
  "step_inv {} demo_empty" "queue demo_empty = []" "next_node demo_empty = 0" "id_to_request demo_empty = Map.empty"
  "max_model_len demo_empty = 8" "max_num_seqs demo_empty = 2" "max_num_scheduled_tokens demo_empty = 4"
proof -
  obtain s where "Scheduler_create demo_engine_config demo_model_config demo_config = Some s" "step_inv {} s"
      "queue s = []" "next_node s = 0" "id_to_request s = Map.empty" "max_model_len s = 8" "max_num_seqs s = 2"
      "max_num_scheduled_tokens s = 4"
    using Scheduler_create_ok [of demo_config demo_model_config demo_engine_config]
    by (auto simp: demo_config_def demo_model_config_def demo_engine_config_def)
  then show "step_inv {} demo_empty" "queue demo_empty = []" "next_node demo_empty = 0" "id_to_request demo_empty = Map.empty"
    "max_model_len demo_empty = 8" "max_num_seqs demo_empty = 2" "max_num_scheduled_tokens demo_empty = 4"
    by (simp_all add: demo_empty_def)
qed

lemma demo_request_max_output [simp]: "max_output_tokens (demo_request i c) = 3"
  by (simp add: demo_request_def)

lemma demo_sched_ok: "step_inv {} demo_sched" "queue demo_sched = [0]"
  using add_request_ok [OF demo_empty_ok(1), of "demo_request ''a'' 0"] demo_empty_ok
  by (simp_all add: demo_sched_def)

subsection \<open>The properties\<close>

text \<open>
  The invariant of the scheduler holds when the engine starts, provided the cache can hold
  one request of maximal length.
\<close>

theorem create_scheduler_ok:
  assumes "0 \<le> cfg_num_blocks kvc" "0 < cfg_num_block_slots kvc"
    and "mc_max_model_len mc \<le> cfg_num_blocks kvc * cfg_num_block_slots kvc"
    and "0 < cfg_max_num_seqs c" "cfg_max_num_seqs c < 2 ^ 31" "0 < cfg_max_num_scheduled_tokens c"
  shows "\<exists>s. Scheduler_create c mc kvc = Some s \<and> step_inv {} s \<and> queue s = [] \<and> \<not> has_requests s"
  using Scheduler_create_ok [OF assms] by (auto simp: has_requests_def)

theorem create_scheduler_ok_witness:
  "\<exists>s. Scheduler_create demo_engine_config demo_model_config demo_config = Some s \<and> step_inv {} s \<and> \<not> has_requests s"
  using create_scheduler_ok [of demo_config demo_model_config demo_engine_config]
  by (auto simp: demo_config_def demo_model_config_def demo_engine_config_def)

text \<open>
  A valid request with a new id is queued behind every other request, with no block and no
  computed token, and the invariant is kept.
\<close>

theorem add_request_queues_last:
  assumes "step_inv {} s" "id_to_request s (req_id r) = None"
    and "0 < num_tokens r" "num_tokens r < max_model_len s" "0 < max_output_tokens r"
  shows "step_inv {} (add_request r s) \<and> queue (add_request r s) = queue s @ [next_node s]
     \<and> id_to_request (add_request r s) (req_id r) = Some (next_node s) \<and> has_requests (add_request r s)"
  using add_request_ok [OF assms] assms(2) by (auto simp: add_request_def has_requests_def Let_def num_tokens_def)

theorem add_request_queues_last_witness:
  "queue (add_request (demo_request ''b'' 0) demo_empty) = [0] \<and> has_requests (add_request (demo_request ''b'' 0) demo_empty)"
  using add_request_queues_last [OF demo_empty_ok(1), of "demo_request ''b'' 0"] by (simp add: demo_empty_ok)

text \<open>
  C7: Aborting any list of ids, known or not and with repetitions, never fails: it removes
  exactly the requests with these ids, keeps the order of the others and does not touch them.
\<close>

theorem abort_requests_exact:
  assumes "step_inv {} s"
  shows "\<exists>s'. abort_requests rids s = Some s' \<and> step_inv {} s'
     \<and> queue s' = filter (\<lambda>n. req_id (node s n) \<notin> set rids) (queue s)
     \<and> (\<forall>n \<in> set (queue s'). node s' n = node s n)"
  using abort_requests_ok [OF assms, of rids] by blast

theorem abort_requests_exact_witness:
  "\<exists>s'. abort_requests [''a'', ''x'', ''a''] demo_sched = Some s' \<and> step_inv {} s' \<and> queue s' = []"
proof -
  have "req_id (node demo_sched 0) = ''a''"
    by (simp add: node_def demo_sched_def add_request_def Let_def demo_empty_ok)
  then show ?thesis
    using abort_requests_exact [OF demo_sched_ok(1), of "[''a'', ''x'', ''a'']"] by (auto simp: demo_sched_ok)
qed

text \<open>
  C8: One call of \<open>schedule\<close> never fails an assertion and never reads outside a vector, keeps
  the service order of the live requests, and schedules something whenever a request is live.
\<close>

theorem schedule_total_and_progresses:
  assumes "step_inv {} s"
  shows "\<exists>out s'. schedule s = Some (out, s') \<and> queue s' = queue s \<and> (has_requests s \<longrightarrow> out \<noteq> [])"
proof -
  from schedule_ok [OF assms] obtain out s' where o: "schedule s = Some (out, s')" "queue s' = queue s"
    "queue s \<noteq> [] \<longrightarrow> out \<noteq> []" by blast
  moreover have "has_requests s \<longrightarrow> queue s \<noteq> []"
  proof
    assume "has_requests s"
    then obtain i n where "id_to_request s i = Some n" unfolding has_requests_def by (metis not_None_eq ext)
    then show "queue s \<noteq> []" using step_invD(1) [OF assms] by (auto simp: store_ok_def)
  qed
  ultimately show ?thesis by blast
qed

theorem schedule_total_and_progresses_witness:
  "\<exists>out s'. schedule demo_sched = Some (out, s') \<and> out \<noteq> []"
proof -
  have "has_requests demo_sched" by (auto simp: has_requests_def demo_sched_def add_request_def Let_def demo_empty_ok)
  then show ?thesis using schedule_total_and_progresses [OF demo_sched_ok(1)] by blast
qed

text \<open>
  C9: A step never exceeds the token budget the model runner was sized for, nor the number of
  sequences; no request appears twice in it, and every entry computes at least one token.
\<close>

theorem schedule_within_limits:
  assumes inv: "step_inv {} s" and run: "schedule s = Some (out, s')"
  shows "(\<Sum>e\<leftarrow>out. int (length (tokens_to_compute e))) \<le> max_num_scheduled_tokens s
     \<and> int (length out) \<le> max_num_seqs s \<and> int (length (running s')) \<le> max_num_seqs s
     \<and> distinct (map sr_request_id out) \<and> (\<forall>e \<in> set out. tokens_to_compute e \<noteq> [])"
proof -
  from schedule_ok [OF inv] run have o: "sched_inv out s'" "total_tokens out \<le> max_num_scheduled_tokens s" "same_requests s s'"
    by auto
  have "tokens_to_compute e \<noteq> []" if "e \<in> set out" for e
  proof -
    from that obtain i where "i < length out" "out ! i = e" by (auto simp: in_set_conv_nth)
    then have "entry_ok s' (node s' (running s' ! i)) e" using sched_inv_entry [OF o(1)] by auto
    then show ?thesis by (auto simp: entry_ok_def subvec_def split: if_splits)
  qed
  then show ?thesis
    using o sched_invD(6,7) [OF o(1)] sched_inv_distinct_ids [OF o(1)] by (auto simp: total_tokens_def same_requests_def)
qed

theorem schedule_within_limits_witness:
  "\<exists>out s'. schedule demo_sched = Some (out, s') \<and> int (length out) \<le> 2"
proof -
  obtain out s' where o: "schedule demo_sched = Some (out, s')" using schedule_ok [OF demo_sched_ok(1)] by blast
  from schedule_within_limits [OF demo_sched_ok(1) o] o show ?thesis
    by (auto simp: demo_sched_def add_request_def Let_def demo_empty_ok)
qed

lemma same_requests_ids:
  assumes "same_requests s s'" "n \<in> set (queue s)" "store_ok s"
  shows "req_id (node s' n) = req_id (node s n)"
  using same_requests_content [OF assms(1), of n] store_ok_node [OF assms(3,2)] by (auto dest: content_fields(1))

text \<open>
  C10: First come, first served: the requests of a step are a prefix of the service order, so
  no request computes anything in a step in which an older live request computes nothing.
\<close>

theorem schedule_serves_prefix:
  assumes inv: "step_inv {} s" and run: "schedule s = Some (out, s')"
  shows "map sr_request_id out = map (\<lambda>n. req_id (node s n)) (take (length out) (queue s)) \<and> length out \<le> length (queue s)"
proof -
  from schedule_ok [OF inv] run have o: "sched_inv out s'" "queue s' = queue s" "same_requests s s'" by auto
  have le: "length out \<le> length (running s')" using sched_invD(6) [OF o(1)] .
  have "take (length out) (running s') = take (length out) (queue s)"
    using le unfolding o(2) [symmetric] by (simp add: queue_def)
  moreover have "req_id (node s' n) = req_id (node s n)" if "n \<in> set (queue s)" for n
    using same_requests_ids [OF o(3) that step_invD(1) [OF inv]] .
  moreover have "length (running s') \<le> length (queue s)" unfolding o(2) [symmetric] by (simp add: queue_def)
  ultimately show ?thesis using le sched_inv_ids [OF o(1)] by (auto dest: in_set_takeD)
qed

theorem schedule_serves_prefix_witness:
  "\<exists>out s'. schedule demo_sched = Some (out, s') \<and> map sr_request_id out = [''a'']"
proof -
  have id: "req_id (node demo_sched 0) = ''a''" and h: "has_requests demo_sched"
    by (auto simp: node_def demo_sched_def add_request_def Let_def demo_empty_ok has_requests_def)
  obtain out s' where o: "schedule demo_sched = Some (out, s')" "out \<noteq> []"
    using schedule_ok [OF demo_sched_ok(1)] by (auto simp: demo_sched_ok)
  then have "length out = 1" using schedule_serves_prefix [OF demo_sched_ok(1) o(1)]
    by (cases out) (simp_all add: demo_sched_ok)
  then show ?thesis using schedule_serves_prefix [OF demo_sched_ok(1) o(1)] o id by (auto simp: demo_sched_ok)
qed



text \<open>
  C12: Exclusive writes: a block of a step into which new KV entries will be written (one that
  reaches beyond the cached prefix) is referenced once, belongs to no other request, occurs
  once in its own list, and neither carries a valid hash nor is found by any prefix lookup. So
  a published block is never overwritten.
\<close>

theorem schedule_writes_exclusive:
  assumes inv: "step_inv {} s" and run: "schedule s = Some (out, s')" and e: "e \<in> set out"
    and i: "i < length (allocated_blocks e)" "position_offset e < (int i + 1) * num_block_slots (kv_cache_manager s')"
  shows "let m = kv_cache_manager s'; b = allocated_blocks e ! i in
     is_block m b \<and> ref_count (blk m b) = 1 \<and> \<not> hash_valid (blk m b) \<and> (\<forall>h. hash_to_block m h \<noteq> Some b)
     \<and> (\<forall>q bs. req_to_allocated_blocks m q = Some bs \<and> b \<in> set bs \<longrightarrow> q = sr_request_id e)
     \<and> (\<forall>j < length (allocated_blocks e). allocated_blocks e ! j = b \<longrightarrow> j = i)"
proof -
  let ?m = "kv_cache_manager s'" and ?b = "allocated_blocks e ! i"
  from schedule_ok [OF inv] run have o: "sched_inv out s'" by auto
  from e obtain j where j: "j < length out" "out ! j = e" by (auto simp: in_set_conv_nth)
  define r where "r = node s' (running s' ! j)"
  have ok: "entry_ok s' r e" using sched_inv_entry [OF o] j by (auto simp: r_def)
  have kv: "kv_inv ?m" using sched_invD(5) [OF o] .
  then obtain fl where fl: "kv_ok ?m fl" by (auto simp: kv_inv_def)
  have own: "req_to_allocated_blocks ?m (req_id r) = Some (allocated_blocks e)" and id: "sr_request_id e = req_id r"
    using ok by (auto simp: entry_ok_def get_allocated_blocks_def)
  have "published_upto (num_block_slots ?m) (token_ids r) (position_offset e) (map (tagged ?m) (allocated_blocks e))"
    using ok own by (auto simp: entry_ok_def holds_def view_def)
  then have nv: "\<not> hash_valid (blk ?m ?b)" using i by (auto simp: published_upto_tagged)
  have mem: "?b \<in> set (allocated_blocks e)" using i(1) by simp
  have ib: "is_block ?m ?b" using kv_ok_is_block [OF fl own mem] .
  have "0 < block_refs (req_to_allocated_blocks ?m) ?b" using block_refs_pos [OF kv_ok_finite [OF fl] own mem] .
  then have "block_refs (req_to_allocated_blocks ?m) ?b = 1" using kv_ok_exclusive [OF fl ib nv] by simp
  then have "ref_count (blk ?m ?b) = 1" using pool_refs [OF kv_ok_pool [OF fl] ib] by simp
  then show ?thesis
    using ib nv published_index [OF fl] kv_ok_invalid_owner [OF fl _ own _ mem nv] kv_ok_invalid_unique [OF fl own _ i(1)]
    unfolding Let_def id by metis
qed

theorem schedule_writes_exclusive_witness:
  "\<exists>out s'. schedule demo_sched = Some (out, s') \<and> (\<forall>e \<in> set out. \<forall>i < length (allocated_blocks e).
     position_offset e < (int i + 1) * num_block_slots (kv_cache_manager s')
     \<longrightarrow> ref_count (blk (kv_cache_manager s') (allocated_blocks e ! i)) = 1)"
proof -
  obtain out s' where o: "schedule demo_sched = Some (out, s')" using schedule_ok [OF demo_sched_ok(1)] by blast
  then show ?thesis using schedule_writes_exclusive [OF demo_sched_ok(1) o] by (auto simp: Let_def)
qed

text \<open>
  C13: A whole step is total: when the runner returns one token for every entry that asked for
  one, in batch order, \<open>update\<close> finds every request, fails no assertion, emits one output per
  token, and the invariant holds again for the next step.
\<close>

theorem whole_step_keeps_invariant:
  assumes inv: "step_inv {} s" and run: "schedule s = Some (out, s1)"
    and ts: "map st_request_id ts = map sr_request_id (filter needs_sampling out)"
  shows "\<exists>outs s'. update_scheduler ts s1 = Some (outs, s') \<and> step_inv {} s'
     \<and> map (\<lambda>o'. (out_request_id o', new_token_ids o')) outs = map (\<lambda>t. (st_request_id t, [token_id t])) ts"
  using step_outputs [OF inv run] ts by (simp add: awaiting_def)

theorem whole_step_keeps_invariant_witness:
  "\<exists>out s1. schedule demo_sched = Some (out, s1) \<and> (\<exists>outs s'.
     update_scheduler (map (\<lambda>e. \<lparr>st_request_id = sr_request_id e, token_id = 7, eos_token = False\<rparr>) (filter needs_sampling out)) s1
       = Some (outs, s') \<and> step_inv {} s')"
proof -
  obtain out s1 where o: "schedule demo_sched = Some (out, s1)" using schedule_ok [OF demo_sched_ok(1)] by blast
  from whole_step_keeps_invariant [OF demo_sched_ok(1) o,
      of "map (\<lambda>e. \<lparr>st_request_id = sr_request_id e, token_id = 7, eos_token = False\<rparr>) (filter needs_sampling out)"]
  show ?thesis using o by (auto simp: comp_def)
qed

end
