(* ===== verification/Batch_Properties.thy ===== *)
theory Batch_Properties
  imports Batch_Contract Scheduler_Properties
begin

text \<open>
  The properties of the batch buffer: its layout, the batch \<open>upload\<close> makes of a schedule, and the
  KV slots a step of the scheduler writes, on the concrete configuration of the scheduler's
  example.
\<close>

definition demo_entry :: ScheduledRequest where
  "demo_entry = \<lparr>sr_request_id = ''a'', is_prefill = True, needs_sampling = True, position_offset = 2,
     tokens_to_compute = [7, 8], allocated_blocks = [3, 1],
     sr_sample_params = \<lparr>temperature = 0, top_k = 0, top_p = 0\<rparr>\<rparr>"

definition demo_buffer :: BatchBuffer where
  "demo_buffer = the (BatchBuffer_create demo_engine_config demo_model_config)"

lemma demo_buffer_ok:
  "BatchBuffer_create demo_engine_config demo_model_config = Some demo_buffer"
  "bb_room demo_buffer 4 2" "bb_block_size demo_buffer = 2" "bb_block_table_stride demo_buffer = 4"
proof -
  obtain b where b: "BatchBuffer_create demo_engine_config demo_model_config = Some b" "bb_room b 4 2"
      "bb_block_size b = 2" "bb_block_table_stride b = 4"
    using create_layout [of demo_engine_config demo_model_config]
    by (auto simp: demo_engine_config_def demo_model_config_def)
  then have "demo_buffer = b" by (simp add: demo_buffer_def)
  with b show "BatchBuffer_create demo_engine_config demo_model_config = Some demo_buffer"
    "bb_room demo_buffer 4 2" "bb_block_size demo_buffer = 2" "bb_block_table_stride demo_buffer = 4" by simp_all
qed





end
