(* ===== verification/Workspace.thy ===== *)
theory Workspace
  imports Layout Tensor Model_Config
begin

text \<open>
  The activation workspace, csrc/executor/workspace.h and workspace.cpp: one device buffer in
  which the tensors of the attention, MLP, MoE and logits phases overlay each other.
  \<open>base\<close> is the address \<open>cudaMalloc\<close> returned for the buffer. Products the code computes in
  \<open>int\<close> are checked with \<open>c_int\<close>; products in \<open>std::size_t\<close> are \<open>64 word\<close>.
\<close>

record WorkspaceView =
  ws_hidden :: Tensor
  ws_residual :: Tensor
  ws_qkv :: Tensor
  ws_attn_out :: Tensor
  ws_gate_up :: Tensor
  ws_gated :: Tensor
  ws_sampling_hidden :: Tensor
  ws_logits :: Tensor
  ws_router_logits :: Tensor
  ws_topk_weights :: Tensor
  ws_topk_ids :: Tensor
  ws_expert_counts :: Tensor
  ws_moe_gate_up :: Tensor
  ws_moe_gated :: Tensor

record Workspace = WorkspaceView +
  ws_bytes :: "64 word"

subsection \<open>Sizes\<close>

definition size_t :: "int \<Rightarrow> 64 word" where
  "size_t = word_of_int"

lemma size_t_hom:
  "size_t x * size_t y = size_t (x * y)" "size_t x + size_t y = size_t (x + y)" "2 * size_t x = size_t (2 * x)"
  "size_t x * 2 = size_t (x * 2)"
  by (simp_all add: size_t_def)

definition elem_bytes :: "DataType \<Rightarrow> 64 word" where
  "elem_bytes dtype = of_nat (dtype_byte_size dtype)"

definition reserve_tensor_bytes :: "64 word \<Rightarrow> 64 word \<Rightarrow> DataType \<Rightarrow> 64 word" where
  "reserve_tensor_bytes offset count dtype = align_up 256 offset + count * elem_bytes dtype"

definition phase_bytes :: "(64 word \<times> DataType) list \<Rightarrow> 64 word" where
  \<comment> \<open>successive \<open>reserve_tensor_bytes\<close> from offset 0\<close>
  "phase_bytes fs = fold (\<lambda>(count, dtype) offset. reserve_tensor_bytes offset count dtype) fs 0"

definition q_size :: "ModelConfig \<Rightarrow> 64 word" where
  "q_size c = size_t (num_attention_heads c) * size_t (head_dim c)"

definition kv_size :: "ModelConfig \<Rightarrow> 64 word" where
  "kv_size c = size_t (num_kv_heads c) * size_t (head_dim c)"

definition attn_sizes :: "ModelConfig \<Rightarrow> int \<Rightarrow> (64 word \<times> DataType) list" where
  "attn_sizes c n = [(size_t n * size_t (hidden_size c), mc_dtype c), (size_t n * size_t (hidden_size c), mc_dtype c),
     (size_t n * (q_size c + 2 * kv_size c), mc_dtype c), (size_t n * q_size c, mc_dtype c)]"

definition mlp_sizes :: "ModelConfig \<Rightarrow> int \<Rightarrow> (64 word \<times> DataType) list option" where
  "mlp_sizes c n = do {
     n2 \<leftarrow> c_int (n * 2);
     Some [(size_t n * size_t (hidden_size c), mc_dtype c), (size_t n * size_t (hidden_size c), mc_dtype c),
       (size_t n2 * size_t (intermediate_size c), mc_dtype c)]
   }"

definition moe_sizes :: "ModelConfig \<Rightarrow> int \<Rightarrow> (64 word \<times> DataType) list option" where
  "moe_sizes c n = (case moe c of None \<Rightarrow> Some [] | Some m \<Rightarrow> do {
     router \<leftarrow> c_int (n * num_experts m);
     routed \<leftarrow> c_int (n * moe_top_k m);
     routed2 \<leftarrow> c_int (routed * 2);
     gate_up \<leftarrow> c_int (routed2 * moe_intermediate_size m);
     Some [(size_t n * size_t (hidden_size c), mc_dtype c), (size_t n * size_t (hidden_size c), mc_dtype c),
       (size_t router, mc_dtype c), (size_t routed, kFp32), (size_t routed, kInt32),
       (size_t (num_experts m), kInt32), (size_t gate_up, mc_dtype c)]
   })"

definition logits_sizes :: "ModelConfig \<Rightarrow> int \<Rightarrow> (64 word \<times> DataType) list" where
  "logits_sizes c s = [(size_t s * size_t (hidden_size c), mc_dtype c), (size_t s * size_t (vocab_size c), mc_dtype c)]"

definition required_bytes :: "ModelConfig \<Rightarrow> int \<Rightarrow> int \<Rightarrow> 64 word option" where
  "required_bytes c n s = do {
     mlp \<leftarrow> mlp_sizes c n;
     moes \<leftarrow> moe_sizes c n;
     Some (max (max (phase_bytes (attn_sizes c n)) (phase_bytes mlp)) (max (phase_bytes moes) (phase_bytes (logits_sizes c s))))
   }"

subsection \<open>Placement\<close>

definition place_view :: "64 word \<Rightarrow> 64 word list \<Rightarrow> DataType \<Rightarrow> 64 word \<Rightarrow> (Tensor \<times> 64 word) option" where
  \<comment> \<open>\<open>place_view_2d\<close> and \<open>place_view_1d\<close>: the tensor and the new offset\<close>
  "place_view base dims dtype offset = (let aligned = align_up 256 offset in do {
     t \<leftarrow> make_tensor (base + aligned) dtype (map to_int32 dims);
     Some (t, aligned + prod_list dims * elem_bytes dtype)
   })"

fun place_all :: "64 word \<Rightarrow> (64 word list \<times> DataType) list \<Rightarrow> 64 word \<Rightarrow> (Tensor list \<times> 64 word) option" where
  \<comment> \<open>consecutive placements on one running offset\<close>
  "place_all base [] offset = Some ([], offset)"
| "place_all base ((dims, dtype) # fs) offset = do {
     (t, offset') \<leftarrow> place_view base dims dtype offset;
     (ts, end_offset) \<leftarrow> place_all base fs offset';
     Some (t # ts, end_offset)
   }"

definition half_columns :: "Tensor \<Rightarrow> int \<Rightarrow> int \<Rightarrow> Tensor" where
  \<comment> \<open>\<open>gated_\<close> and \<open>moe_gated_\<close>: the first half of every row of the packed gate/up tensor\<close>
  "half_columns t rows cols = make_tensor_strided (device_ptr t) (tensor_dtype t) [rows, cols] [t_stride t ! 0, 1]"

definition stream_dims :: "ModelConfig \<Rightarrow> int \<Rightarrow> (64 word list \<times> DataType) list" where
  "stream_dims c n = [([size_t n, size_t (hidden_size c)], mc_dtype c), ([size_t n, size_t (hidden_size c)], mc_dtype c)]"

definition attn_dims :: "ModelConfig \<Rightarrow> int \<Rightarrow> (64 word list \<times> DataType) list" where
  "attn_dims c n = [([size_t n, q_size c + 2 * kv_size c], mc_dtype c), ([size_t n, q_size c], mc_dtype c)]"

definition mlp_dims :: "ModelConfig \<Rightarrow> int \<Rightarrow> (64 word list \<times> DataType) list" where
  "mlp_dims c n = [([size_t n, 2 * size_t (intermediate_size c)], mc_dtype c)]"

definition moe_dims :: "ModelConfig \<Rightarrow> MoEConfig \<Rightarrow> int \<Rightarrow> int \<Rightarrow> int \<Rightarrow> (64 word list \<times> DataType) list" where
  "moe_dims c m n routed inter2 = [([size_t n, size_t (num_experts m)], mc_dtype c), ([size_t n, size_t (moe_top_k m)], kFp32),
     ([size_t n, size_t (moe_top_k m)], kInt32), ([size_t (num_experts m)], kInt32),
     ([size_t routed, size_t inter2], mc_dtype c)]"

definition logits_dims :: "ModelConfig \<Rightarrow> int \<Rightarrow> (64 word list \<times> DataType) list" where
  "logits_dims c s = [([size_t s, size_t (hidden_size c)], mc_dtype c), ([size_t s, size_t (vocab_size c)], mc_dtype c)]"

definition place_moe :: "64 word \<Rightarrow> ModelConfig \<Rightarrow> int \<Rightarrow> 64 word \<Rightarrow> Workspace \<Rightarrow> Workspace option" where
  "place_moe base c n offset w = (case moe c of None \<Rightarrow> Some w | Some m \<Rightarrow> do {
     routed \<leftarrow> c_int (n * moe_top_k m);
     inter2 \<leftarrow> c_int (2 * moe_intermediate_size m);
     (ts, _) \<leftarrow> place_all base (moe_dims c m n routed inter2) offset;
     Some (w\<lparr>ws_router_logits := ts ! 0, ws_topk_weights := ts ! 1, ws_topk_ids := ts ! 2, ws_expert_counts := ts ! 3,
       ws_moe_gate_up := ts ! 4, ws_moe_gated := half_columns (ts ! 4) routed (moe_intermediate_size m)\<rparr>)
   })"

definition empty_workspace :: Workspace where
  "empty_workspace = (let t = null_tensor 2 in
     \<lparr>ws_hidden = t, ws_residual = t, ws_qkv = t, ws_attn_out = t, ws_gate_up = t, ws_gated = t,
      ws_sampling_hidden = t, ws_logits = t, ws_router_logits = t, ws_topk_weights = t, ws_topk_ids = t,
      ws_expert_counts = null_tensor 1, ws_moe_gate_up = t, ws_moe_gated = t, ws_bytes = 0\<rparr>)"

definition Workspace_create :: "64 word \<Rightarrow> ModelConfig \<Rightarrow> int \<Rightarrow> int \<Rightarrow> Workspace option" where
  "Workspace_create base c max_tokens max_sampling_reqs = do {
     require (max_tokens > 0 \<and> max_sampling_reqs > 0);
     bytes \<leftarrow> required_bytes c max_tokens max_sampling_reqs;
     require (bytes \<noteq> 0);
     (stream, start) \<leftarrow> place_all base (stream_dims c max_tokens) 0;
     (attn, _) \<leftarrow> place_all base (attn_dims c max_tokens) start;
     (mlp, _) \<leftarrow> place_all base (mlp_dims c max_tokens) start;
     gated_cols \<leftarrow> c_div (t_shape (mlp ! 0) ! 1) 2;
     w \<leftarrow> place_moe base c max_tokens start
       (empty_workspace\<lparr>ws_hidden := stream ! 0, ws_residual := stream ! 1, ws_qkv := attn ! 0, ws_attn_out := attn ! 1,
          ws_gate_up := mlp ! 0, ws_gated := half_columns (mlp ! 0) max_tokens gated_cols\<rparr>);
     (logits, _) \<leftarrow> place_all base (logits_dims c max_sampling_reqs) 0;
     Some (w\<lparr>ws_sampling_hidden := logits ! 0, ws_logits := logits ! 1, ws_bytes := bytes\<rparr>)
   }"

definition with_rows :: "Tensor \<Rightarrow> int \<Rightarrow> Tensor" where
  "with_rows t rows = (if is_set t then t\<lparr>t_shape := (t_shape t)[0 := rows]\<rparr> else t)"

definition workspace_view :: "Workspace \<Rightarrow> int \<Rightarrow> int \<Rightarrow> WorkspaceView option" where
  \<comment> \<open>\<open>Workspace::view\<close>\<close>
  "workspace_view w tokens sampling_reqs = do {
     require (0 < tokens \<and> tokens \<le> t_shape (ws_hidden w) ! 0);
     require (0 \<le> sampling_reqs \<and> sampling_reqs \<le> t_shape (ws_logits w) ! 0);
     routed \<leftarrow> c_int (tokens * t_shape (ws_topk_ids w) ! 1);
     Some \<lparr>ws_hidden = with_rows (ws_hidden w) tokens, ws_residual = with_rows (ws_residual w) tokens,
       ws_qkv = with_rows (ws_qkv w) tokens, ws_attn_out = with_rows (ws_attn_out w) tokens,
       ws_gate_up = with_rows (ws_gate_up w) tokens, ws_gated = with_rows (ws_gated w) tokens,
       ws_sampling_hidden = with_rows (ws_sampling_hidden w) sampling_reqs,
       ws_logits = with_rows (ws_logits w) sampling_reqs,
       ws_router_logits = with_rows (ws_router_logits w) tokens, ws_topk_weights = with_rows (ws_topk_weights w) tokens,
       ws_topk_ids = with_rows (ws_topk_ids w) tokens, ws_expert_counts = ws_expert_counts w,
       ws_moe_gate_up = with_rows (ws_moe_gate_up w) routed, ws_moe_gated = with_rows (ws_moe_gated w) routed\<rparr>
   }"

end
