(* ===== verification/KV_Cache.thy ===== *)
theory KV_Cache
  imports Workspace
begin

text \<open>
  The device pool of the KV cache, csrc/executor/kv_cache.h and kv_cache.cpp: its size and the
  key and value tensor of every layer. \<open>kv_pool\<close> is the specification: the regions of the layers
  are consecutive, disjoint and fill the pool.
\<close>

record KVCacheView =
  kc_data :: "64 word"
  kc_dtype :: DataType
  kc_num_layers :: int
  kc_num_blocks :: int
  kc_block_size :: int
  kc_num_kv_heads :: int
  kc_head_dim :: int

record KVCache =
  kv_pool_bytes :: "64 word"
  kv_view :: KVCacheView

definition KVCacheView_kv :: "KVCacheView \<Rightarrow> int \<Rightarrow> int \<Rightarrow> Tensor option" where
  \<comment> \<open>\<open>k(layer)\<close> is \<open>kv(layer, 0)\<close>, \<open>v(layer)\<close> is \<open>kv(layer, 1)\<close>\<close>
  "KVCacheView_kv v layer which = do {
     require (kc_data v \<noteq> 0);
     require (0 \<le> layer \<and> layer < kc_num_layers v);
     require (which = 0 \<or> which = 1);
     num_slots \<leftarrow> c_int (kc_num_blocks v * kc_block_size v);
     let row = size_t num_slots * size_t (kc_num_kv_heads v) * size_t (kc_head_dim v);
     let offset = (size_t layer * 2 + size_t which) * row;
     make_tensor (kc_data v + offset * elem_bytes (kc_dtype v)) (kc_dtype v)
       [num_slots, kc_num_kv_heads v, kc_head_dim v]
   }"

definition kv_block_bytes :: "ModelConfig \<Rightarrow> int \<Rightarrow> 64 word" where
  "kv_block_bytes c block_slots = 2 * size_t (num_hidden_layers c) * size_t block_slots * size_t (num_kv_heads c)
     * size_t (head_dim c) * elem_bytes (mc_dtype c)"

definition KVCache_create :: "64 word \<Rightarrow> ModelConfig \<Rightarrow> int \<Rightarrow> int \<Rightarrow> KVCache option" where
  \<comment> \<open>\<open>base\<close> is the address of the device allocation, whose size must not be 0\<close>
  "KVCache_create base c blocks_count block_slots = do {
     let bytes = size_t blocks_count * kv_block_bytes c block_slots;
     require (bytes \<noteq> 0);
     Some \<lparr>kv_pool_bytes = bytes, kv_view = \<lparr>kc_data = base, kc_dtype = mc_dtype c,
       kc_num_layers = num_hidden_layers c, kc_num_blocks = blocks_count, kc_block_size = block_slots,
       kc_num_kv_heads = num_kv_heads c, kc_head_dim = head_dim c\<rparr>\<rparr>
   }"

subsection \<open>The regions of the pool\<close>

definition kv_row :: "ModelConfig \<Rightarrow> int \<Rightarrow> int" where
  \<comment> \<open>elements of one layer's keys\<close>
  "kv_row c slots = slots * num_kv_heads c * head_dim c"

definition kv_pool :: "ModelConfig \<Rightarrow> int \<Rightarrow> int" where
  \<comment> \<open>bytes of the pool\<close>
  "kv_pool c slots = num_hidden_layers c * 2 * kv_row c slots * int (dtype_byte_size (mc_dtype c))"

definition kv_dims_ok :: "ModelConfig \<Rightarrow> int \<Rightarrow> int \<Rightarrow> bool" where
  "kv_dims_ok c n bs \<longleftrightarrow> mc_dtype c \<noteq> kUnsupported \<and> 0 < n \<and> 0 < bs \<and> 0 < num_hidden_layers c \<and> 0 < num_kv_heads c
     \<and> 0 < head_dim c \<and> kv_row c (n * bs) < 2 ^ 31 \<and> kv_pool c (n * bs) < 2 ^ 63"

lemma elem_bytes_size_t: "elem_bytes dtype = size_t (int (dtype_byte_size dtype))"
  by (simp add: elem_bytes_def size_t_def)

lemma uint_size_t_small: "0 \<le> x \<Longrightarrow> x < 2 ^ 64 \<Longrightarrow> uint (size_t x) = x"
  unfolding size_t_def by (rule uint_word_of_int64)

lemma kv_create_eval:
  assumes ok: "kv_dims_ok c n bs"
  shows "\<exists>k. KVCache_create base c n bs = Some k \<and> uint (kv_pool_bytes k) = kv_pool c (n * bs)
     \<and> kv_view k = \<lparr>kc_data = base, kc_dtype = mc_dtype c, kc_num_layers = num_hidden_layers c, kc_num_blocks = n,
       kc_block_size = bs, kc_num_kv_heads = num_kv_heads c, kc_head_dim = head_dim c\<rparr>"
proof -
  let ?b = "int (dtype_byte_size (mc_dtype c))"
  note d = ok [unfolded kv_dims_ok_def]
  have b: "0 < ?b" using d by (cases "mc_dtype c") simp_all
  have pos: "0 < kv_pool c (n * bs)" using d b by (simp add: kv_pool_def kv_row_def)
  have bytes: "size_t n * kv_block_bytes c bs = size_t (kv_pool c (n * bs))"
    by (simp add: kv_block_bytes_def elem_bytes_size_t size_t_hom kv_pool_def kv_row_def ac_simps)
  have u: "uint (size_t (kv_pool c (n * bs))) = kv_pool c (n * bs)" using pos d by (intro uint_size_t_small) auto
  then have "size_t (kv_pool c (n * bs)) \<noteq> 0" using pos by auto
  then show ?thesis using u by (simp add: KVCache_create_def bytes)
qed

lemma kv_tensor_eval:
  assumes ok: "kv_dims_ok c n bs" and base: "base \<noteq> 0" and k: "KVCache_create base c n bs = Some k"
    and i: "0 \<le> layer" "layer < num_hidden_layers c" "which = 0 \<or> which = 1"
  shows "\<exists>t. KVCacheView_kv (kv_view k) layer which = Some t \<and> t_shape t = [n * bs, num_kv_heads c, head_dim c]
     \<and> tensor_dtype t = mc_dtype c
     \<and> device_ptr t = base + size_t ((layer * 2 + which) * kv_row c (n * bs) * int (dtype_byte_size (mc_dtype c)))"
proof -
  note d = ok [unfolded kv_dims_ok_def]
  have v: "kv_view k = \<lparr>kc_data = base, kc_dtype = mc_dtype c, kc_num_layers = num_hidden_layers c, kc_num_blocks = n,
       kc_block_size = bs, kc_num_kv_heads = num_kv_heads c, kc_head_dim = head_dim c\<rparr>"
    using kv_create_eval [OF ok, of base] k by auto
  have pos: "0 < n * bs" "0 < num_kv_heads c * head_dim c" using d by simp_all
  have lim: "n * bs * (num_kv_heads c * head_dim c) < 2 ^ 31" using d by (simp add: kv_row_def mult.assoc)
  have "n * bs * 1 \<le> n * bs * (num_kv_heads c * head_dim c)" using pos by (intro mult_left_mono) auto
  then have ns: "n * bs < 2 ^ 31" using lim by simp
  have shp: "\<And>x. x \<in> set [n * bs, num_kv_heads c, head_dim c] \<Longrightarrow> 0 < x" "prod_list [n * bs, num_kv_heads c, head_dim c] < 2 ^ 31"
    using d lim by (auto simp: mult.assoc)
  have c: "c_int (n * bs) = Some (n * bs)" using pos ns by (intro c_int_nonneg) auto
  have off: "(size_t layer * 2 + size_t which) * (size_t (n * bs) * size_t (num_kv_heads c) * size_t (head_dim c)) * elem_bytes (mc_dtype c)
      = size_t ((layer * 2 + which) * kv_row c (n * bs) * int (dtype_byte_size (mc_dtype c)))"
    by (simp add: elem_bytes_size_t size_t_hom kv_row_def)
  obtain st where st: "make_tensor (base + size_t ((layer * 2 + which) * kv_row c (n * bs) * int (dtype_byte_size (mc_dtype c))))
      (mc_dtype c) [n * bs, num_kv_heads c, head_dim c]
      = Some (make_tensor_strided (base + size_t ((layer * 2 + which) * kv_row c (n * bs) * int (dtype_byte_size (mc_dtype c))))
          (mc_dtype c) [n * bs, num_kv_heads c, head_dim c] st)"
    using make_tensor_eval [OF shp] by blast
  show ?thesis
    using base i by (simp add: KVCacheView_kv_def v Let_def c off st make_tensor_strided_def del: c_int_Some)
qed

end
