(* ===== verification/Causal_LM.thy ===== *)
theory Causal_LM
  imports Layers KV_Cache Batch_Buffer
begin

text \<open>
  The forward pass of the decoder, csrc/model/causal_lm.cpp, layers/attention.cpp, mlp.cpp,
  moe.cpp and the \<open>forward\<close> of linear.cpp, as the kernels it launches. A launch is its operation
  and the number of rows of the views it gets; \<open>launch_reads\<close> and \<open>launch_writes\<close> say which
  buffers an operation takes and which it fills, as the arguments of the calls say.
\<close>

datatype Buffer =
    BHidden | BResidual | BQkv | BAttnOut | BGateUp | BSamplingHidden | BLogits
  | BRouterLogits | BTopkWeights | BTopkIds | BKeys int | BValues int

datatype Launch =
    EmbedTokens
  | InputNorm int | QkvProjection int | QkNormRope int | Rope int | KvCacheUpdate int
  | PagedAttention int
  | OutProjection int | PostAttentionNorm int
  | GateUpProjection | SwiGlu | DownProjection
  | RouterProjection | TopkGatingSoftmax
  | ResidualAdd
  | GatherSampling | FinalNorm | LmHeadProjection

fun launch_reads :: "Launch \<Rightarrow> Buffer set" where
  "launch_reads EmbedTokens = {}"
| "launch_reads (InputNorm l) = {BResidual}"
| "launch_reads (QkvProjection l) = {BHidden}"
| "launch_reads (QkNormRope l) = {BQkv}"
| "launch_reads (Rope l) = {BQkv}"
| "launch_reads (KvCacheUpdate l) = {BQkv}"
| "launch_reads (PagedAttention l) = {BQkv, BKeys l, BValues l}"
| "launch_reads (OutProjection l) = {BAttnOut}"
| "launch_reads (PostAttentionNorm l) = {BHidden, BResidual}"
| "launch_reads GateUpProjection = {BHidden}"
| "launch_reads SwiGlu = {BGateUp}"
| "launch_reads DownProjection = {BGateUp}"
| "launch_reads RouterProjection = {BHidden}"
| "launch_reads TopkGatingSoftmax = {BRouterLogits}"
| "launch_reads ResidualAdd = {BHidden, BResidual}"
| "launch_reads GatherSampling = {BResidual}"
| "launch_reads FinalNorm = {BSamplingHidden}"
| "launch_reads LmHeadProjection = {BSamplingHidden}"

fun launch_writes :: "Launch \<Rightarrow> Buffer set" where
  "launch_writes EmbedTokens = {BResidual}"
| "launch_writes (InputNorm l) = {BHidden}"
| "launch_writes (QkvProjection l) = {BQkv}"
| "launch_writes (QkNormRope l) = {BQkv}"
| "launch_writes (Rope l) = {BQkv}"
| "launch_writes (KvCacheUpdate l) = {BKeys l, BValues l}"
| "launch_writes (PagedAttention l) = {BAttnOut}"
| "launch_writes (OutProjection l) = {BHidden}"
| "launch_writes (PostAttentionNorm l) = {BHidden, BResidual}"
| "launch_writes GateUpProjection = {BGateUp}"
| "launch_writes SwiGlu = {BGateUp}"
| "launch_writes DownProjection = {BHidden}"
| "launch_writes RouterProjection = {BRouterLogits}"
| "launch_writes TopkGatingSoftmax = {BTopkWeights, BTopkIds}"
| "launch_writes ResidualAdd = {BResidual}"
| "launch_writes GatherSampling = {BSamplingHidden}"
| "launch_writes FinalNorm = {BSamplingHidden}"
| "launch_writes LmHeadProjection = {BLogits}"

type_synonym Launches = "(Launch \<times> int) list"

subsection \<open>The layers\<close>

definition attention_prepare :: "Attention \<Rightarrow> KVCacheView \<Rightarrow> int \<Rightarrow> Launches option" where
  \<comment> \<open>\<open>kv_cache.k(layer_)\<close> and \<open>kv_cache.v(layer_)\<close> may fail an assertion\<close>
  "attention_prepare a kv rows = do {
     let l = at_layer a;
     _ \<leftarrow> KVCacheView_kv kv l 0;
     _ \<leftarrow> KVCacheView_kv kv l 1;
     Some [(QkvProjection l, rows), (if qk_norm_data a \<noteq> None then QkNormRope l else Rope l, rows), (KvCacheUpdate l, rows)]
   }"

definition attention_attend :: "Attention \<Rightarrow> KVCacheView \<Rightarrow> int \<Rightarrow> Launches option" where
  "attention_attend a kv rows = do {
     _ \<leftarrow> KVCacheView_kv kv (at_layer a) 0;
     _ \<leftarrow> KVCacheView_kv kv (at_layer a) 1;
     Some [(PagedAttention (at_layer a), rows)]
   }"

definition attention_project :: "Attention \<Rightarrow> int \<Rightarrow> Launches" where
  "attention_project a rows = [(OutProjection (at_layer a), rows)]"

fun ffn_forward :: "FeedForward \<Rightarrow> int \<Rightarrow> Launches" where
  "ffn_forward (Dense _) rows = [(GateUpProjection, rows), (SwiGlu, rows), (DownProjection, rows)]"
| "ffn_forward (Sparse _) rows = [(RouterProjection, rows), (TopkGatingSoftmax, rows)]"

subsection \<open>The model\<close>

definition pre_attention :: "CausalLM \<Rightarrow> KVCacheView \<Rightarrow> int \<Rightarrow> int \<Rightarrow> Launches option" where
  \<comment> \<open>\<open>layers_.at(layer)\<close> throws outside the vector\<close>
  "pre_attention m kv rows layer = do {
     d \<leftarrow> at_index (lm_layers m) layer;
     ls \<leftarrow> attention_prepare (dl_attn d) kv rows;
     Some ((InputNorm layer, rows) # ls)
   }"

definition forward_attention :: "CausalLM \<Rightarrow> KVCacheView \<Rightarrow> int \<Rightarrow> int \<Rightarrow> Launches option" where
  "forward_attention m kv rows layer = do {
     d \<leftarrow> at_index (lm_layers m) layer;
     attention_attend (dl_attn d) kv rows
   }"

definition post_attention :: "CausalLM \<Rightarrow> int \<Rightarrow> int \<Rightarrow> Launches option" where
  "post_attention m rows layer = do {
     d \<leftarrow> at_index (lm_layers m) layer;
     Some (attention_project (dl_attn d) rows @ [(PostAttentionNorm layer, rows)] @ ffn_forward (dl_ffn d) rows
       @ [(ResidualAdd, rows)])
   }"

fun append_all :: "('a list option) list \<Rightarrow> 'a list option" where
  \<comment> \<open>a sequence of calls, each of which may throw\<close>
  "append_all [] = Some []"
| "append_all (c # cs) = do { xs \<leftarrow> c; ys \<leftarrow> append_all cs; Some (xs @ ys) }"

definition num_layers :: "CausalLM \<Rightarrow> nat" where
  "num_layers m = nat (num_hidden_layers (lm_config m))"

definition forward :: "CausalLM \<Rightarrow> KVCacheView \<Rightarrow> int \<Rightarrow> Launches option" where
  "forward m kv rows = append_all (Some [(EmbedTokens, rows)] # concat (map (\<lambda>l.
     [pre_attention m kv rows (int l), forward_attention m kv rows (int l), post_attention m rows (int l)]) [0..<num_layers m]))"

definition compute_logits :: "ForwardBatch \<Rightarrow> int \<Rightarrow> Launches" where
  \<comment> \<open>\<open>rows\<close> are those of \<open>sampling_hidden\<close>\<close>
  "compute_logits batch rows = (if fb_num_sampling_reqs batch = 0 then []
     else [(GatherSampling, rows), (FinalNorm, rows), (LmHeadProjection, rows)])"

definition forward_graph_segment :: "CausalLM \<Rightarrow> KVCacheView \<Rightarrow> int \<Rightarrow> int \<Rightarrow> Launches option" where
  "forward_graph_segment m kv rows segment = do {
     a \<leftarrow> (if segment = 0 then Some [(EmbedTokens, rows)] else post_attention m rows (segment - 1));
     b \<leftarrow> (if segment < num_hidden_layers (lm_config m) then pre_attention m kv rows segment else Some []);
     Some (a @ b)
   }"

subsection \<open>Every layer is there\<close>

definition model_ok :: "CausalLM \<Rightarrow> bool" where
  "model_ok m \<longleftrightarrow> 0 \<le> num_hidden_layers (lm_config m) \<and> length (lm_layers m) = num_layers m
     \<and> (\<forall>l < num_layers m. at_layer (dl_attn (lm_layers m ! l)) = int l)"

definition kv_ready :: "CausalLM \<Rightarrow> KVCacheView \<Rightarrow> bool" where
  \<comment> \<open>every layer of the model has its keys and values\<close>
  "kv_ready m kv \<longleftrightarrow> (\<forall>l < num_layers m. KVCacheView_kv kv (int l) 0 \<noteq> None \<and> KVCacheView_kv kv (int l) 1 \<noteq> None)"

lemma load_layer_index: "load_layer fresh ck c i = Inr d \<Longrightarrow> at_layer (dl_attn d) = int i"
  by (auto simp: load_layer_def Attention_load_def)

lemma CausalLM_create_ok:
  assumes "CausalLM_create fresh ck c = Inr m" "0 \<le> num_hidden_layers c"
  shows "model_ok m \<and> lm_config m = c"
proof -
  have len: "attempt_map f xs = Inr ys \<Longrightarrow> length ys = length xs \<and> (\<forall>i < length xs. f (xs ! i) = Inr (ys ! i))"
    for f :: "nat \<Rightarrow> LoadError + DecoderLayer" and xs ys
  proof (induction xs arbitrary: ys)
    case (Cons x xs)
    then show ?case by (auto simp: nth_Cons split: nat.splits)
  qed auto
  from assms(1) obtain layers where l: "attempt_map (load_layer fresh ck c) [0..<nat (num_hidden_layers c)] = Inr layers"
      "lm_config m = c" "lm_layers m = layers"
    by (auto simp: CausalLM_create_def)
  then show ?thesis using len [OF l(1)] assms(2) load_layer_index by (fastforce simp: model_ok_def num_layers_def)
qed

definition pre_of :: "CausalLM \<Rightarrow> int \<Rightarrow> nat \<Rightarrow> Launches" where
  "pre_of m rows l = [(InputNorm (int l), rows), (QkvProjection (int l), rows),
     (if qk_norm_data (dl_attn (lm_layers m ! l)) \<noteq> None then QkNormRope (int l) else Rope (int l), rows), (KvCacheUpdate (int l), rows)]"

definition attn_of :: "CausalLM \<Rightarrow> int \<Rightarrow> nat \<Rightarrow> Launches" where
  "attn_of m rows l = [(PagedAttention (int l), rows)]"

definition post_of :: "CausalLM \<Rightarrow> int \<Rightarrow> nat \<Rightarrow> Launches" where
  "post_of m rows l = attention_project (dl_attn (lm_layers m ! l)) rows @ [(PostAttentionNorm (int l), rows)]
     @ ffn_forward (dl_ffn (lm_layers m ! l)) rows @ [(ResidualAdd, rows)]"

lemma layer_launches:
  assumes "model_ok m" "l < num_layers m"
  shows "kv_ready m kv \<Longrightarrow> pre_attention m kv rows (int l) = Some (pre_of m rows l)"
    "kv_ready m kv \<Longrightarrow> forward_attention m kv rows (int l) = Some (attn_of m rows l)"
    "post_attention m rows (int l) = Some (post_of m rows l)"
  using assms by (auto simp: model_ok_def kv_ready_def pre_attention_def forward_attention_def post_attention_def pre_of_def attn_of_def
      post_of_def at_index_def in_bounds_def attention_prepare_def attention_attend_def Let_def)

lemma append_all_append: "append_all (xs @ ys) = do { a \<leftarrow> append_all xs; b \<leftarrow> append_all ys; Some (a @ b) }"
proof (induction xs)
  case Nil
  then show ?case by (cases "append_all ys") simp_all
next
  case (Cons x xs)
  then show ?case by (cases x; cases "append_all xs"; cases "append_all ys") simp_all
qed

lemma append_all_Some: "append_all (map (\<lambda>x. Some (f x)) xs) = Some (concat (map f xs))"
  by (induction xs) simp_all

lemma forward_eval:
  assumes "model_ok m" "kv_ready m kv"
  shows "forward m kv rows = Some ((EmbedTokens, rows) # concat (map (\<lambda>l. pre_of m rows l @ attn_of m rows l @ post_of m rows l)
     [0..<num_layers m]))"
proof -
  have "append_all (concat (map (\<lambda>l. [pre_attention m kv rows (int l), forward_attention m kv rows (int l), post_attention m rows (int l)]) ls))
      = Some (concat (map (\<lambda>l. pre_of m rows l @ attn_of m rows l @ post_of m rows l) ls))"
    if "set ls \<subseteq> {..<num_layers m}" for ls
    using that by (induction ls) (simp_all add: layer_launches [OF assms(1)] assms(2))
  then show ?thesis by (simp add: forward_def atLeast0LessThan)
qed

subsection \<open>Data flow\<close>

fun flows :: "Buffer set \<Rightarrow> Launch list \<Rightarrow> bool" where
  \<comment> \<open>every launch reads only buffers that are defined when it runs\<close>
  "flows defined [] = True"
| "flows defined (l # ls) = (launch_reads l \<subseteq> defined \<and> flows (defined \<union> launch_writes l) ls)"

lemma flows_append: "flows d (xs @ ys) \<longleftrightarrow> flows d xs \<and> flows (d \<union> \<Union> (launch_writes ` set xs)) ys"
  by (induction xs arbitrary: d) (auto simp: Un_assoc)

lemma flows_mono: "flows d xs \<Longrightarrow> d \<subseteq> e \<Longrightarrow> flows e xs"
  by (induction xs arbitrary: d e) (auto, meson Un_mono order_refl)

lemma ffn_flows: "{BHidden, BResidual} \<subseteq> d \<Longrightarrow> flows d (map fst (ffn_forward f rows))"
  by (cases f) auto

lemma layer_flows:
  assumes "BResidual \<in> d"
  shows "flows d (map fst (pre_of m rows l @ attn_of m rows l @ post_of m rows l))"
  using assms
  by (cases "dl_ffn (lm_layers m ! l)")
    (auto simp: pre_of_def attn_of_def post_of_def attention_project_def Let_def)

lemma forward_flows:
  assumes "model_ok m" "kv_ready m kv"
  shows "\<exists>ls. forward m kv rows = Some ls \<and> flows {} (map fst ls)"
proof -
  have "flows d (map fst (concat (map (\<lambda>l. pre_of m rows l @ attn_of m rows l @ post_of m rows l) ls)))" if "BResidual \<in> d" for d ls
    using that
  proof (induction ls arbitrary: d)
    case (Cons l ls)
    have "flows (d \<union> X) (map fst (concat (map (\<lambda>l. pre_of m rows l @ attn_of m rows l @ post_of m rows l) ls)))" for X
      using Cons by simp
    then show ?case using layer_flows [OF Cons.prems, of m rows l] by (simp add: flows_append Un_assoc)
  qed simp
  then show ?thesis by (simp add: forward_eval [OF assms])
qed

end
