(* ===== verification/Cuda_Graph.thy ===== *)
theory Cuda_Graph
  imports Causal_LM
begin

text \<open>
  The token-count buckets and the captured segments of \<open>CudaGraphRunner\<close>
  (csrc/executor/cuda_graph_runner.h and cuda_graph_runner.cpp). A captured graph is the list
  of launches issued between \<open>cudaStreamBeginCapture\<close> and \<open>cudaStreamEndCapture\<close>, and
  \<open>cudaGraphLaunch\<close> of it issues these launches again; a null \<open>cudaGraphExec_t\<close> is \<open>None\<close>,
  whose launch fails. \<open>int\<close> is unbounded in the bucket loop; \<open>bucket_loop_bounds\<close> shows
  that the sizes stay within the maximum, so the doubling never overflows.
\<close>

subsection \<open>Buckets\<close>

function bucket_loop :: "int \<Rightarrow> int \<Rightarrow> int list" where
  \<comment> \<open>the sizes pushed by the loop from \<open>sz\<close> on\<close>
  "bucket_loop max_num_tokens sz =
     (if 0 < sz \<and> sz < max_num_tokens
      then sz # (if sz > max_num_tokens div 2 then [] else bucket_loop max_num_tokens (sz * 2))
      else [])"
  by pat_completeness auto
termination by (relation "measure (\<lambda>(m, sz). nat (m - sz))") auto

declare bucket_loop.simps [simp del]

definition bucket_sizes :: "int \<Rightarrow> int list" where
  \<comment> \<open>the constructor\<close>
  "bucket_sizes max_num_tokens = bucket_loop max_num_tokens 1 @ [max_num_tokens]"

definition lower_bucket :: "int list \<Rightarrow> int \<Rightarrow> int option" where
  \<comment> \<open>\<open>std::lower_bound\<close> on the sorted buckets; \<open>end()\<close> fails the assertion\<close>
  "lower_bucket buckets n = find (\<lambda>b. \<not> b < n) buckets"

lemma bucket_loop_bounds:
  "0 < sz \<Longrightarrow> b \<in> set (bucket_loop m sz) \<Longrightarrow> sz \<le> b \<and> b < m"
proof (induction m sz arbitrary: b rule: bucket_loop.induct)
  case (1 m sz)
  show ?case
  proof (cases "sz < m")
    case False
    then show ?thesis using "1.prems" by (simp add: bucket_loop.simps [of m sz])
  next
    case True
    have "b = sz \<or> \<not> sz > m div 2 \<and> b \<in> set (bucket_loop m (sz * 2))"
      using "1.prems" True by (auto simp: bucket_loop.simps [of m sz] split: if_splits)
    then show ?thesis using "1.IH" [of b] "1.prems"(1) True by auto
  qed
qed

lemma bucket_loop_sorted: "0 < sz \<Longrightarrow> sorted_wrt (<) (bucket_loop m sz)"
proof (induction m sz rule: bucket_loop.induct)
  case (1 m sz)
  show ?case
  proof (cases "sz < m \<and> \<not> sz > m div 2")
    case False
    then show ?thesis by (auto simp: bucket_loop.simps [of m sz])
  next
    case True
    then have "sorted_wrt (<) (bucket_loop m (sz * 2))" using 1 by auto
    moreover have "sz < b" if "b \<in> set (bucket_loop m (sz * 2))" for b
      using bucket_loop_bounds [OF _ that] "1.prems" by auto
    ultimately show ?thesis using True "1.prems" by (subst bucket_loop.simps) auto
  qed
qed

lemma bucket_sizes_sorted: "0 < m \<Longrightarrow> sorted_wrt (<) (bucket_sizes m)"
  using bucket_loop_sorted [of 1 m] bucket_loop_bounds [of 1 _ m]
  by (auto simp: bucket_sizes_def sorted_wrt_append)

text \<open>A count is rounded up by less than a factor of two.\<close>

lemma bucket_loop_find:
  assumes "0 < sz" "0 < m" "sz < 2 * n" "n \<le> m"
  shows "\<exists>b. find (\<lambda>b. \<not> b < n) (bucket_loop m sz @ [m]) = Some b \<and> n \<le> b \<and> b < 2 * n \<and> b \<le> m"
  using assms
proof (induction m sz rule: bucket_loop.induct)
  case (1 m sz)
  show ?case
  proof (cases "sz < m")
    case False
    then have "bucket_loop m sz = []" by (simp add: bucket_loop.simps)
    then show ?thesis using 1 False by auto
  next
    case True
    show ?thesis
    proof (cases "sz < n")
      case False
      then show ?thesis using 1 True by (subst bucket_loop.simps) auto
    next
      case lt: True
      show ?thesis
      proof (cases "sz > m div 2")
        case last: True
        then show ?thesis using 1 True lt by (subst bucket_loop.simps) auto
      next
        case False
        then have "find (\<lambda>b. \<not> b < n) (bucket_loop m sz @ [m]) = find (\<lambda>b. \<not> b < n) (bucket_loop m (sz * 2) @ [m])"
          using "1.prems"(1) True lt by (subst bucket_loop.simps) simp
        moreover have "sz * 2 < 2 * n" using lt by simp
        ultimately show ?thesis using "1.IH" [OF _ False] "1.prems" True by simp
      qed
    qed
  qed
qed

subsection \<open>The runner\<close>

record GraphRunner =
  gr_num_layers :: int
  gr_warmed_up :: bool
  gr_buckets :: "(int \<times> Launches option list) list"

definition GraphRunner_create :: "int \<Rightarrow> int \<Rightarrow> GraphRunner" where
  "GraphRunner_create max_num_tokens layer_count = \<lparr>gr_num_layers = layer_count, gr_warmed_up = False,
     gr_buckets = map (\<lambda>n. (n, replicate (nat (layer_count + 1)) None)) (bucket_sizes max_num_tokens)\<rparr>"

definition clear :: "GraphRunner \<Rightarrow> GraphRunner" where
  "clear g = g\<lparr>gr_buckets := map (\<lambda>(n, segments). (n, map (\<lambda>_. None) segments)) (gr_buckets g)\<rparr>"

definition bucket_size :: "GraphRunner \<Rightarrow> int \<Rightarrow> int option" where
  "bucket_size g n = lower_bucket (map fst (gr_buckets g)) n"

definition view_rows :: "WorkspaceView \<Rightarrow> int" where
  \<comment> \<open>the number of rows every kernel of the forward pass takes from its views\<close>
  "view_rows v = t_shape (ws_residual v) ! 0"

definition all_segments :: "CausalLM \<Rightarrow> KVCacheView \<Rightarrow> int \<Rightarrow> int \<Rightarrow> Launches list option" where
  \<comment> \<open>\<open>segment\<close> from 0 to \<open>num_layers_\<close> inclusive\<close>
  "all_segments m kv rows layer_count = those (map (\<lambda>s. forward_graph_segment m kv rows (int s)) [0..<nat (layer_count + 1)])"

definition capture_bucket :: "CausalLM \<Rightarrow> KVCacheView \<Rightarrow> Workspace \<Rightarrow> GraphRunner \<Rightarrow> int \<times> Launches option list
    \<Rightarrow> (int \<times> Launches option list) list \<times> Launches
    \<Rightarrow> ((int \<times> Launches option list) list \<times> Launches) option" where
  \<comment> \<open>the body of the loop over the buckets; the second component is what the warm-up runs\<close>
  "capture_bucket m kv w g bucket acc = (case bucket of (n, segments) \<Rightarrow> case acc of (done, executed) \<Rightarrow> do {
     view \<leftarrow> workspace_view w n 0;
     graphs \<leftarrow> all_segments m kv (view_rows view) (gr_num_layers g);
     require (length segments = length graphs);
     Some (done @ [(n, map Some graphs)], if gr_warmed_up g then executed else executed @ concat graphs)
   })"

definition capture :: "CausalLM \<Rightarrow> ForwardBatch \<Rightarrow> KVCacheView \<Rightarrow> Workspace \<Rightarrow> GraphRunner \<Rightarrow> (GraphRunner \<times> Launches) option" where
  "capture m batch kv w g = do {
     require (fb_num_tokens batch = 0);
     (buckets, executed) \<leftarrow> fold_opt (capture_bucket m kv w (clear g)) (gr_buckets (clear g)) ([], []);
     Some (g\<lparr>gr_buckets := buckets, gr_warmed_up := True\<rparr>, executed)
   }"

definition launch_segment :: "Launches option list \<Rightarrow> nat \<Rightarrow> Launches option" where
  "launch_segment segments i = Option.bind (at_index segments (int i)) id"

definition graph_forward :: "CausalLM \<Rightarrow> ForwardBatch \<Rightarrow> KVCacheView \<Rightarrow> Workspace \<Rightarrow> GraphRunner \<Rightarrow> Launches option" where
  \<comment> \<open>\<open>CudaGraphRunner::forward\<close>: replay the segments, attention in between\<close>
  "graph_forward m batch kv w g = do {
     (_, segments) \<leftarrow> find (\<lambda>b. \<not> fst b < fb_num_tokens batch) (gr_buckets g);
     view \<leftarrow> workspace_view w (fb_num_tokens batch) (fb_num_sampling_reqs batch);
     append_all (launch_segment segments 0 # concat (map (\<lambda>layer.
        [forward_attention m kv (view_rows view) (int layer), launch_segment segments (layer + 1)]) [0..<nat (gr_num_layers g)]))
   }"

lemma find_fst: "find (\<lambda>b. P (fst b)) xs = Some (k, v) \<Longrightarrow> find P (map fst xs) = Some k \<and> (k, v) \<in> set xs"
  by (induction xs) (auto split: if_splits)

lemma find_fst_Some: "find P (map fst xs) = Some k \<Longrightarrow> \<exists>v. find (\<lambda>b. P (fst b)) xs = Some (k, v) \<and> (k, v) \<in> set xs"
  by (induction xs) (auto split: if_splits)

lemma bucket_size_eval:
  assumes "0 < n" "n \<le> m"
  shows "\<exists>b. bucket_size (GraphRunner_create m k) n = Some b \<and> n \<le> b \<and> b < 2 * n \<and> b \<le> m"
  using bucket_loop_find [of 1 m n] assms
  by (simp add: bucket_size_def lower_bucket_def GraphRunner_create_def bucket_sizes_def comp_def)

subsection \<open>What a capture leaves\<close>

definition captured :: "CausalLM \<Rightarrow> KVCacheView \<Rightarrow> GraphRunner \<Rightarrow> bool" where
  \<comment> \<open>every bucket holds all its segments, for views of its own size\<close>
  "captured m kv g \<longleftrightarrow> gr_warmed_up g \<and> (\<forall>(n, segments) \<in> set (gr_buckets g).
     \<exists>graphs. all_segments m kv n (gr_num_layers g) = Some graphs \<and> segments = map Some graphs)"

lemma capture_bucket_simp:
  "capture_bucket m kv w g (n, segments) (bs, executed) = do {
     view \<leftarrow> workspace_view w n 0;
     graphs \<leftarrow> all_segments m kv (view_rows view) (gr_num_layers g);
     require (length segments = length graphs);
     Some (bs @ [(n, map Some graphs)], if gr_warmed_up g then executed else executed @ concat graphs)
   }"
  by (simp add: capture_bucket_def)

lemma capture_bucket_done:
  assumes "fold_opt (capture_bucket m kv w g) bs (done0, ex0) = Some (done1, ex1)"
    and rows: "\<And>n v. n \<in> fst ` set bs \<Longrightarrow> workspace_view w n 0 = Some v \<Longrightarrow> view_rows v = n"
    and "\<forall>(n, segments) \<in> set done0. \<exists>graphs. all_segments m kv n (gr_num_layers g) = Some graphs \<and> segments = map Some graphs"
  shows "map fst done1 = map fst done0 @ map fst bs \<and>
    (\<forall>(n, segments) \<in> set done1. \<exists>graphs. all_segments m kv n (gr_num_layers g) = Some graphs \<and> segments = map Some graphs)"
  using assms
proof (induction bs arbitrary: done0 ex0)
  case (Cons b bs)
  obtain n segments where b: "b = (n, segments)" by (cases b)
  from Cons.prems(1) obtain v graphs ex2 where v: "workspace_view w n 0 = Some v"
      "all_segments m kv (view_rows v) (gr_num_layers g) = Some graphs"
      "fold_opt (capture_bucket m kv w g) bs (done0 @ [(n, map Some graphs)], ex2) = Some (done1, ex1)"
    by (auto simp: b capture_bucket_simp bind_eq_Some_conv)
  have "view_rows v = n" using Cons.prems(2) [of n v] v(1) by (simp add: b)
  then show ?case using Cons.IH [OF v(3)] Cons.prems(2,3) v(2) by (auto simp: b)
qed simp

lemma capture_captured:
  assumes "capture m batch kv w g = Some (g', ex)"
    and "\<And>n v. n \<in> fst ` set (gr_buckets g) \<Longrightarrow> workspace_view w n 0 = Some v \<Longrightarrow> view_rows v = n"
  shows "captured m kv g' \<and> map fst (gr_buckets g') = map fst (gr_buckets g) \<and> gr_num_layers g' = gr_num_layers g"
proof -
  from assms(1) obtain done1 where r: "fold_opt (capture_bucket m kv w (clear g)) (gr_buckets (clear g)) ([], []) = Some (done1, ex)"
      "g' = g\<lparr>gr_buckets := done1, gr_warmed_up := True\<rparr>"
    by (auto simp: capture_def bind_eq_Some_conv)
  have fsts: "map fst (gr_buckets (clear g)) = map fst (gr_buckets g)" by (auto simp: clear_def)
  then have "fst ` set (gr_buckets (clear g)) = fst ` set (gr_buckets g)" by (metis set_map)
  then show ?thesis
    using capture_bucket_done [OF r(1)] assms(2) fsts r(2) by (auto simp: captured_def clear_def)
qed

lemma capture_succeeds:
  assumes m: "model_ok m" "kv_ready m kv" "gr_num_layers g = num_hidden_layers (lm_config m)"
    and batch: "fb_num_tokens batch = 0"
    and views: "\<And>n. n \<in> fst ` set (gr_buckets g) \<Longrightarrow> \<exists>v. workspace_view w n 0 = Some v"
    and len: "\<And>n segments. (n, segments) \<in> set (gr_buckets g) \<Longrightarrow> length segments = nat (gr_num_layers g + 1)"
  shows "\<exists>g' ex. capture m batch kv w g = Some (g', ex)"
proof -
  have segs: "\<exists>graphs. all_segments m kv rows (gr_num_layers g) = Some graphs \<and> length graphs = nat (gr_num_layers g + 1)" for rows
  proof -
    have "forward_graph_segment m kv rows (int s) \<noteq> None" if "s < nat (gr_num_layers g + 1)" for s
    proof -
      have "s = 0 \<or> s - 1 < num_layers m" "int s < num_hidden_layers (lm_config m) \<longrightarrow> s < num_layers m"
        using that m by (auto simp: num_layers_def model_ok_def)
      then show ?thesis
        using layer_launches(3) [OF m(1), of "s - 1" rows] layer_launches(1) [OF m(1) _ m(2), of s rows]
        by (auto simp: forward_graph_segment_def of_nat_diff)
    qed
    then have "forward_graph_segment m kv rows (int s) = Some (the (forward_graph_segment m kv rows (int s)))"
      if "s \<in> set [0..<nat (gr_num_layers g + 1)]" for s using that by force
    then have "those (map (\<lambda>s. forward_graph_segment m kv rows (int s)) [0..<nat (gr_num_layers g + 1)])
       = Some (map (\<lambda>s. the (forward_graph_segment m kv rows (int s))) [0..<nat (gr_num_layers g + 1)])"
      by (intro those_map_Some) blast
    then show ?thesis by (simp add: all_segments_def)
  qed
  have run: "\<exists>r. fold_opt (capture_bucket m kv w (clear g)) bs acc = Some r"
    if "\<And>n segments. (n, segments) \<in> set bs \<Longrightarrow> (\<exists>v. workspace_view w n 0 = Some v) \<and> length segments = nat (gr_num_layers g + 1)" for bs acc
    using that
  proof (induction bs arbitrary: acc)
    case (Cons b bs)
    obtain n segments where b: "b = (n, segments)" by (cases b)
    obtain v where v: "workspace_view w n 0 = Some v" using Cons.prems [of n segments] by (auto simp: b)
    obtain graphs where "all_segments m kv (view_rows v) (gr_num_layers g) = Some graphs" "length graphs = nat (gr_num_layers g + 1)"
      using segs by blast
    then have "\<exists>acc'. capture_bucket m kv w (clear g) b acc = Some acc'"
      using v Cons.prems [of n segments] by (auto simp: capture_bucket_def b clear_def split: prod.split)
    then show ?case using Cons.IH Cons.prems by fastforce
  qed simp
  have "\<exists>r. fold_opt (capture_bucket m kv w (clear g)) (gr_buckets (clear g)) ([], []) = Some r"
    by (rule run) (use views len in \<open>fastforce simp: clear_def\<close>)
  then show ?thesis using batch by (auto simp: capture_def split: prod.split)
qed

end
