(* ===== verification/Workspace_Contract.thy ===== *)
theory Workspace_Contract
  imports Workspace
begin

text \<open>
  What \<open>Workspace::create\<close> and \<open>Workspace::view\<close> promise: the tensors used together in one
  phase are aligned, disjoint and inside the buffer, whose size is the maximum over the phases.
  \<open>phase_ok\<close> is that specification, on the regions of a list of tensors.
\<close>

definition kind :: "Tensor \<Rightarrow> int list \<times> DataType" where
  "kind t = (t_shape t, tensor_dtype t)"

definition tensor_span :: "Tensor \<Rightarrow> int \<times> int" where
  \<comment> \<open>element count and element size\<close>
  "tensor_span t = (prod_list (t_shape t), int (dtype_byte_size (tensor_dtype t)))"

definition phase_ok :: "64 word \<Rightarrow> 64 word \<Rightarrow> Tensor list \<Rightarrow> bool" where
  "phase_ok base bytes ts \<longleftrightarrow> (\<exists>offs. map device_ptr ts = map (\<lambda>x. base + x) offs
     \<and> packed 256 0 (map uint offs) (map tensor_span ts) (uint bytes))"

lemma uint_size_t: "0 \<le> x \<Longrightarrow> x < 2 ^ 63 \<Longrightarrow> uint (size_t x) = x"
  unfolding size_t_def by (rule uint_word_of_int64) simp_all

lemma to_int32_size_t: "0 \<le> x \<Longrightarrow> x < 2 ^ 31 \<Longrightarrow> to_int32 (size_t x) = x"
  by (simp add: to_int32_small uint_size_t)

lemma prod_list_size_t: "prod_list (map size_t ds) = size_t (prod_list ds)"
  by (induction ds) (simp_all add: size_t_def)

lemma uint_elem_bytes: "uint (elem_bytes dtype) = int (dtype_byte_size dtype)"
  by (cases dtype) (simp_all add: elem_bytes_def)

subsection \<open>Placement and reservation agree\<close>

definition raw :: "(int list \<times> DataType) list \<Rightarrow> (64 word \<times> 64 word) list" where
  "raw gs = map (\<lambda>(ds, dtype). (size_t (prod_list ds), elem_bytes dtype)) gs"

definition dims :: "(int list \<times> DataType) list \<Rightarrow> (64 word list \<times> DataType) list" where
  "dims gs = map (\<lambda>(ds, dtype). (map size_t ds, dtype)) gs"

definition dims_ok :: "(int list \<times> DataType) list \<Rightarrow> bool" where
  "dims_ok gs \<longleftrightarrow> (\<forall>(ds, dtype) \<in> set gs. (\<forall>d \<in> set ds. 0 < d) \<and> prod_list ds < 2 ^ 31)"

lemma raw_simps [simp]: "raw [] = []" "raw ((ds, dtype) # gs) = (size_t (prod_list ds), elem_bytes dtype) # raw gs"
  "raw (gs @ gs') = raw gs @ raw gs'"
  by (simp_all add: raw_def)

lemma dims_simps [simp]: "dims [] = []" "dims ((ds, dtype) # gs) = (map size_t ds, dtype) # dims gs"
  "dims (gs @ gs') = dims gs @ dims gs'"
  by (simp_all add: dims_def)

lemma dims_ok_simps [simp]: "dims_ok []"
  "dims_ok ((ds, dtype) # gs) \<longleftrightarrow> (\<forall>d \<in> set ds. 0 < d) \<and> prod_list ds < 2 ^ 31 \<and> dims_ok gs"
  "dims_ok (gs @ gs') \<longleftrightarrow> dims_ok gs \<and> dims_ok gs'"
  by (auto simp: dims_ok_def)

lemma dim_le_prod:
  fixes ds :: "int list"
  shows "(\<And>d. d \<in> set ds \<Longrightarrow> 0 < d) \<Longrightarrow> x \<in> set ds \<Longrightarrow> x \<le> prod_list ds"
proof (induction ds)
  case (Cons d ds)
  have p: "0 < prod_list ds" "0 < d" using prod_list_positive [of ds] Cons.prems(1) by simp_all
  then have "d * 1 \<le> d * prod_list ds" "1 * prod_list ds \<le> d * prod_list ds"
    by (intro mult_left_mono mult_right_mono; simp)+
  then show ?case using Cons by fastforce
qed simp

lemma place_view_eval:
  assumes "\<And>d. d \<in> set ds \<Longrightarrow> 0 < d" "prod_list ds < 2 ^ 31"
  shows "\<exists>t. place_view base (map size_t ds) dtype off = Some (t, align_up 256 off + size_t (prod_list ds) * elem_bytes dtype)
     \<and> device_ptr t = base + align_up 256 off \<and> t_shape t = ds \<and> tensor_dtype t = dtype \<and> length (t_stride t) = length ds"
proof -
  have "to_int32 (size_t d) = d" if "d \<in> set ds" for d
    using assms(1) [OF that] dim_le_prod [OF assms(1) that] assms(2) by (intro to_int32_size_t) auto
  then have m: "map to_int32 (map size_t ds) = ds" by (simp add: map_idI)
  obtain st where "make_tensor (base + align_up 256 off) dtype ds = Some (make_tensor_strided (base + align_up 256 off) dtype ds st)"
      "length st = length ds"
    using make_tensor_eval [OF assms] by blast
  then show ?thesis by (simp add: place_view_def m prod_list_size_t make_tensor_strided_def Let_def del: map_map)
qed

lemma place_all_eval:
  assumes "dims_ok gs" "reserve_all 256 off (raw gs) = (offs, hi)"
  shows "\<exists>ts. place_all base (dims gs) off = Some (ts, hi) \<and> map device_ptr ts = map (\<lambda>x. base + x) offs
     \<and> map t_shape ts = map fst gs \<and> map tensor_dtype ts = map snd gs
     \<and> map (\<lambda>t. length (t_stride t)) ts = map (\<lambda>g. length (fst g)) gs"
  using assms
proof (induction gs arbitrary: off offs)
  case (Cons g gs)
  obtain ds dtype where g: "g = (ds, dtype)" by (cases g)
  let ?off = "align_up 256 off + size_t (prod_list ds) * elem_bytes dtype"
  obtain offs' where rest: "reserve_all 256 ?off (raw gs) = (offs', hi)" "offs = align_up 256 off # offs'"
    using Cons.prems(2) by (auto simp: g reserve_def Let_def split: prod.splits)
  have pos: "\<And>d. d \<in> set ds \<Longrightarrow> 0 < d" "prod_list ds < 2 ^ 31" "dims_ok gs" using Cons.prems(1) by (auto simp: g)
  obtain t where t: "place_view base (map size_t ds) dtype off = Some (t, ?off)"
      "device_ptr t = base + align_up 256 off" "t_shape t = ds" "tensor_dtype t = dtype" "length (t_stride t) = length ds"
    using place_view_eval [OF pos(1,2)] by blast
  obtain ts where ts: "place_all base (dims gs) ?off = Some (ts, hi)" "map device_ptr ts = map (\<lambda>x. base + x) offs'"
      "map t_shape ts = map fst gs" "map tensor_dtype ts = map snd gs"
      "map (\<lambda>t. length (t_stride t)) ts = map (\<lambda>g. length (fst g)) gs"
    using Cons.IH [OF pos(3) rest(1)] by blast
  show ?case using t ts by (intro exI [of _ "t # ts"]) (simp add: g rest(2))
qed simp

lemma place_all_append:
  "place_all base (fs @ gs) off = Option.bind (place_all base fs off) (\<lambda>(ts, mid).
     Option.bind (place_all base gs mid) (\<lambda>(us, hi). Some (ts @ us, hi)))"
  by (induction base fs off rule: place_all.induct) (auto split: prod.splits Option.bind_splits)

lemma phase_bytes_reserve:
  "phase_bytes fs = snd (reserve_all 256 0 (map (\<lambda>(count, dtype). (count, elem_bytes dtype)) fs))"
proof -
  have "fold (\<lambda>(count, dtype) offset. reserve_tensor_bytes offset count dtype) fs off
      = snd (reserve_all 256 off (map (\<lambda>(count, dtype). (count, elem_bytes dtype)) fs))" for off
    by (induction fs arbitrary: off) (auto simp: reserve_tensor_bytes_def reserve_def Let_def split: prod.splits)
  then show ?thesis by (simp add: phase_bytes_def)
qed

subsection \<open>The regions of one phase\<close>

lemma region_bytes_raw:
  assumes "dims_ok gs"
  shows "region_bytes (raw gs) \<le> int (length gs) * 2 ^ 33"
  using assms
proof (induction gs)
  case (Cons g gs)
  obtain ds dtype where g: "g = (ds, dtype)" by (cases g)
  have p: "0 < prod_list ds" "prod_list ds < 2 ^ 31" using Cons.prems prod_list_positive [of ds] by (auto simp: g)
  then have u: "uint (size_t (prod_list ds)) = prod_list ds" by (intro uint_size_t) simp_all
  have b: "int (dtype_byte_size dtype) \<le> 4" by (cases dtype) simp_all
  have "prod_list ds * int (dtype_byte_size dtype) \<le> 2 ^ 31 * 4"
    using p b by (intro mult_mono) auto
  then have "uint (size_t (prod_list ds)) * uint (elem_bytes dtype) \<le> 2 ^ 33" by (simp add: u uint_elem_bytes)
  then show ?case using Cons by (simp add: g distrib_right)
qed simp

lemma phase_packed:
  assumes ok: "dims_ok gs" and len: "length gs < 2 ^ 20" and r: "reserve_all 256 0 (raw gs) = (offs, hi)"
  shows "packed 256 0 (map uint offs) (map (\<lambda>(ds, dtype). (prod_list ds, int (dtype_byte_size dtype))) gs) (uint hi)"
proof -
  have "int (length gs) * 2 ^ 33 \<le> 2 ^ 20 * 2 ^ 33" "int (length gs) * 2 ^ 8 \<le> 2 ^ 20 * 2 ^ 8"
    using len by (intro mult_right_mono; simp)+
  then have "uint (0 :: 64 word) + region_bytes (raw gs) + int (length (raw gs)) * 2 ^ 8 \<le> 2 ^ 63"
    using region_bytes_raw [OF ok] by (simp add: raw_def)
  then have p: "packed (2 ^ 8) (uint (0 :: 64 word)) (map uint offs) (map (\<lambda>(c, e). (uint c, uint e)) (raw gs)) (uint hi)"
    using r by (intro reserve_all_packed) simp_all
  have "map (\<lambda>(c, e). (uint c, uint e)) (raw gs) = map (\<lambda>(ds, dtype). (prod_list ds, int (dtype_byte_size dtype))) gs"
  proof -
    have "uint (size_t (prod_list ds)) = prod_list ds" if "(ds, dtype) \<in> set gs" for ds dtype
    proof -
      have d: "\<And>d. d \<in> set ds \<Longrightarrow> 0 < d" "prod_list ds < 2 ^ 31" using ok that by (auto simp: dims_ok_def)
      then have "0 < prod_list ds" by (intro prod_list_positive)
      then show ?thesis using d(2) by (intro uint_size_t) simp_all
    qed
    then show ?thesis by (auto simp: raw_def uint_elem_bytes)
  qed
  then show ?thesis using p by simp
qed

lemma packed_mono: "packed a lo offs fs hi \<Longrightarrow> hi \<le> hi' \<Longrightarrow> packed a lo offs fs hi'"
  by (induction a lo offs fs hi rule: packed.induct) auto

lemma tensor_spans:
  "map t_shape ts = map fst gs \<Longrightarrow> map tensor_dtype ts = map snd gs
    \<Longrightarrow> map tensor_span ts = map (\<lambda>(ds, dtype). (prod_list ds, int (dtype_byte_size dtype))) gs"
  by (induction gs arbitrary: ts) (auto simp: tensor_span_def map_eq_Cons_conv)

lemma tensor_kinds:
  "map t_shape ts = map fst gs \<Longrightarrow> map tensor_dtype ts = map snd gs \<Longrightarrow> map kind ts = gs"
  by (induction gs arbitrary: ts) (auto simp: kind_def map_eq_Cons_conv)

lemma phase_regions:
  assumes ok: "dims_ok gs" "length gs < 2 ^ 20" and fit: "snd (reserve_all 256 0 (raw gs)) \<le> bytes"
  shows "\<exists>ts hi. place_all base (dims gs) 0 = Some (ts, hi) \<and> map kind ts = gs
     \<and> phase_ok base bytes ts \<and> map (\<lambda>t. length (t_stride t)) ts = map (\<lambda>g. length (fst g)) gs"
proof -
  obtain offs hi where r: "reserve_all 256 0 (raw gs) = (offs, hi)" by (cases "reserve_all 256 0 (raw gs)")
  obtain ts where ts: "place_all base (dims gs) 0 = Some (ts, hi)" "map device_ptr ts = map (\<lambda>x. base + x) offs"
      "map t_shape ts = map fst gs" "map tensor_dtype ts = map snd gs"
      "map (\<lambda>t. length (t_stride t)) ts = map (\<lambda>g. length (fst g)) gs"
    using place_all_eval [OF ok(1) r] by blast
  have "map tensor_span ts = map (\<lambda>(ds, dtype). (prod_list ds, int (dtype_byte_size dtype))) gs"
    using ts(3,4) by (rule tensor_spans)
  moreover have "uint hi \<le> uint bytes" using fit by (simp add: r word_le_def)
  ultimately have "packed 256 0 (map uint offs) (map tensor_span ts) (uint bytes)"
    using packed_mono [OF phase_packed [OF ok r]] by simp
  then have "phase_ok base bytes ts" using ts(2) by (auto simp: phase_ok_def)
  then show ?thesis using ts(1,5) tensor_kinds [OF ts(3,4)] by blast
qed

subsection \<open>The workspace\<close>

text \<open>The dimensions of a supported configuration: positive, with every tensor below \<open>2 ^ 31\<close> elements.\<close>

definition q_dim :: "ModelConfig \<Rightarrow> int" where
  "q_dim c = num_attention_heads c * head_dim c"

definition kv_dim :: "ModelConfig \<Rightarrow> int" where
  "kv_dim c = num_kv_heads c * head_dim c"

definition workspace_dims_ok :: "ModelConfig \<Rightarrow> int \<Rightarrow> int \<Rightarrow> bool" where
  "workspace_dims_ok c n s \<longleftrightarrow> mc_dtype c \<noteq> kUnsupported \<and> 0 < n \<and> 0 < s \<and> 0 < hidden_size c \<and> 0 < q_dim c \<and> 0 < kv_dim c
     \<and> 0 < intermediate_size c \<and> 0 < vocab_size c
     \<and> n * hidden_size c < 2 ^ 31 \<and> n * (q_dim c + 2 * kv_dim c) < 2 ^ 31 \<and> n * (2 * intermediate_size c) < 2 ^ 31
     \<and> s * hidden_size c < 2 ^ 31 \<and> s * vocab_size c < 2 ^ 31
     \<and> (case moe c of None \<Rightarrow> True | Some m \<Rightarrow> 0 < num_experts m \<and> 0 < moe_top_k m \<and> 0 < moe_intermediate_size m
          \<and> n * num_experts m < 2 ^ 31 \<and> n * moe_top_k m * (2 * moe_intermediate_size m) < 2 ^ 31)"

definition stream_shapes :: "ModelConfig \<Rightarrow> int \<Rightarrow> (int list \<times> DataType) list" where
  "stream_shapes c n = [([n, hidden_size c], mc_dtype c), ([n, hidden_size c], mc_dtype c)]"

definition attn_shapes :: "ModelConfig \<Rightarrow> int \<Rightarrow> (int list \<times> DataType) list" where
  "attn_shapes c n = [([n, q_dim c + 2 * kv_dim c], mc_dtype c), ([n, q_dim c], mc_dtype c)]"

definition mlp_shapes :: "ModelConfig \<Rightarrow> int \<Rightarrow> (int list \<times> DataType) list" where
  "mlp_shapes c n = [([n, 2 * intermediate_size c], mc_dtype c)]"

definition moe_shapes :: "ModelConfig \<Rightarrow> MoEConfig \<Rightarrow> int \<Rightarrow> (int list \<times> DataType) list" where
  "moe_shapes c m n = [([n, num_experts m], mc_dtype c), ([n, moe_top_k m], kFp32), ([n, moe_top_k m], kInt32),
     ([num_experts m], kInt32), ([n * moe_top_k m, 2 * moe_intermediate_size m], mc_dtype c)]"

definition logits_shapes :: "ModelConfig \<Rightarrow> int \<Rightarrow> (int list \<times> DataType) list" where
  "logits_shapes c s = [([s, hidden_size c], mc_dtype c), ([s, vocab_size c], mc_dtype c)]"

lemma shapes_dims:
  "stream_dims c n = dims (stream_shapes c n)" "attn_dims c n = dims (attn_shapes c n)" "mlp_dims c n = dims (mlp_shapes c n)"
  "moe_dims c m n (n * moe_top_k m) (2 * moe_intermediate_size m) = dims (moe_shapes c m n)"
  "logits_dims c s = dims (logits_shapes c s)"
  by (simp_all add: stream_dims_def stream_shapes_def attn_dims_def attn_shapes_def mlp_dims_def mlp_shapes_def moe_dims_def
      moe_shapes_def logits_dims_def logits_shapes_def q_size_def kv_size_def q_dim_def kv_dim_def size_t_hom)

lemma attn_phase: "phase_bytes (attn_sizes c n) = snd (reserve_all 256 0 (raw (stream_shapes c n @ attn_shapes c n)))"
  by (simp add: phase_bytes_reserve attn_sizes_def stream_shapes_def attn_shapes_def q_size_def kv_size_def q_dim_def kv_dim_def
      size_t_hom)

lemma logits_phase: "phase_bytes (logits_sizes c s) = snd (reserve_all 256 0 (raw (logits_shapes c s)))"
  by (simp add: phase_bytes_reserve logits_sizes_def logits_shapes_def size_t_hom)

lemma mlp_phase:
  "mlp_sizes c n = Some fs \<Longrightarrow> phase_bytes fs = snd (reserve_all 256 0 (raw (stream_shapes c n @ mlp_shapes c n)))"
  by (auto simp: mlp_sizes_def phase_bytes_reserve stream_shapes_def mlp_shapes_def size_t_hom bind_eq_Some_conv mult.assoc)

lemma moe_phase:
  "moe c = Some m \<Longrightarrow> moe_sizes c n = Some fs
    \<Longrightarrow> phase_bytes fs = snd (reserve_all 256 0 (raw (stream_shapes c n @ moe_shapes c m n)))"
  by (auto simp: moe_sizes_def phase_bytes_reserve stream_shapes_def moe_shapes_def size_t_hom bind_eq_Some_conv ac_simps)

lemma less_of_product:
  fixes a b :: int
  assumes "0 < a" "0 < b" "a * b < m"
  shows "a < m" "b < m"
proof -
  have "a * 1 \<le> a * b" "1 * b \<le> a * b" using assms(1,2) by (intro mult_left_mono mult_right_mono; simp)+
  then show "a < m" "b < m" using assms(3) by simp_all
qed

lemma workspace_dims:
  assumes ok: "workspace_dims_ok c n s"
  shows "dims_ok (stream_shapes c n)" "dims_ok (attn_shapes c n)" "dims_ok (mlp_shapes c n)" "dims_ok (logits_shapes c s)"
    "mlp_sizes c n \<noteq> None"
proof -
  note d = ok [unfolded workspace_dims_ok_def]
  have "n * q_dim c \<le> n * (q_dim c + 2 * kv_dim c)" using d by (intro mult_left_mono) auto
  moreover have "n * (q_dim c + 2 * kv_dim c) < 2 ^ 31" using d by blast
  ultimately have q: "n * q_dim c < 2 ^ 31" by (rule order.strict_trans1)
  show "dims_ok (stream_shapes c n)" using d by (simp add: stream_shapes_def)
  show "dims_ok (attn_shapes c n)" using d q by (simp add: attn_shapes_def)
  show "dims_ok (mlp_shapes c n)" using d by (simp add: mlp_shapes_def)
  show "dims_ok (logits_shapes c s)" using d by (simp add: logits_shapes_def)
  have "n * 2 < 2 ^ 31" using less_of_product(1) [of "n * 2" "intermediate_size c" "2 ^ 31"] d by (simp add: mult.assoc)
  then show "mlp_sizes c n \<noteq> None" using d by (simp add: mlp_sizes_def c_int_def)
qed

lemma workspace_moe_dims:
  assumes ok: "workspace_dims_ok c n s" and m: "moe c = Some m"
  shows "dims_ok (moe_shapes c m n)" "moe_sizes c n \<noteq> None" "c_int (n * moe_top_k m) = Some (n * moe_top_k m)"
    "c_int (2 * moe_intermediate_size m) = Some (2 * moe_intermediate_size m)"
proof -
  note d = ok [unfolded workspace_dims_ok_def m option.case]
  let ?k = "n * moe_top_k m" and ?i = "2 * moe_intermediate_size m"
  have k: "0 < ?k" "0 < ?i" "?k * ?i < 2 ^ 31" using d by simp_all
  have b: "?k < 2 ^ 31" "?i < 2 ^ 31" using less_of_product [OF k] .
  have e: "num_experts m < 2 ^ 31" using less_of_product(2) [of n "num_experts m"] d by simp
  have k2: "?k * 2 < 2 ^ 31"
    using less_of_product(1) [of "?k * 2" "moe_intermediate_size m" "2 ^ 31"] d by (simp add: mult.assoc)
  show ck: "c_int ?k = Some ?k" "c_int ?i = Some ?i" by (rule c_int_nonneg; use k b in simp)+
  have "c_int (n * num_experts m) = Some (n * num_experts m)" by (rule c_int_nonneg) (use d in simp_all)
  moreover have "c_int (?k * 2) = Some (?k * 2)" by (rule c_int_nonneg) (use k k2 in simp_all)
  moreover have "c_int (?k * 2 * moe_intermediate_size m) = Some (?k * 2 * moe_intermediate_size m)"
  proof (rule c_int_nonneg)
    show "0 \<le> ?k * 2 * moe_intermediate_size m" using k(2) mult_pos_pos [OF k(1), of "moe_intermediate_size m"] d by auto
    show "?k * 2 * moe_intermediate_size m < 2 ^ 31" using k(3) by (simp only: mult.assoc)
  qed
  ultimately show "moe_sizes c n \<noteq> None" using ck(1) by (simp only: moe_sizes_def m option.case bind.simps) simp
  show "dims_ok (moe_shapes c m n)" using d k b e by (simp add: moe_shapes_def)
qed

lemma place_moe_eval:
  assumes ok: "workspace_dims_ok c n s" and m: "moe c = Some m"
    and p: "place_all base (dims (moe_shapes c m n)) start = Some (ts, hi)"
  shows "place_moe base c n start w = Some (w\<lparr>ws_router_logits := ts ! 0, ws_topk_weights := ts ! 1, ws_topk_ids := ts ! 2,
     ws_expert_counts := ts ! 3, ws_moe_gate_up := ts ! 4,
     ws_moe_gated := half_columns (ts ! 4) (n * moe_top_k m) (moe_intermediate_size m)\<rparr>)"
  by (simp only: place_moe_def m option.case workspace_moe_dims(3,4) [OF ok m] bind.simps shapes_dims p prod.case)

text \<open>Two phases that share the residual stream: its two tensors and the offset behind them are the same.\<close>

lemma stream_then:
  assumes "place_all base (dims (stream_shapes c n)) 0 = Some (stream, mid)"
    and "place_all base (dims (stream_shapes c n @ gs)) 0 = Some (ts, hi)"
  shows "\<exists>us. place_all base (dims gs) mid = Some (us, hi) \<and> ts = stream @ us"
  using assms by (auto simp: place_all_append bind_eq_Some_conv)

lemma map_shape_2:
  assumes "map f ts = [a, b]"
  shows "ts = [ts ! 0, ts ! 1]" "f (ts ! 0) = a" "f (ts ! 1) = b"
proof -
  obtain x y where "ts = [x, y]" "f x = a" "f y = b" using assms by (auto simp: map_eq_Cons_conv)
  then show "ts = [ts ! 0, ts ! 1]" "f (ts ! 0) = a" "f (ts ! 1) = b" by simp_all
qed

lemma list_of_length:
  "length ts = 1 \<Longrightarrow> ts = [ts ! 0]" "length ts = 2 \<Longrightarrow> ts = [ts ! 0, ts ! 1]"
  "length ts = 5 \<Longrightarrow> ts = [ts ! 0, ts ! 1, ts ! 2, ts ! 3, ts ! 4]"
  by (intro nth_equalityI; auto simp: nth_Cons less_Suc_eq numeral_eq_Suc split: nat.splits)+

lemma place_all_length: "place_all base fs off = Some (ts, hi) \<Longrightarrow> length ts = length fs"
  by (induction base fs off arbitrary: ts hi rule: place_all.induct) (auto simp: bind_eq_Some_conv split: prod.splits)

definition layout_ok :: "64 word \<Rightarrow> ModelConfig \<Rightarrow> int \<Rightarrow> int \<Rightarrow> Workspace \<Rightarrow> bool" where
  \<comment> \<open>shapes of the tensors and regions of the four phases\<close>
  "layout_ok base c n s w \<longleftrightarrow>
     map kind [ws_hidden w, ws_residual w, ws_qkv w, ws_attn_out w, ws_gate_up w, ws_sampling_hidden w, ws_logits w]
       = stream_shapes c n @ attn_shapes c n @ mlp_shapes c n @ logits_shapes c s
     \<and> phase_ok base (ws_bytes w) [ws_hidden w, ws_residual w, ws_qkv w, ws_attn_out w]
     \<and> phase_ok base (ws_bytes w) [ws_hidden w, ws_residual w, ws_gate_up w]
     \<and> phase_ok base (ws_bytes w) [ws_sampling_hidden w, ws_logits w]
     \<and> device_ptr (ws_sampling_hidden w) = device_ptr (ws_hidden w)
     \<and> (case moe c of None \<Rightarrow> t_shape (ws_topk_ids w) = [0, 0]
        | Some m \<Rightarrow> map kind [ws_router_logits w, ws_topk_weights w, ws_topk_ids w, ws_expert_counts w, ws_moe_gate_up w]
              = moe_shapes c m n
          \<and> phase_ok base (ws_bytes w) [ws_hidden w, ws_residual w, ws_router_logits w, ws_topk_weights w, ws_topk_ids w,
              ws_expert_counts w, ws_moe_gate_up w])"

lemma span_nonneg:
  assumes "dims_ok gs" "(x, e) \<in> set (map (\<lambda>(ds, dtype). (prod_list ds, int (dtype_byte_size dtype))) gs)"
  shows "0 \<le> x * e"
proof -
  from assms obtain ds where "x = prod_list ds" "\<And>d. d \<in> set ds \<Longrightarrow> 0 < d" "0 \<le> e" by (auto simp: dims_ok_def)
  then show ?thesis using prod_list_positive [of ds] by simp
qed

lemma phase_bytes_pos:
  assumes ok: "dims_ok ((ds, dtype) # gs)" "length gs < 2 ^ 19" and t: "dtype \<noteq> kUnsupported"
  shows "snd (reserve_all 256 0 (raw ((ds, dtype) # gs))) \<noteq> 0"
proof -
  let ?gs = "(ds, dtype) # gs"
  obtain offs hi where r: "reserve_all 256 0 (raw ?gs) = (offs, hi)" by (cases "reserve_all 256 0 (raw ?gs)")
  have p: "packed 256 0 (map uint offs) (map (\<lambda>(ds, dtype). (prod_list ds, int (dtype_byte_size dtype))) ?gs) (uint hi)"
    using phase_packed [OF ok(1) _ r] ok(2) by simp
  have "length offs = length ?gs" using length_reserve_all [of 256 0 "raw ?gs"] unfolding r by (simp add: raw_def)
  then have n: "0 < length (map uint offs)" by simp
  have "uint (offs ! 0) + prod_list ds * int (dtype_byte_size dtype) \<le> uint hi"
    using packed_inside [OF p span_nonneg [OF ok(1)] n] n by simp
  moreover have "0 < prod_list ds * int (dtype_byte_size dtype)"
    using ok(1) t prod_list_positive [of ds] by (cases dtype) simp_all
  ultimately have "0 < uint hi" using uint_ge_0 [of "offs ! 0"] by linarith
  then show ?thesis unfolding r by auto
qed

lemma first_ptr:
  assumes "place_all base (dims ((ds, dtype) # gs)) 0 = Some (ts, hi)"
  shows "device_ptr (ts ! 0) = base"
  using assms by (auto simp: place_view_def make_tensor_def make_tensor_strided_def align_up_def Let_def bind_eq_Some_conv split: prod.splits)

lemma workspace_eval:
  assumes ok: "workspace_dims_ok c n s"
  shows "\<exists>w. Workspace_create base c n s = Some w \<and> layout_ok base c n s w"
proof -
  note d = ok [unfolded workspace_dims_ok_def]
  note dims = workspace_dims [OF ok]
  obtain mlp where mlp: "mlp_sizes c n = Some mlp" using dims(5) by blast
  obtain moes where moes: "moe_sizes c n = Some moes"
    using workspace_moe_dims(2) [OF ok] by (cases "moe c") (auto simp: moe_sizes_def)
  define bytes where "bytes = max (max (phase_bytes (attn_sizes c n)) (phase_bytes mlp)) (max (phase_bytes moes) (phase_bytes (logits_sizes c s)))"
  have req: "required_bytes c n s = Some bytes" by (simp add: required_bytes_def mlp moes bytes_def)
  have "phase_bytes (attn_sizes c n) \<noteq> 0"
    using dims(1,2) d unfolding attn_phase by (simp add: stream_shapes_def attn_shapes_def phase_bytes_pos del: raw_simps)
  then have nz: "bytes \<noteq> 0" unfolding bytes_def by (metis max.cobounded1 word_coorder.extremum_uniqueI)
  have le: "snd (reserve_all 256 0 (raw (stream_shapes c n @ attn_shapes c n))) \<le> bytes"
      "snd (reserve_all 256 0 (raw (stream_shapes c n @ mlp_shapes c n))) \<le> bytes"
      "snd (reserve_all 256 0 (raw (logits_shapes c s))) \<le> bytes"
    unfolding attn_phase [symmetric] mlp_phase [OF mlp, symmetric] logits_phase [symmetric] bytes_def
    by (simp_all add: le_max_iff_disj)
  have len: "length (stream_shapes c n @ attn_shapes c n) < 2 ^ 20" "length (stream_shapes c n @ mlp_shapes c n) < 2 ^ 20"
      "length (logits_shapes c s) < 2 ^ 20" "length (stream_shapes c n) < 2 ^ 20"
    by (simp_all add: stream_shapes_def attn_shapes_def mlp_shapes_def logits_shapes_def)
  have ok12: "dims_ok (stream_shapes c n @ attn_shapes c n)" "dims_ok (stream_shapes c n @ mlp_shapes c n)" using dims by simp_all
  obtain stream mid where stream: "place_all base (dims (stream_shapes c n)) 0 = Some (stream, mid)"
    using place_all_eval [OF dims(1), of 0 _ _ base] by (cases "reserve_all 256 0 (raw (stream_shapes c n))") blast
  obtain ts1 hi1 where t1: "place_all base (dims (stream_shapes c n @ attn_shapes c n)) 0 = Some (ts1, hi1)"
      "map kind ts1 = stream_shapes c n @ attn_shapes c n" "phase_ok base bytes ts1"
    using phase_regions [OF ok12(1) len(1) le(1)] by blast
  obtain ts2 hi2 where t2: "place_all base (dims (stream_shapes c n @ mlp_shapes c n)) 0 = Some (ts2, hi2)"
      "map kind ts2 = stream_shapes c n @ mlp_shapes c n" "phase_ok base bytes ts2"
    using phase_regions [OF ok12(2) len(2) le(2)] by blast
  obtain ts4 hi4 where t4: "place_all base (dims (logits_shapes c s)) 0 = Some (ts4, hi4)"
      "map kind ts4 = logits_shapes c s" "phase_ok base bytes ts4"
    using phase_regions [OF dims(4) len(3) le(3)] by blast
  obtain attn where attn: "place_all base (dims (attn_shapes c n)) mid = Some (attn, hi1)" "ts1 = stream @ attn"
    using stream_then [OF stream t1(1)] by blast
  obtain ml where ml: "place_all base (dims (mlp_shapes c n)) mid = Some (ml, hi2)" "ts2 = stream @ ml"
    using stream_then [OF stream t2(1)] by blast
  have s2: "stream = [stream ! 0, stream ! 1]" "attn = [attn ! 0, attn ! 1]" "ml = [ml ! 0]" "ts4 = [ts4 ! 0, ts4 ! 1]"
    by (rule list_of_length, simp add: place_all_length [OF stream] place_all_length [OF attn(1)]
        place_all_length [OF ml(1)] place_all_length [OF t4(1)] stream_shapes_def attn_shapes_def mlp_shapes_def logits_shapes_def)+
  have ptr: "device_ptr (stream ! 0) = base" "device_ptr (ts4 ! 0) = base"
    using first_ptr [OF stream [unfolded stream_shapes_def]] first_ptr [OF t4(1) [unfolded logits_shapes_def]] .
  have ts: "ts1 = [stream ! 0, stream ! 1, attn ! 0, attn ! 1]" "ts2 = [stream ! 0, stream ! 1, ml ! 0]"
    using attn(2) ml(2) s2(1-3) by (metis append_Cons append_Nil)+
  have sh1: "map kind [stream ! 0, stream ! 1, attn ! 0, attn ! 1] = stream_shapes c n @ attn_shapes c n"
    using t1(2) unfolding ts(1) .
  have sh2: "kind (ml ! 0) = ([n, 2 * intermediate_size c], mc_dtype c)"
    using t2(2) unfolding ts(2) by (simp add: stream_shapes_def mlp_shapes_def)
  then have sh2': "t_shape (ml ! 0) = [n, 2 * intermediate_size c]" by (simp add: kind_def)
  have sh4: "map kind [ts4 ! 0, ts4 ! 1] = logits_shapes c s" using t4(2) s2(4) by metis
  have ph1: "phase_ok base bytes [stream ! 0, stream ! 1, attn ! 0, attn ! 1]" using t1(3) unfolding ts(1) .
  have ph2: "phase_ok base bytes [stream ! 0, stream ! 1, ml ! 0]" using t2(3) unfolding ts(2) .
  have ph4: "phase_ok base bytes [ts4 ! 0, ts4 ! 1]" using t4(3) s2(4) by metis
  have half: "c_div (t_shape (ml ! 0) ! 1) 2 = Some (intermediate_size c)"
    using d by (simp add: sh2' c_div_nonneg)
  define w0 where "w0 = empty_workspace\<lparr>ws_hidden := stream ! 0, ws_residual := stream ! 1, ws_qkv := attn ! 0,
     ws_attn_out := attn ! 1, ws_gate_up := ml ! 0, ws_gated := half_columns (ml ! 0) n (intermediate_size c)\<rparr>"
  have w0: "ws_hidden w0 = stream ! 0" "ws_residual w0 = stream ! 1" "ws_qkv w0 = attn ! 0" "ws_attn_out w0 = attn ! 1"
      "ws_gate_up w0 = ml ! 0" "t_shape (ws_topk_ids w0) = [0, 0]"
    by (simp_all add: w0_def empty_workspace_def null_tensor_def Let_def numeral_eq_Suc)
  have create: "Workspace_create base c n s = Option.bind (place_moe base c n mid w0)
      (\<lambda>w. Some (w\<lparr>ws_sampling_hidden := ts4 ! 0, ws_logits := ts4 ! 1, ws_bytes := bytes\<rparr>))"
    using d nz by (simp add: Workspace_create_def shapes_dims stream attn(1) ml(1) t4(1) req half [simplified] w0_def)
  show ?thesis
  proof (cases "moe c")
    case None
    then show ?thesis
      using sh1 sh2 sh4 ph1 ph2 ph4 ptr w0
      by (simp add: create place_moe_def layout_ok_def stream_shapes_def attn_shapes_def mlp_shapes_def logits_shapes_def)
  next
    case (Some m)
    have le3: "snd (reserve_all 256 0 (raw (stream_shapes c n @ moe_shapes c m n))) \<le> bytes"
      unfolding moe_phase [OF Some moes, symmetric] bytes_def by (simp add: le_max_iff_disj)
    have ok3: "dims_ok (stream_shapes c n @ moe_shapes c m n)" using dims(1) workspace_moe_dims(1) [OF ok Some] by simp
    have len3: "length (stream_shapes c n @ moe_shapes c m n) < 2 ^ 20" by (simp add: stream_shapes_def moe_shapes_def)
    obtain ts3 hi3 where t3: "place_all base (dims (stream_shapes c n @ moe_shapes c m n)) 0 = Some (ts3, hi3)"
        "map kind ts3 = stream_shapes c n @ moe_shapes c m n" "phase_ok base bytes ts3"
      using phase_regions [OF ok3 len3 le3] by blast
    obtain mo where mo: "place_all base (dims (moe_shapes c m n)) mid = Some (mo, hi3)" "ts3 = stream @ mo"
      using stream_then [OF stream t3(1)] by blast
    have five: "mo = [mo ! 0, mo ! 1, mo ! 2, mo ! 3, mo ! 4]"
      by (rule list_of_length) (simp add: place_all_length [OF mo(1)] moe_shapes_def)
    have ts3: "ts3 = [stream ! 0, stream ! 1, mo ! 0, mo ! 1, mo ! 2, mo ! 3, mo ! 4]"
      using mo(2) s2(1) five by (metis append_Cons append_Nil)
    have sh3: "map kind [mo ! 0, mo ! 1, mo ! 2, mo ! 3, mo ! 4] = moe_shapes c m n"
      using t3(2) unfolding ts3 by (simp add: stream_shapes_def)
    have ph3: "phase_ok base bytes [stream ! 0, stream ! 1, mo ! 0, mo ! 1, mo ! 2, mo ! 3, mo ! 4]" using t3(3) unfolding ts3 .
    show ?thesis
      using sh1 sh2 sh3 sh4 ph1 ph2 ph3 ph4 ptr w0
      by (simp add: create place_moe_eval [OF ok Some mo(1)] Some layout_ok_def
          stream_shapes_def attn_shapes_def mlp_shapes_def logits_shapes_def)
  qed
qed

end
