(* ===== verification/Workspace_Properties.thy ===== *)
theory Workspace_Properties
  imports Workspace_Contract KV_Cache Scheduler_Properties
begin

text \<open>
  The properties of the activation workspace and of the KV pool, with the concrete model configuration of the
  scheduler's example as witness.
\<close>

lemma demo_workspace_dims: "workspace_dims_ok demo_model_config 4 2"
  by (simp add: workspace_dims_ok_def demo_model_config_def q_dim_def kv_dim_def)



lemma phase_ok_region:
  assumes "phase_ok base bytes ts" "i < length ts" "\<And>t. t \<in> set ts \<Longrightarrow> 0 \<le> prod_list (t_shape t)"
  shows "\<exists>off. device_ptr (ts ! i) = base + off \<and> uint off + prod_list (t_shape (ts ! i)) * int (dtype_byte_size (tensor_dtype (ts ! i))) \<le> uint bytes"
proof -
  from assms(1) obtain offs where o: "map device_ptr ts = map (\<lambda>x. base + x) offs"
      "packed 256 0 (map uint offs) (map tensor_span ts) (uint bytes)" by (auto simp: phase_ok_def)
  have len: "length offs = length ts" using o(1) by (metis length_map)
  have nn: "\<And>c e. (c, e) \<in> set (map tensor_span ts) \<Longrightarrow> 0 \<le> c * e" using assms(3) by (auto simp: tensor_span_def)
  have "uint (offs ! i) + prod_list (t_shape (ts ! i)) * int (dtype_byte_size (tensor_dtype (ts ! i))) \<le> uint bytes"
    using packed_inside [OF o(2) nn, of i] assms(2) len by (simp add: tensor_span_def)
  moreover have "map device_ptr ts ! i = map (\<lambda>x. base + x) offs ! i" using o(1) by simp
  ultimately show ?thesis using assms(2) len by auto
qed

lemma phase_ok_disjoint:
  assumes "phase_ok base bytes ts" "i < j" "j < length ts" "\<And>t. t \<in> set ts \<Longrightarrow> 0 \<le> prod_list (t_shape t)"
  shows "\<exists>oi oj. device_ptr (ts ! i) = base + oi \<and> device_ptr (ts ! j) = base + oj
     \<and> uint oi + prod_list (t_shape (ts ! i)) * int (dtype_byte_size (tensor_dtype (ts ! i))) \<le> uint oj"
proof -
  from assms(1) obtain offs where o: "map device_ptr ts = map (\<lambda>x. base + x) offs"
      "packed 256 0 (map uint offs) (map tensor_span ts) (uint bytes)" by (auto simp: phase_ok_def)
  have len: "length offs = length ts" using o(1) by (metis length_map)
  have nn: "\<And>c e. (c, e) \<in> set (map tensor_span ts) \<Longrightarrow> 0 \<le> c * e" using assms(4) by (auto simp: tensor_span_def)
  have "uint (offs ! i) + prod_list (t_shape (ts ! i)) * int (dtype_byte_size (tensor_dtype (ts ! i))) \<le> uint (offs ! j)"
    using packed_disjoint [OF o(2) nn assms(2)] assms(2,3) len by (simp add: tensor_span_def)
  moreover have "map device_ptr ts ! i = map (\<lambda>x. base + x) offs ! i" "map device_ptr ts ! j = map (\<lambda>x. base + x) offs ! j"
    using o(1) by simp_all
  ultimately show ?thesis using assms(2,3) len by (intro exI [of _ "offs ! i"] exI [of _ "offs ! j"]) simp
qed

lemma phase_ok_set:
  assumes "phase_ok base bytes ts" "i < length ts" "\<And>t. t \<in> set ts \<Longrightarrow> 0 \<le> prod_list (t_shape t)"
    and "0 < prod_list (t_shape (ts ! i))" "tensor_dtype (ts ! i) \<noteq> kUnsupported"
    and base: "base \<noteq> 0" "uint base + uint bytes \<le> 2 ^ 64"
  shows "is_set (ts ! i)"
proof -
  obtain off where off: "device_ptr (ts ! i) = base + off"
      "uint off + prod_list (t_shape (ts ! i)) * int (dtype_byte_size (tensor_dtype (ts ! i))) \<le> uint bytes"
    using phase_ok_region [OF assms(1-3)] by blast
  have "0 < prod_list (t_shape (ts ! i)) * int (dtype_byte_size (tensor_dtype (ts ! i)))"
    using assms(4,5) by (cases "tensor_dtype (ts ! i)") simp_all
  then have "uint base + uint off < 2 ^ 64" using off(2) base(2) by linarith
  then have "uint (base + off) = uint base + uint off" by (simp add: uint_plus_if_size word_size)
  moreover have "uint base \<noteq> 0" using base(1) by (simp add: uint_0_iff)
  ultimately have "uint (base + off) \<noteq> 0" using uint_ge_0 [of base] uint_ge_0 [of off] by linarith
  then show ?thesis by (auto simp: is_set_def off(1))
qed

lemma uint_diff: "uint a \<le> uint b \<Longrightarrow> uint (b - a) = uint b - uint a" for a b :: "64 word"
  by (simp add: uint_sub_if_size)

lemma workspace_view_eval:
  assumes ok: "workspace_dims_ok c n s" and w: "Workspace_create base c n s = Some w"
    and base: "base \<noteq> 0" "uint base + uint (ws_bytes w) \<le> 2 ^ 64"
    and rows: "0 < t" "t \<le> n" "0 \<le> r" "r \<le> s" "r \<le> t"
  shows "\<exists>v off. workspace_view w t r = Some v \<and> t_shape (ws_residual v) = [t, hidden_size c]
     \<and> t_shape (ws_sampling_hidden v) = [r, hidden_size c] \<and> t_shape (ws_logits v) = [r, vocab_size c]
     \<and> device_ptr (ws_sampling_hidden v) = device_ptr (ws_hidden v)
     \<and> device_ptr (ws_residual v) = device_ptr (ws_sampling_hidden v) + off
     \<and> r * hidden_size c * int (dtype_byte_size (mc_dtype c)) \<le> uint off"
proof -
  note d = ok [unfolded workspace_dims_ok_def]
  have lay: "layout_ok base c n s w" using workspace_eval [OF ok, of base] w by auto
  have kinds: "kind (ws_hidden w) = ([n, hidden_size c], mc_dtype c)" "kind (ws_residual w) = ([n, hidden_size c], mc_dtype c)"
      "kind (ws_sampling_hidden w) = ([s, hidden_size c], mc_dtype c)" "kind (ws_logits w) = ([s, vocab_size c], mc_dtype c)"
      "kind (ws_gate_up w) = ([n, 2 * intermediate_size c], mc_dtype c)"
    and same: "device_ptr (ws_sampling_hidden w) = device_ptr (ws_hidden w)"
    and ph: "phase_ok base (ws_bytes w) [ws_hidden w, ws_residual w, ws_gate_up w]"
      "phase_ok base (ws_bytes w) [ws_sampling_hidden w, ws_logits w]"
    using lay by (simp_all add: layout_ok_def stream_shapes_def attn_shapes_def mlp_shapes_def logits_shapes_def)
  note k = kinds [unfolded kind_def prod.inject]
  have pos1: "0 \<le> prod_list (t_shape t)" if "t \<in> set [ws_hidden w, ws_residual w, ws_gate_up w]" for t using that k d by auto
  have pos2: "0 \<le> prod_list (t_shape t)" if "t \<in> set [ws_sampling_hidden w, ws_logits w]" for t using that k d by auto
  have set: "is_set (ws_residual w)" "is_set (ws_sampling_hidden w)" "is_set (ws_logits w)"
    using phase_ok_set [OF ph(1) _ pos1, of 1] phase_ok_set [OF ph(2) _ pos2, of 0] phase_ok_set [OF ph(2) _ pos2, of 1]
      base k d by simp_all
  have "\<exists>x. c_int (t * t_shape (ws_topk_ids w) ! 1) = Some x"
  proof (cases "moe c")
    case None
    then show ?thesis using lay by (simp add: layout_ok_def)
  next
    case (Some m)
    have id: "t_shape (ws_topk_ids w) = [n, moe_top_k m]" using lay by (simp add: layout_ok_def Some moe_shapes_def kind_def)
    have k: "0 < moe_top_k m" using d by (simp add: Some)
    have "t * moe_top_k m \<le> n * moe_top_k m" using rows k by (intro mult_right_mono) auto
    moreover have "n * moe_top_k m < 2 ^ 31" using workspace_moe_dims(3) [OF ok Some] by simp
    ultimately have "t * moe_top_k m < 2 ^ 31" by (rule order.strict_trans1)
    moreover have "0 \<le> t * moe_top_k m" using rows(1) k by simp
    ultimately have "c_int (t * moe_top_k m) = Some (t * moe_top_k m)" by (intro c_int_nonneg)
    then show ?thesis by (simp add: id)
  qed
  then obtain x where x: "c_int (t * t_shape (ws_topk_ids w) ! 1) = Some x" ..
  obtain oi oj where o: "device_ptr (ws_hidden w) = base + oi" "device_ptr (ws_residual w) = base + oj"
      "uint oi + prod_list [n, hidden_size c] * int (dtype_byte_size (mc_dtype c)) \<le> uint oj"
    using phase_ok_disjoint [OF ph(1) _ _ pos1, of 0 1] k by auto
  have "r * hidden_size c \<le> n * hidden_size c" using rows d by (intro mult_right_mono) auto
  then have le: "r * hidden_size c * int (dtype_byte_size (mc_dtype c)) \<le> n * hidden_size c * int (dtype_byte_size (mc_dtype c))"
    by (rule mult_right_mono) simp
  have "0 \<le> n * hidden_size c * int (dtype_byte_size (mc_dtype c))" using d by simp
  then have "uint oi \<le> uint oj" "uint (oj - oi) = uint oj - uint oi" using o(3) by (simp_all add: uint_diff)
  then have "r * hidden_size c * int (dtype_byte_size (mc_dtype c)) \<le> uint (oj - oi)" using le o(3) by simp
  then show ?thesis
    using rows x set k same o(1,2)
    by (intro exI [of _ "the (workspace_view w t r)"] exI [of _ "oj - oi"]) (simp add: workspace_view_def with_rows_def del: c_int_Some)
qed

text \<open>
  A view of up to \<open>n\<close> tokens and \<open>s\<close> sampling requests never fails an assertion, has
  the requested rows, and keeps the base pointers; and although the gathered hidden states of
  the sampling requests overlay the workspace from its start, their rows end before the
  residual stream they are gathered from begins, as long as no more requests sample than tokens
  are scheduled.
\<close>

theorem workspace_view_rows:
  assumes ok: "workspace_dims_ok c n s" and w: "Workspace_create base c n s = Some w"
    and base: "base \<noteq> 0" "uint base + uint (ws_bytes w) \<le> 2 ^ 64"
    and rows: "0 < t" "t \<le> n" "0 \<le> r" "r \<le> s" "r \<le> t"
  shows "\<exists>v off. workspace_view w t r = Some v \<and> t_shape (ws_residual v) = [t, hidden_size c]
     \<and> t_shape (ws_sampling_hidden v) = [r, hidden_size c] \<and> t_shape (ws_logits v) = [r, vocab_size c]
     \<and> device_ptr (ws_sampling_hidden v) = device_ptr (ws_hidden v)
     \<and> device_ptr (ws_residual v) = device_ptr (ws_sampling_hidden v) + off
     \<and> r * hidden_size c * int (dtype_byte_size (mc_dtype c)) \<le> uint off"
  by (rule workspace_view_eval) (use assms in auto)

theorem workspace_view_rows_witness:
  "\<exists>w v. Workspace_create 4096 demo_model_config 4 2 = Some w \<and> workspace_view w 3 2 = Some v \<and> t_shape (ws_residual v) = [3, 4]"
proof -
  obtain w where w: "Workspace_create 4096 demo_model_config 4 2 = Some w"
    using workspace_eval [OF demo_workspace_dims, of 4096] by blast
  have "required_bytes demo_model_config 4 2 = Some 3584" by code_simp
  then have "ws_bytes w = 3584" using w by (auto simp: Workspace_create_def bind_eq_Some_conv split: prod.splits)
  then show ?thesis
    using workspace_view_rows [OF demo_workspace_dims w, of 3 2] w by (auto simp: demo_model_config_def)
qed



end
