(* ===== verification/Graph_Properties.thy ===== *)
theory Graph_Properties
  imports Cuda_Graph Workspace_Properties
begin

text \<open>
  The properties of the graph runner: rounding to a bucket, and the equality of a replayed
  forward pass with the eager one, from the creation of the runner and of the workspace on.
\<close>

text \<open>
  A token count within the limit is rounded up to a bucket of the runner, by less than a
  factor of two and never beyond the limit, so the padded batch still fits the buffers.
\<close>

theorem bucket_size_rounds_up:
  assumes "0 < n" "n \<le> m"
  shows "\<exists>b. bucket_size (GraphRunner_create m k) n = Some b \<and> n \<le> b \<and> b < 2 * n \<and> b \<le> m"
  using bucket_size_eval [OF assms] .

theorem bucket_size_rounds_up_witness:
  "bucket_size (GraphRunner_create 6 2) 3 = Some 4 \<and> (\<exists>b. bucket_size (GraphRunner_create 6 2) 3 = Some b \<and> b < 6)"
  using bucket_size_rounds_up [of 3 6 2]
  by (simp add: bucket_size_def GraphRunner_create_def bucket_sizes_def bucket_loop.simps lower_bucket_def)

subsection \<open>Replay\<close>

lemma interleave:
  fixes p a q :: "nat \<Rightarrow> 'a list"
  shows "p 0 @ concat (map (\<lambda>l. a l @ q l @ p (l + 1)) [0..<k]) = concat (map (\<lambda>l. p l @ a l @ q l) [0..<k]) @ p k"
proof (induction k)
  case (Suc k)
  have "p 0 @ concat (map (\<lambda>l. a l @ q l @ p (l + 1)) [0..<Suc k])
      = (p 0 @ concat (map (\<lambda>l. a l @ q l @ p (l + 1)) [0..<k])) @ a k @ q k @ p (k + 1)" by simp
  also have "\<dots> = concat (map (\<lambda>l. p l @ a l @ q l) [0..<k]) @ p k @ a k @ q k @ p (k + 1)"
    unfolding Suc.IH by simp
  finally show ?case by simp
qed simp

definition segment_of :: "CausalLM \<Rightarrow> int \<Rightarrow> nat \<Rightarrow> Launches" where
  "segment_of m rows s = (if s = 0 then [(EmbedTokens, rows)] else post_of m rows (s - 1))
     @ (if s < num_layers m then pre_of m rows s else [])"

lemma forward_graph_segment_eval:
  assumes "model_ok m" "kv_ready m kv" "s \<le> num_layers m"
  shows "forward_graph_segment m kv rows (int s) = Some (segment_of m rows s)"
proof -
  have "int s < num_hidden_layers (lm_config m) \<longleftrightarrow> s < num_layers m" using assms(1) by (auto simp: num_layers_def model_ok_def)
  then show ?thesis
    using assms layer_launches(3) [OF assms(1), of "s - 1" rows] layer_launches(1) [OF assms(1) _ assms(2), of s rows]
    by (cases s) (auto simp: forward_graph_segment_def segment_of_def)
qed

lemma all_segments_eval:
  assumes "model_ok m" "kv_ready m kv"
  shows "all_segments m kv rows (num_hidden_layers (lm_config m)) = Some (map (segment_of m rows) [0..<num_layers m + 1])"
proof -
  have "nat (num_hidden_layers (lm_config m) + 1) = num_layers m + 1"
    using assms by (simp add: num_layers_def model_ok_def nat_add_distrib)
  then show ?thesis
    unfolding all_segments_def by (intro trans [OF _ those_map_Some] arg_cong [of _ _ those] map_cong)
      (simp_all add: forward_graph_segment_eval [OF assms] del: upt_Suc)
qed

lemma launch_names:
  "map fst (pre_of m r l) = map fst (pre_of m r' l)" "map fst (attn_of m r l) = map fst (attn_of m r' l)"
  "map fst (post_of m r l) = map fst (post_of m r' l)"
  by (cases "dl_ffn (lm_layers m ! l)"; simp add: pre_of_def attn_of_def post_of_def 
      attention_project_def Let_def)+

lemma launch_rows:
  "(x, y) \<in> set (pre_of m r l) \<Longrightarrow> y = r \<and> (\<forall>k. x \<noteq> PagedAttention k)"
  "(x, y) \<in> set (attn_of m r l) \<Longrightarrow> y = r \<and> (\<exists>k. x = PagedAttention k)"
  "(x, y) \<in> set (post_of m r l) \<Longrightarrow> y = r \<and> (\<forall>k. x \<noteq> PagedAttention k)"
  by (cases "dl_ffn (lm_layers m ! l)"; auto simp: pre_of_def attn_of_def post_of_def 
      attention_project_def Let_def split: if_splits)+

definition replayed :: "CausalLM \<Rightarrow> int \<Rightarrow> int \<Rightarrow> Launches" where
  "replayed m b t = (EmbedTokens, b) # concat (map (\<lambda>l. pre_of m b l @ attn_of m t l @ post_of m b l) [0..<num_layers m])"

lemma replayed_names: "map fst (replayed m b t) = map fst (replayed m t t)"
  unfolding replayed_def by (simp add: map_concat comp_def launch_names(1,3) [of m b _ t])

lemma replayed_rows:
  assumes "(x, y) \<in> set (replayed m b t)"
  shows "y = (if \<exists>k. x = PagedAttention k then t else b)"
proof -
  from assms consider "x = EmbedTokens" "y = b" | l where "(x, y) \<in> set (pre_of m b l) \<union> set (attn_of m t l) \<union> set (post_of m b l)"
    by (auto simp: replayed_def)
  then show ?thesis
  proof cases
    case 1
    then show ?thesis by simp
  next
    case (2 l)
    then show ?thesis using launch_rows(1) [of x y m b l] launch_rows(2) [of x y m t l] launch_rows(3) [of x y m b l] by auto
  qed
qed

lemma graph_forward_eval:
  assumes m: "model_ok m" "kv_ready m kv" and g: "captured m kv g" "gr_num_layers g = num_hidden_layers (lm_config m)"
    and b: "bucket_size g (fb_num_tokens batch) = Some b"
    and v: "workspace_view w (fb_num_tokens batch) (fb_num_sampling_reqs batch) = Some v" "view_rows v = t"
  shows "graph_forward m batch kv w g = Some (replayed m b t)"
proof -
  let ?n = "num_layers m"
  obtain segments where segs: "find (\<lambda>x. \<not> fst x < fb_num_tokens batch) (gr_buckets g) = Some (b, segments)"
      "(b, segments) \<in> set (gr_buckets g)"
    using find_fst_Some [of "\<lambda>x. \<not> x < fb_num_tokens batch" "gr_buckets g" b] b by (auto simp: bucket_size_def lower_bucket_def)
  have seg: "launch_segment segments l = Some (segment_of m b l)" if "l \<le> ?n" for l
    using g(1) segs(2) all_segments_eval [OF m, of b] that
    by (auto simp: captured_def g(2) launch_segment_def at_index_def in_bounds_def simp del: upt_Suc)
  define p where "p l = (if l < ?n then pre_of m b l else [])" for l
  have n: "nat (gr_num_layers g) = ?n" by (simp add: g(2) num_layers_def)
  have "append_all (concat (map (\<lambda>l. [forward_attention m kv t (int l), launch_segment segments (l + 1)]) ls))
      = Some (concat (map (\<lambda>l. attn_of m t l @ post_of m b l @ p (l + 1)) ls))" if "set ls \<subseteq> {..<?n}" for ls
    using that by (induction ls) (simp_all add: layer_launches(2) [OF m(1)] m(2) seg segment_of_def p_def)
  then have "graph_forward m batch kv w g
     = Some ((EmbedTokens, b) # p 0 @ concat (map (\<lambda>l. attn_of m t l @ post_of m b l @ p (l + 1)) [0..<?n]))"
    using seg [of 0] by (simp add: graph_forward_def segs(1) v n segment_of_def p_def atLeast0LessThan)
  also have "p 0 @ concat (map (\<lambda>l. attn_of m t l @ post_of m b l @ p (l + 1)) [0..<?n])
     = concat (map (\<lambda>l. p l @ attn_of m t l @ post_of m b l) [0..<?n])"
    unfolding interleave [of p "attn_of m t" "post_of m b" ?n] by (simp add: p_def)
  also have "map (\<lambda>l. p l @ attn_of m t l @ post_of m b l) [0..<?n] = map (\<lambda>l. pre_of m b l @ attn_of m t l @ post_of m b l) [0..<?n]"
    by (rule map_cong [OF refl]) (simp add: p_def)
  finally show ?thesis by (simp add: replayed_def)
qed

lemma created_captured:
  assumes m: "model_ok m" "kv_ready m kv" and ok: "workspace_dims_ok c n s" and w: "Workspace_create base c n s = Some w"
    and base: "base \<noteq> 0" "uint base + uint (ws_bytes w) \<le> 2 ^ 64" and batch: "fb_num_tokens batch = 0"
  shows "\<exists>g ex. capture m batch kv w (GraphRunner_create n (num_hidden_layers (lm_config m))) = Some (g, ex)
     \<and> captured m kv g \<and> gr_num_layers g = num_hidden_layers (lm_config m) \<and> map fst (gr_buckets g) = bucket_sizes n"
proof -
  let ?g = "GraphRunner_create n (num_hidden_layers (lm_config m))"
  have d: "0 < n" "0 < s" using ok by (auto simp: workspace_dims_ok_def)
  have sizes: "map fst (gr_buckets ?g) = bucket_sizes n" by (simp add: GraphRunner_create_def comp_def)
  have views: "\<exists>v. workspace_view w b 0 = Some v \<and> view_rows v = b" if "b \<in> fst ` set (gr_buckets ?g)" for b
  proof -
    have "b \<in> set (bucket_sizes n)" using that sizes by (metis set_map)
    then have "0 < b" "b \<le> n" using bucket_loop_bounds [of 1 b n] d by (auto simp: bucket_sizes_def)
    then show ?thesis using workspace_view_eval [OF ok w base, of b 0] d by (auto simp: view_rows_def)
  qed
  have len: "length segments = nat (gr_num_layers ?g + 1)" if "(b, segments) \<in> set (gr_buckets ?g)" for b segments
    using that by (auto simp: GraphRunner_create_def)
  have layers: "gr_num_layers ?g = num_hidden_layers (lm_config m)" by (simp add: GraphRunner_create_def)
  have "\<exists>g' ex. capture m batch kv w ?g = Some (g', ex)"
    by (rule capture_succeeds [OF m layers batch]) (use views len in blast)+
  then obtain g ex where r: "capture m batch kv w ?g = Some (g, ex)" by blast
  have "captured m kv g \<and> map fst (gr_buckets g) = map fst (gr_buckets ?g) \<and> gr_num_layers g = gr_num_layers ?g"
    by (rule capture_captured [OF r]) (use views in fastforce)
  then show ?thesis using r sizes layers by auto
qed


definition demo_linear :: Linear where
  "demo_linear = \<lparr>lin_format = kFormatBf16, lin_parallel = kColumn, lin_shape = [1, 1], lin_data = [0, 0]\<rparr>"

definition demo_model :: CausalLM where
  "demo_model = \<lparr>lm_config = demo_model_config, lm_embed = [], lm_norm = [], lm_head = demo_linear,
     lm_layers = [\<lparr>dl_norm_data = [], dl_attn = \<lparr>at_layer = 0, at_q_size = 4, at_kv_size = 2, at_head_dim = 2, at_eps = 0,
         qkv_proj = demo_linear, o_proj = demo_linear, qk_norm_data = Some []\<rparr>,
       dl_ffn = Dense \<lparr>gate_up_proj = demo_linear, down_proj = demo_linear\<rparr>\<rparr>]\<rparr>"

definition demo_batch :: "int \<Rightarrow> int \<Rightarrow> ForwardBatch" where
  "demo_batch n r = \<lparr>fb_token_ids = [], fb_positions = [], fb_slot_mapping = [], fb_query_start_loc = [], fb_seq_lens = [],
     fb_block_table = [], fb_logits_indices = [], fb_sample_params = [], fb_num_tokens_device = 0, fb_block_table_stride = 0,
     fb_num_tokens = n, fb_num_reqs = 0, fb_num_sampling_reqs = r, fb_max_query_len = 0, fb_max_seq_len = 0\<rparr>"

definition demo_kv :: KVCacheView where
  "demo_kv = \<lparr>kc_data = 65536, kc_dtype = kBf16, kc_num_layers = 1, kc_num_blocks = 4, kc_block_size = 2,
     kc_num_kv_heads = 1, kc_head_dim = 2\<rparr>"

lemma demo_model_ok: "model_ok demo_model" "kv_ready demo_model demo_kv"
  by (auto simp: model_ok_def kv_ready_def demo_model_def num_layers_def demo_model_config_def demo_kv_def KVCacheView_kv_def
      make_tensor_def c_int_def Let_def)


subsection \<open>The decoder\<close>




end
