(* ===== verification/Sampler.thy ===== *)
theory Sampler
  imports Workspace Batch_Buffer
begin

text \<open>
  The host side of sampling, csrc/executor/sampler.h and sampler.cpp, and the size of its
  device workspace, \<open>sampler_workspace_size\<close> of csrc/ops/sampler.cu. The seed is what
  \<open>std::random_device\<close> returned. A launch of the sampling kernels carries the number of rows
  and the offset of its random streams: row \<open>r\<close> draws from the Philox subsequence
  \<open>offset + r\<close>.
\<close>

record Sampler =
  sp_workspace_bytes :: "64 word"
  sp_seed :: "64 word"
  sp_offset :: "64 word"

definition kTileSize :: int where
  "kTileSize = 512 * 8"

definition num_tiles :: "int \<Rightarrow> int option" where
  "num_tiles vocab = do { n \<leftarrow> c_int (vocab + kTileSize - 1); c_div n kTileSize }"

definition sampler_workspace_size :: "int \<Rightarrow> int \<Rightarrow> 64 word option" where
  "sampler_workspace_size num_reqs vocab = do {
     tiles \<leftarrow> num_tiles vocab;
     Some (align_up 16 (size_t num_reqs * size_t vocab * 4) + size_t num_reqs * size_t tiles * (8 + 256 * 4))
   }"

definition Sampler_create :: "64 word \<Rightarrow> int \<Rightarrow> int \<Rightarrow> Sampler option" where
  \<comment> \<open>the device buffer asserts a size other than 0\<close>
  "Sampler_create seed max_num_seqs vocab = do {
     bytes \<leftarrow> sampler_workspace_size max_num_seqs vocab;
     require (bytes \<noteq> 0);
     Some \<lparr>sp_workspace_bytes = bytes, sp_seed = seed, sp_offset = 0\<rparr>
   }"

definition Sampler_sample :: "ForwardBatch \<Rightarrow> Sampler \<Rightarrow> (nat \<times> 64 word) option \<times> Sampler" where
  \<comment> \<open>the launch, if any: its rows and the offset of its random streams\<close>
  "Sampler_sample batch s = (let n = fb_num_sampling_reqs batch in
     if n = 0 then (None, s)
     else (Some (nat n, sp_offset s), s\<lparr>sp_offset := sp_offset s + size_t n\<rparr>))"

fun sample_all :: "ForwardBatch list \<Rightarrow> Sampler \<Rightarrow> (nat \<times> 64 word) list" where
  \<comment> \<open>the launches of a sequence of steps\<close>
  "sample_all [] s = []"
| "sample_all (b # bs) s = (case Sampler_sample b s of (None, s') \<Rightarrow> sample_all bs s' | (Some l, s') \<Rightarrow> l # sample_all bs s')"

definition streams_of :: "nat \<times> 64 word \<Rightarrow> 64 word list" where
  "streams_of l = map (\<lambda>r. snd l + of_nat r) [0..<fst l]"

lemma streams_pair: "streams_of (n, off) = map (\<lambda>r. off + of_nat r) [0..<n]"
  by (simp add: streams_of_def)

definition rows_of :: "ForwardBatch list \<Rightarrow> int" where
  "rows_of bs = (\<Sum>b\<leftarrow>bs. fb_num_sampling_reqs b)"

subsection \<open>Random streams\<close>

lemma shift_range: "map (\<lambda>i. (a :: 64 word) + of_nat n + of_nat i) [0..<k] = map (\<lambda>i. a + of_nat i) [n..<n + k]"
proof -
  have "[n..<n + k] = map (\<lambda>i. i + n) [0..<k]" by (simp only: map_add_upt add.commute)
  then show ?thesis by (simp add: comp_def ac_simps)
qed

lemma streams_from_offset:
  assumes "\<And>b. b \<in> set bs \<Longrightarrow> 0 \<le> fb_num_sampling_reqs b"
  shows "concat (map streams_of (sample_all bs s)) = map (\<lambda>i. sp_offset s + of_nat i) [0..<nat (rows_of bs)]"
  using assms
proof (induction bs arbitrary: s)
  case (Cons b bs)
  have nn: "0 \<le> fb_num_sampling_reqs b" "0 \<le> rows_of bs"
    using Cons.prems by (auto simp: rows_of_def intro!: sum_list_nonneg)
  show ?case
  proof (cases "fb_num_sampling_reqs b = 0")
    case True
    then show ?thesis using Cons by (simp add: Sampler_sample_def rows_of_def Let_def)
  next
    case False
    let ?n = "nat (fb_num_sampling_reqs b)" and ?k = "nat (rows_of bs)"
    have rows: "nat (rows_of (b # bs)) = ?n + ?k" using nn by (simp add: rows_of_def nat_add_distrib)
    have "size_t (fb_num_sampling_reqs b) = of_nat ?n" using nn by (simp add: size_t_def)
    then have "concat (map streams_of (sample_all (b # bs) s)) =
        map (\<lambda>i. sp_offset s + of_nat i) [0..<?n] @ map (\<lambda>i. sp_offset s + of_nat ?n + of_nat i) [0..<?k]"
      using False Cons.IH Cons.prems by (simp add: Sampler_sample_def streams_pair Let_def del: of_nat_nat)
    also have "map (\<lambda>i. sp_offset s + of_nat ?n + of_nat i) [0..<?k] = map (\<lambda>i. sp_offset s + of_nat i) [?n..<?n + ?k]"
      by (rule shift_range)
    finally show ?thesis unfolding rows upt_add_eq_append [OF le0] map_append .
  qed
qed (simp add: rows_of_def)

lemma distinct_word_range: "n \<le> 2 ^ 64 \<Longrightarrow> distinct (map (\<lambda>i. (a :: 64 word) + of_nat i) [0..<n])"
proof -
  assume n: "n \<le> 2 ^ 64"
  have "unat (of_nat i :: 64 word) = i" if "i < n" for i
    using that n by (simp add: unsigned_of_nat take_bit_nat_eq_self)
  then have "i = j" if "i < n" "j < n" "a + of_nat i = a + of_nat j" for i j
    using that by (metis add_left_cancel)
  then show ?thesis by (auto simp: distinct_map inj_on_def)
qed

text \<open>
  C25: Over any sequence of steps that samples at most \<open>2 ^ 64\<close> tokens, no two sampled tokens draw
  from the same random stream: the streams of a step start where those of the step before ended.
\<close>

theorem sampler_streams_distinct:
  assumes "\<And>b. b \<in> set bs \<Longrightarrow> 0 \<le> fb_num_sampling_reqs b" "rows_of bs \<le> 2 ^ 64"
  shows "distinct (concat (map streams_of (sample_all bs s)))
     \<and> length (concat (map streams_of (sample_all bs s))) = nat (rows_of bs)"
proof -
  have "nat (rows_of bs) \<le> 2 ^ 64" using assms(2) by simp
  then show ?thesis using streams_from_offset [OF assms(1), where s = s] distinct_word_range [of "nat (rows_of bs)" "sp_offset s"]
    by simp
qed

definition demo_rows :: "int \<Rightarrow> ForwardBatch" where
  "demo_rows n = \<lparr>fb_token_ids = [], fb_positions = [], fb_slot_mapping = [], fb_query_start_loc = [], fb_seq_lens = [],
     fb_block_table = [], fb_logits_indices = [], fb_sample_params = [], fb_num_tokens_device = 0, fb_block_table_stride = 0,
     fb_num_tokens = n, fb_num_reqs = n, fb_num_sampling_reqs = n, fb_max_query_len = 0, fb_max_seq_len = 0\<rparr>"

theorem sampler_streams_distinct_witness:
  "distinct (concat (map streams_of (sample_all [demo_rows 2, demo_rows 3]
     \<lparr>sp_workspace_bytes = 16, sp_seed = 7, sp_offset = - 1\<rparr>)))"
proof -
  have "0 \<le> fb_num_sampling_reqs b" if "b \<in> set [demo_rows 2, demo_rows 3]" for b
    using that by (auto simp: demo_rows_def)
  moreover have "rows_of [demo_rows 2, demo_rows 3] \<le> 2 ^ 64" by (simp add: demo_rows_def rows_of_def)
  ultimately show ?thesis by (rule sampler_streams_distinct [THEN conjunct1])
qed

end
