(* ===== verification/Model_Config_Load.thy ===== *)
theory Model_Config_Load
  imports Json Model_Config
begin

text \<open>
  Loading the model's configuration, csrc/model/model_config.cpp. A file is absent, not JSON,
  or its parsed value. \<open>Undefined\<close> is the division by a zero head count when \<open>head_dim\<close> is
  derived.
\<close>

datatype File = Absent | Unparsable | Parsed json

datatype ConfigError =
    CannotOpen | InvalidConfig | UnsupportedArch | UnsupportedDtype | InvalidGenerationConfig | Undefined

definition RopeScaling_from_json :: "JsonLib \<Rightarrow> json \<Rightarrow> JsonError + RopeScaling" where
  "RopeScaling_from_json L j =
     attempt (attempt (j_at j ''factor'') (j_float L)) (\<lambda>f.
     attempt (attempt (j_at j ''low_freq_factor'') (j_float L)) (\<lambda>lo.
     attempt (attempt (j_at j ''high_freq_factor'') (j_float L)) (\<lambda>hi.
     attempt (attempt (j_at j ''original_max_position_embeddings'') (j_int L)) (\<lambda>n.
     Inr \<lparr>rs_factor = f, low_freq_factor = lo, high_freq_factor = hi, original_max_position_embeddings = n\<rparr>))))"

definition MoEConfig_from_json :: "JsonLib \<Rightarrow> json \<Rightarrow> JsonError + MoEConfig" where
  "MoEConfig_from_json L j =
     attempt (attempt (j_at j ''num_experts'') (j_int L)) (\<lambda>experts.
     attempt (attempt (j_at j ''moe_intermediate_size'') (j_int L)) (\<lambda>inter.
     attempt (attempt (j_at j ''num_experts_per_tok'') (j_int L)) (\<lambda>k.
     attempt (attempt (j_at j ''norm_topk_prob'') j_bool) (\<lambda>norm.
     attempt (attempt (j_at j ''decoder_sparse_step'') (j_int L)) (\<lambda>step.
     attempt (attempt (j_at j ''mlp_only_layers'') (j_list (j_int L))) (\<lambda>only.
     Inr \<lparr>num_experts = experts, moe_intermediate_size = inter, moe_top_k = k, norm_topk_prob = norm,
       decoder_sparse_step = step, mlp_only_layers = only\<rparr>))))))"

definition eos_ids_from_json :: "JsonLib \<Rightarrow> json \<Rightarrow> JsonError + int list" where
  "eos_ids_from_json L eos = (if j_is_array eos then j_list (j_int L) eos
     else attempt (j_int L eos) (\<lambda>i. Inr [i]))"

definition arch_of :: "string \<Rightarrow> ModelArch" where
  "arch_of s = (if s = ''Qwen3ForCausalLM'' then kQwen3 else if s = ''Qwen3MoeForCausalLM'' then kQwen3Moe
     else if s = ''LlamaForCausalLM'' then kLlama else kArchUnsupported)"

definition rope_scaling_from_json :: "JsonLib \<Rightarrow> json \<Rightarrow> JsonError + RopeScaling option" where
  "rope_scaling_from_json L j = (case j_find j ''rope_scaling'' of
       None \<Rightarrow> Inr None
     | Some JNull \<Rightarrow> Inr None
     | Some r \<Rightarrow> attempt (RopeScaling_from_json L r) (\<lambda>x. Inr (Some x)))"

definition config_fields :: "JsonLib \<Rightarrow> json \<Rightarrow> JsonError + ModelConfig" where
  \<comment> \<open>up to \<open>tie_word_embeddings\<close>; \<open>has_qk_norm\<close> is left unset for an unsupported architecture, which
    \<open>load\<close> refuses\<close>
  "config_fields L j =
       attempt (attempt (j_at j ''architectures'') (\<lambda>a. attempt (j_index a 0) j_string)) (\<lambda>name.
       attempt (if arch_of name = kQwen3Moe then attempt (MoEConfig_from_json L j) (\<lambda>m. Inr (Some m)) else Inr None) (\<lambda>me.
       attempt (attempt (j_at j ''torch_dtype'') j_string) (\<lambda>dt.
       attempt (attempt (j_at j ''max_position_embeddings'') (j_int L)) (\<lambda>len.
       attempt (attempt (j_at j ''vocab_size'') (j_int L)) (\<lambda>vocab.
       attempt (attempt (j_at j ''num_hidden_layers'') (j_int L)) (\<lambda>layers.
       attempt (attempt (j_at j ''hidden_size'') (j_int L)) (\<lambda>hidden.
       attempt (attempt (j_at j ''intermediate_size'') (j_int L)) (\<lambda>inter.
       attempt (attempt (j_at j ''num_attention_heads'') (j_int L)) (\<lambda>heads.
       attempt (attempt (j_at j ''num_key_value_heads'') (j_int L)) (\<lambda>kv_heads.
       attempt (attempt (j_at j ''rms_norm_eps'') (j_float L)) (\<lambda>eps.
       attempt (attempt (j_at j ''rope_theta'') (j_float L)) (\<lambda>theta.
       attempt (attempt (j_at j ''tie_word_embeddings'') j_bool) (\<lambda>tied.
       Inr \<lparr>arch = arch_of name, mc_dtype = (if dt = ''bfloat16'' then kBf16 else kUnsupported), mc_max_model_len = len,
         vocab_size = vocab, num_hidden_layers = layers, hidden_size = hidden, intermediate_size = inter,
         num_attention_heads = heads, num_kv_heads = kv_heads, head_dim = 0, rms_norm_eps = eps, rope_theta = theta,
         has_qk_norm = (arch_of name = kQwen3 \<or> arch_of name = kQwen3Moe), tie_word_embeddings = tied,
         eos_token_ids = [], rope_scaling = None, moe = me\<rparr>)))))))))))))"

definition ModelConfig_from_json :: "JsonLib \<Rightarrow> json \<Rightarrow> (JsonError + ModelConfig) option" where
  "ModelConfig_from_json L j = (case config_fields L j of
          Inl e \<Rightarrow> Some (Inl e)
        | Inr cfg \<Rightarrow> do {
            dim \<leftarrow> (case j_find j ''head_dim'' of
                Some d \<Rightarrow> Some (j_int L d)
              | None \<Rightarrow> map_option Inr (c_div (hidden_size cfg) (num_attention_heads cfg)));
            Some (attempt dim (\<lambda>d.
              attempt (attempt (j_at j ''eos_token_id'') (eos_ids_from_json L)) (\<lambda>eos.
              attempt (rope_scaling_from_json L j) (\<lambda>rope.
              Inr (cfg\<lparr>head_dim := d, eos_token_ids := eos, rope_scaling := rope\<rparr>)))))
          })"

definition load_model_config :: "JsonLib \<Rightarrow> File \<Rightarrow> ConfigError + ModelConfig" where
  \<comment> \<open>\<open>config.json\<close>: the first block of \<open>ModelConfig::load\<close>\<close>
  "load_model_config L config_file = (case config_file of
       Absent \<Rightarrow> Inl CannotOpen
     | Unparsable \<Rightarrow> Inl InvalidConfig
     | Parsed j \<Rightarrow> (case ModelConfig_from_json L j of
         None \<Rightarrow> Inl Undefined
       | Some r \<Rightarrow> attempt (map_error (\<lambda>_. InvalidConfig) r) (\<lambda>cfg.
           if arch cfg = kArchUnsupported then Inl UnsupportedArch
           else if mc_dtype cfg = kUnsupported then Inl UnsupportedDtype
           else Inr cfg)))"

definition generation_eos :: "JsonLib \<Rightarrow> json \<Rightarrow> ModelConfig \<Rightarrow> JsonError + ModelConfig" where
  "generation_eos L j cfg = (case j_find j ''eos_token_id'' of
       None \<Rightarrow> Inr cfg
     | Some JNull \<Rightarrow> Inr cfg
     | Some eos \<Rightarrow> attempt (eos_ids_from_json L eos) (\<lambda>ids. Inr (cfg\<lparr>eos_token_ids := ids\<rparr>)))"

definition ModelConfig_load :: "JsonLib \<Rightarrow> File \<Rightarrow> File \<Rightarrow> ConfigError + ModelConfig" where
  "ModelConfig_load L config_file generation_file = attempt (load_model_config L config_file) (\<lambda>cfg.
     case generation_file of
       Absent \<Rightarrow> Inr cfg
     | Unparsable \<Rightarrow> Inl InvalidGenerationConfig
     | Parsed j \<Rightarrow> map_error (\<lambda>_. InvalidGenerationConfig) (generation_eos L j cfg))"

subsection \<open>What a loaded configuration satisfies\<close>

definition config_ok :: "ModelConfig \<Rightarrow> bool" where
  "config_ok c \<longleftrightarrow> arch c \<noteq> kArchUnsupported \<and> mc_dtype c = kBf16
     \<and> (moe c = None \<longleftrightarrow> arch c \<noteq> kQwen3Moe) \<and> (has_qk_norm c \<longleftrightarrow> arch c \<noteq> kLlama)"

lemma config_fields_ok:
  assumes "config_fields L j = Inr c"
  shows "mc_dtype c \<in> {kBf16, kUnsupported} \<and> (moe c = None \<longleftrightarrow> arch c \<noteq> kQwen3Moe)
     \<and> (arch c \<noteq> kArchUnsupported \<longrightarrow> has_qk_norm c = (arch c \<noteq> kLlama))"
proof -
  have "a = kQwen3" if "a \<noteq> kQwen3Moe" "a \<noteq> kArchUnsupported" "a \<noteq> kLlama" for a using that by (cases a) simp_all
  then show ?thesis using assms by (auto simp: config_fields_def split: if_splits)
qed

lemma from_json_ok:
  assumes "ModelConfig_from_json L j = Some (Inr c)"
  shows "mc_dtype c \<in> {kBf16, kUnsupported} \<and> (moe c = None \<longleftrightarrow> arch c \<noteq> kQwen3Moe)
     \<and> (arch c \<noteq> kArchUnsupported \<longrightarrow> has_qk_norm c = (arch c \<noteq> kLlama))"
proof -
  from assms obtain cfg d eos rope where "config_fields L j = Inr cfg"
      "c = cfg\<lparr>head_dim := d, eos_token_ids := eos, rope_scaling := rope\<rparr>"
    by (auto simp: ModelConfig_from_json_def bind_eq_Some_conv split: sum.splits)
  then show ?thesis using config_fields_ok [of L j cfg] by simp
qed

lemma load_model_config_ok:
  assumes "load_model_config L f = Inr c"
  shows "config_ok c"
proof -
  from assms obtain j where "f = Parsed j" "ModelConfig_from_json L j = Some (Inr c)" "arch c \<noteq> kArchUnsupported"
      "mc_dtype c \<noteq> kUnsupported"
    by (auto simp: load_model_config_def split: File.splits option.splits if_splits)
  then show ?thesis using from_json_ok [of L j c] by (auto simp: config_ok_def)
qed

lemma generation_eos_fields:
  "generation_eos L j cfg = Inr c \<Longrightarrow> c = cfg\<lparr>eos_token_ids := eos_token_ids c\<rparr>"
  by (auto simp: generation_eos_def split: option.splits json.splits)

text \<open>
  C21: A configuration that loads is one the engine supports: its architecture is known, its
  element type is bfloat16, it has a mixture-of-experts section exactly when it is a MoE model
  and normalises queries and keys exactly when it is a Qwen model; and the generation
  configuration changes nothing but the end-of-sequence ids.
\<close>

theorem loaded_config_supported:
  assumes "ModelConfig_load L f g = Inr c"
  shows "config_ok c \<and> (\<exists>c0. load_model_config L f = Inr c0 \<and> c = c0\<lparr>eos_token_ids := eos_token_ids c\<rparr>)"
proof -
  from assms obtain c0 where c0: "load_model_config L f = Inr c0" "c = c0\<lparr>eos_token_ids := eos_token_ids c\<rparr>"
    by (cases g) (auto simp: ModelConfig_load_def dest: generation_eos_fields)
  have "config_ok c0" using load_model_config_ok [OF c0(1)] .
  then have "config_ok c" by (subst c0(2)) (simp add: config_ok_def)
  then show ?thesis using c0 by blast
qed

definition demo_lib :: JsonLib where
  "demo_lib = \<lparr>float_of_int = word_of_int, float_of_double = ucast, int_of_double = sint, size_of_double = id,
     index_name = (\<lambda>n. replicate n CHR ''i'')\<rparr>"

definition demo_json :: json where
  "demo_json = JObject [(''architectures'', JArray [JString ''LlamaForCausalLM'']), (''torch_dtype'', JString ''bfloat16''),
     (''max_position_embeddings'', JInt 8), (''vocab_size'', JInt 100), (''num_hidden_layers'', JInt 1),
     (''hidden_size'', JInt 4), (''intermediate_size'', JInt 8), (''num_attention_heads'', JInt 2),
     (''num_key_value_heads'', JInt 1), (''rms_norm_eps'', JFloat 1), (''rope_theta'', JInt 5),
     (''tie_word_embeddings'', JBool True), (''eos_token_id'', JInt 99)]"

theorem loaded_config_supported_witness:
  "\<exists>c. ModelConfig_load demo_lib (Parsed demo_json) (Parsed (JObject [(''eos_token_id'', JArray [JInt 7, JInt 9])])) = Inr c
     \<and> config_ok c \<and> head_dim c = 2 \<and> eos_token_ids c = [7, 9]"
proof -
  obtain c where c: "ModelConfig_load demo_lib (Parsed demo_json) (Parsed (JObject [(''eos_token_id'', JArray [JInt 7, JInt 9])])) = Inr c"
      "head_dim c = 2" "eos_token_ids c = [7, 9]"
    by (simp add: ModelConfig_load_def load_model_config_def ModelConfig_from_json_def config_fields_def demo_json_def arch_of_def demo_lib_def
        eos_ids_from_json_def rope_scaling_from_json_def generation_eos_def c_div_def)
  then show ?thesis using loaded_config_supported [OF c(1)] by auto
qed

end
