(* ===== verification/Model_Runner.thy ===== *)
theory Model_Runner
  imports Batch_Properties Graph_Properties Sampler Model_Config_Load
begin

text \<open>
  The model runner, csrc/executor/model_runner.cpp: loading, the capture of the graphs, and one
  step from a schedule to the sampled tokens. What the host submits to the CUDA stream is the
  list \<open>mr_stream\<close>; the GPU is the parameter \<open>device\<close>, the value of every sampled token after
  a stream has run. \<open>Host\<close> holds the other parameters: files, JSON parser and the addresses
  and contents \<open>cudaMalloc\<close> returns.
\<close>

datatype StreamOp =
    UploadBatch ForwardBatch
  | ZeroWorkspace
  | KernelOp Launch int
  | SampleOp nat "64 word"
  | DownloadOp int

record ModelRunner =
  mr_config :: Config
  mr_model_config :: ModelConfig
  mr_model :: CausalLM
  mr_sampler :: Sampler
  mr_workspace :: Workspace
  mr_batch_buffer :: BatchBuffer
  mr_kv_cache :: KVCacheView
  mr_graph_runner :: "GraphRunner option"
  mr_inflight :: "SampledToken list"
  mr_downloaded :: int  \<comment> \<open>how many elements of the pinned buffer the last download fills\<close>
  mr_stream :: "StreamOp list"

record Host =
  h_json :: JsonLib
  h_parse :: "bytes \<Rightarrow> json option"
  h_disk :: "string \<Rightarrow> bytes option"
  h_config :: File
  h_generation :: File
  h_fresh :: "nat \<Rightarrow> bytes"
  h_seed :: "64 word"
  h_workspace :: "64 word"
  h_profiling :: "64 word"
  h_pool :: "64 word"

datatype RunnerError = ConfigFailed ConfigError | ModelFailed LoadError | RunnerFault

definition no_kv_cache :: KVCacheView where
  \<comment> \<open>the default member initializers\<close>
  "no_kv_cache = \<lparr>kc_data = 0, kc_dtype = kUnsupported, kc_num_layers = 0, kc_num_blocks = 0, kc_block_size = 0,
     kc_num_kv_heads = 0, kc_head_dim = 0\<rparr>"

definition kernel_ops :: "Launches \<Rightarrow> StreamOp list" where
  "kernel_ops ls = map (\<lambda>(l, rows). KernelOp l rows) ls"

lemma kernel_ops_Nil [simp]: "kernel_ops [] = []"
  by (simp add: kernel_ops_def)

definition capture_graphs :: "KVCacheView \<Rightarrow> ModelRunner \<Rightarrow> ModelRunner option" where
  \<comment> \<open>\<open>graph_runner->capture\<close> of an empty batch padded to the token budget\<close>
  "capture_graphs kv mr = (case mr_graph_runner mr of None \<Rightarrow> Some mr | Some g \<Rightarrow> do {
     batch \<leftarrow> upload (mr_batch_buffer mr) [] (cfg_max_num_scheduled_tokens (mr_config mr));
     (g', executed) \<leftarrow> capture (mr_model mr) batch kv (mr_workspace mr) g;
     Some (mr\<lparr>mr_graph_runner := Some g', mr_stream := mr_stream mr @ [UploadBatch batch, ZeroWorkspace] @ kernel_ops executed\<rparr>)
   })"

definition ModelRunner_build :: "Host \<Rightarrow> Config \<Rightarrow> ModelConfig \<Rightarrow> CausalLM \<Rightarrow> ModelRunner option" where
  \<comment> \<open>\<open>Impl::Impl\<close> once the model is loaded\<close>
  "ModelRunner_build h config mc m = do {
     sampler \<leftarrow> Sampler_create (h_seed h) (cfg_max_num_seqs config) (vocab_size mc);
     w \<leftarrow> Workspace_create (h_workspace h) mc (cfg_max_num_scheduled_tokens config) (cfg_max_num_seqs config);
     b \<leftarrow> BatchBuffer_create config mc;
     let mr = \<lparr>mr_config = config, mr_model_config = mc, mr_model = m, mr_sampler = sampler, mr_workspace = w,
       mr_batch_buffer = b, mr_kv_cache = no_kv_cache, mr_graph_runner = None, mr_inflight = [], mr_downloaded = 0,
       mr_stream = []\<rparr>;
     (if enable_cuda_graph config then do {
        profiling \<leftarrow> KVCache_create (h_profiling h) mc 1 (block_size config);
        capture_graphs (kv_view profiling)
          (mr\<lparr>mr_graph_runner := Some (GraphRunner_create (cfg_max_num_scheduled_tokens config) (num_hidden_layers mc))\<rparr>)
      } else Some mr)
   }"

definition ModelRunner_create :: "Host \<Rightarrow> Config \<Rightarrow> RunnerError + ModelRunner" where
  "ModelRunner_create h config =
     attempt (map_error ConfigFailed (ModelConfig_load (h_json h) (h_config h) (h_generation h))) (\<lambda>mc.
     attempt (map_error ModelFailed (Checkpoint_load (h_parse h) (h_json h) (h_disk h) (model_path config))) (\<lambda>ck.
     attempt (map_error ModelFailed (CausalLM_create (h_fresh h) ck mc)) (\<lambda>m.
     case ModelRunner_build h config mc m of None \<Rightarrow> Inl RunnerFault | Some mr \<Rightarrow> Inr mr)))"

definition allocate_kv_cache :: "Host \<Rightarrow> int \<Rightarrow> ModelRunner \<Rightarrow> ModelRunner option" where
  "allocate_kv_cache h n mr = do {
     require (n > 0);
     c \<leftarrow> KVCache_create (h_pool h) (mr_model_config mr) n (block_size (mr_config mr));
     capture_graphs (kv_view c) (mr\<lparr>mr_kv_cache := kv_view c\<rparr>)
   }"

definition kv_cache_block_bytes :: "ModelRunner \<Rightarrow> 64 word" where
  "kv_cache_block_bytes mr = kv_block_bytes (mr_model_config mr) (block_size (mr_config mr))"

definition available_kv_cache_memory :: "64 word \<Rightarrow> 64 word \<Rightarrow> 64 word \<Rightarrow> 64 word" where
  \<comment> \<open>\<open>profile_available_kv_cache_memory\<close>; \<open>budget\<close> is \<open>total_bytes * gpu_memory_utilization\<close> converted to \<open>size_t\<close>\<close>
  "available_kv_cache_memory free_bytes total_bytes budget = (let used_bytes = total_bytes - free_bytes in
     if budget > used_bytes then budget - used_bytes else 0)"

subsection \<open>A step\<close>

definition num_scheduled_tokens :: "ScheduledRequest list \<Rightarrow> int option" where
  "num_scheduled_tokens scheduled = fold_opt (\<lambda>r n. c_int (n + int (length (tokens_to_compute r)))) scheduled 0"

definition inflight_token :: "ScheduledRequest \<Rightarrow> SampledToken" where
  "inflight_token r = \<lparr>st_request_id = sr_request_id r, token_id = -1, eos_token = False\<rparr>"

definition sample_ops :: "(nat \<times> 64 word) option \<Rightarrow> StreamOp list" where
  "sample_ops l = (case l of None \<Rightarrow> [] | Some (rows, offset) \<Rightarrow> [SampleOp rows offset])"

definition run_impl :: "ScheduledRequest list \<Rightarrow> ModelRunner \<Rightarrow> ModelRunner option" where
  \<comment> \<open>\<open>Impl::run_model\<close>\<close>
  "run_impl scheduled mr = do {
     padded \<leftarrow> (case mr_graph_runner mr of None \<Rightarrow> Some 0
       | Some g \<Rightarrow> do { n \<leftarrow> num_scheduled_tokens scheduled; bucket_size g n });
     batch \<leftarrow> upload (mr_batch_buffer mr) scheduled padded;
     view \<leftarrow> workspace_view (mr_workspace mr) (fb_num_tokens batch) (fb_num_sampling_reqs batch);
     ls \<leftarrow> (case mr_graph_runner mr of
         Some g \<Rightarrow> graph_forward (mr_model mr) batch (mr_kv_cache mr) (mr_workspace mr) g
       | None \<Rightarrow> forward (mr_model mr) (mr_kv_cache mr) (view_rows view));
     let logits = compute_logits batch (t_shape (ws_logits view) ! 0);
     let (sampling, sampler) = Sampler_sample batch (mr_sampler mr);
     Some (mr\<lparr>mr_sampler := sampler,
       mr_stream := mr_stream mr @ [UploadBatch batch] @ kernel_ops ls @ kernel_ops logits @ sample_ops sampling
         @ [DownloadOp (fb_num_sampling_reqs batch)],
       mr_downloaded := fb_num_sampling_reqs batch,
       mr_inflight := map inflight_token (filter needs_sampling scheduled)\<rparr>)
   }"

definition run_model :: "ScheduledRequest list \<Rightarrow> ModelRunner \<Rightarrow> ModelRunner option" where
  "run_model scheduled mr = (if scheduled = [] then Some mr else run_impl scheduled mr)"

definition is_eos_token :: "ModelConfig \<Rightarrow> int \<Rightarrow> bool" where
  "is_eos_token mc token \<longleftrightarrow> list_ex (\<lambda>eos. token = eos) (eos_token_ids mc)"

definition sampled_token_ids :: "(StreamOp list \<Rightarrow> nat \<Rightarrow> int) \<Rightarrow> ModelRunner \<Rightarrow> int list" where
  \<comment> \<open>the pinned buffer after \<open>context.synchronize()\<close>\<close>
  "sampled_token_ids device mr = map (device (mr_stream mr)) [0..<nat (mr_downloaded mr)]"

definition finish_token :: "ModelConfig \<Rightarrow> int \<Rightarrow> SampledToken \<Rightarrow> SampledToken" where
  "finish_token mc t s = s\<lparr>token_id := t, eos_token := is_eos_token mc t\<rparr>"

definition finish :: "(StreamOp list \<Rightarrow> nat \<Rightarrow> int) \<Rightarrow> ModelRunner \<Rightarrow> (SampledToken list \<times> ModelRunner) option" where
  "finish device mr = do {
     let pinned = sampled_token_ids device mr;
     tokens \<leftarrow> those (map (\<lambda>i. do { t \<leftarrow> at_index pinned (int i);
         Some (finish_token (mr_model_config mr) t (mr_inflight mr ! i)) }) [0..<length (mr_inflight mr)]);
     Some (tokens, mr\<lparr>mr_inflight := []\<rparr>)
   }"

end
