(* ===== verification/Runner_Contract.thy ===== *)
theory Runner_Contract
  imports Model_Runner Scheduler_Update
begin

text \<open>
  What the engine relies on when it calls the model runner, as a locale, and the proof that the
  model of the runner keeps this promise for every GPU: creation and the allocation of the KV
  cache make it ready, and a batch within its limits is run and answered.
\<close>

subsection \<open>The interface\<close>

text \<open>
  A model runner that is ready, asked to run a batch it accepts, returns one token for every
  request that samples, in batch order, and is ready again for the same batches.
\<close>

locale model_runner =
  fixes ready :: "'r \<Rightarrow> bool"
    and accepts :: "'r \<Rightarrow> ScheduledRequest list \<Rightarrow> bool"
    and run :: "ScheduledRequest list \<Rightarrow> 'r \<Rightarrow> 'r option"
    and collect :: "'r \<Rightarrow> (SampledToken list \<times> 'r) option"
  assumes run_collect: "ready r \<Longrightarrow> out = [] \<or> accepts r out
      \<Longrightarrow> \<exists>r1 ts r'. run out r = Some r1 \<and> collect r1 = Some (ts, r') \<and> ready r'
        \<and> (\<forall>out'. accepts r' out' = accepts r out') \<and> map st_request_id ts = awaiting out"
begin

definition step :: "ScheduledRequest list \<Rightarrow> 'r \<Rightarrow> (SampledToken list \<times> 'r) option" where
  "step out r = Option.bind (run out r) collect"

lemma step_total:
  assumes "ready r" "out = [] \<or> accepts r out"
  shows "\<exists>ts r'. step out r = Some (ts, r') \<and> ready r' \<and> (\<forall>out'. accepts r' out' = accepts r out')
     \<and> map st_request_id ts = awaiting out"
  using run_collect [OF assms] by (auto simp: step_def)

text \<open>Several batches in a row: the runner never gets stuck.\<close>

lemma run_many:
  assumes "ready r" "\<And>out. out \<in> set outs \<Longrightarrow> out = [] \<or> accepts r out"
  shows "\<exists>r'. fold_opt (\<lambda>out r. map_option snd (step out r)) outs r = Some r' \<and> ready r'"
  using assms
proof (induction outs arbitrary: r)
  case (Cons out outs)
  from step_total [OF Cons.prems(1), of out] Cons.prems(2) obtain ts r2 where r:
    "step out r = Some (ts, r2)" "ready r2" "\<And>out'. accepts r2 out' = accepts r out'" by auto
  then show ?case using Cons.IH [OF r(2)] Cons.prems(2) by auto
qed simp

end

subsection \<open>The state of a ready runner\<close>

definition graphs_ok :: "ModelRunner \<Rightarrow> bool" where
  "graphs_ok mr \<longleftrightarrow> (case mr_graph_runner mr of None \<Rightarrow> True | Some g \<Rightarrow>
     captured (mr_model mr) (mr_kv_cache mr) g \<and> gr_num_layers g = num_hidden_layers (lm_config (mr_model mr))
     \<and> map fst (gr_buckets g) = bucket_sizes (cfg_max_num_scheduled_tokens (mr_config mr)))"

definition buffers_ok :: "ModelRunner \<Rightarrow> bool" where
  "buffers_ok mr \<longleftrightarrow> (let c = mr_config mr; mc = mr_model_config mr; b = mr_batch_buffer mr;
       n = cfg_max_num_scheduled_tokens c; s = cfg_max_num_seqs c in
     workspace_dims_ok mc n s
     \<and> (\<exists>base. Workspace_create base mc n s = Some (mr_workspace mr) \<and> base \<noteq> 0
          \<and> uint base + uint (ws_bytes (mr_workspace mr)) \<le> 2 ^ 64)
     \<and> bb_room b n s \<and> bb_block_size b = block_size c \<and> 0 < block_size c \<and> 0 \<le> bb_block_table_stride b)"

definition runner_ok :: "ModelRunner \<Rightarrow> bool" where
  "runner_ok mr \<longleftrightarrow> mr_inflight mr = [] \<and> model_ok (mr_model mr) \<and> kv_ready (mr_model mr) (mr_kv_cache mr)
     \<and> buffers_ok mr \<and> graphs_ok mr"

definition batch_fits :: "ModelRunner \<Rightarrow> ScheduledRequest list \<Rightarrow> bool" where
  "batch_fits mr out \<longleftrightarrow> out \<noteq> []
     \<and> (\<forall>e \<in> set out. entry_fits (block_size (mr_config mr)) e
          \<and> int (length (allocated_blocks e)) \<le> bb_block_table_stride (mr_batch_buffer mr))
     \<and> int (length out) \<le> cfg_max_num_seqs (mr_config mr)
     \<and> total_tokens out \<le> cfg_max_num_scheduled_tokens (mr_config mr)"

lemma total_tokens_entry_len: "(\<Sum>e\<leftarrow>out. entry_len e) = total_tokens out"
  by (simp add: total_tokens_def entry_len_def [abs_def])

lemma total_tokens_pos:
  assumes "\<And>e. e \<in> set out \<Longrightarrow> tokens_to_compute e \<noteq> []"
  shows "int (length out) \<le> total_tokens out"
  using assms
proof (induction out)
  case (Cons e out)
  have "1 \<le> int (length (tokens_to_compute e))" using Cons.prems [of e] by (cases "tokens_to_compute e") simp_all
  moreover have "int (length out) \<le> total_tokens out" by (rule Cons.IH) (simp add: Cons.prems)
  ultimately show ?case by (simp add: total_tokens_def)
qed (simp add: total_tokens_def)

lemma num_scheduled_tokens_total:
  assumes "total_tokens out < 2 ^ 31"
  shows "num_scheduled_tokens out = Some (total_tokens out)"
proof -
  have "fold_opt (\<lambda>r n. c_int (n + int (length (tokens_to_compute r)))) out a = Some (a + total_tokens out)"
    if "0 \<le> a" "a + total_tokens out < 2 ^ 31" for a
    using that
  proof (induction out arbitrary: a)
    case (Cons e out)
    have nn: "0 \<le> total_tokens out" by (auto simp: total_tokens_def intro!: sum_list_nonneg)
    have sum: "a + int (length (tokens_to_compute e)) + total_tokens out < 2 ^ 31" using Cons.prems by (simp add: total_tokens_def add.assoc)
    then have "c_int (a + int (length (tokens_to_compute e))) = Some (a + int (length (tokens_to_compute e)))"
      using Cons.prems(1) nn by (intro c_int_nonneg) auto
    then show ?case using Cons.IH [OF _ sum] Cons.prems(1) by (simp add: total_tokens_def add.assoc del: c_int_Some)
  qed (simp add: total_tokens_def)
  then show ?thesis using assms by (simp add: num_scheduled_tokens_def)
qed

lemma workspace_tokens_small: "workspace_dims_ok c n s \<Longrightarrow> n < 2 ^ 31"
proof -
  assume ok: "workspace_dims_ok c n s"
  then have d: "0 < n" "0 < hidden_size c" "n * hidden_size c < 2 ^ 31" by (auto simp: workspace_dims_ok_def)
  then have "n * 1 \<le> n * hidden_size c" by (intro mult_left_mono) auto
  then show ?thesis using d(3) by simp
qed

subsection \<open>A step\<close>

definition sampled_rows :: "ScheduledRequest list \<Rightarrow> ScheduledRequest list" where
  "sampled_rows out = filter needs_sampling out"

definition step_stream :: "ForwardBatch \<Rightarrow> Launches \<Rightarrow> int \<Rightarrow> 64 word \<Rightarrow> StreamOp list" where
  \<comment> \<open>what a step submits: one upload, the forward pass, logits and sampling if a request samples, one download\<close>
  "step_stream batch ls s offset = [UploadBatch batch] @ kernel_ops ls
     @ (if s = 0 then [] else kernel_ops [(GatherSampling, s), (FinalNorm, s), (LmHeadProjection, s)] @ [SampleOp (nat s) offset])
     @ [DownloadOp s]"

lemma run_ok:
  assumes ok: "runner_ok mr" and fits: "batch_fits mr out"
  shows "\<exists>mr' p ls eager. run_model out mr = Some mr'
     \<and> mr_stream mr' = mr_stream mr @ step_stream (flat_batch (mr_batch_buffer mr) out p) ls
         (int (length (sampled_rows out))) (sp_offset (mr_sampler mr))
     \<and> forward (mr_model mr) (mr_kv_cache mr) (total_tokens out) = Some eager \<and> map fst ls = map fst eager
     \<and> ls = replayed (mr_model mr) p (total_tokens out)
     \<and> total_tokens out \<le> p \<and> p \<le> cfg_max_num_scheduled_tokens (mr_config mr)
     \<and> mr_inflight mr' = map inflight_token (sampled_rows out) \<and> mr_downloaded mr' = int (length (sampled_rows out))
     \<and> mr' = mr\<lparr>mr_sampler := mr_sampler mr', mr_stream := mr_stream mr', mr_downloaded := mr_downloaded mr', mr_inflight := mr_inflight mr'\<rparr>"
proof -
  let ?n = "cfg_max_num_scheduled_tokens (mr_config mr)" and ?s = "cfg_max_num_seqs (mr_config mr)" and ?t = "total_tokens out"
  let ?r = "int (length (sampled_rows out))" and ?b = "mr_batch_buffer mr"
  obtain base where w: "workspace_dims_ok (mr_model_config mr) ?n ?s"
      "Workspace_create base (mr_model_config mr) ?n ?s = Some (mr_workspace mr)" "base \<noteq> 0"
      "uint base + uint (ws_bytes (mr_workspace mr)) \<le> 2 ^ 64"
    and b: "bb_room ?b ?n ?s" "bb_block_size ?b = block_size (mr_config mr)" "0 < block_size (mr_config mr)" "0 \<le> bb_block_table_stride ?b"
    using ok by (auto simp: runner_ok_def buffers_ok_def Let_def)
  have f: "out \<noteq> []" "\<And>e. e \<in> set out \<Longrightarrow> entry_fits (bb_block_size ?b) e \<and> int (length (allocated_blocks e)) \<le> bb_block_table_stride ?b"
      "int (length out) \<le> ?s" "?t \<le> ?n"
    using fits by (auto simp: batch_fits_def b(2))
  have len: "int (length out) \<le> ?t" using f(2) by (intro total_tokens_pos) (auto simp: entry_fits_def)
  have t: "0 < ?t" using len f(1) by (cases out) auto
  have rl: "length (sampled_rows out) \<le> length out" by (simp add: sampled_rows_def)
  then have r: "0 \<le> ?r" "?r \<le> ?s" "?r \<le> ?t" using len f(3) by linarith+
  have small: "?t < 2 ^ 31" using workspace_tokens_small [OF w(1)] f(4) by linarith
  obtain p where p: "(case mr_graph_runner mr of None \<Rightarrow> Some 0
       | Some g \<Rightarrow> do { n \<leftarrow> num_scheduled_tokens out; bucket_size g n }) = Some p" "p = 0 \<or> ?t \<le> p \<and> p \<le> ?n"
      "\<And>g. mr_graph_runner mr = Some g \<Longrightarrow> bucket_size g ?t = Some p" "mr_graph_runner mr = None \<longleftrightarrow> p = 0"
  proof (cases "mr_graph_runner mr")
    case (Some g)
    then have "map fst (gr_buckets g) = bucket_sizes ?n" using ok by (simp add: runner_ok_def graphs_ok_def)
    then have "\<exists>p. bucket_size g ?t = Some p \<and> ?t \<le> p \<and> p \<le> ?n \<and> p \<noteq> 0"
      using bucket_loop_find [of 1 ?n ?t] t f(4) by (auto simp: bucket_size_def lower_bucket_def bucket_sizes_def)
    then show thesis using that by (auto simp: Some num_scheduled_tokens_total [OF small])
  qed (use that in auto)
  define q where "q = (if p = 0 then ?t else p)"
  have q: "?t \<le> q" "q \<le> ?n" using p(2) f(4) by (auto simp: q_def)
  let ?batch = "flat_batch ?b out q"
  have up: "upload ?b out p = Some ?batch"
    unfolding q_def total_tokens_entry_len [symmetric]
    by (rule upload_eval [OF b(1) _ b(4) f(2,3)]) (use b p f(4) in \<open>auto simp: total_tokens_entry_len\<close>)
  have fb: "fb_num_tokens ?batch = ?t" "fb_num_sampling_reqs ?batch = ?r"
    by (simp_all add: flat_batch_def Let_def total_tokens_entry_len sampled_rows_def)
  obtain v where v: "workspace_view (mr_workspace mr) ?t ?r = Some v" "view_rows v = ?t" "t_shape (ws_logits v) ! 0 = ?r"
    using workspace_view_eval [OF w t f(4) r] by (auto simp: view_rows_def)
  have m: "model_ok (mr_model mr)" "kv_ready (mr_model mr) (mr_kv_cache mr)" using ok by (auto simp: runner_ok_def)
  have eager: "forward (mr_model mr) (mr_kv_cache mr) ?t = Some (replayed (mr_model mr) ?t ?t)"
    unfolding forward_eval [OF m] replayed_def by simp
  obtain ls where ls: "(case mr_graph_runner mr of
         Some g \<Rightarrow> graph_forward (mr_model mr) ?batch (mr_kv_cache mr) (mr_workspace mr) g
       | None \<Rightarrow> forward (mr_model mr) (mr_kv_cache mr) (view_rows v)) = Some ls" "map fst ls = map fst (replayed (mr_model mr) ?t ?t)"
      "ls = replayed (mr_model mr) q ?t"
  proof (cases "mr_graph_runner mr")
    case (Some g)
    then have g: "captured (mr_model mr) (mr_kv_cache mr) g" "gr_num_layers g = num_hidden_layers (lm_config (mr_model mr))"
      using ok by (simp_all add: runner_ok_def graphs_ok_def)
    have "graph_forward (mr_model mr) ?batch (mr_kv_cache mr) (mr_workspace mr) g = Some (replayed (mr_model mr) p ?t)"
      using graph_forward_eval [OF m g, of ?batch] p(3) [OF Some] v fb by simp
    moreover have "q = p" using p(4) Some by (simp add: q_def)
    ultimately show thesis using that replayed_names [of "mr_model mr" p ?t] by (auto simp: Some)
  qed (use that eager v(2) p(4) in \<open>auto simp: q_def\<close>)
  have nat: "nat ?r = length (sampled_rows out)" by simp
  show ?thesis
    using eager ls(2,3) q f(1)
    by (auto simp: run_model_def run_impl_def p(1) up fb v ls(1) compute_logits_def step_stream_def Sampler_sample_def Let_def
        sample_ops_def sampled_rows_def [symmetric] simp del: nat_int)
qed


lemma finish_ok:
  assumes "mr_inflight mr = map inflight_token es" "mr_downloaded mr = int (length es)"
  shows "finish device mr = Some (map (\<lambda>i. finish_token (mr_model_config mr) (device (mr_stream mr) i) (inflight_token (es ! i)))
     [0..<length es], mr\<lparr>mr_inflight := []\<rparr>)"
proof -
  have "those (map (\<lambda>i. do { t \<leftarrow> at_index (sampled_token_ids device mr) (int i);
         Some (finish_token (mr_model_config mr) t (mr_inflight mr ! i)) }) [0..<length (mr_inflight mr)])
     = Some (map (\<lambda>i. finish_token (mr_model_config mr) (device (mr_stream mr) i) (inflight_token (es ! i))) [0..<length (mr_inflight mr)])"
    by (rule those_map_Some) (simp add: assms sampled_token_ids_def at_index_def in_bounds_def)
  then show ?thesis by (simp add: finish_def Let_def assms)
qed

lemma runner_ok_stable:
  assumes "runner_ok mr"
    and "mr' = mr\<lparr>mr_sampler := mr_sampler mr', mr_stream := mr_stream mr', mr_downloaded := mr_downloaded mr', mr_inflight := mr_inflight mr'\<rparr>"
    and "mr_inflight mr' = []"
  shows "runner_ok mr'" "batch_fits mr' out = batch_fits mr out"
proof -
  obtain a b c d where m: "mr' = mr\<lparr>mr_sampler := a, mr_stream := b, mr_downloaded := c, mr_inflight := d\<rparr>" using assms(2) by blast
  show "runner_ok mr'" using assms(1,3) unfolding m runner_ok_def buffers_ok_def graphs_ok_def Let_def by (simp split: option.splits)
  show "batch_fits mr' out = batch_fits mr out" by (simp add: m batch_fits_def)
qed

lemma step_ok:
  assumes ok: "runner_ok mr" and out: "out = [] \<or> batch_fits mr out"
  shows "\<exists>mr1 ts mr2. run_model out mr = Some mr1 \<and> finish device mr1 = Some (ts, mr2) \<and> runner_ok mr2
     \<and> (\<forall>out'. batch_fits mr2 out' = batch_fits mr out') \<and> map st_request_id ts = awaiting out"
proof (cases "out = []")
  case True
  have "mr_inflight mr = []" using ok by (simp add: runner_ok_def)
  then have "finish device mr = Some ([], mr)" by (simp add: finish_def)
  then show ?thesis using True ok by (simp add: run_model_def awaiting_def)
next
  case False
  then obtain mr1 where r: "run_model out mr = Some mr1" "mr_inflight mr1 = map inflight_token (sampled_rows out)"
      "mr_downloaded mr1 = int (length (sampled_rows out))"
      "mr1 = mr\<lparr>mr_sampler := mr_sampler mr1, mr_stream := mr_stream mr1, mr_downloaded := mr_downloaded mr1, mr_inflight := mr_inflight mr1\<rparr>"
    using run_ok [OF ok] out by blast
  obtain a b c d where m: "mr1 = mr\<lparr>mr_sampler := a, mr_stream := b, mr_downloaded := c, mr_inflight := d\<rparr>" using r(4) by blast
  have ids: "map st_request_id (map (\<lambda>i. finish_token (mr_model_config mr1) (device (mr_stream mr1) i) (inflight_token (sampled_rows out ! i)))
      [0..<length (sampled_rows out)]) = map sr_request_id (map ((!) (sampled_rows out)) [0..<length (sampled_rows out)])"
    by (simp add: finish_token_def inflight_token_def)
  have "runner_ok (mr1\<lparr>mr_inflight := []\<rparr>)" "\<And>out'. batch_fits (mr1\<lparr>mr_inflight := []\<rparr>) out' = batch_fits mr out'"
    by (rule runner_ok_stable [OF ok]; simp add: m)+
  then show ?thesis
    using r(1) finish_ok [OF r(2,3)] ids by (simp add: map_nth awaiting_def sampled_rows_def)
qed

interpretation mr: model_runner runner_ok batch_fits run_model "finish device" for device
  by unfold_locales (rule step_ok)

end
