(* ===== verification/Runner_Properties.thy ===== *)
theory Runner_Properties
  imports Runner_Contract
begin

text \<open>
  The model runner from its construction on: it becomes ready, and a step submits one forward
  pass and returns the sampled tokens.
\<close>

definition graph_shape :: "ModelRunner \<Rightarrow> bool" where
  \<comment> \<open>the graph runner, if any, has the buckets and segment slots of the configuration\<close>
  "graph_shape mr \<longleftrightarrow> (case mr_graph_runner mr of None \<Rightarrow> True | Some g \<Rightarrow>
     gr_num_layers g = num_hidden_layers (lm_config (mr_model mr))
     \<and> map fst (gr_buckets g) = bucket_sizes (cfg_max_num_scheduled_tokens (mr_config mr))
     \<and> (\<forall>(n, segments) \<in> set (gr_buckets g). length segments = nat (gr_num_layers g + 1)))"

lemma those_length: "those xs = Some ys \<Longrightarrow> length ys = length xs"
  by (induction xs arbitrary: ys) (auto split: option.splits)

lemma captured_lengths: "captured m kv g \<Longrightarrow> (n, segments) \<in> set (gr_buckets g) \<Longrightarrow> length segments = nat (gr_num_layers g + 1)"
  unfolding captured_def all_segments_def by (fastforce dest: those_length)

lemma capture_graphs_ok:
  assumes m: "model_ok (mr_model mr)" "kv_ready (mr_model mr) kv" and b: "buffers_ok mr" and g: "graph_shape mr"
  shows "\<exists>mr'. capture_graphs kv mr = Some mr' \<and> graphs_ok (mr'\<lparr>mr_kv_cache := kv\<rparr>) \<and> graph_shape mr'
     \<and> (mr_graph_runner mr' = None \<longleftrightarrow> mr_graph_runner mr = None)
     \<and> mr' = mr\<lparr>mr_graph_runner := mr_graph_runner mr', mr_stream := mr_stream mr'\<rparr>"
proof (cases "mr_graph_runner mr")
  case None
  then show ?thesis using g by (simp add: capture_graphs_def graphs_ok_def)
next
  case (Some g)
  let ?n = "cfg_max_num_scheduled_tokens (mr_config mr)" and ?s = "cfg_max_num_seqs (mr_config mr)"
  obtain base where w: "workspace_dims_ok (mr_model_config mr) ?n ?s"
      "Workspace_create base (mr_model_config mr) ?n ?s = Some (mr_workspace mr)" "base \<noteq> 0"
      "uint base + uint (ws_bytes (mr_workspace mr)) \<le> 2 ^ 64"
    and bb: "bb_room (mr_batch_buffer mr) ?n ?s" "0 < bb_block_size (mr_batch_buffer mr)" "0 \<le> bb_block_table_stride (mr_batch_buffer mr)"
    using b by (auto simp: buffers_ok_def Let_def)
  have pos: "0 < ?n" "0 < ?s" using w(1) by (auto simp: workspace_dims_ok_def)
  have up: "upload (mr_batch_buffer mr) [] ?n = Some (flat_batch (mr_batch_buffer mr) [] ?n)"
    using upload_eval [OF bb, of "[]" ?n] pos by simp
  have fb: "fb_num_tokens (flat_batch (mr_batch_buffer mr) [] ?n) = 0" by (simp add: flat_batch_def Let_def)
  have shape: "gr_num_layers g = num_hidden_layers (lm_config (mr_model mr))" "map fst (gr_buckets g) = bucket_sizes ?n"
      "\<And>n segments. (n, segments) \<in> set (gr_buckets g) \<Longrightarrow> length segments = nat (gr_num_layers g + 1)"
    using \<open>graph_shape mr\<close> by (auto simp: graph_shape_def Some)
  have views: "\<exists>v. workspace_view (mr_workspace mr) x 0 = Some v \<and> view_rows v = x" if "x \<in> fst ` set (gr_buckets g)" for x
  proof -
    have "x \<in> set (bucket_sizes ?n)" using that shape(2) by (metis set_map)
    then have "0 < x" "x \<le> ?n" using bucket_loop_bounds [of 1 x ?n] pos by (auto simp: bucket_sizes_def)
    then show ?thesis using workspace_view_eval [OF w, of x 0] pos by (auto simp: view_rows_def)
  qed
  have "\<exists>g' ex. capture (mr_model mr) (flat_batch (mr_batch_buffer mr) [] ?n) kv (mr_workspace mr) g = Some (g', ex)"
    by (rule capture_succeeds [OF m shape(1) fb]) (use views shape(3) in blast)+
  then obtain g' ex where r: "capture (mr_model mr) (flat_batch (mr_batch_buffer mr) [] ?n) kv (mr_workspace mr) g = Some (g', ex)"
    by blast
  have c: "captured (mr_model mr) kv g'" "map fst (gr_buckets g') = map fst (gr_buckets g)" "gr_num_layers g' = gr_num_layers g"
    using capture_captured [OF r] views by fastforce+
  define mr' where "mr' = mr\<lparr>mr_graph_runner := Some g',
    mr_stream := mr_stream mr @ [UploadBatch (flat_batch (mr_batch_buffer mr) [] ?n), ZeroWorkspace] @ kernel_ops ex\<rparr>"
  have "capture_graphs kv mr = Some mr'" by (simp add: capture_graphs_def Some up r mr'_def)
  moreover have "graphs_ok (mr'\<lparr>mr_kv_cache := kv\<rparr>)" by (simp add: mr'_def graphs_ok_def c shape)
  moreover have "graph_shape mr'" using captured_lengths [OF c(1)] by (auto simp: mr'_def graph_shape_def c(2,3) shape(1,2))
  ultimately show ?thesis by (intro exI [of _ mr']) (simp add: mr'_def Some)
qed

lemma kv_create_ready:
  assumes "kv_dims_ok (lm_config m) n bs" "base \<noteq> 0"
  shows "\<exists>c. KVCache_create base (lm_config m) n bs = Some c \<and> kv_ready m (kv_view c) \<and> kc_num_blocks (kv_view c) = n"
proof -
  obtain c where c: "KVCache_create base (lm_config m) n bs = Some c" "kc_num_blocks (kv_view c) = n"
    using kv_create_eval [OF assms(1), of base] by auto
  have "KVCacheView_kv (kv_view c) (int l) which \<noteq> None" if "l < num_layers m" "which = 0 \<or> which = 1" for l which
  proof -
    have "int l < num_hidden_layers (lm_config m)" using that(1) by (simp add: num_layers_def zless_nat_eq_int_zless)
    then show ?thesis using kv_tensor_eval [OF assms c(1), of "int l" which] that(2) by auto
  qed
  then show ?thesis using c by (auto simp: kv_ready_def)
qed

lemma small_sum: "a < x * 4 + 16 \<Longrightarrow> x < 2 ^ 31 \<Longrightarrow> y \<le> x \<Longrightarrow> b = y * 1032 \<Longrightarrow> a + b < 2 ^ 64" for a b x y :: int
  by simp

lemma sum_pos: "0 < x \<Longrightarrow> x * 4 \<le> a \<Longrightarrow> 0 \<le> y \<Longrightarrow> b = y * 1032 \<Longrightarrow> 0 < a + b" for a b x y :: int
  by simp

lemma sampler_size_pos:
  assumes ok: "workspace_dims_ok c n s" and v: "vocab_size c < 2 ^ 31 - 4096"
  shows "\<exists>bytes. sampler_workspace_size s (vocab_size c) = Some bytes \<and> bytes \<noteq> 0"
proof -
  let ?v = "vocab_size c" and ?tiles = "(vocab_size c + 4095) div 4096"
  have d: "0 < s" "0 < ?v" "s * ?v < 2 ^ 31" using ok by (auto simp: workspace_dims_ok_def)
  have "c_int (4095 + ?v) = Some (?v + 4095)" using d(2) v by (auto simp: c_int_def)
  moreover have "c_div (?v + 4095) 4096 = Some ?tiles" using d(2) by (intro c_div_nonneg) auto
  ultimately have tiles: "num_tiles ?v = Some ?tiles" by (simp add: num_tiles_def kTileSize_def add.commute del: c_int_Some)
  have t: "0 \<le> ?tiles" "?tiles \<le> ?v" using d(2) by auto
  have st: "0 \<le> s * ?tiles" "s * ?tiles \<le> s * ?v" using d(1) t by (auto intro: mult_left_mono)
  let ?a = "size_t (s * ?v * 4)" and ?b = "size_t (s * ?tiles * 1032)"
  have a: "uint ?a = s * ?v * 4" using d by (intro uint_size_t_small) auto
  have "s * ?tiles < 2 ^ 31" using st(2) d(3) by (rule order.strict_trans1)
  then have "0 \<le> s * ?tiles * 1032" "s * ?tiles * 1032 < 2 ^ 64" using st(1) by simp_all
  then have b: "uint ?b = s * ?tiles * 1032" by (rule uint_size_t_small)
  have k: "uint ?a + 2 ^ 4 \<le> 2 ^ 64" using a d by simp
  have al: "s * ?v * 4 \<le> uint (align_up (2 ^ 4) ?a)" "uint (align_up (2 ^ 4) ?a) < s * ?v * 4 + 16"
    using align_up_bounds(1,2) [OF k] a by simp_all
  have lim: "uint (align_up (2 ^ 4) ?a) + uint ?b < 2 ^ 64" by (rule small_sum [OF al(2) d(3) st(2) b])
  have sum: "uint (align_up (2 ^ 4) ?a + ?b) = uint (align_up (2 ^ 4) ?a) + uint ?b"
    using lim by (simp add: uint_plus_if_size word_size)
  have "0 < s * ?v" using d by simp
  then have "0 < uint (align_up (2 ^ 4) ?a + ?b)" unfolding sum by (rule sum_pos [OF _ al(1) st(1) b])
  then have nz: "align_up (2 ^ 4) ?a + ?b \<noteq> 0" by auto
  have "size_t s * size_t ?v * 4 = ?a" "size_t s * size_t ?tiles * (8 + 256 * 4) = ?b" by (simp_all add: size_t_def)
  then show ?thesis using nz by (simp add: sampler_workspace_size_def tiles)
qed

definition runner_dims :: "Host \<Rightarrow> Config \<Rightarrow> ModelConfig \<Rightarrow> bool" where
  \<comment> \<open>the sizes for which every buffer of the runner exists\<close>
  "runner_dims h c mc \<longleftrightarrow> (let n = cfg_max_num_scheduled_tokens c; s = cfg_max_num_seqs c in
       workspace_dims_ok mc n s \<and> vocab_size mc < 2 ^ 31 - 4096 \<and> 0 < block_size c \<and> 0 \<le> mc_max_model_len mc
     \<and> 12 * n + s * (4 * ((mc_max_model_len mc + block_size c - 1) div block_size c) + 24) + 300 \<le> 2 ^ 62
     \<and> h_workspace h \<noteq> 0 \<and> (\<forall>bytes. required_bytes mc n s = Some bytes \<longrightarrow> uint (h_workspace h) + uint bytes \<le> 2 ^ 64)
     \<and> h_profiling h \<noteq> 0 \<and> h_pool h \<noteq> 0 \<and> kv_dims_ok mc 1 (block_size c))"

lemma workspace_create_bytes: "Workspace_create base c n s = Some w \<Longrightarrow> required_bytes c n s = Some (ws_bytes w)"
  by (auto simp: Workspace_create_def bind_eq_Some_conv split: prod.splits)

lemma build_ok:
  assumes dims: "runner_dims h c mc" and m: "model_ok m" "lm_config m = mc"
  shows "\<exists>mr. ModelRunner_build h c mc m = Some mr \<and> buffers_ok mr \<and> graph_shape mr \<and> mr_model mr = m
     \<and> mr_config mr = c \<and> mr_model_config mr = mc \<and> mr_inflight mr = []
     \<and> bb_block_table_stride (mr_batch_buffer mr) = (mc_max_model_len mc + block_size c - 1) div block_size c"
proof -
  let ?n = "cfg_max_num_scheduled_tokens c" and ?s = "cfg_max_num_seqs c"
  note d = dims [unfolded runner_dims_def Let_def]
  obtain sampler where sampler: "Sampler_create (h_seed h) ?s (vocab_size mc) = Some sampler"
    using sampler_size_pos [of mc ?n ?s] d by (auto simp: Sampler_create_def)
  obtain w where w: "Workspace_create (h_workspace h) mc ?n ?s = Some w" using workspace_eval [of mc ?n ?s "h_workspace h"] d by auto
  have wb: "uint (h_workspace h) + uint (ws_bytes w) \<le> 2 ^ 64" using workspace_create_bytes [OF w] d by blast
  have pos: "0 < ?n" "0 < ?s" using d by (auto simp: workspace_dims_ok_def)
  have stride: "0 \<le> (mc_max_model_len mc + block_size c - 1) div block_size c"
    using d by (simp add: pos_imp_zdiv_nonneg_iff)
  obtain b where b: "BatchBuffer_create c mc = Some b" "bb_block_size b = block_size c"
      "bb_block_table_stride b = (mc_max_model_len mc + block_size c - 1) div block_size c" "bb_room b ?n ?s"
    using create_layout [OF pos, of mc] d by auto
  define mr where "mr = \<lparr>mr_config = c, mr_model_config = mc, mr_model = m, mr_sampler = sampler, mr_workspace = w,
       mr_batch_buffer = b, mr_kv_cache = no_kv_cache, mr_graph_runner = None, mr_inflight = [], mr_downloaded = 0,
       mr_stream = []\<rparr>"
  have bo: "buffers_ok (mr\<lparr>mr_graph_runner := g\<rparr>)" for g
    unfolding buffers_ok_def Let_def mr_def using d w wb b stride by auto
  have build: "ModelRunner_build h c mc m = (if enable_cuda_graph c then do {
        profiling \<leftarrow> KVCache_create (h_profiling h) mc 1 (block_size c);
        capture_graphs (kv_view profiling) (mr\<lparr>mr_graph_runner := Some (GraphRunner_create ?n (num_hidden_layers mc))\<rparr>)
      } else Some mr)"
    by (simp add: ModelRunner_build_def sampler w b(1) Let_def mr_def)
  show ?thesis
  proof (cases "enable_cuda_graph c")
    case False
    then show ?thesis using build bo [of None] b(3) by (auto simp: graph_shape_def mr_def)
  next
    case True
    let ?mr = "mr\<lparr>mr_graph_runner := Some (GraphRunner_create ?n (num_hidden_layers mc))\<rparr>"
    obtain p where p: "KVCache_create (h_profiling h) mc 1 (block_size c) = Some p" "kv_ready m (kv_view p)"
      using kv_create_ready [of m 1 "block_size c" "h_profiling h"] d m(2) by auto
    have "model_ok (mr_model ?mr)" "kv_ready (mr_model ?mr) (kv_view p)" using m p(2) by (simp_all add: mr_def)
    moreover have "graph_shape ?mr" by (auto simp: graph_shape_def mr_def m(2) GraphRunner_create_def comp_def)
    ultimately obtain mr' where r: "capture_graphs (kv_view p) ?mr = Some mr'" "graph_shape mr'"
        "mr' = ?mr\<lparr>mr_graph_runner := mr_graph_runner mr', mr_stream := mr_stream mr'\<rparr>"
      using capture_graphs_ok [OF _ _ bo [of "Some (GraphRunner_create ?n (num_hidden_layers mc))"]] by blast
    obtain x y where mr': "mr' = ?mr\<lparr>mr_graph_runner := x, mr_stream := y\<rparr>" using r(3) by blast
    then have "buffers_ok mr'" using bo [of x] by (simp add: buffers_ok_def Let_def)
    then show ?thesis using build True p(1) r(1,2) mr' b(3) by (intro exI [of _ mr']) (simp add: mr_def)
  qed
qed

lemma ready_eval:
  assumes dims: "runner_dims h c mc" and m: "model_ok m" "lm_config m = mc" and k: "kv_dims_ok mc k (block_size c)"
  shows "\<exists>mr mr'. ModelRunner_build h c mc m = Some mr \<and> allocate_kv_cache h k mr = Some mr' \<and> runner_ok mr'
     \<and> mr_config mr' = c \<and> mr_model_config mr' = mc \<and> kc_num_blocks (mr_kv_cache mr') = k
     \<and> bb_block_table_stride (mr_batch_buffer mr') = (mc_max_model_len mc + block_size c - 1) div block_size c
     \<and> mr_model mr' = m"
proof -
  obtain mr where mr: "ModelRunner_build h c mc m = Some mr" "buffers_ok mr" "graph_shape mr" "mr_model mr = m"
      "mr_config mr = c" "mr_model_config mr = mc" "mr_inflight mr = []"
      "bb_block_table_stride (mr_batch_buffer mr) = (mc_max_model_len mc + block_size c - 1) div block_size c"
    using build_ok [OF dims m] by blast
  have pool: "h_pool h \<noteq> 0" using dims by (simp add: runner_dims_def Let_def)
  obtain kv where kv: "KVCache_create (h_pool h) mc k (block_size c) = Some kv" "kv_ready m (kv_view kv)" "kc_num_blocks (kv_view kv) = k"
    using kv_create_ready [of m k "block_size c" "h_pool h"] k pool m(2) by auto
  let ?mr = "mr\<lparr>mr_kv_cache := kv_view kv\<rparr>"
  have "buffers_ok ?mr" using mr(2) unfolding buffers_ok_def Let_def by simp
  moreover have "graph_shape ?mr" using mr(3) unfolding graph_shape_def by (cases "mr_graph_runner mr") auto
  ultimately obtain mr' where r: "capture_graphs (kv_view kv) ?mr = Some mr'" "graphs_ok (mr'\<lparr>mr_kv_cache := kv_view kv\<rparr>)"
      "mr' = ?mr\<lparr>mr_graph_runner := mr_graph_runner mr', mr_stream := mr_stream mr'\<rparr>"
    using capture_graphs_ok [of ?mr "kv_view kv"] m kv(2) mr(4) by auto
  obtain x y where mr': "mr' = ?mr\<lparr>mr_graph_runner := x, mr_stream := y\<rparr>" using r(3) by blast
  have "buffers_ok mr'" using mr(2) unfolding mr' buffers_ok_def Let_def by simp
  moreover have "graphs_ok mr'" using r(2) unfolding mr' graphs_ok_def by (cases x) auto
  moreover have "model_ok (mr_model mr')" "kv_ready (mr_model mr') (mr_kv_cache mr')" "mr_inflight mr' = []" "mr_config mr' = c"
      "mr_kv_cache mr' = kv_view kv" "mr_model_config mr' = mc" "mr_batch_buffer mr' = mr_batch_buffer mr" "mr_model mr' = m"
    using m kv(2) mr(4-7) by (simp_all add: mr')
  moreover have "allocate_kv_cache h k mr = Some mr'"
    using k kv(1) r(1) mr(5,6) by (simp add: allocate_kv_cache_def kv_dims_ok_def)
  ultimately show ?thesis using mr(1,8) kv(3) by (auto simp: runner_ok_def)
qed

text \<open>
  For every configuration whose buffers exist and every loaded model, building the runner
  and allocating a KV cache of \<open>k\<close> blocks fails no assertion, with and without CUDA graphs, and
  leaves a runner that is ready to step, its graphs captured against the final pool.
\<close>

theorem runner_becomes_ready:
  assumes dims: "runner_dims h c mc" and m: "model_ok m" "lm_config m = mc" and k: "kv_dims_ok mc k (block_size c)"
  shows "\<exists>mr mr'. ModelRunner_build h c mc m = Some mr \<and> allocate_kv_cache h k mr = Some mr' \<and> runner_ok mr'
     \<and> mr_config mr' = c \<and> mr_model_config mr' = mc \<and> kc_num_blocks (mr_kv_cache mr') = k
     \<and> bb_block_table_stride (mr_batch_buffer mr') = (mc_max_model_len mc + block_size c - 1) div block_size c"
  using ready_eval [OF assms] by blast

definition demo_host :: Host where
  "demo_host = \<lparr>h_json = demo_lib, h_parse = (\<lambda>_. None), h_disk = (\<lambda>_. None), h_config = Absent, h_generation = Absent,
     h_fresh = (\<lambda>n. replicate n 0), h_seed = 5, h_workspace = 4096, h_profiling = 65536, h_pool = 131072\<rparr>"

lemma demo_runner_dims: "runner_dims demo_host (demo_engine_config\<lparr>enable_cuda_graph := True\<rparr>) demo_model_config"
proof -
  have "required_bytes demo_model_config 4 2 = Some 3584" by code_simp
  then show ?thesis
    by (auto simp: runner_dims_def demo_host_def demo_engine_config_def workspace_dims_ok_def demo_model_config_def q_dim_def kv_dim_def
        kv_dims_ok_def kv_row_def kv_pool_def)
qed

lemma demo_kv_dims: "kv_dims_ok demo_model_config 4 (block_size (demo_engine_config\<lparr>enable_cuda_graph := True\<rparr>))"
  by (simp add: kv_dims_ok_def kv_row_def kv_pool_def demo_model_config_def demo_engine_config_def)

lemma demo_model_config_of: "lm_config demo_model = demo_model_config"
  by (simp add: demo_model_def)

theorem runner_becomes_ready_witness:
  "\<exists>mr mr'. ModelRunner_build demo_host (demo_engine_config\<lparr>enable_cuda_graph := True\<rparr>) demo_model_config demo_model = Some mr
     \<and> allocate_kv_cache demo_host 4 mr = Some mr' \<and> runner_ok mr'"
  using runner_becomes_ready [OF demo_runner_dims demo_model_ok(1) demo_model_config_of demo_kv_dims] by blast



end
