(* ===== verification/Scheduler_Progress.thy ===== *)
theory Scheduler_Progress
  imports Scheduler_Update
begin

text \<open>
  Progress of the scheduler: the oldest live request is never preempted by others, every step
  computes some of its tokens or appends one, and so the work left, \<open>work_left\<close>, decreases
  with every step until no request is left.
\<close>

lemma first_entry_offset:
  assumes inv: "sched_inv [] s" and run: "running s \<noteq> []" and budget: "0 < budget"
    and pass: "schedule_pass1 0 budget [] s = Some (b, out, s')"
  shows "out \<noteq> [] \<and> position_offset (hd out) = num_computed_tokens (node s (hd (running s)))"
proof -
  let ?h = "hd (running s)"
  have h: "running s ! 0 = ?h" "?h \<in> set (queue s)" using run by (auto simp: hd_conv_nth queue_def)
  note node_h = store_ok_node [OF sched_invD(1) [OF inv] h(2)]
  have few: "fewer_than_seqs ([] :: ScheduledRequest list) s"
    using sched_inv_fewer [OF inv] sched_invD(2) [OF inv] by (simp add: limits_ok_def)
  from schedule_running_ok [OF inv _ budget] run obtain res s1 where r:
    "schedule_running ?h budget s = Some (res, s1)"
    "case res of None \<Rightarrow> False | Some (k, e) \<Rightarrow> 0 < k \<and> k \<le> budget \<and> sched_inv [e] s1"
    by (force simp: h(1) split: option.splits)
  then obtain k e where ke: "res = Some (k, e)" "0 < k" "k \<le> budget" "sched_inv [e] s1" by (auto split: option.splits)
  have idle: "idle_ok s (node s ?h)" using sched_inv_idle [OF inv, of 0] run h(1) by simp
  have off: "position_offset e = num_computed_tokens (node s ?h)"
  proof -
    let ?k = "min (num_tokens (node s ?h) - num_computed_tokens (node s ?h)) budget"
    have k: "0 < ?k" "num_computed_tokens (node s ?h) + ?k \<le> num_tokens (node s ?h)"
      using idle budget by (auto simp: idle_ok_def)
    from acquire_slots_ok [OF inv, of ?h ?k] run h(1) k obtain g s2 where a: "acquire_slots ?h ?k s = Some (g, s2)"
      "node s2 ?h = (if g then node s ?h else (node s ?h)\<lparr>num_computed_tokens := 0, status := kPreempted\<rparr>)" by auto
    have "g" using r(1) a(1) node_h k(1) by (auto simp: schedule_running_def Let_def ke(1) split: if_splits)
    then obtain x where x: "nodes s2 ?h = Some x" "scheduled_request x (num_computed_tokens x) ?k
        (num_computed_tokens x < num_prefill_tokens x) (kv_cache_manager s2) = Some e"
      using r(1) a(1) node_h k(1) by (auto simp: schedule_running_def Let_def ke(1) bind_eq_Some_conv)
    have "x = node s ?h" using x(1) a(2) \<open>g\<close> by (simp add: node_def)
    then show ?thesis using x(2) by (auto simp: scheduled_request_def bind_eq_Some_conv)
  qed
  have "schedule_pass1 0 budget [] s = schedule_pass1 (length [e]) (budget - k) [e] s1"
    using run few budget r(1) ke(1) h(1) by (subst schedule_pass1.simps) simp
  moreover obtain b' out' s'' where "schedule_pass1 (length [e]) (budget - k) [e] s1 = Some (b', out', s'')" "\<exists>es. out' = [e] @ es"
    using schedule_pass1_ok [OF ke(4), of "budget - k"] ke(3) by auto
  ultimately show ?thesis using pass off by auto
qed

lemma step_sched_inv: "step_inv {} s \<Longrightarrow> sched_inv [] s"
  by (simp add: step_inv_def sched_inv_def)

text \<open>In a step the oldest request computes at least one token.\<close>

lemma head_computes:
  assumes inv: "step_inv {} s" and run: "schedule s = Some (out, s1)" and q: "queue s = h # hs"
  shows "num_computed_tokens (node s h) < num_computed_tokens (node s1 h) \<and> entry_ok s1 (node s1 h) (hd out)
     \<and> out \<noteq> [] \<and> h \<in> set (running s1)"
proof -
  from schedule_ok [OF inv] run have o: "sched_inv out s1" "queue s1 = queue s" "out \<noteq> []" by (auto simp: q)
  have len: "length out \<le> length (running s1)" using sched_invD(6) [OF o(1)] .
  then have r1: "running s1 \<noteq> []" "hd (running s1) = h" using o(2,3) q by (cases out; cases "running s1"; simp add: queue_def)+
  then have entry: "entry_ok s1 (node s1 h) (hd out)"
    using sched_inv_entry [OF o(1), of 0] o(3) by (simp add: hd_conv_nth)
  have "num_computed_tokens (node s h) \<le> position_offset (hd out)"
  proof (cases "running s = []")
    case True
    then have "h \<in> set (preempted s @ waiting s)" using q by (auto simp: queue_def)
    then have "num_computed_tokens (node s h) = 0" using step_invD(4) [OF inv] by (simp add: pending_ok_def)
    then show ?thesis using entry by (simp add: entry_ok_def)
  next
    case False
    then have h: "hd (running s) = h" using q by (cases "running s") (simp_all add: queue_def)
    have budget: "0 < max_num_scheduled_tokens s" using step_invD(2) [OF inv] by (simp add: limits_ok_def)
    from run obtain b out1 s2 where p: "schedule_pass1 0 (max_num_scheduled_tokens s) [] s = Some (b, out1, s2)"
      "(if length (preempted s2) = length (preempted s) then schedule_pass2 b out1 s2 else Some (out1, s2)) = Some (out, s1)"
      by (auto simp: schedule_def bind_eq_Some_conv split: prod.splits)
    from first_entry_offset [OF step_sched_inv [OF inv] False budget p(1)] h
    have f: "out1 \<noteq> []" "position_offset (hd out1) = num_computed_tokens (node s h)" by auto
    have s2: "sched_inv out1 s2" "0 \<le> b" "tail_preempted s s2"
        "preempted s2 = preempted s \<and> 0 < b \<and> fewer_than_seqs out1 s2 \<longrightarrow> length out1 = length (running s2)"
      using schedule_pass1_ok [OF step_sched_inv [OF inv], of "max_num_scheduled_tokens s"] budget p(1) by auto
    have "\<exists>es. out = out1 @ es"
    proof (cases "length (preempted s2) = length (preempted s)")
      case True
      then have "preempted s2 = preempted s" using tail_preempted_same [OF s2(3)] by simp
      then show ?thesis using schedule_pass2_ok [OF s2(1,2)] s2(4) p(2) True by auto
    qed (use p(2) in auto)
    then show ?thesis using f by auto
  qed
  then show ?thesis using entry r1 o(3) by (auto simp: entry_ok_def)
qed

subsection \<open>The work that is left\<close>

definition head_work :: "int \<Rightarrow> Request \<Rightarrow> int" where
  \<comment> \<open>\<open>L\<close> is \<open>max_model_len\<close>: tokens that may still be appended, and tokens still to compute\<close>
  "head_work L r = (L - num_tokens r) * (L + 1) + (num_tokens r - num_computed_tokens r)"

definition work_left :: "Scheduler \<Rightarrow> int" where
  "work_left s = (let L = max_model_len s in
     int (length (queue s)) * ((L + 1) * (L + 1)) + (case queue s of [] \<Rightarrow> 0 | h # _ \<Rightarrow> head_work L (node s h)))"

lemma queue_live:
  assumes "step_inv {} s" "n \<in> set (queue s)"
  shows "live s (node s n)"
  using assms step_inv_running(2) [OF assms(1), of n] step_invD(4) [OF assms(1)]
  by (auto simp: queue_def idle_ok_def pending_ok_def)

lemma head_work_bounds:
  assumes "live s r" "0 \<le> num_computed_tokens r" "num_computed_tokens r \<le> num_tokens r" "L = max_model_len s"
  shows "0 \<le> head_work L r" "head_work L r < (L + 1) * (L + 1)"
proof -
  have t: "0 < num_tokens r" "num_tokens r < L" using assms by (auto simp: live_def)
  have p: "0 \<le> (L - num_tokens r) * (L + 1)" using t by simp
  have "(L - num_tokens r) * (L + 1) \<le> L * (L + 1)" using t by (intro mult_right_mono) auto
  then show "head_work L r < (L + 1) * (L + 1)"
    unfolding head_work_def distrib_right [of L 1 "L + 1"] by (rule add_le_less_mono) (use t assms(2) in simp)
  show "0 \<le> head_work L r" using p assms(3) by (simp add: head_work_def)
qed

lemma work_left_nonneg: "step_inv {} s \<Longrightarrow> 0 \<le> work_left s"
proof -
  assume inv: "step_inv {} s"
  have "0 \<le> head_work (max_model_len s) (node s n)" if "n \<in> set (queue s)" for n
    using head_work_bounds(1) [OF queue_live [OF inv that]] step_inv_range [OF inv that] by simp
  then show ?thesis by (auto simp: work_left_def Let_def split: list.split)
qed

lemma head_filter: "(h # hs) = q \<Longrightarrow> P h \<Longrightarrow> \<exists>ks. filter P q = h # ks \<and> length ks \<le> length hs"
  by auto

lemma step_decreases_work:
  assumes inv: "step_inv {} s" and q: "queue s \<noteq> []" and run: "schedule s = Some (out, s1)"
    and ts: "map st_request_id ts = awaiting out" and upd: "update_scheduler ts s1 = Some (outs, s')"
  shows "work_left s' < work_left s"
proof -
  from step_effect [OF inv run ts] upd have e: "step_inv {} s'" "limits s' = limits s"
    "queue s' = filter (\<lambda>n. req_id (node s n) \<notin> set (final_ids outs)) (queue s)"
    "token_effect (set (awaiting out)) s1 s'" by auto
  from schedule_ok [OF inv] run have o: "sched_inv out s1" "same_requests s s1" by auto
  obtain h hs where h: "queue s = h # hs" using q by (cases "queue s") auto
  let ?L = "max_model_len s"
  let ?B = "(?L + 1) * (?L + 1)"
  have L: "max_model_len s' = ?L" using e(2) by (simp add: limits_def)
  have hq: "h \<in> set (queue s)" by (simp add: h)
  have live: "live s (node s h)" by (rule queue_live [OF inv hq])
  note range = step_inv_range [OF inv hq]
  have old: "0 \<le> head_work ?L (node s h)" by (rule head_work_bounds(1) [OF live range refl])
  have lp: "0 < ?L" using live by (auto simp: live_def)
  have ws: "work_left s = int (length (queue s)) * ?B + head_work ?L (node s h)" by (simp add: work_left_def Let_def h)
  show ?thesis
  proof (cases "length (queue s') < length (queue s)")
    case True
    have "(case queue s' of [] \<Rightarrow> 0 | x # _ \<Rightarrow> head_work ?L (node s' x)) < ?B"
    proof (cases "queue s'")
      case (Cons x xs)
      then have "x \<in> set (queue s')" by simp
      from head_work_bounds(2) [OF queue_live [OF e(1) this] step_inv_range [OF e(1) this] L [symmetric]] show ?thesis by (simp add: Cons)
    qed (use lp in simp)
    moreover have "(int (length (queue s')) + 1) * ?B \<le> int (length (queue s)) * ?B"
      using True lp by (intro mult_right_mono) auto
    ultimately show ?thesis using old unfolding ws by (simp add: work_left_def Let_def L distrib_right)
  next
    case False
    then have same: "queue s' = queue s" unfolding e(3) using length_filter_less [of _ "queue s"] by (metis filter_True)
    note head = head_computes [OF inv run h]
    have content: "content (node s1 h) = content (node s h)"
      using same_requests_content [OF o(2)] store_ok_node [OF step_invD(1) [OF inv] hq] by auto
    note c = content_fields [OF content]
    have le: "num_computed_tokens (node s1 h) \<le> num_tokens (node s h)" using head c by (auto simp: entry_ok_def)
    have "head_work ?L (node s' h) < head_work ?L (node s h)"
    proof (cases "req_id (node s1 h) \<in> set (awaiting out)")
      case True
      then obtain t where t: "node s' h = appended (node s1 h) t"
        using e(4) same hq unfolding token_effect_def by (metis (full_types))
      have "awaiting_ok s1 (node s1 h)" using step_inv_running(1) [OF sched_inv_step [OF o(1)] _ True] head by simp
      then have "num_computed_tokens (node s1 h) = num_tokens (node s h)" by (simp add: awaiting_ok_def c)
      then have "head_work ?L (node s' h) = (?L - num_tokens (node s h)) * (?L + 1) - (?L + 1) + 1"
        by (simp add: head_work_def t c algebra_simps)
      then show ?thesis using lp range unfolding head_work_def by simp
    next
      case False
      then have "node s' h = node s1 h" using e(4) same hq by (auto simp: token_effect_def)
      then show ?thesis using head by (simp add: head_work_def c)
    qed
    then show ?thesis unfolding ws using same h by (simp add: work_left_def Let_def L)
  qed
qed

end
