(* ===== verification/Engine.thy ===== *)
theory Engine
  imports Runner_Properties Scheduler_Progress
begin

text \<open>
  The engine core, csrc/engine/engine_core.cpp: the messages of the frontend, the sizing of the
  KV cache, the loop that schedules, runs and answers, and the reason the process ends with.
  ZeroMQ and MessagePack are not part of the repository: a message is the list of its frames,
  \<open>Wire\<close> unpacks payloads, what \<open>recv_multipart\<close> yields in one call of \<open>process_inputs\<close> is a
  list of messages, and the messages sent are collected in \<open>ec_sent\<close>. An exception ends the
  loop with its error; \<open>EngineFault\<close> is a failed assertion or another undefined operation.
\<close>

type_synonym Message = "bytes list"

datatype ProtocolError = MissingTypeFrame | FrameCount nat | InvalidPayload | UnknownRequestType

datatype EngineError = Protocol ProtocolError | KVCacheTooSmall int int | RunnerDied RunnerError | EngineFault

datatype OutMessage = ReadyMessage | OutputsMessage "EngineCoreOutput list"

record Wire =
  wire_request :: "bytes \<Rightarrow> EngineCoreRequest option"
  wire_ids :: "bytes \<Rightarrow> string list option"

record EngineHost = Host +
  eh_free :: "64 word"
  eh_total :: "64 word"
  eh_budget :: "64 word"

record EngineCore =
  ec_runner :: ModelRunner
  ec_scheduler :: Scheduler
  ec_num_steps :: int
  ec_logged_queries :: int
  ec_sent :: "OutMessage list"
  ec_log :: "PrefixCacheStats list"

subsection \<open>Messages\<close>

definition to_request :: "EngineCoreRequest \<Rightarrow> Request" where
  \<comment> \<open>members without an initializer are zero\<close>
  "to_request r = \<lparr>req_id = ecr_request_id r, status = kWaiting, num_prompt_tokens = 0, num_prefill_tokens = 0,
     num_computed_tokens = 0, max_output_tokens = ecr_max_output_tokens r, ignore_eos = ecr_ignore_eos r,
     token_ids = ecr_token_ids r,
     sample_params = \<lparr>temperature = ecr_temperature r, top_k = ecr_top_k r, top_p = ecr_top_p r\<rparr>\<rparr>"

definition request_type :: "Message \<Rightarrow> ProtocolError + 8 word" where
  "request_type frames = (if frames = [] \<or> length (hd frames) \<noteq> 1 then Inl MissingTypeFrame else Inr (hd (hd frames)))"

definition unpack_payload :: "(bytes \<Rightarrow> 'a option) \<Rightarrow> Message \<Rightarrow> ProtocolError + 'a" where
  "unpack_payload unpack frames =
     (if length frames \<noteq> 2 then Inl (FrameCount (length frames))
      else case unpack (last frames) of None \<Rightarrow> Inl InvalidPayload | Some x \<Rightarrow> Inr x)"

definition process_message :: "Wire \<Rightarrow> Message \<Rightarrow> Scheduler \<Rightarrow> EngineError + Scheduler option" where
  \<comment> \<open>the switch of \<open>process_inputs\<close>; \<open>Inr None\<close> is the shutdown\<close>
  "process_message wire frames s =
     attempt (map_error Protocol (request_type frames)) (\<lambda>ty.
     if ty = 0 then attempt (map_error Protocol (unpack_payload (wire_request wire) frames))
       (\<lambda>r. Inr (Some (add_request (to_request r) s)))
     else if ty = 1 then attempt (map_error Protocol (unpack_payload (wire_ids wire) frames))
       (\<lambda>ids. case abort_requests ids s of None \<Rightarrow> Inl EngineFault | Some s' \<Rightarrow> Inr (Some s'))
     else if ty = 2 then Inr None
     else Inl (Protocol UnknownRequestType))"

fun process_inputs :: "Wire \<Rightarrow> Message list \<Rightarrow> Scheduler \<Rightarrow> EngineError + (bool \<times> Scheduler)" where
  "process_inputs wire [] s = Inr (True, s)"
| "process_inputs wire (m # ms) s = attempt (process_message wire m s) (\<lambda>r.
     case r of None \<Rightarrow> Inr (False, s) | Some s' \<Rightarrow> process_inputs wire ms s')"

subsection \<open>Start\<close>

definition initialize_kv_cache :: "EngineHost \<Rightarrow> Config \<Rightarrow> ModelRunner \<Rightarrow> EngineError + (KVCacheConfig \<times> ModelRunner)" where
  "initialize_kv_cache h config mr = (
     let byte_size = available_kv_cache_memory (eh_free h) (eh_total h) (eh_budget h);
         block_byte_size = kv_cache_block_bytes mr in
     if block_byte_size = 0 then Inl EngineFault
     else
       let n = to_int32 (byte_size div block_byte_size) in
       case c_int (n * block_size config) of None \<Rightarrow> Inl EngineFault
       | Some capacity \<Rightarrow>
           if capacity < mc_max_model_len (mr_model_config mr)
           then Inl (KVCacheTooSmall capacity (mc_max_model_len (mr_model_config mr)))
           else (case allocate_kv_cache (Host.truncate h) n mr of None \<Rightarrow> Inl EngineFault
             | Some mr' \<Rightarrow> Inr (\<lparr>cfg_num_block_slots = block_size config, cfg_num_blocks = n,
                 cfg_enable_prefix_caching = cfg_prefix_caching config\<rparr>, mr')))"

definition EngineCore_start :: "EngineHost \<Rightarrow> Config \<Rightarrow> ModelRunner \<Rightarrow> EngineError + EngineCore" where
  \<comment> \<open>the constructor once the model runner exists\<close>
  "EngineCore_start h config mr = attempt (initialize_kv_cache h config mr) (\<lambda>(kvc, mr').
     case Scheduler_create config (mr_model_config mr') kvc of None \<Rightarrow> Inl EngineFault
     | Some s \<Rightarrow> Inr \<lparr>ec_runner = mr', ec_scheduler = s, ec_num_steps = 0, ec_logged_queries = 0, ec_sent = [], ec_log = []\<rparr>)"

definition EngineCore_create :: "EngineHost \<Rightarrow> Config \<Rightarrow> EngineError + EngineCore" where
  "EngineCore_create h config = attempt (map_error RunnerDied (ModelRunner_create (Host.truncate h) config)) (EngineCore_start h config)"

subsection \<open>The loop\<close>

definition send_message :: "OutMessage \<Rightarrow> EngineCore \<Rightarrow> EngineCore" where
  "send_message m e = e\<lparr>ec_sent := ec_sent e @ [m]\<rparr>"

definition log_prefix_cache_stats :: "EngineCore \<Rightarrow> EngineCore" where
  "log_prefix_cache_stats e = (let st = scheduler_prefix_cache_stats (ec_scheduler e) in
     if num_queries st = ec_logged_queries e then e
     else e\<lparr>ec_logged_queries := num_queries st, ec_log := ec_log e @ [st]\<rparr>)"

definition run_step :: "(StreamOp list \<Rightarrow> nat \<Rightarrow> int) \<Rightarrow> EngineCore \<Rightarrow> EngineCore option" where
  \<comment> \<open>the body of the loop of \<open>run\<close>\<close>
  "run_step device e = do {
     (scheduled, s1) \<leftarrow> schedule (ec_scheduler e);
     mr1 \<leftarrow> run_model scheduled (ec_runner e);
     (sampled, mr2) \<leftarrow> finish device mr1;
     (outputs, s2) \<leftarrow> update_scheduler sampled s1;
     let e1 = e\<lparr>ec_runner := mr2, ec_scheduler := s2\<rparr>;
     let e2 = (if outputs \<noteq> [] then send_message (OutputsMessage outputs) e1 else e1);
     let e3 = e2\<lparr>ec_num_steps := ec_num_steps e2 + 1\<rparr>;
     Some (if ec_num_steps e3 mod 200 = 0 then log_prefix_cache_stats e3 else e3)
   }"

datatype EngineStatus = Looping EngineCore | Stopped EngineCore | Died EngineError

definition turn :: "Wire \<Rightarrow> (StreamOp list \<Rightarrow> nat \<Rightarrow> int) \<Rightarrow> Message list \<Rightarrow> EngineCore \<Rightarrow> EngineStatus" where
  \<comment> \<open>one evaluation of the loop's condition and, when it holds, of its body\<close>
  "turn wire device msgs e = (case process_inputs wire msgs (ec_scheduler e) of
       Inl err \<Rightarrow> Died err
     | Inr (False, s) \<Rightarrow> Stopped (log_prefix_cache_stats (e\<lparr>ec_scheduler := s\<rparr>))
     | Inr (True, s) \<Rightarrow> (case run_step device (e\<lparr>ec_scheduler := s\<rparr>) of None \<Rightarrow> Died EngineFault | Some e' \<Rightarrow> Looping e'))"

definition blocks_on_input :: "EngineCore \<Rightarrow> bool" where
  \<comment> \<open>without requests the first receive waits for a message\<close>
  "blocks_on_input e \<longleftrightarrow> \<not> has_requests (ec_scheduler e)"

inductive transition :: "Wire \<Rightarrow> (StreamOp list \<Rightarrow> nat \<Rightarrow> int) \<Rightarrow> EngineStatus \<Rightarrow> EngineStatus \<Rightarrow> bool"
  for wire device where
  turn: "blocks_on_input e \<longrightarrow> msgs \<noteq> [] \<Longrightarrow> transition wire device (Looping e) (turn wire device msgs e)"

inductive_cases transition_from_looping: "transition wire device (Looping e) st"
inductive_simps transition_stopped: "transition wire device (Stopped e) st"
inductive_simps transition_died: "transition wire device (Died err) st"

fun run_loop :: "Wire \<Rightarrow> (StreamOp list \<Rightarrow> nat \<Rightarrow> int) \<Rightarrow> Message list list \<Rightarrow> EngineCore \<Rightarrow> EngineStatus" where
  \<comment> \<open>the loop for as long as the given inputs last\<close>
  "run_loop wire device [] e = Looping e"
| "run_loop wire device (msgs # rest) e = (case turn wire device msgs e of
     Looping e' \<Rightarrow> run_loop wire device rest e' | st \<Rightarrow> st)"

fun exit_reason :: "EngineStatus \<Rightarrow> EngineCoreShutdownReason option" where
  \<comment> \<open>a fault ends the process without a reason\<close>
  "exit_reason (Looping e) = None"
| "exit_reason (Stopped e) = Some kCleanShutdown"
| "exit_reason (Died err) = (if err = EngineFault \<or> err = RunnerDied RunnerFault then None else Some kEngineCoreDead)"

definition run_engine_core :: "EngineHost \<Rightarrow> Wire \<Rightarrow> (StreamOp list \<Rightarrow> nat \<Rightarrow> int) \<Rightarrow> Message list list \<Rightarrow> Config \<Rightarrow> EngineStatus" where
  "run_engine_core h wire device inputs config = (case EngineCore_create h config of
     Inl err \<Rightarrow> Died err | Inr e \<Rightarrow> run_loop wire device inputs (send_message ReadyMessage e))"

end
