(* ===== verification/Engine_Contract.thy ===== *)
theory Engine_Contract
  imports Engine
begin

text \<open>
  The invariant of the engine core: the scheduler's and the runner's invariants, and the limits
  both were built with. A schedule then always fits the runner, so that a turn of the loop on
  the messages of a well-behaved frontend neither throws nor faults.
\<close>

definition engine_ok :: "EngineCore \<Rightarrow> bool" where
  "engine_ok e \<longleftrightarrow> (let s = ec_scheduler e; mr = ec_runner e; c = mr_config mr in
     step_inv {} s \<and> runner_ok mr \<and> max_num_seqs s = cfg_max_num_seqs c
     \<and> max_num_scheduled_tokens s = cfg_max_num_scheduled_tokens c
     \<and> num_block_slots (kv_cache_manager s) = block_size c
     \<and> blocks_for (block_size c) (max_model_len s) \<le> bb_block_table_stride (mr_batch_buffer mr))"

lemma schedule_fits:
  assumes inv: "step_inv {} s" and run: "schedule s = Some (out, s1)"
    and lim: "max_num_seqs s = cfg_max_num_seqs (mr_config mr)"
      "max_num_scheduled_tokens s = cfg_max_num_scheduled_tokens (mr_config mr)"
      "num_block_slots (kv_cache_manager s) = block_size (mr_config mr)"
      "blocks_for (block_size (mr_config mr)) (max_model_len s) \<le> bb_block_table_stride (mr_batch_buffer mr)"
  shows "out = [] \<or> batch_fits mr out"
proof -
  from schedule_ok [OF inv] run have o: "sched_inv out s1" "same_requests s s1" "total_tokens out \<le> max_num_scheduled_tokens s" by auto
  let ?bs = "block_size (mr_config mr)"
  have slots: "num_block_slots (kv_cache_manager s1) = ?bs" "max_model_len s1 = max_model_len s" "max_num_seqs s1 = max_num_seqs s"
    using o(2) lim(3) by (simp_all add: same_requests_def)
  have bs: "0 < ?bs" using kv_inv_slots [OF step_invD(5) [OF inv]] lim(3) by simp
  have fit: "entry_fits ?bs e \<and> int (length (allocated_blocks e)) \<le> bb_block_table_stride (mr_batch_buffer mr)" if e: "e \<in> set out" for e
  proof -
    obtain i where i: "i < length out" "out ! i = e" using e by (auto simp: in_set_conv_nth)
    let ?r = "node s1 (running s1 ! i)"
    have ok: "entry_ok s1 ?r e" using sched_inv_entry [OF o(1) i(1)] i(2) by simp
    have len: "int (length (allocated_blocks e)) = blocks_for ?bs (num_computed_tokens ?r)"
      using entry_ok_view [OF ok] slots by auto
    have k: "int (length (tokens_to_compute e)) = num_computed_tokens ?r - position_offset e"
      using ok by (auto simp: entry_ok_def dest: subvec_length)
    have "num_computed_tokens ?r \<le> blocks_for ?bs (num_computed_tokens ?r) * ?bs"
      using blocks_for_le_iff [OF bs, of "num_computed_tokens ?r" "blocks_for ?bs (num_computed_tokens ?r)"] by simp
    then have "entry_fits ?bs e" using ok k len by (auto simp: entry_fits_def entry_len_def entry_ok_def)
    moreover have "num_computed_tokens ?r \<le> max_model_len s" using ok slots(2) by (auto simp: entry_ok_def live_def)
    then have "blocks_for ?bs (num_computed_tokens ?r) \<le> blocks_for ?bs (max_model_len s)" by (rule blocks_for_mono [OF bs])
    ultimately show ?thesis using len lim(4) by simp
  qed
  have "int (length out) \<le> cfg_max_num_seqs (mr_config mr)"
    using sched_invD(6,7) [OF o(1)] slots(3) lim(1) by linarith
  then show ?thesis using fit o(3) lim(2) by (auto simp: batch_fits_def)
qed

subsection \<open>One step\<close>

definition step_outputs_of :: "EngineCore \<Rightarrow> EngineCoreOutput list \<Rightarrow> EngineCore \<Rightarrow> bool" where
  \<comment> \<open>\<open>e'\<close> sent exactly the outputs \<open>outs\<close>, in one message unless there are none\<close>
  "step_outputs_of e outs e' \<longleftrightarrow> ec_sent e' = ec_sent e @ (if outs = [] then [] else [OutputsMessage outs])"

lemma log_fields [simp]:
  "ec_runner (log_prefix_cache_stats e) = ec_runner e" "ec_scheduler (log_prefix_cache_stats e) = ec_scheduler e"
  "ec_sent (log_prefix_cache_stats e) = ec_sent e"
  by (simp_all add: log_prefix_cache_stats_def Let_def)

lemma send_fields [simp]:
  "ec_runner (send_message m e) = ec_runner e" "ec_scheduler (send_message m e) = ec_scheduler e"
  "ec_sent (send_message m e) = ec_sent e @ [m]" "ec_num_steps (send_message m e) = ec_num_steps e"
  by (simp_all add: send_message_def)

lemma run_step_ok:
  assumes ok: "engine_ok e"
  shows "\<exists>e' outs. run_step device e = Some e' \<and> engine_ok e' \<and> step_outputs_of e outs e'
     \<and> queue (ec_scheduler e') = filter (\<lambda>n. req_id (node (ec_scheduler e) n) \<notin> set (final_ids outs)) (queue (ec_scheduler e))
     \<and> distinct (map out_request_id outs)
     \<and> set (map out_request_id outs) \<subseteq> (\<lambda>n. req_id (node (ec_scheduler e) n)) ` set (queue (ec_scheduler e))
     \<and> (\<forall>n \<in> set (queue (ec_scheduler e')). req_id (node (ec_scheduler e') n) = req_id (node (ec_scheduler e) n))
     \<and> (queue (ec_scheduler e) \<noteq> [] \<longrightarrow> work_left (ec_scheduler e') < work_left (ec_scheduler e))"
proof -
  let ?s = "ec_scheduler e" and ?mr = "ec_runner e"
  note d = ok [unfolded engine_ok_def Let_def]
  obtain out s1 where run: "schedule ?s = Some (out, s1)" using schedule_ok d by blast
  have o: "sched_inv out s1" "same_requests ?s s1" "queue s1 = queue ?s" using schedule_ok [of ?s] d run by auto
  have fits: "out = [] \<or> batch_fits ?mr out" by (rule schedule_fits [OF _ run]) (use d in auto)
  from mr.run_collect [of ?mr out device] d fits obtain mr1 ts mr2 where r:
    "run_model out ?mr = Some mr1" "finish device mr1 = Some (ts, mr2)" "runner_ok mr2" "map st_request_id ts = awaiting out"
    "\<forall>out'. batch_fits mr2 out' = batch_fits ?mr out'" by blast
  have cfg: "mr_config mr2 = mr_config ?mr" "mr_batch_buffer mr2 = mr_batch_buffer ?mr"
  proof -
    have "mr_config mr1 = mr_config ?mr \<and> mr_batch_buffer mr1 = mr_batch_buffer ?mr"
      using r(1) by (auto simp: run_model_def run_impl_def Let_def bind_eq_Some_conv case_prod_beta split: if_splits)
    moreover have "mr_config mr2 = mr_config mr1 \<and> mr_batch_buffer mr2 = mr_batch_buffer mr1"
      using r(2) by (auto simp: finish_def Let_def bind_eq_Some_conv)
    ultimately show "mr_config mr2 = mr_config ?mr" "mr_batch_buffer mr2 = mr_batch_buffer ?mr" by simp_all
  qed
  from step_effect [OF _ run r(4)] d obtain outs s2 where u: "update_scheduler ts s1 = Some (outs, s2)" "step_inv {} s2"
    "limits s2 = limits ?s" "queue s2 = filter (\<lambda>n. req_id (node ?s n) \<notin> set (final_ids outs)) (queue ?s)"
    "distinct (map out_request_id outs)" "set (map out_request_id outs) \<subseteq> (\<lambda>n. req_id (node ?s n)) ` set (queue ?s)"
    "token_effect (set (awaiting out)) s1 s2" by blast
  have ids: "req_id (node s2 n) = req_id (node ?s n)" if n: "n \<in> set (queue s2)" for n
  proof -
    have "n \<in> set (queue ?s)" using n unfolding u(4) by simp
    then have "req_id (node s1 n) = req_id (node ?s n)"
      using content_fields(1) [OF same_requests_content [OF o(2)]] store_ok_node [OF step_invD(1)] d by auto
    moreover have "req_id (node s2 n) = req_id (node s1 n)"
      using u(7) n unfolding token_effect_def by (metis (full_types) appended_fields(1))
    ultimately show ?thesis by simp
  qed
  define e3 where "e3 = (let e1 = e\<lparr>ec_runner := mr2, ec_scheduler := s2\<rparr>;
       e2 = (if outs \<noteq> [] then send_message (OutputsMessage outs) e1 else e1) in e2\<lparr>ec_num_steps := ec_num_steps e2 + 1\<rparr>)"
  define e' where "e' = (if ec_num_steps e3 mod 200 = 0 then log_prefix_cache_stats e3 else e3)"
  have run': "run_step device e = Some e'"
    by (simp add: run_step_def run r(1,2) u(1) e'_def e3_def Let_def)
  have f: "ec_runner e' = mr2" "ec_scheduler e' = s2" "step_outputs_of e outs e'"
    by (simp_all add: e'_def e3_def step_outputs_of_def Let_def)
  have "engine_ok e'" using d u(2,3) r(3) f cfg by (simp add: engine_ok_def limits_def)
  moreover have "work_left s2 < work_left ?s" if "queue ?s \<noteq> []"
    by (rule step_decreases_work [OF _ that run r(4) u(1)]) (use d in simp)
  ultimately show ?thesis using run' f u(4-6) ids by (intro exI [of _ e'] exI [of _ outs]) simp
qed

end
