(* ===== verification/Engine_Properties.thy ===== *)
theory Engine_Properties
  imports Engine_Contract
begin

text \<open>
  The engine core as a whole: it starts or refuses, it survives every well-formed input and dies
  of a malformed one, and every request it accepts is answered to its end.
\<close>

subsection \<open>Well-behaved frontends\<close>

definition valid_message :: "Wire \<Rightarrow> Scheduler \<Rightarrow> Message \<Rightarrow> bool" where
  \<comment> \<open>what csrc/engine/protocol.h requires of the frontend, and no id twice in flight\<close>
  "valid_message wire s m = (case request_type m of Inl _ \<Rightarrow> False | Inr ty \<Rightarrow>
     if ty = 0 then (case unpack_payload (wire_request wire) m of Inl _ \<Rightarrow> False
       | Inr r \<Rightarrow> ecr_token_ids r \<noteq> [] \<and> int (length (ecr_token_ids r)) < max_model_len s \<and> 0 < ecr_max_output_tokens r
           \<and> id_to_request s (ecr_request_id r) = None)
     else if ty = 1 then (case unpack_payload (wire_ids wire) m of Inl _ \<Rightarrow> False | Inr ids \<Rightarrow> True)
     else ty = 2)"

fun valid_inputs :: "Wire \<Rightarrow> Message list \<Rightarrow> Scheduler \<Rightarrow> bool" where
  "valid_inputs wire [] s = True"
| "valid_inputs wire (m # ms) s = (valid_message wire s m \<and> (case process_message wire m s of
     Inr (Some s') \<Rightarrow> valid_inputs wire ms s' | _ \<Rightarrow> True))"

lemma process_message_ok:
  assumes inv: "step_inv {} s" and m: "valid_message wire s m"
  shows "process_message wire m s = Inr None \<or> (\<exists>s'. process_message wire m s = Inr (Some s') \<and> step_inv {} s' \<and> limits s' = limits s)"
proof -
  obtain ty where ty: "request_type m = Inr ty" using m by (auto simp: valid_message_def split: sum.splits)
  note v = m [unfolded valid_message_def ty sum.case]
  consider "ty = 0" | "ty = 1" | "ty = 2" "ty \<noteq> 0" "ty \<noteq> 1" using v by (auto split: if_splits)
  then show ?thesis
  proof cases
    case 1
    then obtain r where r: "unpack_payload (wire_request wire) m = Inr r" "ecr_token_ids r \<noteq> []"
        "int (length (ecr_token_ids r)) < max_model_len s" "0 < ecr_max_output_tokens r" "id_to_request s (ecr_request_id r) = None"
      using v by (auto split: sum.splits)
    have "step_inv {} (add_request (to_request r) s)"
      by (rule add_request_ok [OF inv]) (use r in \<open>simp_all add: to_request_def num_tokens_def\<close>)
    moreover have "limits (add_request (to_request r) s) = limits s" by (simp add: add_request_def Let_def limits_def)
    ultimately show ?thesis using 1 ty r(1) by (simp add: process_message_def)
  next
    case 2
    then obtain ids where ids: "unpack_payload (wire_ids wire) m = Inr ids" using v by (auto split: sum.splits)
    obtain s' where "abort_requests ids s = Some s'" "step_inv {} s'" "limits s' = limits s"
      using abort_requests_ok [OF inv, of ids] by blast
    then show ?thesis using 2 ty ids by (simp add: process_message_def)
  next
    case 3
    then show ?thesis using ty by (simp add: process_message_def)
  qed
qed

lemma process_inputs_ok:
  assumes "step_inv {} s" "valid_inputs wire msgs s"
  shows "\<exists>go s'. process_inputs wire msgs s = Inr (go, s') \<and> step_inv {} s' \<and> limits s' = limits s"
  using assms
proof (induction msgs arbitrary: s)
  case (Cons m ms)
  from process_message_ok [OF Cons.prems(1), of wire m] Cons.prems(2)
  consider "process_message wire m s = Inr None" |
    s' where "process_message wire m s = Inr (Some s')" "step_inv {} s'" "limits s' = limits s" by auto
  then show ?case
  proof cases
    case 1
    then show ?thesis using Cons.prems(1) by (intro exI [of _ False]) simp
  next
    case (2 s')
    then show ?thesis using Cons.IH [OF 2(2)] Cons.prems(2) by simp
  qed
qed auto

lemma engine_ok_scheduler:
  assumes "engine_ok e" "step_inv {} s" "limits s = limits (ec_scheduler e)"
  shows "engine_ok (e\<lparr>ec_scheduler := s\<rparr>)"
  using assms by (simp add: engine_ok_def limits_def Let_def)

lemma engine_ok_log: "engine_ok (log_prefix_cache_stats e) = engine_ok e"
  by (simp add: engine_ok_def)

lemma turn_ok:
  assumes ok: "engine_ok e" and msgs: "valid_inputs wire msgs (ec_scheduler e)"
  shows "\<exists>e'. (turn wire device msgs e = Looping e' \<or> turn wire device msgs e = Stopped e') \<and> engine_ok e'"
proof -
  have inv: "step_inv {} (ec_scheduler e)" using ok by (simp add: engine_ok_def Let_def)
  obtain go s' where p: "process_inputs wire msgs (ec_scheduler e) = Inr (go, s')" "step_inv {} s'"
      "limits s' = limits (ec_scheduler e)" using process_inputs_ok [OF inv msgs] by blast
  have e': "engine_ok (e\<lparr>ec_scheduler := s'\<rparr>)" by (rule engine_ok_scheduler [OF ok p(2,3)])
  show ?thesis
  proof (cases go)
    case True
    obtain e2 where "run_step device (e\<lparr>ec_scheduler := s'\<rparr>) = Some e2" "engine_ok e2" using run_step_ok [OF e', of device] by blast
    then show ?thesis using p(1) True by (simp add: turn_def)
  next
    case False
    then show ?thesis using p(1) e' by (simp add: turn_def engine_ok_log)
  qed
qed

subsection \<open>Reachable states\<close>

inductive serves :: "Wire \<Rightarrow> (StreamOp list \<Rightarrow> nat \<Rightarrow> int) \<Rightarrow> EngineCore \<Rightarrow> EngineStatus \<Rightarrow> bool"
  for wire device e0 where
  start: "serves wire device e0 (Looping e0)"
| turn: "serves wire device e0 (Looping e) \<Longrightarrow> (blocks_on_input e \<longrightarrow> msgs \<noteq> []) \<Longrightarrow> valid_inputs wire msgs (ec_scheduler e)
    \<Longrightarrow> serves wire device e0 (turn wire device msgs e)"

lemma serves_ok:
  assumes "serves wire device e0 st" "engine_ok e0"
  shows "\<exists>e. (st = Looping e \<or> st = Stopped e) \<and> engine_ok e"
  using assms
proof (induction rule: serves.induct)
  case start
  then show ?case by blast
next
  case (turn e msgs)
  then have "engine_ok e" by blast
  then show ?case using turn_ok [OF _ turn.hyps(3)] by blast
qed


subsection \<open>Malformed messages\<close>

definition malformed :: "Wire \<Rightarrow> Message \<Rightarrow> bool" where
  "malformed wire m \<longleftrightarrow> m = [] \<or> length (hd m) \<noteq> 1
     \<or> (let ty = hd (hd m) in 2 < ty \<or> ty = 0 \<and> (length m \<noteq> 2 \<or> wire_request wire (last m) = None)
          \<or> ty = 1 \<and> (length m \<noteq> 2 \<or> wire_ids wire (last m) = None))"

lemma byte_cases: "(ty :: 8 word) = 0 \<or> ty = 1 \<or> ty = 2 \<or> 2 < ty"
proof -
  have "unat ty = 0 \<or> unat ty = 1 \<or> unat ty = 2 \<or> 2 < unat ty" by arith
  then show ?thesis by (auto simp: word_less_nat_alt word_unat_eq_iff)
qed

lemma process_message_malformed:
  "(\<exists>err. process_message wire m s = Inl (Protocol err)) \<longleftrightarrow> malformed wire m"
proof (cases "m = [] \<or> length (hd m) \<noteq> 1")
  case True
  then show ?thesis by (auto simp: process_message_def request_type_def malformed_def)
next
  case False
  then have ty: "request_type m = Inr (hd (hd m))" by (auto simp: request_type_def)
  consider "hd (hd m) = 0" | "hd (hd m) = 1" | "hd (hd m) = 2" | "2 < hd (hd m)" using byte_cases by blast
  then show ?thesis
  proof cases
    case 4
    then have "hd (hd m) \<noteq> 0" "hd (hd m) \<noteq> 1" "hd (hd m) \<noteq> 2" by (auto simp: word_less_nat_alt)
    then show ?thesis using 4 by (simp add: process_message_def ty malformed_def)
  qed (use False ty in \<open>auto simp: process_message_def malformed_def unpack_payload_def split: option.splits\<close>)
qed


subsection \<open>Every request is answered\<close>

fun run_until_idle :: "Wire \<Rightarrow> (StreamOp list \<Rightarrow> nat \<Rightarrow> int) \<Rightarrow> nat \<Rightarrow> EngineCore \<Rightarrow> EngineStatus" where
  \<comment> \<open>the loop without further input, for at most \<open>n\<close> turns\<close>
  "run_until_idle wire device 0 e = Looping e"
| "run_until_idle wire device (Suc n) e = (if blocks_on_input e then Looping e else
     case turn wire device [] e of Looping e' \<Rightarrow> run_until_idle wire device n e' | st \<Rightarrow> st)"

definition live_ids :: "EngineCore \<Rightarrow> string list" where
  "live_ids e = map (\<lambda>n. req_id (node (ec_scheduler e) n)) (queue (ec_scheduler e))"

lemma has_requests_queue: "step_inv W s \<Longrightarrow> has_requests s \<longleftrightarrow> queue s \<noteq> []"
proof -
  assume inv: "step_inv W s"
  have store: "\<And>rid n. id_to_request s rid = Some n \<longleftrightarrow> n \<in> set (queue s) \<and> req_id (node s n) = rid"
    using step_invD(1) [OF inv] by (simp add: store_ok_def)
  show ?thesis
  proof
    assume "has_requests s"
    then obtain i n where "id_to_request s i = Some n" unfolding has_requests_def by (metis not_None_eq ext)
    then show "queue s \<noteq> []" using store by fastforce
  next
    assume "queue s \<noteq> []"
    then have "id_to_request s (req_id (node s (hd (queue s)))) = Some (hd (queue s))" using store by simp
    then show "has_requests s" by (auto simp: has_requests_def)
  qed
qed

lemma live_ids_distinct: "engine_ok e \<Longrightarrow> distinct (live_ids e)"
proof -
  assume "engine_ok e"
  then have store: "store_ok (ec_scheduler e)" by (auto simp: engine_ok_def Let_def intro: step_invD(1))
  then show ?thesis using store_ok_inj [OF store] by (auto simp: live_ids_def distinct_map store_ok_def inj_on_def)
qed

lemma run_step_ids:
  assumes "engine_ok e" "run_step device e = Some e'"
  shows "\<exists>outs. engine_ok e' \<and> step_outputs_of e outs e' \<and> distinct (map out_request_id outs)
     \<and> set (map out_request_id outs) \<subseteq> set (live_ids e) \<and> live_ids e' = filter (\<lambda>i. i \<notin> set (final_ids outs)) (live_ids e)"
proof -
  from run_step_ok [OF assms(1), of device] assms(2) obtain outs where o: "engine_ok e'" "step_outputs_of e outs e'"
     "queue (ec_scheduler e') = filter (\<lambda>n. req_id (node (ec_scheduler e) n) \<notin> set (final_ids outs)) (queue (ec_scheduler e))"
     "distinct (map out_request_id outs)"
     "set (map out_request_id outs) \<subseteq> (\<lambda>n. req_id (node (ec_scheduler e) n)) ` set (queue (ec_scheduler e))"
     "\<forall>n \<in> set (queue (ec_scheduler e')). req_id (node (ec_scheduler e') n) = req_id (node (ec_scheduler e) n)" by auto
  have "live_ids e' = map (\<lambda>n. req_id (node (ec_scheduler e) n)) (queue (ec_scheduler e'))"
    unfolding live_ids_def by (rule map_cong [OF refl]) (use o(6) in blast)
  also have "\<dots> = filter (\<lambda>i. i \<notin> set (final_ids outs)) (live_ids e)"
    unfolding o(3) live_ids_def by (simp add: filter_map comp_def)
  finally show ?thesis using o(1,2,4,5) by (auto simp: live_ids_def)
qed

lemma drain:
  assumes "engine_ok e" "work_left (ec_scheduler e) \<le> int n"
  shows "\<exists>e' msgs. run_until_idle wire device n e = Looping e' \<and> engine_ok e' \<and> \<not> has_requests (ec_scheduler e')
     \<and> ec_sent e' = ec_sent e @ map OutputsMessage msgs \<and> distinct (final_ids (concat msgs))
     \<and> set (final_ids (concat msgs)) = set (live_ids e) \<and> set (map out_request_id (concat msgs)) \<subseteq> set (live_ids e)"
  using assms
proof (induction n arbitrary: e)
  case 0
  let ?s = "ec_scheduler e"
  have inv: "step_inv {} ?s" using 0 by (simp add: engine_ok_def Let_def)
  have "queue ?s = []"
  proof (rule ccontr)
    assume q: "queue ?s \<noteq> []"
    from run_step_ok [OF 0(1), of device] obtain e' where "engine_ok e'"
      "queue ?s \<noteq> [] \<longrightarrow> work_left (ec_scheduler e') < work_left ?s" by blast
    then show False using q 0(2) work_left_nonneg [of "ec_scheduler e'"] by (simp add: engine_ok_def Let_def)
  qed
  then show ?case using 0 has_requests_queue [OF inv]
    by (intro exI [of _ e] exI [of _ "[]"]) (simp add: live_ids_def final_ids_def final_outputs_def)
next
  case (Suc n)
  let ?s = "ec_scheduler e"
  have inv: "step_inv {} ?s" using Suc.prems by (simp add: engine_ok_def Let_def)
  show ?case
  proof (cases "has_requests ?s")
    case False
    then have "queue ?s = []" using has_requests_queue [OF inv] by blast
    then show ?thesis using Suc.prems(1) False
      by (intro exI [of _ e] exI [of _ "[]"]) (simp add: live_ids_def final_ids_def final_outputs_def blocks_on_input_def)
  next
    case True
    then have q: "queue ?s \<noteq> []" using has_requests_queue [OF inv] by blast
    obtain e1 where e1: "run_step device e = Some e1" "work_left (ec_scheduler e1) < work_left ?s"
      using run_step_ok [OF Suc.prems(1), of device] q by blast
    from run_step_ids [OF Suc.prems(1) e1(1)] obtain outs where o: "engine_ok e1" "step_outputs_of e outs e1"
      "distinct (map out_request_id outs)" "set (map out_request_id outs) \<subseteq> set (live_ids e)"
      "live_ids e1 = filter (\<lambda>i. i \<notin> set (final_ids outs)) (live_ids e)" by blast
    have "work_left (ec_scheduler e1) \<le> int n" using e1(2) Suc.prems(2) by simp
    from Suc.IH [OF o(1) this] obtain e' msgs where r: "run_until_idle wire device n e1 = Looping e'" "engine_ok e'"
      "\<not> has_requests (ec_scheduler e')" "ec_sent e' = ec_sent e1 @ map OutputsMessage msgs"
      "distinct (final_ids (concat msgs))" "set (final_ids (concat msgs)) = set (live_ids e1)"
      "set (map out_request_id (concat msgs)) \<subseteq> set (live_ids e1)" by blast
    let ?msgs = "if outs = [] then msgs else outs # msgs"
    have c: "concat ?msgs = outs @ concat msgs" by simp
    have f: "final_ids (outs @ concat msgs) = final_ids outs @ final_ids (concat msgs)" by (simp add: final_ids_def final_outputs_def)
    have sub: "set (final_ids outs) \<subseteq> set (map out_request_id outs)" by (auto simp: final_ids_def final_outputs_def)
    have dis: "distinct (final_ids outs)" using o(3) unfolding final_ids_def final_outputs_def by (rule distinct_map_filter)
    have "run_until_idle wire device (Suc n) e = Looping e'"
      using True r(1) e1(1) by (simp add: blocks_on_input_def turn_def)
    moreover have "ec_sent e' = ec_sent e @ map OutputsMessage ?msgs" using r(4) o(2) by (simp add: step_outputs_of_def)
    moreover have "distinct (final_ids (concat ?msgs))" unfolding c f using dis r(5,6) o(5) by auto
    moreover have "set (final_ids (concat ?msgs)) = set (live_ids e)" unfolding c f using r(6) o(4,5) sub by auto
    moreover have "set (map out_request_id (concat ?msgs)) \<subseteq> set (live_ids e)" unfolding c using r(7) o(4,5) by auto
    ultimately show ?thesis using r(2,3) by blast
  qed
qed


end
