(* ===== verification/Engine_Start.thy ===== *)
theory Engine_Start
  imports Engine_Properties
begin

text \<open>
  The start of the engine core, and a concrete engine core with one request, on which the
  properties are instantiated.
\<close>

definition start_blocks :: "EngineHost \<Rightarrow> Config \<Rightarrow> ModelConfig \<Rightarrow> int" where
  \<comment> \<open>the number of blocks that fit into the memory the profile found\<close>
  "start_blocks h c mc = to_int32 (available_kv_cache_memory (eh_free h) (eh_total h) (eh_budget h) div kv_block_bytes mc (block_size c))"

lemma block_bytes_nonzero: "kv_dims_ok mc 1 bs \<Longrightarrow> kv_block_bytes mc bs \<noteq> 0"
  using kv_create_eval [of mc 1 bs 0] by (auto simp: KVCache_create_def Let_def size_t_def bind_eq_Some_conv)

lemma start_eval:
  assumes dims: "runner_dims (Host.truncate h) c mc" and m: "model_ok m" "lm_config m = mc"
    and cap: "\<bar>start_blocks h c mc * block_size c\<bar> < 2 ^ 31" and len: "0 < mc_max_model_len mc"
    and fits: "mc_max_model_len mc \<le> start_blocks h c mc * block_size c \<Longrightarrow> kv_dims_ok mc (start_blocks h c mc) (block_size c)"
  shows "\<exists>mr. ModelRunner_build (Host.truncate h) c mc m = Some mr
     \<and> (if start_blocks h c mc * block_size c < mc_max_model_len mc
        then EngineCore_start h c mr = Inl (KVCacheTooSmall (start_blocks h c mc * block_size c) (mc_max_model_len mc))
        else \<exists>e. EngineCore_start h c mr = Inr e \<and> engine_ok e \<and> \<not> has_requests (ec_scheduler e) \<and> ec_sent e = []
          \<and> max_model_len (ec_scheduler e) = mc_max_model_len mc \<and> queue (ec_scheduler e) = []
          \<and> id_to_request (ec_scheduler e) = Map.empty \<and> mr_model (ec_runner e) = m \<and> mr_config (ec_runner e) = c
          \<and> max_num_scheduled_tokens (ec_scheduler e) = cfg_max_num_scheduled_tokens c
          \<and> num_blocks (kv_cache_manager (ec_scheduler e)) = start_blocks h c mc
          \<and> (\<forall>b. is_block (kv_cache_manager (ec_scheduler e)) b \<longrightarrow> \<not> hash_valid (blk (kv_cache_manager (ec_scheduler e)) b)))"
proof -
  let ?n = "start_blocks h c mc" and ?bs = "block_size c"
  note d = dims [unfolded runner_dims_def Let_def]
  have bb: "kv_block_bytes mc ?bs \<noteq> 0" using d block_bytes_nonzero by blast
  obtain mr where mr: "ModelRunner_build (Host.truncate h) c mc m = Some mr" "mr_model_config mr = mc" "mr_config mr = c"
    using build_ok [OF dims m] by blast
  have init: "initialize_kv_cache h c mr = (if ?n * ?bs < mc_max_model_len mc then Inl (KVCacheTooSmall (?n * ?bs) (mc_max_model_len mc))
      else case allocate_kv_cache (Host.truncate h) ?n mr of None \<Rightarrow> Inl EngineFault
        | Some mr' \<Rightarrow> Inr (\<lparr>cfg_num_block_slots = ?bs, cfg_num_blocks = ?n, cfg_enable_prefix_caching = cfg_prefix_caching c\<rparr>, mr'))"
  proof -
    have "c_int (?n * ?bs) = Some (?n * ?bs)" using cap by (auto simp: c_int_def)
    then show ?thesis
      unfolding initialize_kv_cache_def Let_def kv_cache_block_bytes_def mr(2,3) start_blocks_def [symmetric]
      using bb by (simp del: c_int_Some)
  qed
  show ?thesis
  proof (cases "?n * ?bs < mc_max_model_len mc")
    case True
    then show ?thesis using mr(1) init by (simp add: EngineCore_start_def)
  next
    case False
    then have k: "kv_dims_ok mc ?n ?bs" using fits by simp
    obtain mr' where mr': "allocate_kv_cache (Host.truncate h) ?n mr = Some mr'" "runner_ok mr'" "mr_config mr' = c"
        "mr_model_config mr' = mc" "bb_block_table_stride (mr_batch_buffer mr') = (mc_max_model_len mc + ?bs - 1) div ?bs"
        "mr_model mr' = m"
      using ready_eval [OF dims m k] mr(1) by auto
    let ?kvc = "\<lparr>cfg_num_block_slots = ?bs, cfg_num_blocks = ?n, cfg_enable_prefix_caching = cfg_prefix_caching c\<rparr>"
    have seqs: "0 < cfg_max_num_seqs c" "0 < cfg_max_num_scheduled_tokens c" "cfg_max_num_seqs c < 2 ^ 31"
    proof -
      have w: "workspace_dims_ok mc (cfg_max_num_scheduled_tokens c) (cfg_max_num_seqs c)" using d by blast
      then show "0 < cfg_max_num_seqs c" "0 < cfg_max_num_scheduled_tokens c" by (auto simp: workspace_dims_ok_def)
      have h: "0 < hidden_size mc" "cfg_max_num_seqs c * hidden_size mc < 2 ^ 31" using w by (simp_all add: workspace_dims_ok_def)
      then have "cfg_max_num_seqs c * 1 \<le> cfg_max_num_seqs c * hidden_size mc"
        using \<open>0 < cfg_max_num_seqs c\<close> by (intro mult_left_mono) auto
      then show "cfg_max_num_seqs c < 2 ^ 31" using h(2) by simp
    qed
    obtain s where s: "Scheduler_create c mc ?kvc = Some s" "step_inv {} s" "queue s = []" "id_to_request s = Map.empty"
        "max_model_len s = mc_max_model_len mc" "max_num_seqs s = cfg_max_num_seqs c"
        "max_num_scheduled_tokens s = cfg_max_num_scheduled_tokens c"
      using Scheduler_create_ok [of ?kvc mc c] k seqs False by (auto simp: kv_dims_ok_def)
    have slots: "num_block_slots (kv_cache_manager s) = ?bs" "num_blocks (kv_cache_manager s) = ?n"
      "\<forall>b. is_block (kv_cache_manager s) b \<longrightarrow> \<not> hash_valid (blk (kv_cache_manager s) b)"
    proof -
      have "0 \<le> cfg_num_blocks ?kvc" "0 < cfg_num_block_slots ?kvc" using k by (auto simp: kv_dims_ok_def)
      from create_ok [OF this] s(1) show "num_block_slots (kv_cache_manager s) = ?bs" "num_blocks (kv_cache_manager s) = ?n"
        "\<forall>b. is_block (kv_cache_manager s) b \<longrightarrow> \<not> hash_valid (blk (kv_cache_manager s) b)"
        by (auto simp: Scheduler_create_def bind_eq_Some_conv num_blocks_def)
    qed
    let ?e = "\<lparr>ec_runner = mr', ec_scheduler = s, ec_num_steps = 0, ec_logged_queries = 0, ec_sent = [], ec_log = []\<rparr>"
    have "EngineCore_start h c mr = Inr ?e" using init False mr' s(1) by (simp add: EngineCore_start_def)
    moreover have "engine_ok ?e" using s mr' slots by (simp add: engine_ok_def Let_def blocks_for_def)
    ultimately show ?thesis using mr(1) False s slots(2,3) mr'(3,6) by (intro exI [of _ mr]) (simp add: has_requests_def)
  qed
qed


subsection \<open>A concrete engine core\<close>

definition demo_engine_host :: "64 word \<Rightarrow> EngineHost" where
  "demo_engine_host budget = Host.extend demo_host \<lparr>eh_free = 100, eh_total = 200, eh_budget = budget\<rparr>"

lemma demo_truncate: "Host.truncate (demo_engine_host budget) = demo_host"
  by (simp add: demo_engine_host_def demo_host_def Host.defs)

lemma demo_start_blocks:
  "start_blocks (demo_engine_host 2148) (demo_engine_config\<lparr>enable_cuda_graph := True\<rparr>) demo_model_config = 4"
  "start_blocks (demo_engine_host 1636) (demo_engine_config\<lparr>enable_cuda_graph := True\<rparr>) demo_model_config = 3"
  by (simp_all add: start_blocks_def demo_engine_host_def Host.defs demo_engine_config_def demo_model_config_def kv_block_bytes_def
      available_kv_cache_memory_def size_t_def elem_bytes_def to_int32_def)

abbreviation demo_cfg :: Config where
  "demo_cfg \<equiv> demo_engine_config\<lparr>enable_cuda_graph := True\<rparr>"

lemma demo_start_premises:
  "runner_dims (Host.truncate (demo_engine_host budget)) demo_cfg demo_model_config" "0 < mc_max_model_len demo_model_config"
  unfolding demo_truncate by (rule demo_runner_dims) (simp add: demo_model_config_def)

lemma demo_start_sizes:
  "\<bar>start_blocks (demo_engine_host 2148) demo_cfg demo_model_config * block_size demo_cfg\<bar> < 2 ^ 31"
  "\<bar>start_blocks (demo_engine_host 1636) demo_cfg demo_model_config * block_size demo_cfg\<bar> < 2 ^ 31"
  "kv_dims_ok demo_model_config (start_blocks (demo_engine_host 2148) demo_cfg demo_model_config) (block_size demo_cfg)"
  "start_blocks (demo_engine_host 2148) demo_cfg demo_model_config * block_size demo_cfg = 8"
  "start_blocks (demo_engine_host 1636) demo_cfg demo_model_config * block_size demo_cfg = 6"
proof -
  have b: "block_size demo_cfg = 2" by (simp add: demo_engine_config_def)
  show "\<bar>start_blocks (demo_engine_host 2148) demo_cfg demo_model_config * block_size demo_cfg\<bar> < 2 ^ 31"
    "\<bar>start_blocks (demo_engine_host 1636) demo_cfg demo_model_config * block_size demo_cfg\<bar> < 2 ^ 31"
    "start_blocks (demo_engine_host 2148) demo_cfg demo_model_config * block_size demo_cfg = 8"
    "start_blocks (demo_engine_host 1636) demo_cfg demo_model_config * block_size demo_cfg = 6"
    unfolding demo_start_blocks b by simp_all
  show "kv_dims_ok demo_model_config (start_blocks (demo_engine_host 2148) demo_cfg demo_model_config) (block_size demo_cfg)"
    unfolding demo_start_blocks by (rule demo_kv_dims)
qed


definition demo_core :: EngineCore where
  "demo_core = (case EngineCore_start (demo_engine_host 2148) demo_cfg
     (the (ModelRunner_build demo_host demo_cfg demo_model_config demo_model)) of Inr e \<Rightarrow> e)"

lemma demo_core_ok:
  "engine_ok demo_core" "max_model_len (ec_scheduler demo_core) = 8" "queue (ec_scheduler demo_core) = []"
  "id_to_request (ec_scheduler demo_core) = Map.empty" "mr_model (ec_runner demo_core) = demo_model"
  "block_size (mr_config (ec_runner demo_core)) = 2" "max_num_scheduled_tokens (ec_scheduler demo_core) = 4"
  "num_blocks (kv_cache_manager (ec_scheduler demo_core)) = 4"
  "\<forall>b. is_block (kv_cache_manager (ec_scheduler demo_core)) b \<longrightarrow> \<not> hash_valid (blk (kv_cache_manager (ec_scheduler demo_core)) b)"
proof -
  have L: "mc_max_model_len demo_model_config = 8" by (simp add: demo_model_config_def)
  obtain e where "demo_core = e" "engine_ok e" "max_model_len (ec_scheduler e) = 8" "queue (ec_scheduler e) = []"
      "id_to_request (ec_scheduler e) = Map.empty" "mr_model (ec_runner e) = demo_model" "mr_config (ec_runner e) = demo_cfg"
      "max_num_scheduled_tokens (ec_scheduler e) = cfg_max_num_scheduled_tokens demo_cfg"
      "num_blocks (kv_cache_manager (ec_scheduler e)) = start_blocks (demo_engine_host 2148) demo_cfg demo_model_config"
      "\<forall>b. is_block (kv_cache_manager (ec_scheduler e)) b \<longrightarrow> \<not> hash_valid (blk (kv_cache_manager (ec_scheduler e)) b)"
    using start_eval [OF demo_start_premises(1) demo_model_ok(1) demo_model_config_of demo_start_sizes(1) demo_start_premises(2)
      demo_start_sizes(3)] unfolding demo_start_sizes(4) L demo_truncate by (auto simp: demo_core_def)
  then show "engine_ok demo_core" "max_model_len (ec_scheduler demo_core) = 8" "queue (ec_scheduler demo_core) = []"
    "id_to_request (ec_scheduler demo_core) = Map.empty" "mr_model (ec_runner demo_core) = demo_model"
    "block_size (mr_config (ec_runner demo_core)) = 2" "max_num_scheduled_tokens (ec_scheduler demo_core) = 4"
    "num_blocks (kv_cache_manager (ec_scheduler demo_core)) = 4"
    "\<forall>b. is_block (kv_cache_manager (ec_scheduler demo_core)) b \<longrightarrow> \<not> hash_valid (blk (kv_cache_manager (ec_scheduler demo_core)) b)"
    by (simp_all add: demo_start_blocks) (simp_all add: demo_engine_config_def)
qed

definition demo_add :: EngineCoreRequest where
  "demo_add = \<lparr>ecr_request_id = ''a'', ecr_max_output_tokens = 3, ecr_ignore_eos = False, ecr_temperature = 0, ecr_top_k = 0,
     ecr_top_p = 0, ecr_token_ids = [11, 12, 13, 14, 15]\<rparr>"

definition demo_wire :: Wire where
  "demo_wire = \<lparr>wire_request = (\<lambda>_. Some demo_add), wire_ids = (\<lambda>_. Some [])\<rparr>"

lemma demo_valid: "valid_inputs demo_wire [[[0], []]] (ec_scheduler demo_core)"
  by (simp add: valid_message_def request_type_def unpack_payload_def demo_wire_def demo_add_def demo_core_ok process_message_def)


definition demo_busy :: EngineCore where
  \<comment> \<open>the request has arrived\<close>
  "demo_busy = demo_core\<lparr>ec_scheduler := add_request (to_request demo_add) (ec_scheduler demo_core)\<rparr>"

lemma demo_busy_ok: "engine_ok demo_busy" "live_ids demo_busy = [''a'']"
proof -
  have inv: "step_inv {} (ec_scheduler demo_core)" using demo_core_ok(1) by (simp add: engine_ok_def Let_def)
  have "step_inv {} (add_request (to_request demo_add) (ec_scheduler demo_core))"
      "queue (add_request (to_request demo_add) (ec_scheduler demo_core)) = [next_node (ec_scheduler demo_core)]"
    using add_request_ok [OF inv, of "to_request demo_add"] demo_core_ok
    by (simp_all add: to_request_def demo_add_def num_tokens_def)
  then show "engine_ok demo_busy" "live_ids demo_busy = [''a'']"
    unfolding demo_busy_def
    by (auto intro!: engine_ok_scheduler [OF demo_core_ok(1)] simp: limits_def add_request_def Let_def live_ids_def node_def
        to_request_def demo_add_def)
qed


end
