(* ===== verification/Paged_Attention.thy ===== *)
theory Paged_Attention
  imports Batch_Contract
begin

text \<open>
  The work distribution and the addressing of the attention kernel,
  csrc/ops/paged_attention.cu: which tile of the grid serves which request, which rows
  (token, query head of the group) it computes, which KV positions a row sees through the loop
  over key tiles and its causal mask, and in which slots of the pool these positions are read.
  The tensor-core arithmetic on the loaded tiles is not modelled. \<open>uint32_t\<close> products carry
  their wrap-around (\<open>u32\<close>).
\<close>

unbundle bit_operations_syntax

definition kBr :: nat where "kBr = 4 * 16"
definition kBc :: nat where "kBc = 64"

definition tile_index :: "nat list \<Rightarrow> nat \<Rightarrow> nat \<Rightarrow> nat" where
  \<comment> \<open>\<open>b(r)\<close>, the first tile of request \<open>r\<close>\<close>
  "tile_index qsl g r = u32 (qsl ! r * g) div kBr + r"

function find_request :: "nat list \<Rightarrow> nat \<Rightarrow> nat \<Rightarrow> nat \<Rightarrow> nat \<Rightarrow> nat" where
  \<comment> \<open>the binary search for the request of a tile\<close>
  "find_request qsl g block lo hi =
     (if lo + 1 < hi
      then let mid = (lo + hi) div 2 in
        (if tile_index qsl g mid \<le> block then find_request qsl g block mid hi else find_request qsl g block lo mid)
      else lo)"
  by pat_completeness auto
termination
  by (relation "measure (\<lambda>(qsl, g, block, lo, hi). hi - lo)") auto

declare find_request.simps [simp del]

definition need_causal_mask :: "nat \<Rightarrow> nat \<Rightarrow> nat \<Rightarrow> nat \<Rightarrow> nat \<Rightarrow> nat \<Rightarrow> bool" where
  \<comment> \<open>\<open>y\<close> is the row in the tile; a warp holds 16 rows\<close>
  "need_causal_mask g prefix q_start kv_len kv_start y \<longleftrightarrow>
     prefix + (q_start + y div 16 * 16) div g < kv_start + kBc \<or> kv_start + kBc > kv_len"

definition visible_in_tile :: "nat \<Rightarrow> nat \<Rightarrow> nat \<Rightarrow> nat \<Rightarrow> nat \<Rightarrow> nat \<Rightarrow> nat list" where
  "visible_in_tile g prefix q_start kv_len y kv_start =
     filter (\<lambda>col. need_causal_mask g prefix q_start kv_len kv_start y \<longrightarrow> prefix + (q_start + y) div g \<ge> col \<and> col < kv_len)
       [kv_start..<kv_start + kBc]"

definition visible :: "nat \<Rightarrow> nat \<Rightarrow> nat \<Rightarrow> nat \<Rightarrow> nat \<Rightarrow> nat list" where
  \<comment> \<open>the positions of the keys that enter the softmax of a row, over all key tiles\<close>
  "visible g prefix q_start kv_len y =
     concat (map (\<lambda>t. visible_in_tile g prefix q_start kv_len y (t * kBc)) [0..<(kv_len + kBc - 1) div kBc])"

definition kv_address :: "int list \<Rightarrow> nat \<Rightarrow> nat \<Rightarrow> nat" where
  \<comment> \<open>the slot \<open>load_kv_async\<close> reads for a position\<close>
  "kv_address table shift pos =
     u32 (u32 (push_bit shift (nat (table ! drop_bit shift pos))) + (pos AND (push_bit shift 1 - 1)))"

definition attention_block :: "ForwardBatch \<Rightarrow> nat \<Rightarrow> nat \<Rightarrow> nat \<Rightarrow> (nat \<times> nat \<times> int list) list" where
  \<comment> \<open>what one thread block writes: token, head in the group, and the slots attended\<close>
  "attention_block b g shift block = (
     let qsl = map nat (fb_query_start_loc b);
         r = find_request qsl g block 0 (nat (fb_num_reqs b));
         begin = qsl ! r;
         len = qsl ! (r + 1) - begin;
         q_start = (block - tile_index qsl g r) * kBr;
         rows = u32 (len * g);
         seq_len = nat (fb_seq_lens b ! r);
         prefix = seq_len - len;
         kv_len = min seq_len (prefix + (q_start + kBr - 1) div g + 1)
     in if q_start \<ge> rows then []
        else map (\<lambda>y. (begin + (q_start + y) div g, (q_start + y) mod g,
               map (\<lambda>p. int (kv_address (fb_block_table b ! r) shift p)) (visible g prefix q_start kv_len y)))
             (filter (\<lambda>y. q_start + y < rows) [0..<kBr]))"

definition attention_grid :: "ForwardBatch \<Rightarrow> nat \<Rightarrow> nat" where
  "attention_grid b g = u32 (nat (fb_num_tokens b) * g) div kBr + nat (fb_num_reqs b)"

definition bf16_paged_attention :: "ForwardBatch \<Rightarrow> nat \<Rightarrow> nat \<Rightarrow> (nat \<times> nat \<times> int list) list" where
  \<comment> \<open>the blocks of one KV head, \<open>blockIdx.y\<close>\<close>
  "bf16_paged_attention b g shift = concat (map (attention_block b g shift) [0..<attention_grid b g])"

definition launch_paged_attention :: "ForwardBatch \<Rightarrow> nat \<Rightarrow> nat \<Rightarrow> nat \<Rightarrow> (nat \<times> nat \<times> nat \<times> int list) list" where
  \<comment> \<open>all writes of the launch: token, query head, the KV head it reads, slots\<close>
  "launch_paged_attention b kv_heads q_heads shift = (let g = q_heads div kv_heads in
     concat (map (\<lambda>k. map (\<lambda>(t, h, slots). (t, k * g + h, k, slots)) (bf16_paged_attention b g shift)) [0..<kv_heads]))"

datatype AttentionError = BlockSizeNotPowerOfTwo | UnsupportedHeadDim int

definition countr_zero :: "int \<Rightarrow> nat option" where
  \<comment> \<open>\<open>std::countr_zero\<close> of the \<open>uint32_t\<close>, where \<open>std::has_single_bit\<close> holds\<close>
  "countr_zero x = find (\<lambda>k. x mod 2 ^ 32 = 2 ^ k) [0..<32]"

definition paged_attention :: "ForwardBatch \<Rightarrow> nat \<Rightarrow> nat \<Rightarrow> nat \<Rightarrow> int \<Rightarrow> AttentionError + (nat \<times> nat \<times> nat \<times> int list) list" where
  \<comment> \<open>\<open>k_cache.shape[1]\<close>, \<open>k_cache.shape[2]\<close>, \<open>output.shape[1]\<close>, \<open>slots_per_block\<close>\<close>
  "paged_attention b kv_heads dim q_size slots_per_block = (case countr_zero slots_per_block of
       None \<Rightarrow> Inl BlockSizeNotPowerOfTwo
     | Some shift \<Rightarrow> if dim = 128 \<or> dim = 64 then Inr (launch_paged_attention b kv_heads (q_size div dim) shift)
         else Inl (UnsupportedHeadDim (int dim)))"

subsection \<open>The keys a row sees\<close>

lemma upt_concat: "concat (map (\<lambda>t. [t * k..<t * k + k]) [0..<n]) = [0..<n * k]"
proof (induction n)
  case (Suc n)
  have "[0..<n * k + k] = [0..<n * k] @ [n * k..<n * k + k]" by (rule upt_add_eq_append [OF le0])
  then show ?case using Suc by (simp add: add.commute)
qed simp

lemma filter_le_upt: "pos < n \<Longrightarrow> filter (\<lambda>c. c \<le> pos) [0..<n] = [0..<Suc pos]"
proof -
  assume "pos < n"
  then have "[0..<n] = [0..<Suc pos] @ [Suc pos..<n]" using upt_add_eq_append [OF le0, of "Suc pos" "n - Suc pos"] by simp
  then show ?thesis by (simp add: filter_empty_conv)
qed

lemma visible_eval:
  assumes g: "0 < g" and y: "y < kBr" and row: "q_start + y < len * g" and seq: "len \<le> seq_len"
  defines "prefix \<equiv> seq_len - len"
  defines "kv_len \<equiv> min seq_len (prefix + (q_start + kBr - 1) div g + 1)"
  shows "visible g prefix q_start kv_len y = [0..<prefix + (q_start + y) div g + 1]"
proof -
  let ?pos = "prefix + (q_start + y) div g"
  have "(q_start + y) div g < len" using row g by (simp add: less_mult_imp_div_less)
  then have "?pos < seq_len" using seq by (simp add: prefix_def)
  moreover have "(q_start + y) div g \<le> (q_start + kBr - 1) div g" using y by (intro div_le_mono) simp
  ultimately have pos: "?pos < kv_len" by (simp add: kv_len_def)
  have tile: "visible_in_tile g prefix q_start kv_len y s = filter (\<lambda>c. c \<le> ?pos) [s..<s + kBc]" for s
    unfolding visible_in_tile_def
  proof (rule filter_cong [OF refl])
    fix c assume c: "c \<in> set [s..<s + kBc]"
    have "(q_start + y div 16 * 16) div g \<le> (q_start + y) div g"
      by (intro div_le_mono add_left_mono) (metis div_times_less_eq_dividend)
    then show "(need_causal_mask g prefix q_start kv_len s y \<longrightarrow> ?pos \<ge> c \<and> c < kv_len) = (c \<le> ?pos)"
      using c pos by (auto simp: need_causal_mask_def)
  qed
  let ?n = "(kv_len + kBc - 1) div kBc"
  have "kv_len \<le> ?n * kBc" using div_mult_mod_eq [of "kv_len + kBc - 1" kBc] mod_less_divisor [of kBc "kv_len + kBc - 1"]
    by (simp add: kBc_def)
  then have "?pos < ?n * kBc" using pos by simp
  then have "filter (\<lambda>c. c \<le> ?pos) [0..<?n * kBc] = [0..<Suc ?pos]" by (rule filter_le_upt)
  moreover have "visible g prefix q_start kv_len y = filter (\<lambda>c. c \<le> ?pos) (concat (map (\<lambda>t. [t * kBc..<t * kBc + kBc]) [0..<?n]))"
    unfolding visible_def tile by (simp add: filter_concat comp_def)
  ultimately show ?thesis unfolding upt_concat by simp
qed

definition table_ok :: "nat \<Rightarrow> int list \<Rightarrow> bool" where
  \<comment> \<open>the slots of the blocks of the table fit 32 bits\<close>
  "table_ok shift table \<longleftrightarrow> (\<forall>x \<in> set table. 0 \<le> x \<and> (nat x + 1) * 2 ^ shift \<le> 2 ^ 32)"

lemma kv_address_slot:
  assumes ok: "table_ok shift table" and pos: "pos div 2 ^ shift < length table"
  shows "int (kv_address table shift pos) = kv_slot (2 ^ shift) table (int pos)"
proof -
  let ?x = "table ! (pos div 2 ^ shift)"
  have x: "0 \<le> ?x" "(nat ?x + 1) * 2 ^ shift \<le> 2 ^ 32" using assms by (auto simp: table_ok_def)
  have low: "pos AND (push_bit shift 1 - 1) = pos mod 2 ^ shift"
    using take_bit_eq_mask [of shift pos] by (simp add: push_bit_eq_mult mask_eq_exp_minus_1 take_bit_eq_mod)
  have "pos mod 2 ^ shift < 2 ^ shift" by simp
  then have "nat ?x * 2 ^ shift + pos mod 2 ^ shift < 2 ^ 32" using x(2) unfolding distrib_right by linarith
  then have "u32 (u32 (nat ?x * 2 ^ shift) + pos mod 2 ^ shift) = nat ?x * 2 ^ shift + pos mod 2 ^ shift"
    by (simp add: u32_def)
  moreover have "nat (int pos div 2 ^ shift) = pos div 2 ^ shift" by (simp add: nat_div_distrib nat_power_eq)
  ultimately show ?thesis using x(1)
    by (simp add: kv_address_def kv_slot_def push_bit_eq_mult drop_bit_eq_div zmod_int low [simplified])
qed

subsection \<open>The tiles of the grid\<close>

text \<open>The prefix sums of the query lengths and the tiles they reserve.\<close>

definition starts_ok :: "nat list \<Rightarrow> nat \<Rightarrow> bool" where
  \<comment> \<open>\<open>n\<close> requests, none empty\<close>
  "starts_ok qsl n \<longleftrightarrow> length qsl = n + 1 \<and> qsl ! 0 = 0 \<and> (\<forall>r < n. qsl ! r < qsl ! (r + 1))"

lemma starts_mono: "starts_ok qsl n \<Longrightarrow> r \<le> r' \<Longrightarrow> r' \<le> n \<Longrightarrow> qsl ! r \<le> qsl ! r'"
proof (induction r' rule: nat_induct)
  case (Suc r')
  then have "qsl ! r' < qsl ! Suc r'" by (simp add: starts_ok_def)
  then show ?case using Suc by (cases "r = Suc r'") auto
qed simp

lemma tile_gap:
  assumes "a \<le> (b :: nat)"
  shows "a div k + (b - a + k - 1) div k \<le> b div k + 1"
proof (cases "k = 0")
  case False
  have le: "a div k * k \<le> a" by simp
  define y where "y = (b - a + k - 1) div k"
  have "y * k \<le> b - a + k - 1" by (simp add: y_def)
  then have "(a div k + y) * k \<le> b + k - 1" using le assms False unfolding distrib_right by linarith
  then have "(a div k + (b - a + k - 1) div k) * k \<le> b + k - 1" by (simp add: y_def)
  then have "a div k + (b - a + k - 1) div k \<le> (b + k - 1) div k" using False by (simp add: less_eq_div_iff_mult_less_eq)
  also have "\<dots> \<le> (b + k) div k" by (intro div_le_mono) simp
  also have "(b + k) div k = b div k + 1" using False by (simp add: div_add_self2)
  finally show ?thesis .
qed simp

definition tiling :: "nat list \<Rightarrow> nat \<Rightarrow> nat \<Rightarrow> bool" where
  "tiling qsl n g \<longleftrightarrow> starts_ok qsl n \<and> 0 < g \<and> qsl ! n * g < 2 ^ 32"

lemma tile_eval:
  assumes "tiling qsl n g" "r \<le> n"
  shows "tile_index qsl g r = qsl ! r * g div kBr + r"
proof -
  have "qsl ! r * g \<le> qsl ! n * g" using assms by (intro mult_le_mono1 starts_mono [of qsl n]) (auto simp: tiling_def)
  then have "qsl ! r * g < 2 ^ 32" by (rule le_less_trans) (use assms in \<open>simp add: tiling_def\<close>)
  then show ?thesis by (simp only: tile_index_def u32_def mod_less)
qed

lemma tile_step:
  assumes t: "tiling qsl n g" and r: "r < n"
  shows "tile_index qsl g r + ((qsl ! (r + 1) - qsl ! r) * g + kBr - 1) div kBr \<le> tile_index qsl g (r + 1)"
    "tile_index qsl g r < tile_index qsl g (r + 1)"
proof -
  have le: "qsl ! r * g \<le> qsl ! (r + 1) * g" using starts_mono [of qsl n r "r + 1"] t r by (simp add: tiling_def)
  show "tile_index qsl g r + ((qsl ! (r + 1) - qsl ! r) * g + kBr - 1) div kBr \<le> tile_index qsl g (r + 1)"
    using tile_gap [OF le, of kBr] r by (simp add: tile_eval [OF t] diff_mult_distrib)
  show "tile_index qsl g r < tile_index qsl g (r + 1)" using div_le_mono [OF le, of kBr] r by (simp add: tile_eval [OF t])
qed

lemma tile_mono: "tiling qsl n g \<Longrightarrow> r \<le> r' \<Longrightarrow> r' \<le> n \<Longrightarrow> tile_index qsl g r \<le> tile_index qsl g r'"
proof (induction r' rule: nat_induct)
  case (Suc r')
  then show ?case using tile_step(2) [of qsl n g r'] by (cases "r = Suc r'") auto
qed simp

lemma find_request_correct:
  assumes t: "tiling qsl n g" and "lo < hi" "hi \<le> n" "tile_index qsl g lo \<le> block" "block < tile_index qsl g hi"
  shows "let r = find_request qsl g block lo hi in
     lo \<le> r \<and> r < hi \<and> tile_index qsl g r \<le> block \<and> block < tile_index qsl g (r + 1)"
  using assms(2-)
proof (induction "hi - lo" arbitrary: lo hi rule: less_induct)
  case less
  let ?mid = "(lo + hi) div 2"
  show ?case
  proof (cases "lo + 1 < hi")
    case True
    then have mid: "lo < ?mid" "?mid < hi" by auto
    show ?thesis
    proof (cases "tile_index qsl g ?mid \<le> block")
      case True
      have "find_request qsl g block lo hi = find_request qsl g block ?mid hi"
        using \<open>lo + 1 < hi\<close> True by (subst find_request.simps) (simp add: Let_def)
      moreover have "hi - ?mid < hi - lo" using mid by linarith
      ultimately show ?thesis using less.hyps [of hi ?mid] less.prems mid True by (auto simp: Let_def)
    next
      case False
      have "find_request qsl g block lo hi = find_request qsl g block lo ?mid"
        using \<open>lo + 1 < hi\<close> False by (subst find_request.simps) (simp add: Let_def)
      moreover have "?mid - lo < hi - lo" using mid by linarith
      ultimately show ?thesis using less.hyps [of ?mid lo] less.prems mid False by (auto simp: Let_def)
    qed
  next
    case False
    then have "find_request qsl g block lo hi = lo" "hi = lo + 1" using less.prems(1) by (simp_all add: find_request.simps [of qsl g block lo hi])
    then show ?thesis using less.prems by simp
  qed
qed

text \<open>The tile of a row of request \<open>r\<close>; it is served for that request.\<close>

lemma row_tile:
  assumes t: "tiling qsl n g" and r: "r < n" and row: "row < (qsl ! (r + 1) - qsl ! r) * g"
  shows "tile_index qsl g r + row div kBr < tile_index qsl g (r + 1)"
    "find_request qsl g (tile_index qsl g r + row div kBr) 0 n = r"
proof -
  let ?len = "(qsl ! (r + 1) - qsl ! r) * g" and ?b = "tile_index qsl g r + row div kBr"
  have "row div kBr + 1 \<le> (?len + kBr - 1) div kBr"
    using div_le_mono [of "row + kBr" "?len + kBr - 1" kBr] row by (simp add: kBr_def)
  then show lt: "?b < tile_index qsl g (r + 1)" using tile_step(1) [OF t r] by linarith
  have "tile_index qsl g 0 = 0" using t by (simp add: tile_eval [OF t] tiling_def starts_ok_def)
  moreover have "?b < tile_index qsl g n" using lt tile_mono [OF t, of "r + 1" n] r by simp
  moreover have "0 < n" using r by simp
  ultimately have f: "let r' = find_request qsl g ?b 0 n in r' < n \<and> tile_index qsl g r' \<le> ?b \<and> ?b < tile_index qsl g (r' + 1)"
    using find_request_correct [OF t, of 0 n ?b] by (simp add: Let_def)
  define r' where "r' = find_request qsl g ?b 0 n"
  have r': "r' < n" "tile_index qsl g r' \<le> ?b" "?b < tile_index qsl g (r' + 1)" using f by (simp_all add: Let_def r'_def)
  have "\<not> r' < r" using tile_mono [OF t, of "r' + 1" r] r' r by auto
  moreover have "\<not> r < r'" using tile_mono [OF t, of "r + 1" r'] r' lt by auto
  ultimately show "find_request qsl g ?b 0 n = r" by (simp add: r'_def)
qed

subsection \<open>The whole grid\<close>

definition starts_of :: "ForwardBatch \<Rightarrow> nat list" where
  "starts_of b = map nat (fb_query_start_loc b)"

definition attention_batch :: "ForwardBatch \<Rightarrow> nat \<Rightarrow> nat \<Rightarrow> bool" where
  \<comment> \<open>a batch whose requests own the blocks of their whole sequence\<close>
  "attention_batch b g shift \<longleftrightarrow> (let qsl = starts_of b; n = nat (fb_num_reqs b) in
     tiling qsl n g \<and> nat (fb_num_tokens b) = qsl ! n
     \<and> (\<forall>r < n. qsl ! (r + 1) - qsl ! r \<le> nat (fb_seq_lens b ! r) \<and> table_ok shift (fb_block_table b ! r)
          \<and> nat (fb_seq_lens b ! r) \<le> length (fb_block_table b ! r) * 2 ^ shift))"

definition row_position :: "ForwardBatch \<Rightarrow> nat \<Rightarrow> nat \<Rightarrow> nat" where
  \<comment> \<open>the position of token \<open>t\<close> of the batch in request \<open>r\<close>\<close>
  "row_position b r t = nat (fb_seq_lens b ! r) - (starts_of b ! (r + 1) - starts_of b ! r) + (t - starts_of b ! r)"

definition past_slots :: "ForwardBatch \<Rightarrow> nat \<Rightarrow> nat \<Rightarrow> nat \<Rightarrow> int list" where
  \<comment> \<open>the slots of the positions \<open>0..p\<close> of request \<open>r\<close>\<close>
  "past_slots b shift r p = map (\<lambda>q. kv_slot (2 ^ shift) (fb_block_table b ! r) (int q)) [0..<p + 1]"

definition row_of :: "ForwardBatch \<Rightarrow> nat \<Rightarrow> nat \<Rightarrow> nat \<Rightarrow> nat \<Rightarrow> nat \<times> nat \<times> int list" where
  \<comment> \<open>the specification of one row of request \<open>r\<close>\<close>
  "row_of b g shift r row = (let t = starts_of b ! r + row div g in (t, row mod g, past_slots b shift r (row_position b r t)))"

lemma attention_block_eval:
  assumes ok: "attention_batch b g shift" and blk: "block < tile_index (starts_of b) g (nat (fb_num_reqs b))"
  shows "\<exists>r < nat (fb_num_reqs b). tile_index (starts_of b) g r \<le> block \<and> block < tile_index (starts_of b) g (r + 1)
     \<and> attention_block b g shift block = map (row_of b g shift r)
         (filter (\<lambda>row. row < (starts_of b ! (r + 1) - starts_of b ! r) * g)
            (map (\<lambda>y. (block - tile_index (starts_of b) g r) * kBr + y) [0..<kBr]))"
proof -
  let ?q = "starts_of b" and ?n = "nat (fb_num_reqs b)"
  have t: "tiling ?q ?n g" using ok by (simp add: attention_batch_def Let_def)
  have "?n \<noteq> 0"
  proof
    assume "?n = 0"
    then have "tile_index ?q g 0 = 0" using t by (simp add: tile_eval [OF t] tiling_def starts_ok_def)
    then show False using blk \<open>?n = 0\<close> by simp
  qed
  moreover have "tile_index ?q g 0 = 0" using t by (simp add: tile_eval [OF t] tiling_def starts_ok_def)
  ultimately have f: "let r = find_request ?q g block 0 ?n in r < ?n \<and> tile_index ?q g r \<le> block \<and> block < tile_index ?q g (r + 1)"
    using find_request_correct [OF t, of 0 ?n block] blk by (simp add: Let_def)
  define r where "r = find_request ?q g block 0 ?n"
  have r: "r < ?n" "tile_index ?q g r \<le> block" "block < tile_index ?q g (r + 1)" using f by (simp_all add: r_def Let_def)
  let ?len = "?q ! (r + 1) - ?q ! r" and ?s = "(block - tile_index ?q g r) * kBr"
  have own: "?len \<le> nat (fb_seq_lens b ! r)" "table_ok shift (fb_block_table b ! r)"
    "nat (fb_seq_lens b ! r) \<le> length (fb_block_table b ! r) * 2 ^ shift" using ok r(1) by (auto simp: attention_batch_def Let_def)
  have g: "0 < g" using t by (simp add: tiling_def)
  have "?len * g \<le> ?q ! ?n * g" using t r(1) starts_mono [of ?q ?n "r + 1" ?n] by (intro mult_le_mono1) (auto simp: tiling_def)
  then have "?len * g < 2 ^ 32" by (rule le_less_trans) (use t in \<open>simp add: tiling_def\<close>)
  then have rows: "u32 (?len * g) = ?len * g" by (simp only: u32_def mod_less)
  have row: "(?q ! r + (?s + y) div g, (?s + y) mod g, map (\<lambda>p. int (kv_address (fb_block_table b ! r) shift p))
      (visible g (nat (fb_seq_lens b ! r) - ?len) ?s
        (min (nat (fb_seq_lens b ! r)) (nat (fb_seq_lens b ! r) - ?len + (?s + kBr - 1) div g + 1)) y)) = row_of b g shift r (?s + y)"
    if y: "y < kBr" "?s + y < ?len * g" for y
  proof -
    let ?p = "nat (fb_seq_lens b ! r) - ?len + (?s + y) div g"
    have "(?s + y) div g < ?len" using y(2) g by (simp add: less_mult_imp_div_less)
    then have "?p < nat (fb_seq_lens b ! r)" using own(1) by simp
    have "int (kv_address (fb_block_table b ! r) shift p) = kv_slot (2 ^ shift) (fb_block_table b ! r) (int p)" if "p \<in> set [0..<?p + 1]" for p
    proof (rule kv_address_slot [OF own(2)])
      have "p \<le> ?p" using that by auto
      then have "p < length (fb_block_table b ! r) * 2 ^ shift" using \<open>?p < nat (fb_seq_lens b ! r)\<close> own(3) by linarith
      then show "p div 2 ^ shift < length (fb_block_table b ! r)" by (rule less_mult_imp_div_less)
    qed
    then show ?thesis
      unfolding visible_eval [OF g y own(1)] by (simp add: row_of_def Let_def row_position_def past_slots_def del: upt_Suc)
  qed
  have "attention_block b g shift block = map (row_of b g shift r) (map (\<lambda>y. ?s + y) (filter (\<lambda>y. ?s + y < ?len * g) [0..<kBr]))"
  proof (cases "?s \<ge> ?len * g")
    case True
    then show ?thesis by (simp add: attention_block_def Let_def starts_of_def [symmetric] r_def [symmetric] rows rows [unfolded Suc_eq_plus1 [symmetric]] filter_empty_conv)
  next
    case False
    then show ?thesis using row
      by (simp add: attention_block_def Let_def starts_of_def [symmetric] r_def [symmetric] rows rows [unfolded Suc_eq_plus1 [symmetric]])
  qed
  then show ?thesis using r by (auto simp: filter_map comp_def intro!: exI [of _ r])
qed

text \<open>The keys (token, head) a block writes determine the block.\<close>

definition row_key :: "nat \<times> nat \<times> int list \<Rightarrow> nat \<times> nat" where
  "row_key w = (fst w, fst (snd w))"

lemma starts_unique:
  assumes ok: "starts_ok q n" and r: "r < n" "q ! r \<le> t" "t < q ! (r + 1)" and r': "r' < n" "q ! r' \<le> t" "t < q ! (r' + 1)"
  shows "r = r'"
proof (rule ccontr)
  assume "r \<noteq> r'"
  then consider "r + 1 \<le> r'" | "r' + 1 \<le> r" by linarith
  then show False using starts_mono [OF ok, of "r + 1" r'] starts_mono [OF ok, of "r' + 1" r] r r' by cases auto
qed

lemma block_row:
  assumes ok: "attention_batch b g shift" and blk: "block < tile_index (starts_of b) g (nat (fb_num_reqs b))"
    and w: "w \<in> set (attention_block b g shift block)"
  shows "\<exists>r t h. w = (t, h, past_slots b shift r (row_position b r t)) \<and> r < nat (fb_num_reqs b)
     \<and> starts_of b ! r \<le> t \<and> t < starts_of b ! (r + 1) \<and> h < g
     \<and> block = tile_index (starts_of b) g r + ((t - starts_of b ! r) * g + h) div kBr"
proof -
  let ?q = "starts_of b" and ?n = "nat (fb_num_reqs b)"
  have g: "0 < g" using ok by (simp add: attention_batch_def Let_def tiling_def)
  obtain r where r: "r < ?n" "tile_index ?q g r \<le> block" and
    eval: "attention_block b g shift block = map (row_of b g shift r)
         (filter (\<lambda>row. row < (?q ! (r + 1) - ?q ! r) * g) (map (\<lambda>y. (block - tile_index ?q g r) * kBr + y) [0..<kBr]))"
    using attention_block_eval [OF ok blk] by blast
  obtain y where y: "y < kBr" "(block - tile_index ?q g r) * kBr + y < (?q ! (r + 1) - ?q ! r) * g"
    "w = row_of b g shift r ((block - tile_index ?q g r) * kBr + y)"
    using w unfolding eval set_map set_filter set_upt by (elim imageE CollectE conjE) (auto simp only: atLeastLessThan_iff)
  let ?row = "(block - tile_index ?q g r) * kBr + y"
  have "?row div g < ?q ! (r + 1) - ?q ! r" using y(2) g by (simp add: less_mult_imp_div_less)
  moreover have "block = tile_index ?q g r + ?row div kBr" using r(2) y(1) by simp
  ultimately show ?thesis
    using r(1) g by (intro exI [of _ r] exI [of _ "?q ! r + ?row div g"] exI [of _ "?row mod g"]) (simp add: y(3) row_of_def Let_def)
qed

lemma row_block:
  assumes ok: "attention_batch b g shift" and r: "r < nat (fb_num_reqs b)"
    and t: "starts_of b ! r \<le> t" "t < starts_of b ! (r + 1)" and h: "h < g"
  shows "\<exists>block < tile_index (starts_of b) g (nat (fb_num_reqs b)).
     (t, h, past_slots b shift r (row_position b r t)) \<in> set (attention_block b g shift block)"
proof -
  let ?q = "starts_of b" and ?n = "nat (fb_num_reqs b)" and ?row = "(t - starts_of b ! r) * g + h"
  have til: "tiling ?q ?n g" using ok by (simp add: attention_batch_def Let_def)
  have "t - ?q ! r + 1 \<le> ?q ! (r + 1) - ?q ! r" using t by linarith
  then have "(t - ?q ! r + 1) * g \<le> (?q ! (r + 1) - ?q ! r) * g" by (rule mult_le_mono1)
  then have row: "?row < (?q ! (r + 1) - ?q ! r) * g" using h unfolding distrib_right by linarith
  let ?b = "tile_index ?q g r + ?row div kBr"
  have lt: "?b < tile_index ?q g ?n" using row_tile(1) [OF til r row] tile_mono [OF til, of "r + 1" ?n] r by simp
  obtain r' where r': "r' < ?n" "tile_index ?q g r' \<le> ?b" "?b < tile_index ?q g (r' + 1)" and
    eval: "attention_block b g shift ?b = map (row_of b g shift r')
         (filter (\<lambda>row. row < (?q ! (r' + 1) - ?q ! r') * g) (map (\<lambda>y. (?b - tile_index ?q g r') * kBr + y) [0..<kBr]))"
    using attention_block_eval [OF ok lt] by blast
  have "\<not> r' < r" using tile_mono [OF til, of "r' + 1" r] r' r by auto
  moreover have "\<not> r < r'" using tile_mono [OF til, of "r + 1" r'] r' row_tile(1) [OF til r row] by auto
  ultimately have "r' = r" by simp
  have "?row = ?row div kBr * kBr + ?row mod kBr" by simp
  then have "?row \<in> set (filter (\<lambda>row. row < (?q ! (r + 1) - ?q ! r) * g) (map (\<lambda>y. (?b - tile_index ?q g r) * kBr + y) [0..<kBr]))"
    using row by (auto simp: kBr_def intro!: image_eqI [of _ _ "?row mod kBr"])
  then have "row_of b g shift r ?row \<in> set (attention_block b g shift ?b)" unfolding eval \<open>r' = r\<close> by simp
  moreover have "row_of b g shift r ?row = (t, h, past_slots b shift r (row_position b r t))"
    using h t(1) by (simp add: row_of_def Let_def)
  ultimately show ?thesis using lt by auto
qed

lemma distinct_concat_blocks:
  assumes "distinct xs" "\<And>x. x \<in> set xs \<Longrightarrow> distinct (f x)"
    "\<And>x y. x \<in> set xs \<Longrightarrow> y \<in> set xs \<Longrightarrow> x \<noteq> y \<Longrightarrow> set (f x) \<inter> set (f y) = {}"
  shows "distinct (concat (map f xs))"
  using assms
proof (induction xs)
  case (Cons x xs)
  have "set (f x) \<inter> (\<Union>y \<in> set xs. set (f y)) = {}" using Cons.prems(1) Cons.prems(3) [of x] by (auto simp: disjoint_iff)
  moreover have "distinct (concat (map f xs))" using Cons by auto
  ultimately show ?case using Cons.prems(2) [of x] by simp
qed simp

lemma block_keys_distinct:
  assumes ok: "attention_batch b g shift" and blk: "block < tile_index (starts_of b) g (nat (fb_num_reqs b))"
  shows "distinct (map row_key (attention_block b g shift block))"
proof -
  have inj: "inj_on (row_key \<circ> row_of b g shift r) A" for r A
  proof (rule inj_onI)
    fix x y assume "(row_key \<circ> row_of b g shift r) x = (row_key \<circ> row_of b g shift r) y"
    then have "x div g = y div g" "x mod g = y mod g" by (simp_all add: row_key_def row_of_def Let_def)
    then show "x = y" by (metis div_mult_mod_eq)
  qed
  have "distinct (map (\<lambda>y. c + y) [0..<kBr])" for c :: nat by (simp add: distinct_map)
  then have "distinct (filter P (map (\<lambda>y. c + y) [0..<kBr]))" for P and c :: nat by (rule distinct_filter)
  then have "distinct (map (row_key \<circ> row_of b g shift r) (filter P (map (\<lambda>y. c + y) [0..<kBr])))" for P r and c :: nat
    using inj unfolding distinct_map by blast
  then show ?thesis using attention_block_eval [OF ok blk] by auto
qed

lemma grid_tiles:
  assumes "attention_batch b g shift"
  shows "attention_grid b g = tile_index (starts_of b) g (nat (fb_num_reqs b))"
  using assms by (simp add: attention_batch_def attention_grid_def tile_index_def Let_def)

lemma bf16_paged_attention_covers:
  assumes ok: "attention_batch b g shift"
  shows "distinct (map row_key (bf16_paged_attention b g shift)) \<and>
    set (bf16_paged_attention b g shift) = {(t, h, past_slots b shift r (row_position b r t)) | r t h.
      r < nat (fb_num_reqs b) \<and> starts_of b ! r \<le> t \<and> t < starts_of b ! (r + 1) \<and> h < g}"
proof
  let ?q = "starts_of b" and ?n = "nat (fb_num_reqs b)"
  have st: "starts_ok ?q ?n" using ok by (simp add: attention_batch_def Let_def tiling_def)
  note grid = grid_tiles [OF ok]
  show "set (bf16_paged_attention b g shift) = {(t, h, past_slots b shift r (row_position b r t)) | r t h.
      r < ?n \<and> ?q ! r \<le> t \<and> t < ?q ! (r + 1) \<and> h < g}" (is "?L = ?R")
  proof
    show "?L \<subseteq> ?R" unfolding bf16_paged_attention_def grid using block_row [OF ok] by fastforce
    show "?R \<subseteq> ?L" unfolding bf16_paged_attention_def grid using row_block [OF ok] by fastforce
  qed
  have "distinct (concat (map (\<lambda>k. map row_key (attention_block b g shift k)) [0..<attention_grid b g]))"
  proof (rule distinct_concat_blocks)
    fix x y assume x: "x \<in> set [0..<attention_grid b g]" and y: "y \<in> set [0..<attention_grid b g]" and "x \<noteq> y"
    have lt: "x < tile_index ?q g ?n" "y < tile_index ?q g ?n" using x y by (simp_all add: grid)
    have False if wv: "w \<in> set (attention_block b g shift x)" "v \<in> set (attention_block b g shift y)" "row_key w = row_key v" for w v
    proof -
      obtain r t h where w: "w = (t, h, past_slots b shift r (row_position b r t))" "r < ?n" "?q ! r \<le> t" "t < ?q ! (r + 1)"
        "x = tile_index ?q g r + ((t - ?q ! r) * g + h) div kBr" using block_row [OF ok lt(1) wv(1)] by blast
      obtain r' t' h' where v: "v = (t', h', past_slots b shift r' (row_position b r' t'))" "r' < ?n" "?q ! r' \<le> t'" "t' < ?q ! (r' + 1)"
        "y = tile_index ?q g r' + ((t' - ?q ! r') * g + h') div kBr" using block_row [OF ok lt(2) wv(2)] by blast
      have "t' = t" "h' = h" using wv(3) w(1) v(1) by (auto simp: row_key_def)
      then have "r = r'" using starts_unique [OF st w(2-4)] v(2-4) by simp
      then show False using w(5) v(5) \<open>t' = t\<close> \<open>h' = h\<close> \<open>x \<noteq> y\<close> by simp
    qed
    note clash = this
    show "set (map row_key (attention_block b g shift x)) \<inter> set (map row_key (attention_block b g shift y)) = {}"
    proof (rule equals0I, unfold set_map, elim IntE imageE)
      fix k w v assume "k = row_key w" "w \<in> set (attention_block b g shift x)" "k = row_key v" "v \<in> set (attention_block b g shift y)"
      then show False using clash [of w v] by simp
    qed
  qed (auto simp: grid intro: block_keys_distinct [OF ok])
  then show "distinct (map row_key (bf16_paged_attention b g shift))"
    by (simp add: bf16_paged_attention_def map_concat comp_def)
qed



definition head_key :: "nat \<times> nat \<times> nat \<times> int list \<Rightarrow> nat \<times> nat" where
  "head_key w = (fst w, fst (snd w))"

lemma countr_zero_power: "k < 31 \<Longrightarrow> countr_zero (2 ^ k) = Some k"
proof -
  assume k: "k < 31"
  have small: "(2 :: int) ^ i < 2 ^ 32" if "i < 32" for i :: nat using that by (intro power_strict_increasing) auto
  have "((2 :: int) ^ k mod 2 ^ 32 = 2 ^ i) = (i = k)" for i :: nat
    using small [of k] k by (simp add: mod_pos_pos_trivial eq_commute [of i])
  then have "countr_zero (2 ^ k) = find (\<lambda>i. i = k) [0..<32]" by (simp add: countr_zero_def)
  also have "\<dots> = Some k" unfolding find_Some_iff using k by (intro exI [of _ k]) simp
  finally show ?thesis .
qed

lemma launch_covers:
  assumes ok: "attention_batch b g shift"
  shows "distinct (map head_key (launch_paged_attention b kv_heads (kv_heads * g) shift)) \<and>
    set (launch_paged_attention b kv_heads (kv_heads * g) shift) = {(t, h, h div g, past_slots b shift r (row_position b r t)) | r t h.
      r < nat (fb_num_reqs b) \<and> starts_of b ! r \<le> t \<and> t < starts_of b ! (r + 1) \<and> h < kv_heads * g}" (is "_ \<and> _ = ?R")
proof (cases "kv_heads = 0")
  case False
  have g: "0 < g" using ok by (simp add: attention_batch_def Let_def tiling_def)
  let ?w = "\<lambda>k. map (\<lambda>(t, h, slots). (t, k * g + h, k, slots)) (bf16_paged_attention b g shift)"
  note cov = bf16_paged_attention_covers [OF ok]
  have launch: "launch_paged_attention b kv_heads (kv_heads * g) shift = concat (map ?w [0..<kv_heads])"
    using False by (simp add: launch_paged_attention_def Let_def)
  have inw: "\<exists>r t h. w = (t, k * g + h, k, past_slots b shift r (row_position b r t)) \<and> r < nat (fb_num_reqs b)
      \<and> starts_of b ! r \<le> t \<and> t < starts_of b ! (r + 1) \<and> h < g" if "w \<in> set (?w k)" for w k
    using that cov by auto
  have "distinct (concat (map (\<lambda>k. map head_key (?w k)) [0..<kv_heads]))"
  proof (rule distinct_concat_blocks)
    fix k show "distinct (map head_key (?w k))"
    proof -
      have "map head_key (?w k) = map (\<lambda>(t, h). (t, k * g + h)) (map row_key (bf16_paged_attention b g shift))"
        by (simp add: comp_def head_key_def row_key_def case_prod_beta)
      moreover have "inj (\<lambda>(t, h). (t :: nat, k * g + h))" by (auto simp: inj_on_def)
      ultimately show ?thesis using cov by (simp only: distinct_map) (auto intro: inj_on_subset)
    qed
  next
    fix x y :: nat assume "x \<noteq> y"
    show "set (map head_key (?w x)) \<inter> set (map head_key (?w y)) = {}"
    proof (rule equals0I, unfold set_map [of head_key], elim IntE imageE)
      fix key w v assume w: "key = head_key w" "w \<in> set (?w x)" and v: "key = head_key v" "v \<in> set (?w y)"
      obtain t h s where "w = (t, x * g + h, x, s)" "h < g" using inw [OF w(2)] by blast
      moreover obtain t' h' s' where "v = (t', y * g + h', y, s')" "h' < g" using inw [OF v(2)] by blast
      ultimately have "(x * g + h) div g = (y * g + h') div g" "h < g" "h' < g" using w(1) v(1) by (simp_all add: head_key_def)
      then show False using \<open>x \<noteq> y\<close> by simp
    qed
  qed simp
  then have "distinct (map head_key (launch_paged_attention b kv_heads (kv_heads * g) shift))"
    unfolding launch by (simp add: map_concat comp_def)
  moreover have "set (concat (map ?w [0..<kv_heads])) = ?R"
  proof
    show "set (concat (map ?w [0..<kv_heads])) \<subseteq> ?R"
    proof
      fix w assume "w \<in> set (concat (map ?w [0..<kv_heads]))"
      then obtain k where k: "k < kv_heads" "w \<in> set (?w k)" unfolding set_concat set_map [of ?w] by fastforce
      from inw [OF k(2)] obtain r t h where w: "w = (t, k * g + h, k, past_slots b shift r (row_position b r t))" "r < nat (fb_num_reqs b)"
        "starts_of b ! r \<le> t" "t < starts_of b ! (r + 1)" "h < g" by blast
      have "(k + 1) * g \<le> kv_heads * g" using k(1) by (intro mult_le_mono1) simp
      then have "k * g + h < kv_heads * g" using w(5) unfolding distrib_right by linarith
      then show "w \<in> ?R" using w by auto
    qed
    show "?R \<subseteq> set (concat (map ?w [0..<kv_heads]))"
    proof
      fix w assume "w \<in> ?R"
      then obtain r t h where w: "w = (t, h, h div g, past_slots b shift r (row_position b r t))" "r < nat (fb_num_reqs b)"
        "starts_of b ! r \<le> t" "t < starts_of b ! (r + 1)" "h < kv_heads * g" by blast
      have "(t, h mod g, past_slots b shift r (row_position b r t)) \<in> set (bf16_paged_attention b g shift)"
        using cov w(2-4) g by (auto intro: mod_less_divisor)
      then have "(\<lambda>(t, h', slots). (t, h div g * g + h', h div g, slots)) (t, h mod g, past_slots b shift r (row_position b r t)) \<in> set (?w (h div g))"
        unfolding set_map by (rule imageI)
      then have "w \<in> set (?w (h div g))" by (simp add: w(1))
      moreover have "h div g < kv_heads" using w(5) by (simp add: less_mult_imp_div_less)
      moreover have "?w k \<in> set (map ?w [0..<kv_heads])" if "k < kv_heads" for k
        unfolding set_map [of ?w] by (rule imageI) (simp add: that)
      ultimately have "?w (h div g) \<in> set (map ?w [0..<kv_heads])" "w \<in> set (?w (h div g))" by blast+
      then show "w \<in> set (concat (map ?w [0..<kv_heads]))" unfolding set_concat by (rule UN_I)
    qed
  qed
  ultimately show ?thesis unfolding launch by blast
qed (simp add: launch_paged_attention_def)

text \<open>
  C27: For a block size that is a power of two and a supported head dimension, the grid of the
  attention kernel covers the batch exactly: every (token, query head) is computed by exactly one
  thread block, from the KV head of its group, and its softmax runs over exactly the positions 0
  up to the token's own, read at the slots the block table gives them; a row never attends a
  later token nor another request.
\<close>

theorem attention_covers:
  assumes "attention_batch b g shift" "shift < 31" "dim = 64 \<or> dim = 128"
  shows "\<exists>writes. paged_attention b kv_heads dim (kv_heads * g * dim) (2 ^ shift) = Inr writes \<and> distinct (map head_key writes)
    \<and> set writes = {(t, h, h div g, past_slots b shift r (row_position b r t)) | r t h.
      r < nat (fb_num_reqs b) \<and> starts_of b ! r \<le> t \<and> t < starts_of b ! (r + 1) \<and> h < kv_heads * g}"
proof -
  have "paged_attention b kv_heads dim (kv_heads * g * dim) (2 ^ shift) = Inr (launch_paged_attention b kv_heads (kv_heads * g) shift)"
    using assms(3) by (auto simp: paged_attention_def countr_zero_power [OF assms(2)])
  then show ?thesis using launch_covers [OF assms(1), of kv_heads] by simp
qed

definition two_requests :: ForwardBatch where
  \<comment> \<open>a decode of position 5 and a chunk of three prompt tokens, blocks of 4 slots\<close>
  "two_requests = \<lparr>fb_token_ids = [7, 1, 2, 3], fb_positions = [5, 0, 1, 2], fb_slot_mapping = [9, 12, 13, 14],
     fb_query_start_loc = [0, 1, 4], fb_seq_lens = [6, 3], fb_block_table = [[1, 2], [3, 0]], fb_logits_indices = [0, 3],
     fb_sample_params = [], fb_num_tokens_device = 4, fb_block_table_stride = 2, fb_num_tokens = 4, fb_num_reqs = 2,
     fb_num_sampling_reqs = 2, fb_max_query_len = 3, fb_max_seq_len = 6\<rparr>"

lemma two_requests_ok: "attention_batch two_requests 2 2"
  by (simp add: attention_batch_def Let_def starts_of_def two_requests_def tiling_def starts_ok_def table_ok_def
      All_less_Suc [where n = 1, unfolded Suc_1 One_nat_def [symmetric]])

theorem attention_covers_witness:
  "\<exists>writes. paged_attention two_requests 2 64 256 4 = Inr writes \<and> (0, 3, 1, [4, 5, 6, 7, 8, 9]) \<in> set writes"
proof -
  have "past_slots two_requests 2 0 (row_position two_requests 0 0) = [4, 5, 6, 7, 8, 9]"
    by (simp add: past_slots_def row_position_def two_requests_def starts_of_def kv_slot_def upt_rec)
  moreover have "0 < nat (fb_num_reqs two_requests)" "starts_of two_requests ! 0 \<le> 0" "0 < starts_of two_requests ! (0 + 1)"
    by (simp_all add: two_requests_def starts_of_def)
  moreover obtain writes where w: "paged_attention two_requests 2 64 256 4 = Inr writes"
      "set writes = {(t, h, h div 2, past_slots two_requests 2 r (row_position two_requests r t)) | r t h.
      r < nat (fb_num_reqs two_requests) \<and> starts_of two_requests ! r \<le> t \<and> t < starts_of two_requests ! (r + 1) \<and> h < 2 * 2}"
    using attention_covers [OF two_requests_ok, of 64 2] by auto
  moreover have "3 < (2 :: nat) * 2" "1 = (3 :: nat) div 2" by simp_all
  ultimately have "(0, 3, 1, [4, 5, 6, 7, 8, 9]) \<in> set writes"
    unfolding w(2) by (intro CollectI exI [of _ 0] exI [of _ "0 :: nat"] exI [of _ "3 :: nat"]) simp
  then show ?thesis using w(1) by blast
qed

end
