(* ===== verification/Device.thy ===== *)
theory Device
  imports Runner_Contract Graph_Properties Paged_Attention
begin

text \<open>
  What the stream of operations that the model runner submits computes. The arithmetic of the
  kernels is a parameter, \<open>Kernels\<close>: one function per kernel on the vectors of a row. The memory
  of the device is \<open>Gpu\<close>; a launch reads and writes the buffers of csrc/executor/workspace.h that
  the calls in csrc/model/ and csrc/executor/model_runner.cpp pass to it, on the rows of its
  views, and the attention launch writes the rows and reads the slots of \<open>paged_attention\<close>.
  The reference is the decoder on one sequence alone, without cache, batch or padding:
  \<open>residual_of\<close> and \<open>logits_of\<close>.
\<close>

record 'v Kernels =
  k_zero :: 'v
  k_embed :: "int \<Rightarrow> 'v"
  k_input_norm :: "int \<Rightarrow> 'v \<Rightarrow> 'v"
  k_qkv :: "int \<Rightarrow> 'v \<Rightarrow> 'v"
  k_qk_norm_rope :: "int \<Rightarrow> int \<Rightarrow> 'v \<Rightarrow> 'v"  \<comment> \<open>layer, position\<close>
  k_rope :: "int \<Rightarrow> 'v \<Rightarrow> 'v"
  k_attend :: "nat \<Rightarrow> nat \<Rightarrow> 'v \<Rightarrow> 'v list \<Rightarrow> 'v"  \<comment> \<open>query head, KV head, the row, the cached rows it attends\<close>
  k_out :: "int \<Rightarrow> 'v list \<Rightarrow> 'v"
  k_post_norm :: "int \<Rightarrow> 'v \<Rightarrow> 'v \<Rightarrow> 'v \<times> 'v"  \<comment> \<open>new hidden and residual\<close>
  k_gate_up :: "int \<Rightarrow> 'v \<Rightarrow> 'v"
  k_swiglu :: "'v \<Rightarrow> 'v"
  k_down :: "int \<Rightarrow> 'v \<Rightarrow> 'v"
  k_router :: "int \<Rightarrow> 'v \<Rightarrow> 'v"
  k_topk :: "'v \<Rightarrow> 'v"
  k_add :: "'v \<Rightarrow> 'v \<Rightarrow> 'v"
  k_final_norm :: "'v \<Rightarrow> 'v"
  k_lm_head :: "'v \<Rightarrow> 'v"
  k_sample :: "SampleParams \<Rightarrow> 64 word \<Rightarrow> 'v \<Rightarrow> int"  \<comment> \<open>parameters, random stream, logits\<close>

record 'v Gpu =
  g_batch :: ForwardBatch
  g_layer :: int  \<comment> \<open>the layer whose feed-forward weights the next launches take\<close>
  g_hidden :: "nat \<Rightarrow> 'v"
  g_residual :: "nat \<Rightarrow> 'v"
  g_qkv :: "nat \<Rightarrow> 'v"
  g_attn :: "nat \<Rightarrow> nat \<Rightarrow> 'v"
  g_gate_up :: "nat \<Rightarrow> 'v"
  g_router :: "nat \<Rightarrow> 'v"
  g_topk :: "nat \<Rightarrow> 'v"
  g_pool :: "int \<Rightarrow> int \<Rightarrow> 'v"  \<comment> \<open>the cached key and value of a layer in a slot\<close>
  g_sampling :: "nat \<Rightarrow> 'v"
  g_logits :: "nat \<Rightarrow> 'v"
  g_sampled :: "nat \<Rightarrow> int"
  g_pinned :: "nat \<Rightarrow> int"

definition on_rows :: "int \<Rightarrow> (nat \<Rightarrow> 'a) \<Rightarrow> (nat \<Rightarrow> 'a) \<Rightarrow> nat \<Rightarrow> 'a" where
  \<comment> \<open>a kernel on the first rows of a buffer\<close>
  "on_rows rows f a = (\<lambda>i. if int i < rows then f i else a i)"

definition store_rows :: "int list \<Rightarrow> (nat \<Rightarrow> 'v) \<Rightarrow> nat \<Rightarrow> (int \<Rightarrow> 'v) \<Rightarrow> int \<Rightarrow> 'v" where
  \<comment> \<open>the first \<open>n\<close> rows that have a slot are stored there\<close>
  "store_rows mapping rows n = fold (\<lambda>i cache. if mapping ! i < 0 then cache else cache(mapping ! i := rows i)) [0..<n]"

definition head_rows :: "'v Kernels \<Rightarrow> (nat \<Rightarrow> 'v) \<Rightarrow> (int \<Rightarrow> 'v) \<Rightarrow> (nat \<times> nat \<times> nat \<times> int list) list \<Rightarrow> (nat \<Rightarrow> nat \<Rightarrow> 'v) \<Rightarrow> nat \<Rightarrow> nat \<Rightarrow> 'v" where
  "head_rows K rows cache = fold (\<lambda>(t, h, k, slots) out. out(t := (out t)(h := k_attend K h k (rows t) (map cache slots))))"

fun launch_effect :: "'v Kernels \<Rightarrow> ModelConfig \<Rightarrow> int \<Rightarrow> Launch \<Rightarrow> int \<Rightarrow> 'v Gpu \<Rightarrow> 'v Gpu" where
  "launch_effect K mc bs EmbedTokens rows g = g\<lparr>g_residual := on_rows rows (\<lambda>i. k_embed K (fb_token_ids (g_batch g) ! i)) (g_residual g)\<rparr>"
| "launch_effect K mc bs (InputNorm l) rows g = g\<lparr>g_hidden := on_rows rows (\<lambda>i. k_input_norm K l (g_residual g i)) (g_hidden g)\<rparr>"
| "launch_effect K mc bs (QkvProjection l) rows g = g\<lparr>g_qkv := on_rows rows (\<lambda>i. k_qkv K l (g_hidden g i)) (g_qkv g)\<rparr>"
| "launch_effect K mc bs (QkNormRope l) rows g =
     g\<lparr>g_qkv := on_rows rows (\<lambda>i. k_qk_norm_rope K l (fb_positions (g_batch g) ! i) (g_qkv g i)) (g_qkv g)\<rparr>"
| "launch_effect K mc bs (Rope l) rows g = g\<lparr>g_qkv := on_rows rows (\<lambda>i. k_rope K (fb_positions (g_batch g) ! i) (g_qkv g i)) (g_qkv g)\<rparr>"
| "launch_effect K mc bs (KvCacheUpdate l) rows g =
     g\<lparr>g_pool := (g_pool g)(l := store_rows (fb_slot_mapping (g_batch g)) (g_qkv g) (nat rows) (g_pool g l))\<rparr>"
| "launch_effect K mc bs (PagedAttention l) rows g =
     (case paged_attention (g_batch g) (nat (num_kv_heads mc)) (nat (head_dim mc)) (nat (num_attention_heads mc * head_dim mc)) bs of
        Inl _ \<Rightarrow> g
      | Inr writes \<Rightarrow> g\<lparr>g_attn := head_rows K (g_qkv g) (g_pool g l) writes (g_attn g)\<rparr>)"
| "launch_effect K mc bs (OutProjection l) rows g =
     g\<lparr>g_hidden := on_rows rows (\<lambda>i. k_out K l (map (g_attn g i) [0..<nat (num_attention_heads mc)])) (g_hidden g)\<rparr>"
| "launch_effect K mc bs (PostAttentionNorm l) rows g =
     g\<lparr>g_layer := l, g_hidden := on_rows rows (\<lambda>i. fst (k_post_norm K l (g_hidden g i) (g_residual g i))) (g_hidden g),
       g_residual := on_rows rows (\<lambda>i. snd (k_post_norm K l (g_hidden g i) (g_residual g i))) (g_residual g)\<rparr>"
| "launch_effect K mc bs GateUpProjection rows g = g\<lparr>g_gate_up := on_rows rows (\<lambda>i. k_gate_up K (g_layer g) (g_hidden g i)) (g_gate_up g)\<rparr>"
| "launch_effect K mc bs SwiGlu rows g = g\<lparr>g_gate_up := on_rows rows (\<lambda>i. k_swiglu K (g_gate_up g i)) (g_gate_up g)\<rparr>"
| "launch_effect K mc bs DownProjection rows g = g\<lparr>g_hidden := on_rows rows (\<lambda>i. k_down K (g_layer g) (g_gate_up g i)) (g_hidden g)\<rparr>"
| "launch_effect K mc bs RouterProjection rows g = g\<lparr>g_router := on_rows rows (\<lambda>i. k_router K (g_layer g) (g_hidden g i)) (g_router g)\<rparr>"
| "launch_effect K mc bs TopkGatingSoftmax rows g = g\<lparr>g_topk := on_rows rows (\<lambda>i. k_topk K (g_router g i)) (g_topk g)\<rparr>"
| "launch_effect K mc bs ResidualAdd rows g = g\<lparr>g_residual := on_rows rows (\<lambda>i. k_add K (g_hidden g i) (g_residual g i)) (g_residual g)\<rparr>"
| "launch_effect K mc bs GatherSampling rows g =
     g\<lparr>g_sampling := on_rows rows (\<lambda>j. g_residual g (nat (fb_logits_indices (g_batch g) ! j))) (g_sampling g)\<rparr>"
| "launch_effect K mc bs FinalNorm rows g = g\<lparr>g_sampling := on_rows rows (\<lambda>j. k_final_norm K (g_sampling g j)) (g_sampling g)\<rparr>"
| "launch_effect K mc bs LmHeadProjection rows g = g\<lparr>g_logits := on_rows rows (\<lambda>j. k_lm_head K (g_sampling g j)) (g_logits g)\<rparr>"

fun stream_effect :: "'v Kernels \<Rightarrow> ModelConfig \<Rightarrow> int \<Rightarrow> StreamOp \<Rightarrow> 'v Gpu \<Rightarrow> 'v Gpu" where
  "stream_effect K mc bs (UploadBatch b) g = g\<lparr>g_batch := b\<rparr>"
| "stream_effect K mc bs ZeroWorkspace g =
     (let z = (\<lambda>_. k_zero K) in g\<lparr>g_hidden := z, g_residual := z, g_qkv := z, g_attn := (\<lambda>_. z), g_gate_up := z, g_router := z, g_topk := z,
        g_sampling := z, g_logits := z\<rparr>)"
| "stream_effect K mc bs (KernelOp l rows) g = launch_effect K mc bs l rows g"
| "stream_effect K mc bs (SampleOp n offset) g =
     g\<lparr>g_sampled := on_rows (int n) (\<lambda>j. k_sample K (fb_sample_params (g_batch g) ! j) (offset + of_nat j) (g_logits g j)) (g_sampled g)\<rparr>"
| "stream_effect K mc bs (DownloadOp n) g = g\<lparr>g_pinned := on_rows n (g_sampled g) (g_pinned g)\<rparr>"

definition gpu_after :: "'v Kernels \<Rightarrow> ModelConfig \<Rightarrow> int \<Rightarrow> 'v Gpu \<Rightarrow> StreamOp list \<Rightarrow> 'v Gpu" where
  "gpu_after K mc bs g ops = fold (stream_effect K mc bs) ops g"

definition gpu :: "'v Kernels \<Rightarrow> ModelConfig \<Rightarrow> int \<Rightarrow> 'v Gpu \<Rightarrow> StreamOp list \<Rightarrow> nat \<Rightarrow> int" where
  \<comment> \<open>the device the runner sees: the pinned buffer after a stream has run\<close>
  "gpu K mc bs g ops = g_pinned (gpu_after K mc bs g ops)"

subsection \<open>The reference\<close>

definition qkv_of :: "'v Kernels \<Rightarrow> CausalLM \<Rightarrow> nat \<Rightarrow> int \<Rightarrow> 'v \<Rightarrow> 'v" where
  \<comment> \<open>the row of a token at a position in layer \<open>l\<close>, from its residual\<close>
  "qkv_of K m l pos x = (let v = k_qkv K (int l) (k_input_norm K (int l) x) in
     if qk_norm_data (dl_attn (lm_layers m ! l)) \<noteq> None then k_qk_norm_rope K (int l) pos v else k_rope K pos v)"

definition ffn_of :: "'v Kernels \<Rightarrow> CausalLM \<Rightarrow> nat \<Rightarrow> 'v \<Rightarrow> 'v" where
  "ffn_of K m l h = (case dl_ffn (lm_layers m ! l) of
       Dense _ \<Rightarrow> k_down K (int l) (k_swiglu K (k_gate_up K (int l) h)) | Sparse _ \<Rightarrow> h)"

definition attend_of :: "'v Kernels \<Rightarrow> ModelConfig \<Rightarrow> 'v \<Rightarrow> 'v list \<Rightarrow> 'v list" where
  \<comment> \<open>all heads of a row\<close>
  "attend_of K mc x kvs = (let n = nat (num_attention_heads mc); g = n div nat (num_kv_heads mc) in
     map (\<lambda>h. k_attend K h (h div g) x kvs) [0..<n])"

definition layer_of :: "'v Kernels \<Rightarrow> CausalLM \<Rightarrow> nat \<Rightarrow> 'v \<Rightarrow> 'v list \<Rightarrow> 'v \<Rightarrow> 'v" where
  "layer_of K m l row kvs x = (case k_post_norm K (int l) (k_out K (int l) (attend_of K (lm_config m) row kvs)) x of
     (h, y) \<Rightarrow> k_add K (ffn_of K m l h) y)"

primrec residual_of :: "'v Kernels \<Rightarrow> CausalLM \<Rightarrow> nat \<Rightarrow> int list \<Rightarrow> 'v" where
  \<comment> \<open>the residual of the last token of a sequence before layer \<open>l\<close>\<close>
  "residual_of K m 0 ts = k_embed K (last ts)"
| "residual_of K m (Suc l) ts = layer_of K m l (qkv_of K m l (int (length ts) - 1) (residual_of K m l ts))
     (map (\<lambda>q. qkv_of K m l (int q) (residual_of K m l (take (Suc q) ts))) [0..<length ts]) (residual_of K m l ts)"

definition logits_of :: "'v Kernels \<Rightarrow> CausalLM \<Rightarrow> int list \<Rightarrow> 'v" where
  "logits_of K m ts = k_lm_head K (k_final_norm K (residual_of K m (num_layers m) ts))"

definition cached_of :: "'v Kernels \<Rightarrow> CausalLM \<Rightarrow> nat \<Rightarrow> int list \<Rightarrow> 'v" where
  \<comment> \<open>what the cache of layer \<open>l\<close> holds for the last token of a sequence\<close>
  "cached_of K m l ts = qkv_of K m l (int (length ts) - 1) (residual_of K m l ts)"

definition slot_good :: "'v Kernels \<Rightarrow> CausalLM \<Rightarrow> (int \<Rightarrow> int \<Rightarrow> 'v) \<Rightarrow> int \<Rightarrow> int list \<Rightarrow> bool" where
  "slot_good K m cache x ts \<longleftrightarrow> (\<forall>l < num_layers m. cache (int l) x = cached_of K m l ts)"

subsection \<open>The cache and the heads\<close>

lemma store_rows_other: "(\<And>u. u < n \<Longrightarrow> 0 \<le> mapping ! u \<Longrightarrow> mapping ! u \<noteq> x) \<Longrightarrow> store_rows mapping rows n cache x = cache x"
proof (induction n)
  case (Suc n)
  moreover have "mapping ! n < 0 \<or> mapping ! n \<noteq> x" using Suc.prems [of n] by force
  ultimately show ?case by (auto simp: store_rows_def)
qed (simp add: store_rows_def)

lemma store_rows_row:
  assumes "u < n" "0 \<le> mapping ! u" "\<And>i. i < n \<Longrightarrow> 0 \<le> mapping ! i \<Longrightarrow> mapping ! i = mapping ! u \<Longrightarrow> i = u"
  shows "store_rows mapping rows n cache (mapping ! u) = rows u"
  using assms
proof (induction n)
  case (Suc n)
  have step: "store_rows mapping rows (Suc n) cache = (let c = store_rows mapping rows n cache in
      if mapping ! n < 0 then c else c(mapping ! n := rows n))" by (simp add: store_rows_def Let_def)
  show ?case
  proof (cases "u = n")
    case True
    then show ?thesis using Suc.prems(2) by (simp add: step Let_def)
  next
    case False
    then have "u < n" using Suc.prems(1) by simp
    moreover have "mapping ! n \<noteq> mapping ! u \<or> mapping ! n < 0" using Suc.prems(3) [of n] False by force
    ultimately show ?thesis using Suc.IH Suc.prems(2,3) by (auto simp: step Let_def)
  qed
qed simp

lemma head_rows_other: "(t, h) \<notin> head_key ` set ws \<Longrightarrow> head_rows K rows cache ws out t h = out t h"
proof (induction ws arbitrary: out)
  case (Cons w ws)
  obtain t' h' k slots where w: "w = (t', h', k, slots)" by (cases w) auto
  have "(t, h) \<noteq> (t', h')" using Cons.prems by (auto simp: w head_key_def)
  then show ?case using Cons by (auto simp: head_rows_def w)
qed (simp add: head_rows_def)

lemma head_rows_row:
  assumes "distinct (map head_key ws)" "(t, h, k, slots) \<in> set ws"
  shows "head_rows K rows cache ws out t h = k_attend K h k (rows t) (map cache slots)"
  using assms
proof (induction ws arbitrary: out)
  case (Cons w ws)
  have step: "head_rows K rows cache (w # ws) out = head_rows K rows cache ws (head_rows K rows cache [w] out)"
    by (simp add: head_rows_def)
  show ?case
  proof (cases "w = (t, h, k, slots)")
    case True
    then have "(t, h) \<notin> head_key ` set ws" using Cons.prems(1) by (auto simp: head_key_def)
    then have "head_rows K rows cache (w # ws) out t h = head_rows K rows cache [w] out t h" unfolding step by (rule head_rows_other)
    then show ?thesis by (simp add: True head_rows_def)
  next
    case False
    then show ?thesis using Cons.IH Cons.prems unfolding step by simp
  qed
qed simp

subsection \<open>One layer\<close>

definition run_launches :: "'v Kernels \<Rightarrow> ModelConfig \<Rightarrow> int \<Rightarrow> Launches \<Rightarrow> 'v Gpu \<Rightarrow> 'v Gpu" where
  "run_launches K mc bs = fold (\<lambda>(l, rows). launch_effect K mc bs l rows)"

lemma run_launches_simps [simp]:
  "run_launches K mc bs [] g = g"
  "run_launches K mc bs ((l, rows) # ls) g = run_launches K mc bs ls (launch_effect K mc bs l rows g)"
  "run_launches K mc bs (xs @ ys) g = run_launches K mc bs ys (run_launches K mc bs xs g)"
  by (simp_all add: run_launches_def)

definition slots_ok :: "ForwardBatch \<Rightarrow> nat \<Rightarrow> int \<Rightarrow> bool" where
  \<comment> \<open>the first \<open>n\<close> rows have slots of their own, the padding has none\<close>
  "slots_ok b n rows \<longleftrightarrow> int n \<le> rows \<and> (\<forall>t < nat rows. t < n \<longleftrightarrow> 0 \<le> fb_slot_mapping b ! t)
     \<and> inj_on ((!) (fb_slot_mapping b)) {..<n}"

definition rows_ok :: "ForwardBatch \<Rightarrow> nat \<Rightarrow> (nat \<Rightarrow> int list) \<Rightarrow> bool" where
  \<comment> \<open>row \<open>t\<close> is the last token of the prefix \<open>pre t\<close>\<close>
  "rows_ok b n pre \<longleftrightarrow> (\<forall>t < n. pre t \<noteq> [] \<and> fb_token_ids b ! t = last (pre t) \<and> fb_positions b ! t = int (length (pre t)) - 1)"

definition heads_ok :: "ModelConfig \<Rightarrow> int \<Rightarrow> ForwardBatch \<Rightarrow> nat \<Rightarrow> (nat \<Rightarrow> int list) \<Rightarrow> bool" where
  \<comment> \<open>the attention launch computes every head of the rows, row \<open>t\<close> over the slots \<open>past t\<close>\<close>
  "heads_ok mc bs b n past \<longleftrightarrow> (\<exists>ws. paged_attention b (nat (num_kv_heads mc)) (nat (head_dim mc)) (nat (num_attention_heads mc * head_dim mc)) bs = Inr ws
     \<and> distinct (map head_key ws)
     \<and> (\<forall>t < n. \<forall>h < nat (num_attention_heads mc). (t, h, h div (nat (num_attention_heads mc) div nat (num_kv_heads mc)), past t) \<in> set ws))"

lemma pre_effect:
  fixes K :: "'v Kernels" and mc :: ModelConfig and bs :: int and m :: CausalLM and l :: nat and r :: int and g :: "'v Gpu"
  assumes rows: "rows_ok b n pre" and slots: "slots_ok b n r" and g: "g_batch g = b"
    and res: "\<forall>t < n. g_residual g t = x t"
  defines "g' \<equiv> run_launches K mc bs (pre_of m r l) g"
  shows "g_batch g' = b" "g_residual g' = g_residual g"
    and "t < n \<Longrightarrow> g_qkv g' t = qkv_of K m l (int (length (pre t)) - 1) (x t)"
    and "t < n \<Longrightarrow> g_pool g' (int l) (fb_slot_mapping b ! t) = qkv_of K m l (int (length (pre t)) - 1) (x t)"
    and "k \<noteq> int l \<or> (\<forall>t < n. fb_slot_mapping b ! t \<noteq> y) \<Longrightarrow> g_pool g' k y = g_pool g k y"
proof -
  have n: "int n \<le> r" and pad: "\<And>t. t < nat r \<Longrightarrow> t < n \<longleftrightarrow> 0 \<le> fb_slot_mapping b ! t"
    and inj: "\<And>t u. t < n \<Longrightarrow> u < n \<Longrightarrow> fb_slot_mapping b ! t = fb_slot_mapping b ! u \<Longrightarrow> t = u"
    using slots by (auto simp: slots_ok_def inj_on_def)
  show "g_batch g' = b" "g_residual g' = g_residual g" by (simp_all add: g'_def pre_of_def g)
  have q: "g_qkv g' t = qkv_of K m l (int (length (pre t)) - 1) (x t)" if "t < n" for t
    using that n rows res by (simp add: g'_def pre_of_def g on_rows_def qkv_of_def rows_ok_def Let_def)
  then show "t < n \<Longrightarrow> g_qkv g' t = qkv_of K m l (int (length (pre t)) - 1) (x t)" .
  have p: "g_pool g' = (g_pool g)(int l := store_rows (fb_slot_mapping b) (g_qkv g') (nat r) (g_pool g (int l)))"
    by (simp add: g'_def pre_of_def g)
  show "g_pool g' (int l) (fb_slot_mapping b ! t) = qkv_of K m l (int (length (pre t)) - 1) (x t)" if t: "t < n"
  proof -
    have "store_rows (fb_slot_mapping b) (g_qkv g') (nat r) (g_pool g (int l)) (fb_slot_mapping b ! t) = g_qkv g' t"
    proof (rule store_rows_row)
      show r: "t < nat r" using t n by linarith
      show "0 \<le> fb_slot_mapping b ! t" using pad [OF r] t by simp
      show "i = t" if "i < nat r" "0 \<le> fb_slot_mapping b ! i" "fb_slot_mapping b ! i = fb_slot_mapping b ! t" for i
        using inj [of i t] pad [OF that(1)] that(2,3) t by simp
    qed
    then show ?thesis using q [OF t] by (simp add: p)
  qed
  show "g_pool g' k y = g_pool g k y" if "k \<noteq> int l \<or> (\<forall>t < n. fb_slot_mapping b ! t \<noteq> y)"
  proof (cases "k = int l")
    case True
    have "store_rows (fb_slot_mapping b) (g_qkv g') (nat r) (g_pool g (int l)) y = g_pool g (int l) y"
      by (rule store_rows_other) (use that True pad in auto)
    then show ?thesis by (simp add: p True)
  qed (simp add: p)
qed

lemma attn_effect:
  fixes K :: "'v Kernels" and mc :: ModelConfig and bs :: int and m :: CausalLM and l :: nat and r :: int and g :: "'v Gpu"
  assumes heads: "heads_ok mc bs b n past" and g: "g_batch g = b"
  defines "g' \<equiv> run_launches K mc bs (attn_of m r l) g"
  shows "g_batch g' = b" "g_residual g' = g_residual g" "g_pool g' = g_pool g"
    and "t < n \<Longrightarrow> map (g_attn g' t) [0..<nat (num_attention_heads mc)] = attend_of K mc (g_qkv g t) (map (g_pool g (int l)) (past t))"
proof -
  obtain ws where ws: "paged_attention b (nat (num_kv_heads mc)) (nat (head_dim mc)) (nat (num_attention_heads mc * head_dim mc)) bs = Inr ws"
     "distinct (map head_key ws)"
     "\<And>t h. t < n \<Longrightarrow> h < nat (num_attention_heads mc) \<Longrightarrow> (t, h, h div (nat (num_attention_heads mc) div nat (num_kv_heads mc)), past t) \<in> set ws"
    using heads by (auto simp: heads_ok_def)
  have g': "g' = g\<lparr>g_attn := head_rows K (g_qkv g) (g_pool g (int l)) ws (g_attn g)\<rparr>" by (simp add: g'_def attn_of_def g ws(1))
  show "g_batch g' = b" "g_residual g' = g_residual g" "g_pool g' = g_pool g" by (simp_all add: g' g)
  show "map (g_attn g' t) [0..<nat (num_attention_heads mc)] = attend_of K mc (g_qkv g t) (map (g_pool g (int l)) (past t))" if "t < n"
    unfolding attend_of_def Let_def
    by (rule map_cong [OF refl]) (use that head_rows_row [OF ws(2) ws(3)] in \<open>simp add: g'\<close>)
qed

lemma post_effect:
  fixes K :: "'v Kernels" and mc :: ModelConfig and bs :: int and m :: CausalLM and l :: nat and r :: int and g :: "'v Gpu"
  assumes n: "int n \<le> r" and mc: "mc = lm_config m"
    and t: "t < (n :: nat)" "map (g_attn g t) [0..<nat (num_attention_heads mc)] = attend_of K mc row kvs"
  defines "g' \<equiv> run_launches K mc bs (post_of m r l) g"
  shows "g_batch g' = g_batch g" "g_pool g' = g_pool g" "at_layer (dl_attn (lm_layers m ! l)) = int l \<Longrightarrow> g_residual g' t = layer_of K m l row kvs (g_residual g t)"
proof -
  have t': "int t < r" using t n by simp
  show "g_batch g' = g_batch g" "g_pool g' = g_pool g"
    by (cases "dl_ffn (lm_layers m ! l)"; simp add: g'_def post_of_def attention_project_def)+
  show "g_residual g' t = layer_of K m l row kvs (g_residual g t)" if "at_layer (dl_attn (lm_layers m ! l)) = int l"
    using t t' that mc by (cases "dl_ffn (lm_layers m ! l)")
      (simp_all add: g'_def post_of_def attention_project_def on_rows_def layer_of_def ffn_of_def case_prod_beta)
qed

subsection \<open>The forward pass\<close>

definition past_ok :: "'v Kernels \<Rightarrow> CausalLM \<Rightarrow> (int \<Rightarrow> int \<Rightarrow> 'v) \<Rightarrow> ForwardBatch \<Rightarrow> nat \<Rightarrow> (nat \<Rightarrow> int list) \<Rightarrow> (nat \<Rightarrow> int list) \<Rightarrow> bool" where
  \<comment> \<open>every token a row attends is written by a row of the batch or has been cached before\<close>
  "past_ok K m cache b n pre past \<longleftrightarrow> (\<forall>t < n. length (past t) = length (pre t) \<and> (\<forall>q < length (pre t).
       (\<exists>u < n. fb_slot_mapping b ! u = past t ! q \<and> pre u = take (Suc q) (pre t))
     \<or> (\<forall>u < n. fb_slot_mapping b ! u \<noteq> past t ! q) \<and> slot_good K m cache (past t ! q) (take (Suc q) (pre t))))"

definition layers_done :: "'v Kernels \<Rightarrow> CausalLM \<Rightarrow> (int \<Rightarrow> int \<Rightarrow> 'v) \<Rightarrow> ForwardBatch \<Rightarrow> nat \<Rightarrow> (nat \<Rightarrow> int list) \<Rightarrow> nat \<Rightarrow> 'v Gpu \<Rightarrow> bool" where
  \<comment> \<open>the memory after the first \<open>l\<close> layers\<close>
  "layers_done K m cache b n pre l g \<longleftrightarrow> g_batch g = b \<and> (\<forall>t < n. g_residual g t = residual_of K m l (pre t))
     \<and> (\<forall>k < l. \<forall>t < n. g_pool g (int k) (fb_slot_mapping b ! t) = cached_of K m k (pre t))
     \<and> (\<forall>k x. int l \<le> k \<or> (\<forall>t < n. fb_slot_mapping b ! t \<noteq> x) \<longrightarrow> g_pool g k x = cache k x)"

lemma cached_row: "q < length ts \<Longrightarrow> cached_of K m l (take (Suc q) ts) = qkv_of K m l (int q) (residual_of K m l (take (Suc q) ts))"
  by (simp add: cached_of_def)

lemma layer_step:
  assumes rows: "rows_ok b n pre" and slots: "slots_ok b n r" and heads: "heads_ok (lm_config m) bs b n past"
    and past: "past_ok K m cache b n pre past" and m: "model_ok m" "l < num_layers m"
    and inv: "layers_done K m cache b n pre l g"
  shows "layers_done K m cache b n pre (Suc l) (run_launches K (lm_config m) bs (pre_of m r l @ attn_of m r' l @ post_of m r l) g)"
proof -
  let ?mc = "lm_config m"
  define g1 where "g1 = run_launches K ?mc bs (pre_of m r l) g"
  define g2 where "g2 = run_launches K ?mc bs (attn_of m r' l) g1"
  define g3 where "g3 = run_launches K ?mc bs (post_of m r l) g2"
  have g: "g_batch g = b" "\<forall>t < n. g_residual g t = residual_of K m l (pre t)"
    "\<And>k t. k < l \<Longrightarrow> t < n \<Longrightarrow> g_pool g (int k) (fb_slot_mapping b ! t) = cached_of K m k (pre t)"
    "\<And>k x. int l \<le> k \<or> (\<forall>t < n. fb_slot_mapping b ! t \<noteq> x) \<Longrightarrow> g_pool g k x = cache k x"
    using inv unfolding layers_done_def by blast+
  note e1 = pre_effect [OF rows slots g(1,2), where K = K and mc = ?mc and bs = bs and m = m and l = l, folded g1_def]
  note e2 = attn_effect [OF heads e1(1), where K = K and m = m and r = r' and l = l, folded g2_def]
  have n: "int n \<le> r" using slots by (simp add: slots_ok_def)
  have at: "at_layer (dl_attn (lm_layers m ! l)) = int l" using m by (simp add: model_ok_def)
  have kvs: "map (g_pool g1 (int l)) (past t) = map (\<lambda>q. qkv_of K m l (int q) (residual_of K m l (take (Suc q) (pre t)))) [0..<length (pre t)]"
    if t: "t < n" for t
  proof (rule nth_equalityI)
    have len: "length (past t) = length (pre t)" using past t by (simp add: past_ok_def)
    then show "length (map (g_pool g1 (int l)) (past t)) = length (map (\<lambda>q. qkv_of K m l (int q) (residual_of K m l (take (Suc q) (pre t)))) [0..<length (pre t)])"
      by simp
    fix q assume "q < length (map (g_pool g1 (int l)) (past t))"
    then have q: "q < length (pre t)" by (simp add: len)
    have "g_pool g1 (int l) (past t ! q) = cached_of K m l (take (Suc q) (pre t))"
    proof (cases "\<exists>u < n. fb_slot_mapping b ! u = past t ! q \<and> pre u = take (Suc q) (pre t)")
      case True
      then obtain u where u: "u < n" "fb_slot_mapping b ! u = past t ! q" "pre u = take (Suc q) (pre t)" by blast
      then show ?thesis using e1(4) [OF u(1)] by (simp add: cached_of_def)
    next
      case False
      then have old: "\<forall>u < n. fb_slot_mapping b ! u \<noteq> past t ! q" "slot_good K m cache (past t ! q) (take (Suc q) (pre t))"
        using past t q unfolding past_ok_def by blast+
      then show ?thesis using e1(5) [of "int l" "past t ! q"] g(4) [of "int l" "past t ! q"] m(2) by (simp add: slot_good_def)
    qed
    then show "map (g_pool g1 (int l)) (past t) ! q = map (\<lambda>q. qkv_of K m l (int q) (residual_of K m l (take (Suc q) (pre t)))) [0..<length (pre t)] ! q"
      using q len by (simp add: cached_row)
  qed
  have "g_residual g3 t = residual_of K m (Suc l) (pre t)" if t: "t < n" for t
    using post_effect(3) [OF n refl t e2(4) [OF t] at, of bs, folded g3_def] g(2) t
    by (simp add: e2(2) e1(2) e1(3) [OF t] kvs [OF t])
  moreover have same: "g_batch g3 = b" "g_pool g3 = g_pool g1"
    unfolding g3_def by (cases "dl_ffn (lm_layers m ! l)"; simp add: post_of_def attention_project_def e2)+
  moreover have "g_pool g1 (int k) (fb_slot_mapping b ! t) = cached_of K m k (pre t)" if "k < Suc l" "t < n" for k t
  proof (cases "k = l")
    case True
    then show ?thesis using e1(4) [OF that(2)] by (simp add: cached_of_def)
  next
    case False
    then show ?thesis using e1(5) [of "int k"] g(3) that by simp
  qed
  moreover have "g_pool g1 k x = cache k x" if "int (Suc l) \<le> k \<or> (\<forall>t < n. fb_slot_mapping b ! t \<noteq> x)" for k x
  proof -
    have "g_pool g1 k x = g_pool g k x" by (rule e1(5)) (use that in auto)
    then show ?thesis using g(4) [of k x] that by auto
  qed
  ultimately have "layers_done K m cache b n pre (Suc l) g3" by (simp add: layers_done_def)
  then show ?thesis by (simp add: g3_def g2_def g1_def)
qed

lemma layers_step:
  assumes "rows_ok b n pre" "slots_ok b n r" "heads_ok (lm_config m) bs b n past" "past_ok K m cache b n pre past" "model_ok m"
    and "layers_done K m cache b n pre 0 g" "l \<le> num_layers m"
  shows "layers_done K m cache b n pre l (run_launches K (lm_config m) bs
     (concat (map (\<lambda>l. pre_of m r l @ attn_of m r' l @ post_of m r l) [0..<l])) g)"
  using assms(7)
proof (induction l)
  case (Suc l)
  then show ?case using layer_step [OF assms(1-5), of l] by simp
qed (simp add: assms(6))

lemma forward_effect:
  assumes rows: "rows_ok b n pre" and slots: "slots_ok b n r" and "heads_ok (lm_config m) bs b n past"
    and "past_ok K m (g_pool g) b n pre past" "model_ok m" and g: "g_batch g = b"
  shows "layers_done K m (g_pool g) b n pre (num_layers m) (run_launches K (lm_config m) bs (replayed m r r') g)"
proof -
  have n: "int n \<le> r" using slots by (simp add: slots_ok_def)
  have "layers_done K m (g_pool g) b n pre 0 (launch_effect K (lm_config m) bs EmbedTokens r g)"
    using rows n g by (simp add: layers_done_def on_rows_def rows_ok_def)
  from layers_step [OF assms(1-5) this order.refl] show ?thesis by (simp add: replayed_def)
qed

text \<open>Gathering and the head of the model: logit row \<open>j\<close> is that of the \<open>j\<close>-th sampled row.\<close>

lemma logits_effect:
  fixes K :: "'v Kernels" and mc :: ModelConfig and bs :: int
  assumes "layers_done K m cache b n pre (num_layers m) g" "int j < s" "nat (fb_logits_indices b ! j) < n"
  defines "g' \<equiv> run_launches K mc bs [(GatherSampling, s), (FinalNorm, s), (LmHeadProjection, s)] g"
  shows "g_logits g' j = logits_of K m (pre (nat (fb_logits_indices b ! j)))" "g_pool g' = g_pool g" "g_batch g' = b"
  using assms(1-3) by (simp_all add: g'_def layers_done_def on_rows_def logits_of_def)

lemma kernel_ops_effect: "gpu_after K mc bs g (kernel_ops ls) = run_launches K mc bs ls g"
  by (induction ls arbitrary: g) (auto simp: gpu_after_def kernel_ops_def)

lemma gpu_after_append: "gpu_after K mc bs g (xs @ ys) = gpu_after K mc bs (gpu_after K mc bs g xs) ys"
  by (simp add: gpu_after_def)

text \<open>A whole step of the stream.\<close>

lemma step_stream_effect:
  fixes K :: "'v Kernels" and bs :: int and r' :: int and offset :: "64 word"
  assumes "rows_ok b n pre" "slots_ok b n r" "heads_ok (lm_config m) bs b n past" "past_ok K m (g_pool g) b n pre past" "model_ok m"
    and idx: "\<forall>j. int j < s \<longrightarrow> nat (fb_logits_indices b ! j) < n"
  defines "g' \<equiv> gpu_after K (lm_config m) bs g (step_stream b (replayed m r r') s offset)"
  shows "\<And>k t. k < num_layers m \<Longrightarrow> t < n \<Longrightarrow> g_pool g' (int k) (fb_slot_mapping b ! t) = cached_of K m k (pre t)"
    and "\<And>k x. (\<forall>t < n. fb_slot_mapping b ! t \<noteq> x) \<Longrightarrow> g_pool g' k x = g_pool g k x"
    and "\<And>j. int j < s \<Longrightarrow> g_pinned g' j = k_sample K (fb_sample_params b ! j) (offset + of_nat j)
        (logits_of K m (pre (nat (fb_logits_indices b ! j))))"
proof -
  let ?mc = "lm_config m"
  define g1 where "g1 = run_launches K ?mc bs (replayed m r r') (g\<lparr>g_batch := b\<rparr>)"
  define g2 where "g2 = (if s = 0 then g1 else run_launches K ?mc bs [(GatherSampling, s), (FinalNorm, s), (LmHeadProjection, s)] g1)"
  have fin: "layers_done K m (g_pool g) b n pre (num_layers m) g1"
    using forward_effect [OF assms(1-3) _ assms(5), where g = "g\<lparr>g_batch := b\<rparr>"] assms(4) by (simp add: g1_def)
  have g': "g' = stream_effect K ?mc bs (DownloadOp s) (if s = 0 then g1 else stream_effect K ?mc bs (SampleOp (nat s) offset) g2)"
    by (simp add: g'_def step_stream_def gpu_after_append kernel_ops_effect [unfolded gpu_after_def] gpu_after_def g2_def g1_def)
  have pool: "g_pool g' = g_pool g1" by (simp add: g' g2_def)
  show "g_pool g' (int k) (fb_slot_mapping b ! t) = cached_of K m k (pre t)" if "k < num_layers m" "t < n" for k t
    using fin that by (simp add: pool layers_done_def)
  show "g_pool g' k x = g_pool g k x" if "\<forall>t < n. fb_slot_mapping b ! t \<noteq> x" for k x
    using fin that by (simp add: pool layers_done_def)
  show "g_pinned g' j = k_sample K (fb_sample_params b ! j) (offset + of_nat j) (logits_of K m (pre (nat (fb_logits_indices b ! j))))"
    if j: "int j < s" for j
  proof -
    have "g_logits g2 j = logits_of K m (pre (nat (fb_logits_indices b ! j)))" "g_batch g2 = b"
      using logits_effect [OF fin j idx [rule_format, OF j], of ?mc bs] j by (simp_all add: g2_def)
    then show ?thesis using j by (simp add: g' on_rows_def)
  qed
qed

end
