(* ===== verification/KV_Coherence.thy ===== *)
theory KV_Coherence
  imports Scheduler_Update Batch_Contract
begin

text \<open>
  What the slots of the KV pool hold. \<open>good slot ts\<close> stands for \<open>the slot holds the entry of the
  last token of the prefix ts\<close>; the scheduler never touches slots, so the predicate is fixed
  during \<open>schedule\<close>. \<open>tags_sound\<close> says that a published block holds the tokens its hash
  stands for, \<open>reaches\<close> that the first tokens of a request are found through its block list, and
  \<open>tracked\<close> puts both together for a whole scheduler. \<open>U\<close> is a set of token prefixes without
  hash collisions that contains the block-aligned prefixes of the live requests.
\<close>

definition block_good :: "(int \<Rightarrow> int list \<Rightarrow> bool) \<Rightarrow> int \<Rightarrow> int \<Rightarrow> int list \<Rightarrow> bool" where
  \<comment> \<open>the block holds the last \<open>s\<close> tokens of \<open>ts\<close>\<close>
  "block_good good s b ts \<longleftrightarrow> (\<forall>j < nat s. good (b * s + int j) (take (length ts - nat s + Suc j) ts))"

definition tags_sound :: "(int \<Rightarrow> int list \<Rightarrow> bool) \<Rightarrow> int list set \<Rightarrow> KVCacheManager \<Rightarrow> bool" where
  "tags_sound good U m \<longleftrightarrow> (\<forall>b. is_block m b \<and> hash_valid (blk m b) \<longrightarrow>
     (\<exists>ts \<in> U. block_hash_of (blk m b) = chain_hash ts \<and> block_good good (num_block_slots m) b ts))"

definition reaches :: "(int \<Rightarrow> int list \<Rightarrow> bool) \<Rightarrow> int \<Rightarrow> int list \<Rightarrow> int list \<Rightarrow> int \<Rightarrow> bool" where
  \<comment> \<open>the first \<open>c\<close> tokens are in the slots of the block list\<close>
  "reaches good s bs toks c \<longleftrightarrow> (\<forall>p. int p < c \<longrightarrow> good (kv_slot s bs (int p)) (take (Suc p) toks))"

definition aligned_in :: "int list set \<Rightarrow> int \<Rightarrow> int list \<Rightarrow> bool" where
  "aligned_in U s toks \<longleftrightarrow> (\<forall>k. 0 < k \<and> k * nat s \<le> length toks \<longrightarrow> take (k * nat s) toks \<in> U)"

lemma reaches_mono: "reaches good s bs toks c \<Longrightarrow> d \<le> c \<Longrightarrow> reaches good s bs toks d"
  by (auto simp: reaches_def)

lemma reaches_zero [simp]: "reaches good s bs toks 0"
  by (simp add: reaches_def)

lemma kv_slot_in_block:
  assumes "0 < s" "j < nat s"
  shows "kv_slot s bs (int (k * nat s + j)) = bs ! k * s + int j"
proof -
  have "int (k * nat s + j) div s = int k" "int (k * nat s + j) mod s = int j"
    using assms by (simp_all add: div_pos_pos_trivial mod_pos_pos_trivial div_add1_eq)
  then show ?thesis by (simp add: kv_slot_def)
qed

lemma kv_slot_append:
  assumes "0 < s" "0 \<le> p" "p < int (length bs) * s"
  shows "kv_slot s (bs @ cs) p = kv_slot s bs p"
proof -
  have "p div s < int (length bs)" using div_le_iff_less [OF assms(1), of p "int (length bs) - 1"] assms(3) by simp
  then have "nat (p div s) < length bs" using assms by (simp add: pos_imp_zdiv_nonneg_iff nat_less_iff)
  then show ?thesis by (simp add: kv_slot_def nth_append)
qed

lemma reaches_append:
  assumes "0 < s" "c \<le> int (length bs) * s"
  shows "reaches good s (bs @ cs) toks c = reaches good s bs toks c"
  unfolding reaches_def using kv_slot_append [OF assms(1), of _ bs cs] assms(2) by fastforce

lemma reaches_tokens:
  assumes "c \<le> int (length toks)"
  shows "reaches good s bs (toks @ us) c = reaches good s bs toks c"
proof -
  have "good q (take (Suc p) (toks @ us)) = good q (take (Suc p) toks)" if "int p < c" for p q using that assms by simp
  then show ?thesis unfolding reaches_def by blast
qed

lemma reaches_block:
  assumes s: "0 < s" and r: "reaches good s bs toks c" and k: "(int k + 1) * s \<le> c" "c \<le> int (length toks)"
  shows "block_good good s (bs ! k) (take (Suc k * nat s) toks)"
  unfolding block_good_def
proof (intro allI impI)
  fix j assume j: "j < nat s"
  have "int (Suc k * nat s) = (int k + 1) * s" using s by (simp add: algebra_simps)
  then have len: "Suc k * nat s \<le> length toks" using k by linarith
  have "int (k * nat s + j) < c" using j k(1) s by (simp add: algebra_simps)
  then have "good (kv_slot s bs (int (k * nat s + j))) (take (Suc (k * nat s + j)) toks)" using r unfolding reaches_def by blast
  then have "good (bs ! k * s + int j) (take (Suc (k * nat s + j)) toks)"
    unfolding kv_slot_in_block [OF s j] .
  moreover have "take (length (take (Suc k * nat s) toks) - nat s + Suc j) (take (Suc k * nat s) toks) = take (Suc (k * nat s + j)) toks"
    using len j by (simp add: min_def)
  ultimately show "good (bs ! k * s + int j) (take (length (take (Suc k * nat s) toks) - nat s + Suc j) (take (Suc k * nat s) toks))"
    by simp
qed

lemma blocks_reach:
  assumes s: "0 < s" and len: "int (length bs) * s \<le> int (length toks)"
    and g: "\<And>k. k < length bs \<Longrightarrow> block_good good s (bs ! k) (take (Suc k * nat s) toks)"
  shows "reaches good s bs toks (int (length bs) * s)"
  unfolding reaches_def
proof (intro allI impI)
  fix p assume p: "int p < int (length bs) * s"
  define k j where "k = p div nat s" and "j = p mod nat s"
  have pk: "p = k * nat s + j" and j: "j < nat s" using s by (simp_all add: k_def j_def)
  have "int k * s \<le> int p" using s by (simp add: pk)
  then have "int k * s < int (length bs) * s" using p by simp
  then have "int k < int (length bs)" using s mult_less_cancel_right_pos by blast
  then have k: "k < length bs" by simp
  have "Suc k * nat s \<le> length bs * nat s" using k by (intro mult_right_mono) auto
  also have "\<dots> \<le> length toks" using len s by (metis int_nat_eq less_le of_nat_le_iff of_nat_mult)
  finally have l: "Suc k * nat s \<le> length toks" .
  have "take (length (take (Suc k * nat s) toks) - nat s + Suc j) (take (Suc k * nat s) toks) = take (Suc p) toks"
    using l j by (simp add: min_def pk)
  then show "good (kv_slot s bs (int p)) (take (Suc p) toks)"
    using g [OF k] j kv_slot_in_block [OF s j, of bs k] unfolding block_good_def pk by auto
qed

lemma aligned_in_take:
  assumes "aligned_in U s toks"
  shows "aligned_in U s (take n toks)"
  unfolding aligned_in_def
proof (intro allI impI)
  fix k assume k: "0 < k \<and> k * nat s \<le> length (take n toks)"
  then have "take (k * nat s) (take n toks) = take (k * nat s) toks" by (simp add: min_absorb1)
  then show "take (k * nat s) (take n toks) \<in> U" using assms k by (simp add: aligned_in_def)
qed

subsection \<open>The operations of the manager\<close>

text \<open>Publishing blocks whose tokens a request has computed keeps the tags sound.\<close>

lemma tags_sound_publish:
  assumes sound: "tags_sound good U m" and static: "same_static m m'" and s: "0 < num_block_slots m"
    and U: "aligned_in U (num_block_slots m) (take (nat c) toks)" and c: "c \<le> int (length toks)"
    and r: "reaches good (num_block_slots m) bs toks c"
    and new: "\<And>x. is_block m x \<Longrightarrow> hash_valid (blk m' x) \<Longrightarrow> same_tag m m' x
      \<or> (\<exists>k. x = bs ! k \<and> (int k + 1) * num_block_slots m \<le> c
           \<and> block_hash_of (blk m' x) = chain_hash (take (Suc k * nat (num_block_slots m)) toks))"
  shows "tags_sound good U m'"
  unfolding tags_sound_def
proof (intro allI impI)
  let ?s = "num_block_slots m"
  have s': "num_block_slots m' = ?s" using static by (simp add: same_static_def)
  fix b assume b: "is_block m' b \<and> hash_valid (blk m' b)"
  then have ib: "is_block m b" using same_static_is_block [OF static] by simp
  from new [OF ib] b consider "same_tag m m' b"
    | k where "b = bs ! k" "(int k + 1) * ?s \<le> c" "block_hash_of (blk m' b) = chain_hash (take (Suc k * nat ?s) toks)"
    by blast
  then show "\<exists>ts\<in>U. block_hash_of (blk m' b) = chain_hash ts \<and> block_good good (num_block_slots m') b ts"
  proof cases
    case 1
    then show ?thesis using sound ib b unfolding tags_sound_def same_tag_def s' by metis
  next
    case 2
    have "int (Suc k * nat ?s) = (int k + 1) * ?s" using s by (simp add: algebra_simps)
    then have le: "Suc k * nat ?s \<le> nat c" using 2(2) by linarith
    moreover have "nat c \<le> length toks" using c by simp
    ultimately have "take (Suc k * nat ?s) (take (nat c) toks) \<in> U"
      using U s unfolding aligned_in_def by (metis length_take min.absorb2 zero_less_Suc)
    then have "take (Suc k * nat ?s) toks \<in> U" using le by (simp add: min_absorb1)
    then show ?thesis using 2(3) reaches_block [OF s r 2(2) c] unfolding s' 2(1) by blast
  qed
qed

lemma kv_inv_ok: "kv_inv m \<Longrightarrow> \<exists>fl. kv_ok m fl"
  by (simp add: kv_inv_def)

lemma others_same_blocks: "others_same r (view m) (view m') \<Longrightarrow> q \<noteq> r \<Longrightarrow> blocks_of m' q = blocks_of m q"
  using view_list_ids [of m q] view_list_ids [of m' q] by (simp add: others_same_def)

lemma release_sound:
  assumes inv: "kv_inv m" and sound: "tags_sound good U m"
    and range: "0 \<le> num_computed_tokens r" "num_computed_tokens r \<le> num_tokens r"
    and U: "aligned_in U (num_block_slots m) (take (nat (num_computed_tokens r)) (token_ids r))"
    and pub: "published_upto (num_block_slots m) (token_ids r) (num_computed_tokens r) (view_list (view m (req_id r)))"
    and r: "reaches good (num_block_slots m) (blocks_of m (req_id r)) (token_ids r) (num_computed_tokens r)"
    and run: "release_blocks r m = Some m'"
  shows "tags_sound good U m'"
proof (cases "req_to_allocated_blocks m (req_id r)")
  case None
  then show ?thesis using run sound by (simp add: release_blocks_none)
next
  case (Some bs)
  from inv obtain fl where ok: "kv_ok m fl" by (auto simp: kv_inv_def)
  have s: "0 < num_block_slots m" using inv by (rule kv_inv_slots)
  have bs: "blocks_of m (req_id r) = bs" using Some by (rule blocks_of_Some)
  have chain: "chain_ok m (token_ids r) bs" using pub by (simp add: published_upto_view bs)
  from release_blocks_ok [OF ok Some range] run chain have m':
    "same_static m m'" "\<And>x. is_block m x \<Longrightarrow> hash_valid (blk m x) \<or> x \<notin> set bs \<Longrightarrow> same_tag m m' x"
    "\<And>k. k < length bs \<Longrightarrow> hash_valid (blk m' (bs ! k)) \<Longrightarrow> hash_valid (blk m (bs ! k)) \<or> k < full_blocks m r bs"
    "chain_ok m' (token_ids r) bs" by auto
  have s': "num_block_slots m' = num_block_slots m" using m'(1) by (simp add: same_static_def)
  show ?thesis
  proof (rule tags_sound_publish [OF sound m'(1) s U _ r])
    show "num_computed_tokens r \<le> int (length (token_ids r))" using range by (simp add: num_tokens_def)
    fix x assume x: "is_block m x" "hash_valid (blk m' x)"
    show "same_tag m m' x \<or> (\<exists>k. x = blocks_of m (req_id r) ! k \<and> (int k + 1) * num_block_slots m \<le> num_computed_tokens r
        \<and> block_hash_of (blk m' x) = chain_hash (take (Suc k * nat (num_block_slots m)) (token_ids r)))"
    proof (cases "hash_valid (blk m x) \<or> x \<notin> set bs")
      case True
      then show ?thesis using m'(2) x by blast
    next
      case False
      then obtain k where k: "k < length bs" "bs ! k = x" by (auto simp: in_set_conv_nth)
      then have "k < full_blocks m r bs" using m'(3) [of k] x(2) False by auto
      then have "(int k + 1) * num_block_slots m \<le> num_computed_tokens r" by (rule full_block_bound [OF s range(1)])
      moreover have "block_hash_of (blk m' x) = chain_hash (take (Suc k * nat (num_block_slots m)) (token_ids r))"
        using m'(4) k x(2) unfolding chain_ok_def s' by blast
      ultimately show ?thesis using k bs by blast
    qed
  qed
qed

lemma allocate_sound:
  assumes inv: "kv_inv m" and sound: "tags_sound good U m"
    and n: "0 < n" and range: "0 \<le> num_computed_tokens r" "num_computed_tokens r + n \<le> num_tokens r"
    and U: "aligned_in U (num_block_slots m) (token_ids r)"
    and own: "int (length (view_list (view m (req_id r)))) = blocks_for (num_block_slots m) (num_computed_tokens r)"
    and pub: "published_upto (num_block_slots m) (token_ids r) (num_computed_tokens r) (view_list (view m (req_id r)))"
    and r: "reaches good (num_block_slots m) (blocks_of m (req_id r)) (token_ids r) (num_computed_tokens r)"
    and run: "allocate_slots r n m = Some (True, m')"
  shows "tags_sound good U m'"
    and "reaches good (num_block_slots m) (blocks_of m' (req_id r)) (token_ids r) (num_computed_tokens r)"
proof -
  from inv obtain fl where ok: "kv_ok m fl" by (auto simp: kv_inv_def)
  let ?bs = "blocks_of m (req_id r)" and ?s = "num_block_slots m" and ?c = "num_computed_tokens r"
  let ?k = "nat (blocks_needed m r n)"
  define bs' where "bs' = ?bs @ take ?k fl"
  have s: "0 < ?s" using inv by (rule kv_inv_slots)
  have chain: "chain_ok m (token_ids r) ?bs" using pub by (simp add: published_upto_view)
  have cover: "?c \<le> int (length ?bs) * ?s" using own blocks_for_le_iff [OF s, of ?c "int (length ?bs)"] by (simp add: length_view_list)
  have "?c + n \<ge> ?c" using n by simp
  then have "0 \<le> blocks_needed m r n" using blocks_for_mono [OF s, of ?c "?c + n"] own by (simp add: blocks_needed_for)
  moreover have "blocks_needed m r n \<le> int (length fl)"
    using allocate_slots_fail [OF ok n range(1)] run by (cases "blocks_needed m r n \<le> int (length fl)") auto
  moreover have c_le: "?c \<le> num_tokens r" using n range by simp
  ultimately have m': "same_static m m'" "req_to_allocated_blocks m' = (req_to_allocated_blocks m)(req_id r \<mapsto> bs')"
    "\<And>x. is_block m x \<Longrightarrow> x \<notin> set (take ?k fl) \<Longrightarrow> hash_valid (blk m x) \<or> x \<notin> set ?bs \<Longrightarrow> same_tag m m' x"
    "\<And>i. i < length bs' \<Longrightarrow> hash_valid (blk m' (bs' ! i)) \<Longrightarrow> i < length ?bs \<and> hash_valid (blk m (?bs ! i)) \<or> i < full_blocks m r bs'"
    "chain_ok m' (token_ids r) bs'"
    using allocate_slots_ok [OF ok n range(1)] run chain unfolding bs'_def by auto
  have s': "num_block_slots m' = ?s" using m'(1) by (simp add: same_static_def)
  have own': "blocks_of m' (req_id r) = bs'" using m'(2) by (simp add: blocks_of_def)
  show r': "reaches good ?s (blocks_of m' (req_id r)) (token_ids r) ?c"
    unfolding own' bs'_def reaches_append [OF s cover] by (rule r)
  show "tags_sound good U m'"
  proof (rule tags_sound_publish [OF sound m'(1) s aligned_in_take [OF U] _ r'])
    show "?c \<le> int (length (token_ids r))" using c_le by (simp add: num_tokens_def)
    fix x assume x: "is_block m x" "hash_valid (blk m' x)"
    show "same_tag m m' x \<or> (\<exists>k. x = blocks_of m' (req_id r) ! k \<and> (int k + 1) * ?s \<le> ?c
        \<and> block_hash_of (blk m' x) = chain_hash (take (Suc k * nat ?s) (token_ids r)))"
    proof (cases "x \<in> set bs'")
      case False
      then show ?thesis using m'(3) [OF x(1)] by (auto simp: bs'_def)
    next
      case True
      then obtain k where k: "k < length bs'" "bs' ! k = x" by (auto simp: in_set_conv_nth)
      have hash: "block_hash_of (blk m' x) = chain_hash (take (Suc k * nat ?s) (token_ids r))"
        using m'(5) k x(2) unfolding chain_ok_def s' by blast
      from m'(4) [OF k(1)] k(2) x(2) consider "k < length ?bs" "hash_valid (blk m (?bs ! k))" | "k < full_blocks m r bs'" by auto
      then have "(int k + 1) * ?s \<le> ?c"
      proof cases
        case 1
        then show ?thesis using pub unfolding published_upto_view by blast
      next
        case 2
        then show ?thesis by (rule full_block_bound [OF s range(1)])
      qed
      then show ?thesis using hash k own' by blast
    qed
  qed
qed

lemma reuse_sound:
  assumes inv: "kv_inv m" and sound: "tags_sound good U m" and coll: "inj_on chain_hash U"
    and new: "view m (req_id r) = None" and toks: "token_ids r \<noteq> []" and U: "aligned_in U (num_block_slots m) (token_ids r)"
    and run: "reuse_prefix r m = Some (c, m')"
  shows "tags_sound good U m'" "reaches good (num_block_slots m) (blocks_of m' (req_id r)) (token_ids r) c"
proof -
  from inv obtain fl where ok: "kv_ok m fl" by (auto simp: kv_inv_def)
  let ?s = "num_block_slots m"
  have s: "0 < ?s" using inv by (rule kv_inv_slots)
  from new have none: "req_to_allocated_blocks m (req_id r) = None" by (simp add: view_def)
  from reuse_prefix_ok [OF ok none] run obtain bs where m': "c = int (length bs) * ?s" "same_static m m'"
    "req_to_allocated_blocks m' = (if bs = [] then req_to_allocated_blocks m else (req_to_allocated_blocks m)(req_id r \<mapsto> bs))"
    "\<And>x. is_block m x \<Longrightarrow> same_tag m m' x" "enable_prefix_caching m \<Longrightarrow> length bs \<le> sharable_blocks m r"
    "\<not> enable_prefix_caching m \<Longrightarrow> bs = []"
    "\<And>k. k < length bs \<Longrightarrow> hash_to_block m (chain_hash (take (Suc k * nat ?s) (token_ids r))) = Some (bs ! k)" by auto
  show "tags_sound good U m'"
    by (rule tags_sound_publish [OF sound m'(2) s aligned_in_take [OF U], of 0 "[]"]) (use m'(4) in auto)
  have own: "blocks_of m' (req_id r) = bs" using m'(3) none by (auto simp: blocks_of_def)
  have "length bs \<le> sharable_blocks m r" using m'(5,6) by (cases "enable_prefix_caching m") auto
  then have "int (length bs) * ?s < num_tokens r" by (rule sharable_blocks_bound [OF s toks])
  then have len: "int (length bs) * ?s \<le> int (length (token_ids r))" by (simp add: num_tokens_def)
  have good: "block_good good ?s (bs ! k) (take (Suc k * nat ?s) (token_ids r))" if k: "k < length bs" for k
  proof -
    note idx = published_index [OF ok m'(7) [OF k]]
    then obtain ts where ts: "ts \<in> U" "chain_hash (take (Suc k * nat ?s) (token_ids r)) = chain_hash ts" "block_good good ?s (bs ! k) ts"
      using sound unfolding tags_sound_def by metis
    have "Suc k * nat ?s \<le> length bs * nat ?s" using k by (intro mult_right_mono) auto
    moreover have "int (length bs * nat ?s) \<le> int (length (token_ids r))" using len s by simp
    ultimately have "Suc k * nat ?s \<le> length (token_ids r)" unfolding of_nat_le_iff by (rule order_trans)
    then have "take (Suc k * nat ?s) (token_ids r) \<in> U" using U s unfolding aligned_in_def by auto
    then have "take (Suc k * nat ?s) (token_ids r) = ts" using coll ts(1,2) by (auto dest: inj_onD)
    then show ?thesis using ts(3) by simp
  qed
  show "reaches good ?s (blocks_of m' (req_id r)) (token_ids r) c"
    unfolding own m'(1) using s len good by (rule blocks_reach)
qed

end
