(* ===== verification/Scheduler_Coherence.thy ===== *)
theory Scheduler_Coherence
  imports KV_Coherence
begin

text \<open>
  \<open>schedule\<close> and \<open>update\<close> keep the contents of the KV pool in step with the requests: between
  two calls every running request finds its computed tokens through its blocks. During
  \<open>schedule\<close> the entries in \<open>out\<close> still wait for the GPU, so their requests are only tracked up
  to the offset of the entry.
\<close>

definition progress :: "ScheduledRequest list \<Rightarrow> Scheduler \<Rightarrow> nat \<Rightarrow> int" where
  "progress out s i = (if i < length out then position_offset (out ! i) else num_computed_tokens (node s (running s ! i)))"

definition found :: "(int \<Rightarrow> int list \<Rightarrow> bool) \<Rightarrow> Scheduler \<Rightarrow> Request \<Rightarrow> int \<Rightarrow> bool" where
  "found good s r c \<longleftrightarrow> reaches good (num_block_slots (kv_cache_manager s)) (blocks_of (kv_cache_manager s) (req_id r)) (token_ids r) c"

definition tracked :: "(int \<Rightarrow> int list \<Rightarrow> bool) \<Rightarrow> int list set \<Rightarrow> ScheduledRequest list \<Rightarrow> Scheduler \<Rightarrow> bool" where
  "tracked good U out s \<longleftrightarrow> tags_sound good U (kv_cache_manager s)
     \<and> (\<forall>i < length (running s). found good s (node s (running s ! i)) (progress out s i))"

definition prefixes_in :: "int list set \<Rightarrow> Scheduler \<Rightarrow> bool" where
  \<comment> \<open>the prefixes of the live requests that fill whole blocks\<close>
  "prefixes_in U s \<longleftrightarrow> (\<forall>n \<in> set (queue s). aligned_in U (num_block_slots (kv_cache_manager s)) (token_ids (node s n)))"

lemma prefixes_in_same:
  assumes "same_requests s s'" "queue s' = queue s" "store_ok s"
  shows "prefixes_in U s' = prefixes_in U s"
proof -
  have "token_ids (node s' n) = token_ids (node s n)" if "n \<in> set (queue s)" for n
    using content_fields(2) [OF same_requests_content [OF assms(1)]] store_ok_node [OF assms(3) that] by auto
  moreover have "num_block_slots (kv_cache_manager s') = num_block_slots (kv_cache_manager s)"
    using assms(1) by (simp add: same_requests_def)
  ultimately show ?thesis using assms(2) by (simp add: prefixes_in_def)
qed

lemma found_content: "content r' = content r \<Longrightarrow> found good s r' c = found good s r c"
  using content_fields [of r' r] by (simp add: found_def)

lemma moved_found:
  assumes mv: "moved n r s s'" and ok: "store_ok s" and x: "x \<in> set (queue s)" "x \<noteq> n"
  shows "node s' x = node s x" "found good s' (node s x) c = found good s (node s x) c"
proof -
  show "node s' x = node s x" using moved_other(1) [OF mv ok x] .
  have "req_id (node s x) \<noteq> req_id (node s n)" using store_ok_inj [OF ok x(1), of n] x(2) mv by (auto simp: moved_def)
  then have "req_id (node s x) \<noteq> req_id r" using mv content_fields(1) [of r "node s n"] by (simp add: moved_def)
  then show "found good s' (node s x) c = found good s (node s x) c"
    using others_same_blocks [of "req_id r" "kv_cache_manager s" "kv_cache_manager s'"] mv
    by (simp add: found_def moved_def)
qed

lemma tracked_found:
  "tracked good U out s \<Longrightarrow> i < length (running s) \<Longrightarrow> found good s (node s (running s ! i)) (progress out s i)"
  by (simp add: tracked_def)

subsection \<open>Pass 1\<close>

lemma idle_facts:
  assumes "idle_ok s r"
  shows "0 \<le> num_computed_tokens r" "num_computed_tokens r \<le> num_tokens r"
    "int (length (view_list (view (kv_cache_manager s) (req_id r)))) = blocks_for (num_block_slots (kv_cache_manager s)) (num_computed_tokens r)"
    "published_upto (num_block_slots (kv_cache_manager s)) (token_ids r) (num_computed_tokens r) (view_list (view (kv_cache_manager s) (req_id r)))"
  using assms holds_view_list [of "kv_cache_manager s" r "num_computed_tokens r"] by (auto simp: idle_ok_def)

lemma preempt_last_tracked:
  assumes inv: "sched_inv out s" and len: "length out < length (running s)"
    and tr: "tracked good U out s" and U: "prefixes_in U s" and run: "preempt_last s = Some (r, s')"
  shows "tracked good U out s'"
proof -
  let ?v = "last (running s)"
  note parts = sched_invD [OF inv]
  from preempt_last_ok [OF inv len] run have p: "moved ?v r s s'" "running s' = butlast (running s)" by auto
  have ne: "running s \<noteq> []" using len by auto
  have v: "?v \<in> set (queue s)" using ne by (simp add: queue_def)
  have vi: "?v = running s ! (length (running s) - 1)" using ne by (simp add: last_conv_nth)
  have idle: "idle_ok s (node s ?v)" unfolding vi using len by (intro sched_inv_idle [OF inv]) auto
  have rel: "release_blocks (node s ?v) (kv_cache_manager s) = Some (kv_cache_manager s')"
    using run store_ok_node [OF parts(1) v] by (auto simp: preempt_last_def Let_def bind_eq_Some_conv)
  have i: "length (running s) - 1 < length (running s)" "\<not> length (running s) - 1 < length out" using len by auto
  have "found good s (node s ?v) (num_computed_tokens (node s ?v))"
    using tracked_found [OF tr i(1)] unfolding progress_def vi [symmetric] if_not_P [OF i(2)] .
  then have "tags_sound good U (kv_cache_manager s')"
    using U v tr unfolding tracked_def found_def prefixes_in_def
    by (intro release_sound [OF parts(5) _ idle_facts(1,2) [OF idle] _ idle_facts(4) [OF idle] _ rel] aligned_in_take) auto
  moreover have "found good s' (node s' (running s' ! i)) (progress out s' i)" if i: "i < length (running s')" for i
  proof -
    have j: "i < length (running s)" "running s' ! i = running s ! i" using i by (simp_all add: p(2) nth_butlast)
    have "distinct (running s)" using store_ok_distinct(1) [OF parts(1)] .
    then have "running s ! i \<noteq> ?v" using i unfolding vi by (simp add: p(2) nth_eq_iff_index_eq)
    moreover have "running s ! i \<in> set (queue s)" using j(1) by (simp add: queue_def)
    ultimately show ?thesis
      using moved_found [OF p(1) parts(1), of "running s ! i"] tracked_found [OF tr j(1)] j(2) by (simp add: progress_def split: if_splits)
  qed
  ultimately show ?thesis by (simp add: tracked_def)
qed

lemma granted_tracked:
  assumes inv: "sched_inv out s" and cur: "length out < length (running s)" "running s ! length out = cur"
    and tr: "tracked good U out s" and U: "prefixes_in U s"
    and k: "0 < k" "num_computed_tokens (node s cur) + k \<le> num_tokens (node s cur)"
    and run: "allocate_slots (node s cur) k (kv_cache_manager s) = Some (True, m)"
  shows "tracked good U out (s\<lparr>kv_cache_manager := m\<rparr>)"
proof -
  let ?r = "node s cur" and ?t = "s\<lparr>kv_cache_manager := m\<rparr>"
  note parts = sched_invD [OF inv]
  have idle: "idle_ok s ?r" using sched_inv_idle [OF inv _ cur(1)] cur(2) by simp
  have q: "cur \<in> set (queue s)" using cur by (auto simp: queue_def)
  from allocate_idle [OF inv cur k] run have g: "others_same (req_id ?r) (view (kv_cache_manager s)) (view m)"
    "num_block_slots m = num_block_slots (kv_cache_manager s)" by (auto simp: granted_from_def)
  have "found good s ?r (num_computed_tokens ?r)"
    using tracked_found [OF tr cur(1)] cur(2) by (simp add: progress_def)
  then have "tags_sound good U m \<and> reaches good (num_block_slots (kv_cache_manager s)) (blocks_of m (req_id ?r)) (token_ids ?r) (num_computed_tokens ?r)"
    using U q tr unfolding tracked_def found_def prefixes_in_def
    by (intro conjI allocate_sound [OF parts(5) _ k(1) idle_facts(1) [OF idle] k(2) _ idle_facts(3,4) [OF idle] _ run]) auto
  moreover have "found good ?t (node s (running s ! i)) (progress out s i)" if i: "i < length (running s)" for i
  proof (cases "running s ! i = cur")
    case True
    then have "i = length out" using store_ok_distinct(1) [OF parts(1)] i cur by (auto simp: nth_eq_iff_index_eq)
    then show ?thesis using calculation True cur by (simp add: found_def g progress_def)
  next
    case False
    have "running s ! i \<in> set (queue s)" using i by (simp add: queue_def)
    then have "req_id (node s (running s ! i)) \<noteq> req_id ?r" using store_ok_inj [OF parts(1) _ q] False by auto
    then show ?thesis using others_same_blocks [OF g(1)] tracked_found [OF tr i] by (simp add: found_def g)
  qed
  moreover have "node ?t = node s" "progress out ?t = progress out s" by (simp_all add: node_def progress_def fun_eq_iff)
  ultimately show ?thesis by (simp add: tracked_def)
qed

lemma acquire_slots_tracked:
  assumes "acquire_slots cur k s = Some (g, s')" "sched_inv out s" "length out < length (running s)" "running s ! length out = cur"
    and "0 < k" "num_computed_tokens (node s cur) + k \<le> num_tokens (node s cur)"
    and "tracked good U out s" "prefixes_in U s"
  shows "tracked good U out s'"
  using assms
proof (induction rule: acquire_slots_induct)
  case (granted s r m)
  then have "r = node s cur" by (simp add: node_def)
  then show ?case using granted_tracked [OF granted(3-5) granted(8,9,6,7)] granted(2) by simp
next
  case (itself s r m v s2 r')
  have "r = node s cur" using itself(1) by (simp add: node_def)
  then have "m = kv_cache_manager s" using allocate_idle [OF itself(6-10)] itself(2) by auto
  then show ?case using preempt_last_tracked [OF itself(6,7,11,12)] itself(3) by simp
next
  case (retry s r m v s2 r' g s')
  have r: "r = node s cur" using retry(1) by (simp add: node_def)
  then have "m = kv_cache_manager s" using allocate_idle [OF retry(8-12)] retry(2) by auto
  then have pre: "preempt_last s = Some (v, s2)" using retry(3) by simp
  let ?v = "last (running s)"
  from preempt_last_ok [OF retry(8,9)] pre have p: "sched_inv out s2" "moved ?v v s s2" "running s2 = butlast (running s)"
    "req_id v = req_id (node s ?v)" by auto
  have ne: "running s \<noteq> []" using retry(9) by auto
  have "r' = node s2 cur" using retry(4) by (simp add: node_def)
  then have "req_id (node s ?v) \<noteq> req_id (node s cur)" using retry(5) p(4) moved_req_id [OF p(2)] by simp
  then have cur: "cur \<noteq> ?v" by auto
  then have "length out \<noteq> length (running s) - 1" using retry(10) ne by (auto simp: last_conv_nth)
  then have len: "length out < length (running s2)" using retry(9) p(3) by simp
  moreover have "running s2 ! length out = cur" using len retry(10) p(3) by (simp add: nth_butlast)
  moreover have "node s2 cur = node s cur" using cur by (simp add: moved_node [OF p(2)])
  moreover have "tracked good U out s2" using preempt_last_tracked [OF retry(8,9,13,14) pre] .
  moreover have "prefixes_in U s2"
    using prefixes_in_same [OF moved_same_requests [OF p(2)]] sched_invD(1) [OF retry(8)] retry(14) p(2) by (simp add: moved_def)
  ultimately show ?case using retry(7) p(1) retry(11,12) by simp
qed

text \<open>The nodes, blocks and tokens of all requests but \<open>n\<close> stay; \<open>n\<close> only advances.\<close>

lemma tracked_commit:
  assumes tr: "tracked good U out s" and len: "length out < length (running s)" "running s ! length out = n"
    and dis: "distinct (running s)" and e: "position_offset e = num_computed_tokens (node s n)"
  shows "tracked good U (out @ [e]) (s\<lparr>nodes := (nodes s)(n \<mapsto> (node s n)\<lparr>num_computed_tokens := c\<rparr>)\<rparr>)"
proof -
  let ?t = "s\<lparr>nodes := (nodes s)(n \<mapsto> (node s n)\<lparr>num_computed_tokens := c\<rparr>)\<rparr>"
  have nd: "node ?t x = (if x = n then (node s n)\<lparr>num_computed_tokens := c\<rparr> else node s x)" for x by (simp add: node_def)
  have "found good ?t (node ?t (running s ! i)) (progress (out @ [e]) ?t i)" if i: "i < length (running s)" for i
  proof (cases "i = length out")
    case True
    then show ?thesis using tracked_found [OF tr i] len e by (simp add: found_def nd progress_def nth_append)
  next
    case False
    then have "running s ! i \<noteq> n" using dis i len by (auto simp: nth_eq_iff_index_eq)
    then show ?thesis using tracked_found [OF tr i] False
      by (simp add: found_def nd progress_def nth_append split: if_splits)
  qed
  then show ?thesis using tr by (simp add: tracked_def)
qed

lemma schedule_running_tracked:
  assumes inv: "sched_inv out s" and len: "length out < length (running s)" and budget: "0 < budget"
    and tr: "tracked good U out s" and U: "prefixes_in U s"
    and run: "schedule_running (running s ! length out) budget s = Some (res, s')"
  shows "tracked good U (case res of None \<Rightarrow> out | Some (k, e) \<Rightarrow> out @ [e]) s'"
proof -
  let ?n = "running s ! length out"
  let ?r = "node s ?n"
  define k where "k = min (num_tokens ?r - num_computed_tokens ?r) budget"
  note parts = sched_invD [OF inv]
  have n: "nodes s ?n = Some ?r" using store_ok_node [OF parts(1)] len by (simp add: queue_def)
  have "idle_ok s ?r" using sched_inv_idle [OF inv _ len] by simp
  then have pos: "num_computed_tokens ?r < num_tokens ?r" by (simp add: idle_ok_def)
  then have k: "0 < k" "num_computed_tokens ?r + k \<le> num_tokens ?r" using budget by (auto simp: k_def)
  from acquire_slots_ok [OF inv len refl k] obtain g s1 j where a: "acquire_slots ?n k s = Some (g, s1)"
    "same_requests s s1" "running s1 = take j (running s)" "g \<Longrightarrow> length out < j" "j \<le> length (running s)" by metis
  have tr1: "tracked good U out s1" using acquire_slots_tracked [OF a(1) inv len refl k tr U] .
  have n1: "nodes s1 ?n = Some (node s1 ?n)" using same_requests_node [OF a(2) n] by (auto simp: node_def)
  show ?thesis
  proof (cases g)
    case False
    then show ?thesis using run n pos budget a(1) tr1 by (auto simp: schedule_running_def k_def [symmetric])
  next
    case True
    then obtain e where e: "res = Some (k, e)"
      "scheduled_request (node s1 ?n) (num_computed_tokens (node s1 ?n)) k
         (num_computed_tokens (node s1 ?n) < num_prefill_tokens (node s1 ?n)) (kv_cache_manager s1) = Some e"
      "s' = s1\<lparr>nodes := (nodes s1)(?n \<mapsto> (node s1 ?n)\<lparr>num_computed_tokens := num_computed_tokens (node s1 ?n) + k\<rparr>)\<rparr>"
      using run n pos budget a(1) n1 by (auto simp: schedule_running_def Let_def k_def [symmetric] bind_eq_Some_conv)
    have "distinct (running s1)" using store_ok_distinct(1) [OF parts(1)] a(3) by simp
    moreover have "length out < length (running s1)" "running s1 ! length out = ?n" using a(3-5) True by simp_all
    moreover have "position_offset e = num_computed_tokens (node s1 ?n)"
      using e(2) by (auto simp: scheduled_request_def bind_eq_Some_conv)
    ultimately show ?thesis using tracked_commit [OF tr1] e(1,3) by simp
  qed
qed

lemma schedule_pass1_tracked:
  assumes "sched_inv out s" "0 \<le> budget" "tracked good U out s" "prefixes_in U s"
    and "schedule_pass1 (length out) budget out s = Some (b, out', s')"
  shows "tracked good U out' s'"
  using assms
proof (induction "length (running s) - length out" arbitrary: budget out s rule: less_induct)
  case less
  show ?case
  proof (cases "length out < length (running s) \<and> budget > 0 \<and> fewer_than_seqs out s")
    case False
    then show ?thesis using less.prems(3,5) by (subst (asm) schedule_pass1.simps) auto
  next
    case go: True
    from schedule_running_ok [OF less.prems(1)] go obtain res s1 where r:
      "schedule_running (running s ! length out) budget s = Some (res, s1)" "same_requests s s1" "tail_preempted s s1"
      "case res of None \<Rightarrow> True | Some (k, e) \<Rightarrow> 0 < k \<and> k \<le> budget \<and> sched_inv (out @ [e]) s1"
      by (fastforce split: option.splits)
    note tr = schedule_running_tracked [OF less.prems(1) _ _ less.prems(3,4) r(1)]
    show ?thesis
    proof (cases res)
      case None
      then show ?thesis using less.prems(5) go r(1) tr by (subst (asm) schedule_pass1.simps) auto
    next
      case (Some ke)
      obtain k e where res: "res = Some (k, e)" using Some by (cases ke) auto
      with r(4) have k: "0 < k" "k \<le> budget" "sched_inv (out @ [e]) s1" by auto
      have "length (running s1) \<le> length (running s)" using r(3) by (auto simp: tail_preempted_def)
      then have "length (running s1) - length (out @ [e]) < length (running s) - length out" using go by (simp, linarith)
      moreover have "schedule_pass1 (length (out @ [e])) (budget - k) (out @ [e]) s1 = Some (b, out', s')"
        using less.prems(5) go r(1) res by (subst (asm) schedule_pass1.simps) auto
      moreover have "prefixes_in U s1"
        using prefixes_in_same [OF r(2) tail_preempted_queue [OF r(3)]] sched_invD(1) [OF less.prems(1)] less.prems(4) by simp
      ultimately show ?thesis using less.hyps [of s1 "out @ [e]" "budget - k"] k tr go res by auto
    qed
  qed
qed

subsection \<open>Pass 2\<close>

lemma blocks_of_stats [simp]: "blocks_of (record_prefix_reuse k m) = blocks_of m"
  by (simp add: record_prefix_reuse_def Let_def blocks_of_def fun_eq_iff)

lemma tags_sound_stats [simp]: "tags_sound good U (record_prefix_reuse k m) = tags_sound good U m"
  by (simp add: record_prefix_reuse_def Let_def tags_sound_def)

lemma tracked_others:
  assumes inv: "sched_inv out s" and n: "n \<in> set (preempted s @ waiting s)"
    and oth: "others_same (req_id (node s n)) (view (kv_cache_manager s)) (view m)"
    and slots: "num_block_slots m = num_block_slots (kv_cache_manager s)" and tr: "tracked good U out s" and i: "i < length (running s)"
  shows "running s ! i \<noteq> n"
    "reaches good (num_block_slots m) (blocks_of m (req_id (node s (running s ! i)))) (token_ids (node s (running s ! i))) (progress out s i)"
proof -
  note parts = sched_invD [OF inv]
  have x: "running s ! i \<in> set (running s)" using i by simp
  show ne: "running s ! i \<noteq> n" using x n store_ok_distinct(4,5) [OF parts(1)] by auto
  have "req_id (node s (running s ! i)) \<noteq> req_id (node s n)"
    using store_ok_inj [OF parts(1) queue_parts(1) [OF x], of n] ne n by (auto simp: queue_def)
  then show "reaches good (num_block_slots m) (blocks_of m (req_id (node s (running s ! i)))) (token_ids (node s (running s ! i))) (progress out s i)"
    using others_same_blocks [OF oth] tracked_found [OF tr i] by (simp add: found_def slots)
qed

lemma tracked_admitted:
  assumes inv: "sched_inv out s" and all: "length out = length (running s)" and adm: "next_admission s = Some n"
    and oth: "others_same (req_id (node s n)) (view (kv_cache_manager s)) (view m)"
    and slots: "num_block_slots m = num_block_slots (kv_cache_manager s)" and tr: "tracked good U out s"
    and r: "content r = content (node s n)" and sound: "tags_sound good U m"
    and new: "reaches good (num_block_slots m) (blocks_of m (req_id (node s n))) (token_ids (node s n)) (position_offset e)"
  shows "tracked good U (out @ [e]) (admit_request n (s\<lparr>kv_cache_manager := m, nodes := (nodes s)(n \<mapsto> r)\<rparr>))"
proof -
  let ?t = "admit_request n (s\<lparr>kv_cache_manager := m, nodes := (nodes s)(n \<mapsto> r)\<rparr>)"
  have n: "n \<in> set (preempted s @ waiting s)" using next_admission_pending(1) [OF adm] .
  have run: "running ?t = running s @ [n]" by (simp add: admit_request_def)
  have nd: "node ?t x = (if x = n then r else node s x)" for x by (simp add: node_def)
  note same = content_fields(1,2) [OF r]
  have "found good ?t (node ?t (running ?t ! i)) (progress (out @ [e]) ?t i)" if i: "i < length (running ?t)" for i
  proof (cases "i < length (running s)")
    case True
    then show ?thesis using tracked_others [OF inv n oth slots tr True] all
      by (simp add: found_def nd run progress_def nth_append)
  next
    case False
    then show ?thesis using i new all by (simp add: found_def nd run progress_def nth_append same)
  qed
  then show ?thesis using sound by (simp add: tracked_def)
qed

lemma schedule_new_tracked:
  assumes inv: "sched_inv out s" and all: "length out = length (running s)"
    and adm: "next_admission s = Some n" and budget: "0 < budget" and coll: "inj_on chain_hash U"
    and tr: "tracked good U out s" and U: "prefixes_in U s"
    and run: "schedule_new n budget s = Some (res, s')"
  shows "tracked good U (case res of None \<Rightarrow> out | Some (k, e) \<Rightarrow> out @ [e]) s'"
proof -
  note parts = sched_invD [OF inv]
  let ?m = "kv_cache_manager s" and ?q = "node s n"
  let ?s = "num_block_slots ?m"
  have n: "n \<in> set (preempted s @ waiting s)" "n \<in> set (queue s)" using next_admission_pending [OF adm] .
  note pend = pending_view [OF inv n(1)]
  have node: "nodes s n = Some ?q" using store_ok_node [OF parts(1) n(2)] .
  have toks: "token_ids ?q \<noteq> []" using pend(2) by (auto simp: live_def num_tokens_def)
  have Un: "aligned_in U ?s (token_ids ?q)" using U n(2) by (simp add: prefixes_in_def)
  from kv.reuse_then_owns [OF parts(5) toks pend(1)] obtain c m1 where c: "reuse_prefix ?q ?m = Some (c, m1)"
    "kv_inv m1" "others_same (req_id ?q) (view ?m) (view m1)" "num_block_slots m1 = ?s"
    "num_blocks m1 = num_blocks ?m" "0 \<le> c" "c < num_tokens ?q"
    "int (length (view_list (view m1 (req_id ?q)))) = blocks_for ?s c"
    "published_upto ?s (token_ids ?q) c (view_list (view m1 (req_id ?q)))" by blast
  note reuse = reuse_sound [OF parts(5) _ coll pend(1) toks Un c(1), of good]
  have sound1: "tags_sound good U m1" using reuse(1) tr by (simp add: tracked_def)
  have reach1: "reaches good ?s (blocks_of m1 (req_id ?q)) (token_ids ?q) c" using reuse(2) tr by (simp add: tracked_def)
  define r where "r = ?q\<lparr>num_computed_tokens := c\<rparr>"
  define k where "k = min (num_tokens ?q - c) budget"
  have k: "0 < k" "c + k \<le> num_tokens ?q" using c(7) budget by (simp_all add: k_def)
  have rf: "req_id r = req_id ?q" "num_computed_tokens r = c" "token_ids r = token_ids ?q" "num_tokens r = num_tokens ?q"
    by (simp_all add: r_def num_tokens_def)
  show ?thesis
  proof (cases "\<exists>m2. allocate_slots r k m1 = Some (True, m2)")
    case False
    have alloc: "allocate_slots r k m1 = Some (False, m1)" using kv.allocate_total [of m1 k r] c k False by (auto simp: rf)
    from kv.release_frees [OF c(2), of r] obtain m3 where m3: "release_blocks r m1 = Some m3"
      "others_same (req_id ?q) (view m1) (view m3)" "num_block_slots m3 = num_block_slots m1" using c(6,7) by (auto simp: rf)
    have sound3: "tags_sound good U m3"
      by (rule release_sound [OF c(2) sound1 _ _ _ _ _ m3(1)]) (use c Un reach1 in \<open>simp_all add: rf aligned_in_take\<close>)
    have "res = None" "s' = s\<lparr>kv_cache_manager := m3, nodes := (nodes s)(n \<mapsto> r\<lparr>num_computed_tokens := 0\<rparr>)\<rparr>"
      using run node c(1,7) budget m3(1) alloc by (auto simp: schedule_new_def Let_def rf r_def [symmetric] k_def [symmetric])
    moreover have "found good s' (node s' (running s' ! i)) (progress out s' i)" if "i < length (running s')" for i
      using that tracked_others [OF inv n(1) others_same_trans [OF c(3) m3(2)] _ tr, of i] m3(3) c(4) all
      by (simp add: calculation found_def node_def progress_def)
    ultimately show ?thesis using sound3 by (simp add: tracked_def)
  next
    case True
    then obtain m2 where m2: "allocate_slots r k m1 = Some (True, m2)" by blast
    then have oth2: "others_same (req_id ?q) (view m1) (view m2)" "num_block_slots m2 = ?s"
      using kv.allocate_total [of m1 k r] c k by (auto simp: rf)
    have alloc: "tags_sound good U m2" "reaches good ?s (blocks_of m2 (req_id ?q)) (token_ids ?q) c"
      using allocate_sound [OF c(2) sound1 k(1) _ _ _ _ _ _ m2] c k Un reach1 by (simp_all add: rf)
    define m3 where "m3 = record_prefix_reuse c m2"
    obtain e where e: "scheduled_request (r\<lparr>num_prefill_tokens := num_tokens ?q\<rparr>) c k True m3 = Some e" "res = Some (k, e)"
      "s' = admit_request n (s\<lparr>kv_cache_manager := m3, nodes := (nodes s)(n \<mapsto>
         r\<lparr>num_prefill_tokens := num_tokens ?q, num_computed_tokens := c + k, status := kRunning\<rparr>)\<rparr>)"
      using run node c(1,7) budget m2
      by (auto simp: schedule_new_def Let_def rf r_def [symmetric] k_def [symmetric] m3_def [symmetric] bind_eq_Some_conv)
    have "position_offset e = c" using e(1) by (auto simp: scheduled_request_def bind_eq_Some_conv)
    then show ?thesis unfolding e(2,3)
      using tracked_admitted [OF inv all adm _ _ tr, of m3 _ e] alloc oth2 others_same_trans [OF c(3) oth2(1)]
      by (simp add: m3_def r_def content_def)
  qed
qed

lemma schedule_pass2_tracked:
  assumes "sched_inv out s" "0 \<le> budget" "0 < budget \<and> fewer_than_seqs out s \<Longrightarrow> length out = length (running s)"
    and coll: "inj_on chain_hash U" and "tracked good U out s" "prefixes_in U s"
    and "schedule_pass2 budget out s = Some (out', s')"
  shows "tracked good U out' s'"
  using assms(1-3,5-7)
proof (induction "length (preempted s) + length (waiting s)" arbitrary: budget out s rule: less_induct)
  case less
  note inv = less.prems(1)
  show ?case
  proof (cases "next_admission s")
    case None
    then show ?thesis using less.prems(4,6) by (subst (asm) schedule_pass2.simps) auto
  next
    case (Some n)
    show ?thesis
    proof (cases "0 < budget \<and> fewer_than_seqs out s")
      case False
      then show ?thesis using Some less.prems(4,6) by (subst (asm) schedule_pass2.simps) auto
    next
      case True
      have all: "length out = length (running s)" using less.prems(3) True by blast
      have room: "int (length out) < max_num_seqs s" using True sched_inv_fewer [OF inv] by blast
      from schedule_new_ok [OF inv all room Some] True obtain res s1 where r:
        "schedule_new n budget s = Some (res, s1)" "same_requests s s1" "queue s1 = queue s"
        "case res of None \<Rightarrow> True | Some (k, e) \<Rightarrow> 0 < k \<and> k \<le> budget \<and> sched_inv (out @ [e]) s1 \<and> running s1 = running s @ [n]"
        by (fastforce split: option.splits)
      note tr = schedule_new_tracked [OF inv all Some _ coll less.prems(4,5) r(1)]
      show ?thesis
      proof (cases res)
        case None
        then show ?thesis using Some True r(1) tr less.prems(6) by (subst (asm) schedule_pass2.simps) auto
      next
        case res: (Some ke)
        obtain k e where ke: "ke = (k, e)" by (cases ke)
        with r(4) res have k: "0 < k" "k \<le> budget" "sched_inv (out @ [e]) s1" "running s1 = running s @ [n]" by auto
        have "length (preempted s1) + length (waiting s1) < length (preempted s) + length (waiting s)"
          using schedule_new_pending [OF _ Some] r(1) res ke by simp
        moreover have "schedule_pass2 (budget - k) (out @ [e]) s1 = Some (out', s')"
          using less.prems(6) Some True r(1) res ke by (subst (asm) schedule_pass2.simps) auto
        moreover have "prefixes_in U s1"
          using prefixes_in_same [OF r(2,3)] sched_invD(1) [OF inv] less.prems(5) by simp
        moreover have "length (out @ [e]) = length (running s1)" using all k(4) by simp
        ultimately show ?thesis using less.hyps [of s1 "out @ [e]" "budget - k"] k tr True res ke by auto
      qed
    qed
  qed
qed

lemma schedule_tracked:
  assumes inv: "step_inv {} s" and coll: "inj_on chain_hash U" and tr: "tracked good U [] s" and U: "prefixes_in U s"
    and run: "schedule s = Some (out, s')"
  shows "tracked good U out s'"
proof -
  let ?B = "max_num_scheduled_tokens s"
  have inv0: "sched_inv [] s" using inv by (simp add: step_inv_sched)
  have B: "0 < ?B" using sched_invD(2) [OF inv0] by (simp add: limits_ok_def)
  from schedule_pass1_ok [OF inv0, of ?B] B obtain b out1 s1 where p1: "schedule_pass1 0 ?B [] s = Some (b, out1, s1)"
    "sched_inv out1 s1" "same_requests s s1" "tail_preempted s s1" "0 \<le> b"
    "preempted s1 = preempted s \<and> 0 < b \<and> fewer_than_seqs out1 s1 \<longrightarrow> length out1 = length (running s1)" by auto
  have tr1: "tracked good U out1 s1" using schedule_pass1_tracked [OF inv0 _ tr U, of ?B] p1(1) B by simp
  have U1: "prefixes_in U s1"
    using prefixes_in_same [OF p1(3) tail_preempted_queue [OF p1(4)]] sched_invD(1) [OF inv0] U by simp
  show ?thesis
  proof (cases "length (preempted s1) = length (preempted s)")
    case False
    then show ?thesis using run p1(1) tr1 by (simp add: schedule_def)
  next
    case True
    then have "schedule_pass2 b out1 s1 = Some (out, s')" using run p1(1) by (simp add: schedule_def)
    moreover have "length out1 = length (running s1)" if "0 < b \<and> fewer_than_seqs out1 s1"
      using p1(6) tail_preempted_same [OF p1(4) True] that by simp
    ultimately show ?thesis using schedule_pass2_tracked [OF p1(2,5) _ coll tr1 U1] by blast
  qed
qed

end
