(* ===== verification/Step_Coherence.thy ===== *)
theory Step_Coherence
  imports Scheduler_Coherence
begin

text \<open>
  One whole step: the slots a step writes are nobody else's (\<open>batch_exclusive\<close>), so when the
  GPU has written the entries of the scheduled tokens, and nothing else, every running request
  finds all its computed tokens again (\<open>coherent\<close>); \<open>update\<close>, arrivals and aborts keep that.
\<close>

definition coherent :: "(int \<Rightarrow> int list \<Rightarrow> bool) \<Rightarrow> int list set \<Rightarrow> Scheduler \<Rightarrow> bool" where
  "coherent good U s \<longleftrightarrow> tags_sound good U (kv_cache_manager s)
     \<and> (\<forall>n \<in> set (running s). found good s (node s n) (num_computed_tokens (node s n)))"

lemma coherent_tracked: "coherent good U s \<longleftrightarrow> tracked good U [] s"
  by (auto simp: coherent_def tracked_def progress_def all_set_conv_all_nth)

subsection \<open>The slots of a batch\<close>

definition batch_slots :: "int \<Rightarrow> ScheduledRequest list \<Rightarrow> int list" where
  "batch_slots bs out = concat (map (request_slots bs) out)"

definition batch_exclusive :: "int \<Rightarrow> ScheduledRequest list \<Rightarrow> bool" where
  \<comment> \<open>no slot is written twice, and none that a request of the batch reads as its past\<close>
  "batch_exclusive bs out \<longleftrightarrow> distinct (batch_slots bs out)
     \<and> (\<forall>e \<in> set out. \<forall>q. 0 \<le> q \<and> q < position_offset e \<longrightarrow> kv_slot bs (allocated_blocks e) q \<notin> set (batch_slots bs out))"

lemma slot_unique:
  assumes "0 < s" "0 \<le> j" "j < s" "0 \<le> j'" "j' < s" "(b :: int) * s + j = b' * s + j'"
  shows "b = b' \<and> j = j'"
proof -
  have "(b * s + j) div s = b" "(b' * s + j') div s = b'"
    using assms(1-5) by (simp_all add: div_pos_pos_trivial)
  then have "b = b'" unfolding assms(6) by simp
  then show ?thesis using assms(6) by simp
qed

lemma kv_slot_parts: "0 < s \<Longrightarrow> 0 \<le> p mod s \<and> p mod s < s \<and> kv_slot s bs p = bs ! nat (p div s) * s + p mod s"
  by (simp add: kv_slot_def)

lemma same_slot_block:
  assumes "0 < s" "kv_slot s bs p = kv_slot s cs q"
  shows "bs ! nat (p div s) = cs ! nat (q div s) \<and> p mod s = q mod s"
  using slot_unique [OF assms(1), of "p mod s" "q mod s"] kv_slot_parts [OF assms(1)] assms(2) by metis

lemma block_index:
  assumes "0 < s" "0 \<le> p" "p < int (length bs) * s"
  shows "nat (p div s) < length bs"
proof -
  have "p div s < int (length bs)" using div_le_iff_less [OF assms(1), of p "int (length bs) - 1"] assms(3) by simp
  then show ?thesis using assms by (simp add: pos_imp_zdiv_nonneg_iff nat_less_iff)
qed

lemma same_block_position:
  assumes "0 < (s :: int)" "0 \<le> p" "0 \<le> q" "nat (p div s) = nat (q div s)" "p mod s = q mod s"
  shows "p = q"
proof -
  have "p div s = q div s" using assms by (metis pos_imp_zdiv_nonneg_iff int_nat_eq)
  then show ?thesis using assms(5) by (metis div_mult_mod_eq)
qed

lemma request_slots_nth: "j < length (tokens_to_compute e) \<Longrightarrow> request_slots bs e ! j = kv_slot bs (allocated_blocks e) (position_offset e + int j)"
  by (simp add: request_slots_def request_positions_def)

lemma in_request_slots:
  "x \<in> set (request_slots bs e) \<longleftrightarrow> (\<exists>p. position_offset e \<le> p \<and> p < position_offset e + entry_len e \<and> x = kv_slot bs (allocated_blocks e) p)"
proof
  assume "x \<in> set (request_slots bs e)"
  then obtain j where "j < length (tokens_to_compute e)" "x = kv_slot bs (allocated_blocks e) (position_offset e + int j)"
    by (auto simp: in_set_conv_nth request_slots_nth)
  then show "\<exists>p. position_offset e \<le> p \<and> p < position_offset e + entry_len e \<and> x = kv_slot bs (allocated_blocks e) p"
    by (intro exI [of _ "position_offset e + int j"]) (simp add: entry_len_def)
next
  assume "\<exists>p. position_offset e \<le> p \<and> p < position_offset e + entry_len e \<and> x = kv_slot bs (allocated_blocks e) p"
  then obtain p where p: "position_offset e \<le> p" "p < position_offset e + entry_len e" "x = kv_slot bs (allocated_blocks e) p" by blast
  then have "nat (p - position_offset e) < length (tokens_to_compute e)" by (simp add: entry_len_def)
  then have "request_slots bs e ! nat (p - position_offset e) = x" using p request_slots_nth [of "nat (p - position_offset e)" e bs] by simp
  then show "x \<in> set (request_slots bs e)"
    using \<open>nat (p - position_offset e) < length (tokens_to_compute e)\<close> by (metis length_request_slots nth_mem)
qed

text \<open>What a running request owns in the middle of a step.\<close>

lemma sched_inv_owns:
  assumes inv: "sched_inv out s" and i: "i < length (running s)"
  defines "r \<equiv> node s (running s ! i)" and "m \<equiv> kv_cache_manager s"
  shows "\<exists>bs. req_to_allocated_blocks m (req_id r) = Some bs \<and> blocks_of m (req_id r) = bs
     \<and> num_computed_tokens r \<le> int (length bs) * num_block_slots m \<and> 0 \<le> progress out s i
     \<and> progress out s i \<le> num_computed_tokens r \<and> num_computed_tokens r \<le> num_tokens r
     \<and> (\<forall>k < length bs. hash_valid (blk m (bs ! k)) \<longrightarrow> (int k + 1) * num_block_slots m \<le> progress out s i)
     \<and> (i < length out \<longrightarrow> allocated_blocks (out ! i) = bs \<and> sr_request_id (out ! i) = req_id r
          \<and> num_computed_tokens r = position_offset (out ! i) + entry_len (out ! i)
          \<and> tokens_to_compute (out ! i) = take (nat (entry_len (out ! i))) (drop (nat (position_offset (out ! i))) (token_ids r)))"
proof -
  have s: "0 < num_block_slots m" using sched_invD(5) [OF inv] kv_inv_slots by (simp add: m_def)
  have h: "holds m r (progress out s i) \<and> 0 \<le> progress out s i \<and> progress out s i \<le> num_computed_tokens r \<and> num_computed_tokens r \<le> num_tokens r"
  proof (cases "i < length out")
    case True
    then show ?thesis using sched_inv_entry [OF inv True] by (simp add: entry_ok_def progress_def r_def m_def)
  next
    case False
    then show ?thesis using sched_inv_idle [OF inv _ i] by (simp add: idle_ok_def progress_def r_def m_def)
  qed
  then obtain tv where tv: "view m (req_id r) = Some tv" "int (length tv) = blocks_for (num_block_slots m) (num_computed_tokens r)"
    "published_upto (num_block_slots m) (token_ids r) (progress out s i) tv" by (auto simp: holds_def)
  then obtain bs where bs: "req_to_allocated_blocks m (req_id r) = Some bs" "tv = map (tagged m) bs" using view_Some by blast
  have own: "blocks_of m (req_id r) = bs" using bs(1) by (rule blocks_of_Some)
  have "num_computed_tokens r \<le> int (length bs) * num_block_slots m"
    using tv(2) blocks_for_le_iff [OF s, of "num_computed_tokens r" "int (length bs)"] bs(2) by simp
  moreover have "\<forall>k < length bs. hash_valid (blk m (bs ! k)) \<longrightarrow> (int k + 1) * num_block_slots m \<le> progress out s i"
    using tv(3) unfolding bs(2) published_upto_tagged by blast
  moreover have "allocated_blocks (out ! i) = bs \<and> sr_request_id (out ! i) = req_id r
      \<and> num_computed_tokens r = position_offset (out ! i) + entry_len (out ! i)
      \<and> tokens_to_compute (out ! i) = take (nat (entry_len (out ! i))) (drop (nat (position_offset (out ! i))) (token_ids r))"
    if "i < length out"
  proof -
    have e: "entry_ok s r (out ! i)" using sched_inv_entry [OF inv that] by (simp add: r_def)
    then have sub: "subvec (token_ids r) (position_offset (out ! i)) (num_computed_tokens r - position_offset (out ! i)) = Some (tokens_to_compute (out ! i))"
      by (simp add: entry_ok_def)
    then have len: "entry_len (out ! i) = num_computed_tokens r - position_offset (out ! i)" by (simp add: entry_len_def subvec_length)
    then have "tokens_to_compute (out ! i) = take (nat (entry_len (out ! i))) (drop (nat (position_offset (out ! i))) (token_ids r))"
      using sub by (simp add: subvec_def split: if_splits)
    moreover have "allocated_blocks (out ! i) = bs" using e bs(1) by (simp add: entry_ok_def get_allocated_blocks_def m_def)
    moreover have "sr_request_id (out ! i) = req_id r" using e by (simp add: entry_ok_def)
    ultimately show ?thesis using len by simp
  qed
  ultimately show ?thesis using bs(1) own h by blast
qed

text \<open>A position computed in the step lies in a block that is not published.\<close>

lemma written_block:
  assumes inv: "sched_inv out s" and i: "i < length out"
    and p: "position_offset (out ! i) \<le> p" "p < position_offset (out ! i) + entry_len (out ! i)"
  defines "m \<equiv> kv_cache_manager s"
  shows "nat (p div num_block_slots m) < length (allocated_blocks (out ! i))
     \<and> \<not> hash_valid (blk m (allocated_blocks (out ! i) ! nat (p div num_block_slots m)))"
proof -
  let ?s = "num_block_slots m" and ?bs = "allocated_blocks (out ! i)" and ?o = "position_offset (out ! i)"
  have s: "0 < ?s" using sched_invD(5) [OF inv] kv_inv_slots by (simp add: m_def)
  have ir: "i < length (running s)" using i sched_invD(6) [OF inv] by simp
  from sched_inv_owns [OF inv ir] i have o: "num_computed_tokens (node s (running s ! i)) \<le> int (length ?bs) * ?s"
    "0 \<le> ?o" "num_computed_tokens (node s (running s ! i)) = ?o + entry_len (out ! i)"
    "\<And>k. k < length ?bs \<Longrightarrow> hash_valid (blk m (?bs ! k)) \<Longrightarrow> (int k + 1) * ?s \<le> ?o"
    by (auto simp: progress_def m_def)
  have k: "nat (p div ?s) < length ?bs" using block_index [OF s, of p ?bs] p o by simp
  have "\<not> hash_valid (blk m (?bs ! nat (p div ?s)))"
  proof
    assume "hash_valid (blk m (?bs ! nat (p div ?s)))"
    then have "(int (nat (p div ?s)) + 1) * ?s \<le> ?o" by (rule o(4) [OF k])
    moreover have "int (nat (p div ?s)) = p div ?s" using p(1) o(2) s by (simp add: pos_imp_zdiv_nonneg_iff)
    ultimately have "(p div ?s + 1) * ?s \<le> p" using p(1) by simp
    moreover have "p < (p div ?s + 1) * ?s" using s by (simp add: distrib_right) (metis add_less_cancel_left div_mult_mod_eq pos_mod_bound)
    ultimately show False by simp
  qed
  then show ?thesis using k by blast
qed

text \<open>Only the request that computes a position finds it in its slot, and only there.\<close>

lemma written_position:
  assumes inv: "sched_inv out s" and i: "i < length out" and i': "i' < length (running s)"
    and p: "position_offset (out ! i) \<le> p" "p < position_offset (out ! i) + entry_len (out ! i)"
  defines "m \<equiv> kv_cache_manager s"
  assumes q: "0 \<le> q" "q < num_computed_tokens (node s (running s ! i'))"
    and eq: "kv_slot (num_block_slots m) (allocated_blocks (out ! i)) p
      = kv_slot (num_block_slots m) (blocks_of m (req_id (node s (running s ! i')))) q"
  shows "i' = i \<and> q = p"
proof -
  let ?s = "num_block_slots m" and ?r = "node s (running s ! i)" and ?r' = "node s (running s ! i')"
  note parts = sched_invD [OF inv]
  have s: "0 < ?s" using parts(5) kv_inv_slots by (simp add: m_def)
  obtain fl where ok: "kv_ok m fl" using parts(5) by (auto simp: kv_inv_def m_def)
  have ir: "i < length (running s)" using i parts(6) by simp
  from sched_inv_owns [OF inv ir] i obtain bs where o: "req_to_allocated_blocks m (req_id ?r) = Some bs" "allocated_blocks (out ! i) = bs"
    "0 \<le> position_offset (out ! i)" by (auto simp: progress_def m_def)
  from sched_inv_owns [OF inv i'] obtain cs where c: "req_to_allocated_blocks m (req_id ?r') = Some cs" "blocks_of m (req_id ?r') = cs"
    "num_computed_tokens ?r' \<le> int (length cs) * ?s" by (auto simp: m_def)
  have b: "nat (p div ?s) < length bs" "\<not> hash_valid (blk m (bs ! nat (p div ?s)))"
    using written_block [OF inv i p] o(2) by (auto simp: m_def)
  have same: "bs ! nat (p div ?s) = cs ! nat (q div ?s)" "p mod ?s = q mod ?s"
    using same_slot_block [OF s, of bs p cs q] eq c(2) o(2) by auto
  have k': "nat (q div ?s) < length cs" using block_index [OF s q(1), of cs] q(2) c(3) by simp
  have "bs ! nat (p div ?s) \<in> set bs" "bs ! nat (p div ?s) \<in> set cs" using b(1) k' same(1) nth_mem by metis+
  then have "req_id ?r = req_id ?r'" using kv_ok_invalid_owner [OF ok o(1) c(1)] b(2) by blast
  then have "running s ! i = running s ! i'" using store_ok_inj [OF parts(1)] ir i' by (simp add: queue_def)
  then have ii: "i = i'" using store_ok_distinct(1) [OF parts(1)] ir i' by (simp add: nth_eq_iff_index_eq)
  then have cs: "cs = bs" using o(1) c(1) by simp
  have "nat (p div ?s) = nat (q div ?s)"
    using kv_ok_invalid_unique [OF ok o(1) b(1) _ _ b(2)] k' same(1) unfolding cs by blast
  then have "p = q" using same_block_position [OF s _ q(1)] p(1) o(3) same(2) by simp
  then show ?thesis using ii by simp
qed

lemma batch_slots_in:
  "x \<in> set (batch_slots bs out) \<longleftrightarrow> (\<exists>i < length out. \<exists>p. position_offset (out ! i) \<le> p
     \<and> p < position_offset (out ! i) + entry_len (out ! i) \<and> x = kv_slot bs (allocated_blocks (out ! i)) p)"
  unfolding in_request_slots [symmetric] by (auto simp: batch_slots_def in_set_conv_nth) (metis nth_mem)+

lemma written_published:
  assumes inv: "sched_inv out s" and v: "hash_valid (blk (kv_cache_manager s) b)"
    and j: "0 \<le> j" "j < num_block_slots (kv_cache_manager s)"
  shows "b * num_block_slots (kv_cache_manager s) + j \<notin> set (batch_slots (num_block_slots (kv_cache_manager s)) out)"
proof
  let ?m = "kv_cache_manager s" let ?s = "num_block_slots ?m"
  have s: "0 < ?s" using sched_invD(5) [OF inv] kv_inv_slots by simp
  assume "b * ?s + j \<in> set (batch_slots ?s out)"
  then obtain i p where p: "i < length out" "position_offset (out ! i) \<le> p" "p < position_offset (out ! i) + entry_len (out ! i)"
    "b * ?s + j = kv_slot ?s (allocated_blocks (out ! i)) p" by (auto simp: batch_slots_in)
  then have "\<not> hash_valid (blk ?m (allocated_blocks (out ! i) ! nat (p div ?s)))" using written_block [OF inv] by blast
  moreover have "allocated_blocks (out ! i) ! nat (p div ?s) = b"
    using slot_unique [OF s j, of "p mod ?s" b] kv_slot_parts [OF s, of p] p(4) by metis
  ultimately show False using v by simp
qed

lemma distinct_concat_map:
  assumes "\<And>i. i < length es \<Longrightarrow> distinct (f (es ! i))"
    and "\<And>i j. i < j \<Longrightarrow> j < length es \<Longrightarrow> set (f (es ! i)) \<inter> set (f (es ! j)) = {}"
  shows "distinct (concat (map f es))"
  using assms
proof (induction es)
  case (Cons e es)
  have "distinct (concat (map f es))"
  proof (rule Cons.IH)
    show "distinct (f (es ! i))" if "i < length es" for i using Cons.prems(1) [of "Suc i"] that by simp
    show "set (f (es ! i)) \<inter> set (f (es ! j)) = {}" if "i < j" "j < length es" for i j
      using Cons.prems(2) [of "Suc i" "Suc j"] that by simp
  qed
  moreover have "set (f e) \<inter> set (f x) = {}" if "x \<in> set es" for x
    using that Cons.prems(2) [of 0 "Suc j" for j] by (auto simp: in_set_conv_nth)
  ultimately show ?case using Cons.prems(1) [of 0] by auto
qed simp

lemma sched_inv_exclusive:
  assumes inv: "sched_inv out s"
  shows "batch_exclusive (num_block_slots (kv_cache_manager s)) out"
proof -
  let ?m = "kv_cache_manager s" let ?s = "num_block_slots ?m"
  have ir: "i < length (running s)" if "i < length out" for i using that sched_invD(6) [OF inv] by simp
  have own: "blocks_of ?m (req_id (node s (running s ! i))) = allocated_blocks (out ! i)"
    "num_computed_tokens (node s (running s ! i)) = position_offset (out ! i) + entry_len (out ! i)" "0 \<le> position_offset (out ! i)"
    if "i < length out" for i
    using sched_inv_owns [OF inv ir [OF that]] that by (auto simp: progress_def)
  have pos: "i' = i \<and> q = p"
    if "i < length out" "i' < length out" "position_offset (out ! i) \<le> p" "p < position_offset (out ! i) + entry_len (out ! i)"
      "0 \<le> q" "q < position_offset (out ! i') + entry_len (out ! i')"
      "kv_slot ?s (allocated_blocks (out ! i)) p = kv_slot ?s (allocated_blocks (out ! i')) q" for i i' p q
    using written_position [OF inv that(1) ir [OF that(2)] that(3,4,5)] that own by simp
  have "distinct (request_slots ?s (out ! i))" if i: "i < length out" for i
    using pos [OF i i, of "position_offset (out ! i) + int j" "position_offset (out ! i) + int k" for j k] own(3) [OF i]
    by (force simp: request_slots_def request_positions_def distinct_map inj_on_def entry_len_def)
  moreover have "set (request_slots ?s (out ! i)) \<inter> set (request_slots ?s (out ! j)) = {}" if "i < j" "j < length out" for i j
  proof (rule ccontr)
    have i: "i < length out" using that by simp
    assume "\<not> ?thesis"
    then obtain p q where "position_offset (out ! i) \<le> p" "p < position_offset (out ! i) + entry_len (out ! i)"
      "position_offset (out ! j) \<le> q" "q < position_offset (out ! j) + entry_len (out ! j)"
      "kv_slot ?s (allocated_blocks (out ! i)) p = kv_slot ?s (allocated_blocks (out ! j)) q"
      by (auto simp: in_request_slots)
    then show False using pos [OF i that(2), of p q] that own(3) [OF that(2)] by simp
  qed
  ultimately have "distinct (batch_slots ?s out)" unfolding batch_slots_def by (intro distinct_concat_map) auto
  moreover have "kv_slot ?s (allocated_blocks e) q \<notin> set (batch_slots ?s out)"
    if e: "e \<in> set out" "0 \<le> q" "q < position_offset e" for e q
  proof
    assume "kv_slot ?s (allocated_blocks e) q \<in> set (batch_slots ?s out)"
    then obtain i p where p: "i < length out" "position_offset (out ! i) \<le> p" "p < position_offset (out ! i) + entry_len (out ! i)"
      "kv_slot ?s (allocated_blocks e) q = kv_slot ?s (allocated_blocks (out ! i)) p" by (auto simp: batch_slots_in)
    from e(1) obtain k where k: "k < length out" "out ! k = e" by (auto simp: in_set_conv_nth)
    have "k = i \<and> q = p" using pos [OF p(1) k(1) p(2,3) e(2)] p(4) k(2) e(3) by (simp add: entry_len_def)
    then show False using p(2) e(3) k(2) by simp
  qed
  ultimately show ?thesis by (simp add: batch_exclusive_def)
qed

subsection \<open>The GPU's part\<close>

text \<open>What a step must leave in the pool: its own entries, and everything else untouched.\<close>

definition step_written :: "(int \<Rightarrow> int list \<Rightarrow> bool) \<Rightarrow> (int \<Rightarrow> int list \<Rightarrow> bool) \<Rightarrow> ScheduledRequest list \<Rightarrow> Scheduler \<Rightarrow> bool" where
  "step_written good good' out s \<longleftrightarrow> (let bs = num_block_slots (kv_cache_manager s) in
     (\<forall>x ts. x \<notin> set (batch_slots bs out) \<longrightarrow> good x ts \<longrightarrow> good' x ts)
     \<and> (\<forall>i < length out. \<forall>p. position_offset (out ! i) \<le> p \<and> p < position_offset (out ! i) + entry_len (out ! i) \<longrightarrow>
          good' (kv_slot bs (allocated_blocks (out ! i)) p) (take (nat p + 1) (token_ids (node s (running s ! i))))))"

lemma written_coherent:
  assumes inv: "sched_inv out s" and tr: "tracked good U out s" and w: "step_written good good' out s"
  shows "coherent good' U s"
proof -
  let ?m = "kv_cache_manager s" let ?s = "num_block_slots ?m"
  have s: "0 < ?s" using sched_invD(5) [OF inv] kv_inv_slots by simp
  have keep: "good' x ts" if "good x ts" "x \<notin> set (batch_slots ?s out)" for x ts using w that by (simp add: step_written_def Let_def)
  have "tags_sound good' U ?m"
    unfolding tags_sound_def
  proof (intro allI impI)
    fix b assume b: "is_block ?m b \<and> hash_valid (blk ?m b)"
    then obtain ts where ts: "ts \<in> U" "block_hash_of (blk ?m b) = chain_hash ts" "block_good good ?s b ts"
      using tr unfolding tracked_def tags_sound_def by blast
    have "block_good good' ?s b ts"
      using ts(3) keep written_published [OF inv] b s by (auto simp: block_good_def)
    then show "\<exists>ts\<in>U. block_hash_of (blk ?m b) = chain_hash ts \<and> block_good good' ?s b ts" using ts by blast
  qed
  moreover have "found good' s (node s (running s ! i)) (num_computed_tokens (node s (running s ! i)))" if i: "i < length (running s)" for i
    unfolding found_def reaches_def
  proof (intro allI impI)
    let ?r = "node s (running s ! i)"
    let ?x = "\<lambda>p. kv_slot ?s (blocks_of ?m (req_id ?r)) (int p)"
    fix p assume p: "int p < num_computed_tokens ?r"
    show "good' (?x p) (take (Suc p) (token_ids ?r))"
    proof (cases "i < length out \<and> position_offset (out ! i) \<le> int p")
      case True
      then have "allocated_blocks (out ! i) = blocks_of ?m (req_id ?r)" "int p < position_offset (out ! i) + entry_len (out ! i)"
        using sched_inv_owns [OF inv i] p by auto
      moreover have "nat (int p) + 1 = Suc p" by simp
      ultimately show ?thesis using w True unfolding step_written_def Let_def by metis
    next
      case False
      have "int p < progress out s i" using False p by (auto simp: progress_def)
      then have "good (?x p) (take (Suc p) (token_ids ?r))" using tracked_found [OF tr i] by (simp add: found_def reaches_def)
      moreover have "?x p \<notin> set (batch_slots ?s out)"
      proof
        assume "?x p \<in> set (batch_slots ?s out)"
        then obtain k q where k: "k < length out" "position_offset (out ! k) \<le> q" "q < position_offset (out ! k) + entry_len (out ! k)"
          "?x p = kv_slot ?s (allocated_blocks (out ! k)) q" by (auto simp: batch_slots_in)
        have "i = k \<and> int p = q" using written_position [OF inv k(1) i k(2,3) _ p] k(4) by simp
        then show False using False k(1,2) by simp
      qed
      ultimately show ?thesis by (rule keep)
    qed
  qed
  ultimately show ?thesis by (auto simp: coherent_def in_set_conv_nth)
qed

subsection \<open>Update, arrival and abort\<close>

lemma step_inv_published:
  assumes inv: "step_inv W s" and n: "n \<in> set (queue s)"
  defines "m \<equiv> kv_cache_manager s" and "r \<equiv> node s n"
  shows "published_upto (num_block_slots m) (token_ids r) (num_computed_tokens r) (view_list (view m (req_id r)))"
    and "n \<notin> set (running s) \<Longrightarrow> num_computed_tokens r = 0"
proof -
  note parts = step_invD [OF inv]
  show z: "num_computed_tokens r = 0" if "n \<notin> set (running s)"
    using that n parts(4) by (auto simp: pending_ok_def queue_def r_def)
  show "published_upto (num_block_slots m) (token_ids r) (num_computed_tokens r) (view_list (view m (req_id r)))"
  proof (cases "n \<in> set (running s)")
    case True
    then have "holds m r (num_computed_tokens r)"
      using step_inv_running [OF inv True] by (cases "req_id r \<in> W") (auto simp: awaiting_ok_def idle_ok_def m_def r_def)
    then show ?thesis using holds_view_list by blast
  next
    case False
    have "view m (req_id r) = None"
    proof (rule ccontr)
      assume "view m (req_id r) \<noteq> None"
      then obtain x where "x \<in> set (running s)" "req_id (node s x) = req_id r" using parts(3) by (auto simp: owners_ok_def m_def)
      then have "x = n" using store_ok_inj [OF parts(1) queue_parts(1) n] by (simp add: r_def)
      then show False using False \<open>x \<in> set (running s)\<close> by simp
    qed
    then show ?thesis by simp
  qed
qed

definition computed_in :: "int list set \<Rightarrow> Scheduler \<Rightarrow> bool" where
  "computed_in U s \<longleftrightarrow> (\<forall>n \<in> set (queue s). aligned_in U (num_block_slots (kv_cache_manager s))
     (take (nat (num_computed_tokens (node s n))) (token_ids (node s n))))"

lemma prefixes_computed: "prefixes_in U s \<Longrightarrow> computed_in U s"
  by (simp add: prefixes_in_def computed_in_def aligned_in_take)

lemma remove_request_coherent:
  assumes inv: "step_inv W s" and n: "n \<in> set (queue s)" and coh: "coherent good U s" and U: "computed_in U s"
    and r: "r = node s n \<or> (\<exists>t. r = appended (node s n) t)"
    and run: "remove_request n (s\<lparr>nodes := (nodes s)(n \<mapsto> r)\<rparr>) = Some s'"
  shows "coherent good U s'"
proof -
  let ?m = "kv_cache_manager s" and ?q = "node s n" let ?s = "num_block_slots ?m"
  note parts = step_invD [OF inv]
  note range = step_inv_range [OF inv n]
  from r obtain us where us: "token_ids r = token_ids ?q @ us" "req_id r = req_id ?q" "status r = status ?q"
    "num_computed_tokens r = num_computed_tokens ?q" by (auto simp: appended_def)
  have r_range: "0 \<le> num_computed_tokens r" "num_computed_tokens r \<le> num_tokens r"
    using range us by (simp_all add: num_tokens_def)
  have c: "num_computed_tokens ?q \<le> int (length (token_ids ?q))" using range(2) by (simp add: num_tokens_def)
  have s: "0 < ?s" using parts(5) by (rule kv_inv_slots)
  from remove_request_ok [OF inv n us(2,3) r_range] run have rm: "running s' = remove1 n (running s)" "nodes s' = (nodes s)(n := None)"
    by auto
  have rel: "release_blocks r ?m = Some (kv_cache_manager s')"
    using run by (cases "status r") (auto simp: remove_request_def Let_def bind_eq_Some_conv set_queue_def)
  from kv.release_frees [OF parts(5) r_range] rel have oth: "others_same (req_id r) (view ?m) (view (kv_cache_manager s'))"
    "num_block_slots (kv_cache_manager s') = ?s" by auto
  have reach: "reaches good ?s (blocks_of ?m (req_id ?q)) (token_ids ?q) (num_computed_tokens ?q)"
    using coh step_inv_published(2) [OF inv n] by (cases "n \<in> set (running s)") (auto simp: coherent_def found_def)
  have "tags_sound good U (kv_cache_manager s')"
  proof (rule release_sound [OF parts(5) _ r_range _ _ _ rel])
    show "tags_sound good U ?m" using coh by (simp add: coherent_def)
    have "aligned_in U ?s (take (nat (num_computed_tokens ?q)) (token_ids ?q))" using U n by (simp add: computed_in_def)
    then show "aligned_in U ?s (take (nat (num_computed_tokens r)) (token_ids r))" using c us by simp
    show "published_upto ?s (token_ids r) (num_computed_tokens r) (view_list (view ?m (req_id r)))"
      unfolding us by (rule published_upto_extend_tokens [OF step_inv_published(1) [OF inv n] c s])
    show "reaches good ?s (blocks_of ?m (req_id r)) (token_ids r) (num_computed_tokens r)"
      unfolding us reaches_tokens [OF c] by (rule reach)
  qed
  moreover have "found good s' (node s' x) (num_computed_tokens (node s' x))" if x: "x \<in> set (running s')" for x
  proof -
    have x': "x \<in> set (running s)" "x \<noteq> n"
      using x store_ok_distinct(1) [OF parts(1)] unfolding rm(1) by auto
    then have "req_id (node s x) \<noteq> req_id r" using store_ok_inj [OF parts(1) queue_parts(1) n] us(2) by auto
    then have "blocks_of (kv_cache_manager s') (req_id (node s x)) = blocks_of ?m (req_id (node s x))"
      using others_same_blocks [OF oth(1)] by blast
    then show ?thesis using coh x' oth(2) by (simp add: coherent_def found_def node_def rm(2))
  qed
  ultimately show ?thesis by (simp add: coherent_def)
qed

lemma update_one_coherent:
  assumes inv: "step_inv W s" and n: "n \<in> set (running s)" "req_id (node s n) = st_request_id t" and W: "st_request_id t \<in> W"
    and coh: "coherent good U s" and U: "computed_in U s" and run: "update_one t s = Some (o', s')"
  shows "coherent good U s' \<and> computed_in U s'"
proof -
  let ?r = "appended (node s n) (token_id t)"
  note parts = step_invD [OF inv]
  have q: "n \<in> set (queue s)" using n(1) by (rule queue_parts)
  have c: "num_computed_tokens (node s n) \<le> int (length (token_ids (node s n)))"
    using step_inv_range [OF inv q] by (simp add: num_tokens_def)
  from update_one_ok [OF inv n W] run obtain reason where u: "reason = finish_reason s ?r (eos_token t)"
    "queue s' = (if reason = kReasonRunning then queue s else remove1 n (queue s))"
    "nodes s' = (nodes s)(n := if reason = kReasonRunning then Some ?r else None)" "limits s' = limits s" by auto
  have dis: "distinct (queue s)" using parts(1) by (simp add: store_ok_def)
  have node: "nodes s n = Some (node s n)" "id_to_request s (st_request_id t) = Some n"
    using store_ok_node [OF parts(1) q] parts(1) q n(2) by (auto simp: store_ok_def)
  have fr: "finish_reason (s\<lparr>nodes := x\<rparr>) y z = finish_reason s y z" for x y z by (simp add: finish_reason_def)
  have up: "(if reason \<noteq> kReasonRunning then remove_request n (s\<lparr>nodes := (nodes s)(n \<mapsto> ?r)\<rparr>)
      else Some (s\<lparr>nodes := (nodes s)(n \<mapsto> ?r)\<rparr>)) = Some s'"
    using run node by (auto simp: update_one_def Let_def appended_def [symmetric] fr u(1) [symmetric] bind_eq_Some_conv)
  have same: "num_computed_tokens (node s' x) = num_computed_tokens (node s x) \<and> x \<in> set (queue s)
      \<and> (token_ids (node s' x) = token_ids (node s x) \<or> x = n \<and> token_ids (node s' x) = token_ids (node s x) @ [token_id t])"
    if "x \<in> set (queue s')" for x
    using that dis unfolding u(2) by (auto simp: node_def u(3) split: if_splits)
  have "computed_in U s'"
    unfolding computed_in_def
  proof
    fix x assume x: "x \<in> set (queue s')"
    have "take (nat (num_computed_tokens (node s' x))) (token_ids (node s' x))
        = take (nat (num_computed_tokens (node s x))) (token_ids (node s x))"
      using same [OF x] c by auto
    moreover have "num_block_slots (kv_cache_manager s') = num_block_slots (kv_cache_manager s)" using u(4) by (simp add: limits_def)
    ultimately show "aligned_in U (num_block_slots (kv_cache_manager s')) (take (nat (num_computed_tokens (node s' x))) (token_ids (node s' x)))"
      using U same [OF x] by (simp add: computed_in_def)
  qed
  moreover have "coherent good U s'"
  proof (cases "reason = kReasonRunning")
    case True
    then have "s' = s\<lparr>nodes := (nodes s)(n \<mapsto> ?r)\<rparr>" using up by simp
    then show ?thesis using coh reaches_tokens [OF c] by (auto simp: coherent_def found_def node_def)
  next
    case False
    then have "remove_request n (s\<lparr>nodes := (nodes s)(n \<mapsto> ?r)\<rparr>) = Some s'" using up by simp
    then show ?thesis using remove_request_coherent [OF inv q coh U] by blast
  qed
  ultimately show ?thesis by blast
qed

lemma update_scheduler_coherent:
  assumes "step_inv W s" "distinct (map st_request_id ts)" "set (map st_request_id ts) = W"
    and "W \<subseteq> (\<lambda>n. req_id (node s n)) ` set (running s)" "coherent good U s" "computed_in U s"
    and "update_scheduler ts s = Some (outs, s')"
  shows "coherent good U s' \<and> computed_in U s'"
  using assms
proof (induction ts arbitrary: s W outs)
  case (Cons t ts)
  then obtain n where n: "n \<in> set (running s)" "req_id (node s n) = st_request_id t" by auto
  have W: "st_request_id t \<in> W" using Cons.prems(3) by auto
  from Cons.prems(7) obtain o' outs' s1 where u: "update_one t s = Some (o', s1)" "update_scheduler ts s1 = Some (outs', s')"
    by (auto simp: bind_eq_Some_conv split: prod.splits)
  from update_one_ok [OF Cons.prems(1) n W] u(1) obtain reason where s1: "step_inv (W - {st_request_id t}) s1"
    "running s1 = (if reason = kReasonRunning then running s else remove1 n (running s))"
    "nodes s1 = (nodes s)(n := if reason = kReasonRunning then Some (appended (node s n) (token_id t)) else None)" by auto
  have rest: "set (map st_request_id ts) = W - {st_request_id t}"
    using Cons.prems(2,3) by (metis Diff_insert_absorb distinct.simps(2) list.simps(15) list.simps(9))
  have "W - {st_request_id t} \<subseteq> (\<lambda>x. req_id (node s1 x)) ` set (running s1)"
  proof
    fix i assume i: "i \<in> W - {st_request_id t}"
    then obtain x where x: "x \<in> set (running s)" "req_id (node s x) = i" using Cons.prems(4) by auto
    then have "x \<noteq> n" using i n(2) by auto
    then have "x \<in> set (running s1)" "req_id (node s1 x) = i" using x by (auto simp: s1(2,3) node_def)
    then show "i \<in> (\<lambda>x. req_id (node s1 x)) ` set (running s1)" by auto
  qed
  then show ?case
    using Cons.IH [OF s1(1) _ rest _ _ _ u(2)] update_one_coherent [OF Cons.prems(1) n W Cons.prems(5,6) u(1)] Cons.prems(2) by simp
qed simp

text \<open>A whole step, with the GPU writing what it is asked to.\<close>

lemma step_coherent:
  assumes inv: "step_inv {} s" and coll: "inj_on chain_hash U" and coh: "coherent good U s" and U: "prefixes_in U s"
    and run: "schedule s = Some (out, s1)" and w: "step_written good good' out s1"
    and ts: "map st_request_id ts = awaiting out" and up: "update_scheduler ts s1 = Some (outs, s')"
  shows "coherent good' U s' \<and> computed_in U s'"
proof -
  from schedule_ok [OF inv] run have o: "sched_inv out s1" "same_requests s s1" "queue s1 = queue s" by auto
  have "tracked good U out s1" using schedule_tracked [OF inv coll _ U run] coh by (simp add: coherent_tracked)
  then have coh1: "coherent good' U s1" using written_coherent [OF o(1)] w by blast
  have "prefixes_in U s1" using prefixes_in_same [OF o(2,3) step_invD(1) [OF inv]] U by simp
  then show ?thesis
    using update_scheduler_coherent [OF sched_inv_step [OF o(1)] _ _ sched_inv_awaiting_running [OF o(1)] coh1 _ up]
      awaiting_distinct [OF o(1)] ts prefixes_computed by auto
qed

lemma add_request_coherent: "store_ok s \<Longrightarrow> coherent good U s \<Longrightarrow> coherent good U (add_request r s)"
proof -
  assume a: "store_ok s" "coherent good U s"
  have "node (add_request r s) n = node s n" if "n \<in> set (running s)" for n
    using that a(1) by (auto simp: node_def add_request_def Let_def store_ok_def queue_def)
  then show ?thesis using a(2) by (simp add: coherent_def found_def) (simp add: add_request_def Let_def)
qed

lemma add_request_computed:
  assumes inv: "step_inv {} s" and U: "computed_in U s"
  shows "computed_in U (add_request r s)"
  unfolding computed_in_def
proof
  let ?s' = "add_request r s"
  have new: "num_computed_tokens (node ?s' (next_node s)) = 0" by (simp add: node_def add_request_def Let_def)
  have old: "node ?s' n = node s n" if "n \<noteq> next_node s" for n using that by (simp add: node_def add_request_def Let_def)
  have kv: "kv_cache_manager ?s' = kv_cache_manager s" by (simp add: add_request_def Let_def)
  have q: "queue ?s' = queue s @ [next_node s]" by (simp add: queue_def add_request_def Let_def)
  have s: "0 < num_block_slots (kv_cache_manager s)" using step_invD(5) [OF inv] by (rule kv_inv_slots)
  fix n assume n: "n \<in> set (queue ?s')"
  show "aligned_in U (num_block_slots (kv_cache_manager ?s')) (take (nat (num_computed_tokens (node ?s' n))) (token_ids (node ?s' n)))"
  proof (cases "n = next_node s")
    case True
    then show ?thesis using new s by (simp add: aligned_in_def kv)
  next
    case False
    then show ?thesis using U n by (simp add: computed_in_def q kv old [OF False])
  qed
qed

lemma abort_request_coherent:
  assumes inv: "step_inv {} s" and coh: "coherent good U s" and U: "computed_in U s" and run: "abort_request rid s = Some s'"
  shows "coherent good U s'"
proof (cases "id_to_request s rid")
  case None
  then show ?thesis using run coh by (simp add: abort_request_def)
next
  case (Some n)
  then have n: "n \<in> set (queue s)" using step_invD(1) [OF inv] by (simp add: store_ok_def)
  have "s\<lparr>nodes := (nodes s)(n \<mapsto> node s n)\<rparr> = s" using store_ok_node [OF step_invD(1) [OF inv] n] by (simp add: fun_upd_idem)
  then show ?thesis
    using remove_request_coherent [OF inv n coh U, of "node s n" s'] run Some by (simp add: abort_request_def)
qed

lemma abort_requests_coherent:
  assumes "step_inv {} s" "coherent good U s" "computed_in U s" "abort_requests rids s = Some s'"
  shows "coherent good U s' \<and> computed_in U s'"
  using assms
proof (induction rids arbitrary: s)
  case (Cons rid rids)
  from abort_request_ok [OF Cons.prems(1), of rid] obtain s1 where s1: "abort_request rid s = Some s1" "step_inv {} s1"
    "queue s1 = filter (\<lambda>n. req_id (node s n) \<noteq> rid) (queue s)" "\<And>n. n \<in> set (queue s1) \<Longrightarrow> node s1 n = node s n"
    "limits s1 = limits s" by blast
  have "computed_in U s1" using Cons.prems(3) s1(3-5) by (auto simp: computed_in_def limits_def)
  then show ?case
    using Cons.IH [OF s1(2) abort_request_coherent [OF Cons.prems(1-3) s1(1)]] Cons.prems(4) s1(1) by (simp add: abort_requests_def)
qed (simp add: abort_requests_def)

lemma create_coherent:
  assumes "Scheduler_create c mc kvc = Some s" "0 \<le> cfg_num_blocks kvc" "0 < cfg_num_block_slots kvc"
  shows "coherent good U s"
proof -
  from create_ok [OF assms(2,3)] obtain m where "KVCacheManager_create kvc = Some m" "\<And>b. is_block m b \<Longrightarrow> \<not> hash_valid (blk m b)"
    by blast
  then show ?thesis using assms(1) by (auto simp: Scheduler_create_def coherent_def tags_sound_def)
qed

end
