(* ===== verification/Batch_Rows.thy ===== *)
theory Batch_Rows
  imports Device Step_Coherence
begin

text \<open>
  The rows of an uploaded schedule, one by one: row \<open>row_start out i + j\<close> is the \<open>j\<close>-th scheduled
  token of the \<open>i\<close>-th request. With that, a schedule of the scheduler satisfies what the device
  contract of \<open>Device\<close> asks of a batch.
\<close>

subsection \<open>Flat indices\<close>

definition row_start :: "ScheduledRequest list \<Rightarrow> nat \<Rightarrow> nat" where
  "row_start out i = (\<Sum>e\<leftarrow>take i out. length (tokens_to_compute e))"

lemma row_start_0 [simp]: "row_start out 0 = 0"
  by (simp add: row_start_def)

lemma row_start_Cons [simp]: "row_start (e # out) (Suc i) = length (tokens_to_compute e) + row_start out i"
  by (simp add: row_start_def)

lemma row_start_Suc: "i < length out \<Longrightarrow> row_start out (Suc i) = row_start out i + length (tokens_to_compute (out ! i))"
  by (simp add: row_start_def take_Suc_conv_app_nth)

lemma row_start_total: "int (row_start out (length out)) = total_tokens out"
  by (induction out) (simp_all add: row_start_def total_tokens_def)

lemma row_start_mono: "i \<le> k \<Longrightarrow> k \<le> length out \<Longrightarrow> row_start out i \<le> row_start out k"
proof (induction k rule: nat_induct)
  case (Suc k)
  then show ?case using row_start_Suc [of k out] by (cases "i = Suc k") auto
qed simp

text \<open>Row \<open>t\<close> as a request and an index into its tokens.\<close>

lemma row_cases:
  assumes "t < row_start out (length out)"
  obtains i j where "i < length out" "j < length (tokens_to_compute (out ! i))" "t = row_start out i + j"
proof -
  have "\<exists>i j. i < length out \<and> j < length (tokens_to_compute (out ! i)) \<and> t = row_start out i + j"
    using assms
  proof (induction out arbitrary: t)
    case (Cons e out)
    show ?case
    proof (cases "t < length (tokens_to_compute e)")
      case True
      then show ?thesis by (intro exI [of _ 0] exI [of _ t]) simp
    next
      case False
      then have "t - length (tokens_to_compute e) < row_start out (length out)" using Cons.prems by simp
      then obtain i j where "i < length out" "j < length (tokens_to_compute (out ! i))" "t - length (tokens_to_compute e) = row_start out i + j"
        using Cons.IH by blast
      then show ?thesis using False by (intro exI [of _ "Suc i"] exI [of _ j]) auto
    qed
  qed simp
  then show thesis using that by blast
qed

lemma row_less: "i < length out \<Longrightarrow> j < length (tokens_to_compute (out ! i)) \<Longrightarrow> row_start out i + j < row_start out (length out)"
  using row_start_Suc [of i out] row_start_mono [of "Suc i" "length out" out] by simp

lemma concat_row:
  assumes "\<And>e. e \<in> set out \<Longrightarrow> length (f e) = length (tokens_to_compute e)"
    and "i < length out" "j < length (tokens_to_compute (out ! i))"
  shows "(concat (map f out) @ pad) ! (row_start out i + j) = f (out ! i) ! j"
  using assms
proof (induction out arbitrary: i)
  case (Cons e out)
  show ?case
  proof (cases i)
    case 0
    then show ?thesis using Cons.prems by (simp add: nth_append)
  next
    case (Suc k)
    have len: "length (f e) = length (tokens_to_compute e)" using Cons.prems(1) by simp
    have "(concat (map f out) @ pad) ! (row_start out k + j) = f (out ! k) ! j"
      by (rule Cons.IH) (use Cons.prems Suc in auto)
    then show ?thesis using Suc len by (simp add: nth_append add.assoc)
  qed
qed simp

lemma length_concat_rows:
  assumes "\<And>e. e \<in> set out \<Longrightarrow> length (f e) = length (tokens_to_compute e)"
  shows "length (concat (map f out)) = row_start out (length out)"
  using assms by (induction out) auto

lemma query_starts_row: "i \<le> length out \<Longrightarrow> query_starts acc out ! i = acc + int (row_start out i)"
proof (induction out arbitrary: acc i)
  case (Cons e out)
  then show ?case by (cases i) (simp_all add: entry_len_def)
qed simp

text \<open>The rows that sample.\<close>

definition sampling_indices :: "ScheduledRequest list \<Rightarrow> nat list" where
  "sampling_indices out = filter (\<lambda>i. needs_sampling (out ! i)) [0..<length out]"

lemma sampling_indices_Cons:
  "sampling_indices (e # out) = (if needs_sampling e then [0] else []) @ map Suc (sampling_indices out)"
proof -
  have "[0..<length (e # out)] = 0 # map Suc [0..<length out]" by (simp add: upt_conv_Cons map_Suc_upt del: upt_Suc)
  then show ?thesis by (simp add: sampling_indices_def filter_map comp_def)
qed

lemma sampled_rows_indices: "sampled_rows out = map ((!) out) (sampling_indices out)"
proof (induction out)
  case (Cons e out)
  then show ?case by (simp add: sampling_indices_Cons sampled_rows_def comp_def)
qed (simp add: sampled_rows_def sampling_indices_def)

lemma last_token_indices_rows:
  "last_token_indices acc out = map (\<lambda>i. acc + int (row_start out (Suc i)) - 1) (sampling_indices out)"
proof (induction out arbitrary: acc)
  case (Cons e out)
  then show ?case by (simp add: sampling_indices_Cons entry_len_def comp_def add.assoc)
qed (simp add: sampling_indices_def)

subsection \<open>The prefixes and the past of the rows\<close>

definition row_prefix :: "Scheduler \<Rightarrow> ScheduledRequest list \<Rightarrow> nat \<Rightarrow> int list" where
  \<comment> \<open>the tokens of its request up to the token of row \<open>t\<close>\<close>
  "row_prefix s out = (!) (concat (map2 (\<lambda>e n. map (\<lambda>p. take (nat p + 1) (token_ids (node s n))) (request_positions e)) out (running s)))"

definition row_past :: "int \<Rightarrow> ScheduledRequest list \<Rightarrow> nat \<Rightarrow> int list" where
  \<comment> \<open>the slots of its request up to that token\<close>
  "row_past bs out = (!) (concat (map (\<lambda>e. map (\<lambda>p. map (\<lambda>q. kv_slot bs (allocated_blocks e) (int q)) [0..<nat p + 1]) (request_positions e)) out))"

lemma concat_row_map2:
  assumes "\<And>e n. e \<in> set out \<Longrightarrow> length (f e n) = length (tokens_to_compute e)"
    and "length out \<le> length ns" "i < length out" "j < length (tokens_to_compute (out ! i))"
  shows "concat (map2 f out ns) ! (row_start out i + j) = f (out ! i) (ns ! i) ! j"
  using assms
proof (induction out arbitrary: i ns)
  case (Cons e out)
  then obtain n ns' where ns: "ns = n # ns'" by (cases ns) auto
  have len: "length (f e n) = length (tokens_to_compute e)" using Cons.prems(1) by simp
  show ?case
  proof (cases i)
    case 0
    then show ?thesis using Cons.prems len by (simp add: nth_append ns)
  next
    case (Suc k)
    have "concat (map2 f out ns') ! (row_start out k + j) = f (out ! k) (ns' ! k) ! j"
      by (rule Cons.IH) (use Cons.prems Suc ns in auto)
    then show ?thesis using Suc len by (simp add: nth_append add.assoc ns)
  qed
qed simp

lemma row_prefix_eval:
  assumes "length out \<le> length (running s)" "i < length out" "j < length (tokens_to_compute (out ! i))" "0 \<le> position_offset (out ! i)"
  shows "row_prefix s out (row_start out i + j)
    = take (Suc (nat (position_offset (out ! i)) + j)) (token_ids (node s (running s ! i)))"
proof -
  have "nat (position_offset (out ! i) + int j) = nat (position_offset (out ! i)) + j" using assms(4) by (simp add: nat_add_distrib)
  then show ?thesis unfolding row_prefix_def using assms
    by (subst concat_row_map2) (simp_all add: request_positions_def)
qed

lemma row_past_eval:
  assumes "i < length out" "j < length (tokens_to_compute (out ! i))" "0 \<le> position_offset (out ! i)"
  shows "row_past bs out (row_start out i + j)
    = map (\<lambda>q. kv_slot bs (allocated_blocks (out ! i)) (int q)) [0..<Suc (nat (position_offset (out ! i)) + j)]"
proof -
  have "nat (position_offset (out ! i) + int j) = nat (position_offset (out ! i)) + j" using assms(3) by (simp add: nat_add_distrib)
  then show ?thesis unfolding row_past_def using assms concat_row [of out "\<lambda>e. map (\<lambda>p. map (\<lambda>q. kv_slot bs (allocated_blocks e) (int q)) [0..<nat p + 1]) (request_positions e)" i j "[]"]
    by (simp add: request_positions_def del: upt_Suc)
qed

subsection \<open>A schedule as a batch\<close>

definition scheduled_batch :: "BatchBuffer \<Rightarrow> ScheduledRequest list \<Rightarrow> Scheduler \<Rightarrow> int \<Rightarrow> bool" where
  \<comment> \<open>\<open>out\<close> is the schedule of \<open>s\<close>, uploaded with \<open>p\<close> rows\<close>
  "scheduled_batch bb out s p \<longleftrightarrow> sched_inv out s \<and> bb_block_size bb = num_block_slots (kv_cache_manager s) \<and> total_tokens out \<le> p"

lemma scheduled_entry:
  assumes ok: "scheduled_batch bb out s p" and i: "i < length out"
  defines "r \<equiv> node s (running s ! i)" and "e \<equiv> out ! i" and "m \<equiv> kv_cache_manager s"
  shows "0 \<le> position_offset e" "tokens_to_compute e \<noteq> []"
    "position_offset e + entry_len e \<le> int (length (token_ids r))"
    "position_offset e + entry_len e \<le> int (length (allocated_blocks e)) * num_block_slots m"
    "j < length (tokens_to_compute e) \<Longrightarrow> tokens_to_compute e ! j = token_ids r ! (nat (position_offset e) + j)"
    "needs_sampling e \<Longrightarrow> position_offset e + entry_len e = int (length (token_ids r))"
    "x \<in> set (allocated_blocks e) \<Longrightarrow> is_block m x"
    "sr_request_id e = req_id r" "sr_sample_params e = sample_params r"
proof -
  have inv: "sched_inv out s" using ok by (simp add: scheduled_batch_def)
  have ir: "i < length (running s)" using i sched_invD(6) [OF inv] by simp
  have ent: "entry_ok s r e" using sched_inv_entry [OF inv i] by (simp add: r_def e_def)
  from sched_inv_owns [OF inv ir] i obtain bs where o: "req_to_allocated_blocks m (req_id r) = Some bs"
    "num_computed_tokens r \<le> int (length bs) * num_block_slots m" "allocated_blocks e = bs"
    "num_computed_tokens r = position_offset e + entry_len e" "num_computed_tokens r \<le> num_tokens r"
    "tokens_to_compute e = take (nat (entry_len e)) (drop (nat (position_offset e)) (token_ids r))"
    by (auto simp: r_def e_def m_def)
  show "0 \<le> position_offset e" using ent by (simp add: entry_ok_def)
  have "position_offset e < num_computed_tokens r" using ent by (simp add: entry_ok_def)
  then show "tokens_to_compute e \<noteq> []" using o(4) by (auto simp: entry_len_def)
  show "position_offset e + entry_len e \<le> int (length (token_ids r))" using o(4,5) by (simp add: num_tokens_def)
  show "position_offset e + entry_len e \<le> int (length (allocated_blocks e)) * num_block_slots m" using o(2,3,4) by simp
  show "needs_sampling e \<Longrightarrow> position_offset e + entry_len e = int (length (token_ids r))"
    using ent o(4) by (simp add: entry_ok_def num_tokens_def)
  show "tokens_to_compute e ! j = token_ids r ! (nat (position_offset e) + j)" if "j < length (tokens_to_compute e)"
  proof -
    have j: "j < nat (entry_len e)" using that by (simp add: entry_len_def)
    have "nat (position_offset e) \<le> length (token_ids r)"
      using \<open>position_offset e + entry_len e \<le> int (length (token_ids r))\<close> by (simp add: entry_len_def)
    then show ?thesis using j by (subst o(6)) simp
  qed
  obtain fl where "kv_ok m fl" using sched_invD(5) [OF inv] by (auto simp: kv_inv_def m_def)
  then show "x \<in> set (allocated_blocks e) \<Longrightarrow> is_block m x" using kv_ok_is_block o(1,3) by blast
  show "sr_request_id e = req_id r" "sr_sample_params e = sample_params r" using ent by (simp_all add: entry_ok_def)
qed

lemma scheduled_slots: "scheduled_batch bb out s p \<Longrightarrow> 0 < num_block_slots (kv_cache_manager s) \<and> length out \<le> length (running s)"
  using sched_invD(5,6) kv_inv_slots by (auto simp: scheduled_batch_def)

lemma scheduled_mapping:
  assumes "scheduled_batch bb out s p" "i < length out" "j < length (tokens_to_compute (out ! i))"
  shows "fb_slot_mapping (flat_batch bb out p) ! (row_start out i + j)
    = kv_slot (num_block_slots (kv_cache_manager s)) (allocated_blocks (out ! i)) (position_offset (out ! i) + int j)"
proof -
  have "bb_block_size bb = num_block_slots (kv_cache_manager s)" using assms(1) by (simp add: scheduled_batch_def)
  then show ?thesis using assms(2,3) by (simp add: flat_batch_def Let_def concat_row request_slots_nth)
qed

lemma scheduled_rows:
  assumes ok: "scheduled_batch bb out s p"
  shows "rows_ok (flat_batch bb out p) (row_start out (length out)) (row_prefix s out)"
  unfolding rows_ok_def
proof (intro allI impI)
  let ?b = "flat_batch bb out p"
  fix t assume "t < row_start out (length out)"
  then obtain i j where t: "i < length out" "j < length (tokens_to_compute (out ! i))" "t = row_start out i + j" by (rule row_cases)
  let ?e = "out ! i" and ?toks = "token_ids (node s (running s ! i))"
  note e = scheduled_entry [OF ok t(1)]
  have pre: "row_prefix s out t = take (Suc (nat (position_offset ?e) + j)) ?toks"
    unfolding t(3) by (rule row_prefix_eval) (use t e(1) scheduled_slots [OF ok] in auto)
  have len: "nat (position_offset ?e) + j < length ?toks" using e(1,3) t(2) by (simp add: entry_len_def)
  have "fb_token_ids ?b ! t = ?toks ! (nat (position_offset ?e) + j)"
    using t e(5) [OF t(2)] by (simp add: flat_batch_def Let_def concat_row)
  moreover have "fb_positions ?b ! t = position_offset ?e + int j"
    using t by (simp add: flat_batch_def Let_def concat_row) (simp add: request_positions_def)
  ultimately show "row_prefix s out t \<noteq> [] \<and> fb_token_ids ?b ! t = last (row_prefix s out t)
      \<and> fb_positions ?b ! t = int (length (row_prefix s out t)) - 1"
    using len e(1) by (auto simp: pre take_Suc_conv_app_nth min_def)
qed

lemma scheduled_slots_ok:
  assumes ok: "scheduled_batch bb out s p"
  shows "slots_ok (flat_batch bb out p) (row_start out (length out)) p"
proof -
  let ?b = "flat_batch bb out p" and ?n = "row_start out (length out)" and ?s = "num_block_slots (kv_cache_manager s)"
  have inv: "sched_inv out s" and bs: "bb_block_size bb = ?s" using ok by (simp_all add: scheduled_batch_def)
  have s: "0 < ?s" using scheduled_slots [OF ok] by simp
  have len: "length (batch_slots ?s out) = ?n" unfolding batch_slots_def by (rule length_concat_rows) simp
  have map: "fb_slot_mapping ?b = batch_slots ?s out @ replicate (nat (p - total_tokens out)) (-1)"
    by (simp add: flat_batch_def Let_def bs batch_slots_def total_tokens_entry_len)
  have nn: "0 \<le> batch_slots ?s out ! t" if t: "t < ?n" for t
  proof -
    from t obtain i j where ij: "i < length out" "j < length (tokens_to_compute (out ! i))" "t = row_start out i + j" by (rule row_cases)
    note e = scheduled_entry [OF ok ij(1)]
    let ?p = "position_offset (out ! i) + int j"
    have "batch_slots ?s out ! t = kv_slot ?s (allocated_blocks (out ! i)) ?p"
      using scheduled_mapping [OF ok ij(1,2)] t len by (simp add: map ij(3) nth_append)
    moreover have "nat (?p div ?s) < length (allocated_blocks (out ! i))"
      by (rule block_index [OF s]) (use e(1,4) ij(2) in \<open>auto simp: entry_len_def\<close>)
    then have "0 \<le> allocated_blocks (out ! i) ! nat (?p div ?s)" using e(7) nth_mem by (fastforce simp: in_bounds_def)
    ultimately show ?thesis using s by (simp add: kv_slot_def)
  qed
  have p: "int ?n \<le> p" using ok by (simp add: scheduled_batch_def row_start_total)
  have "t < ?n \<longleftrightarrow> 0 \<le> fb_slot_mapping ?b ! t" if "t < nat p" for t
    using that nn p len by (auto simp: map nth_append row_start_total [symmetric])
  moreover have "inj_on ((!) (fb_slot_mapping ?b)) {..<?n}"
    using sched_inv_exclusive [OF inv] len by (auto simp: batch_exclusive_def inj_on_def map nth_append nth_eq_iff_index_eq)
  ultimately show ?thesis using p by (simp add: slots_ok_def)
qed

lemma scheduled_past:
  assumes ok: "scheduled_batch bb out s p" and tr: "tracked (slot_good K m cache) U out s"
  shows "past_ok K m cache (flat_batch bb out p) (row_start out (length out)) (row_prefix s out) (row_past (num_block_slots (kv_cache_manager s)) out)"
  unfolding past_ok_def
proof (intro allI impI conjI)
  let ?b = "flat_batch bb out p" and ?n = "row_start out (length out)" and ?s = "num_block_slots (kv_cache_manager s)"
  have inv: "sched_inv out s" using ok by (simp add: scheduled_batch_def)
  fix t assume "t < ?n"
  then obtain i j where t: "i < length out" "j < length (tokens_to_compute (out ! i))" "t = row_start out i + j" by (rule row_cases)
  let ?e = "out ! i" and ?r = "node s (running s ! i)"
  note e = scheduled_entry [OF ok t(1)]
  have ir: "length out \<le> length (running s)" using scheduled_slots [OF ok] by simp
  have pre: "row_prefix s out (row_start out i + k) = take (Suc (nat (position_offset ?e) + k)) (token_ids ?r)"
    if "k < length (tokens_to_compute ?e)" for k by (rule row_prefix_eval) (use t(1) that e(1) ir in auto)
  have past: "row_past ?s out t = map (\<lambda>q. kv_slot ?s (allocated_blocks ?e) (int q)) [0..<Suc (nat (position_offset ?e) + j)]"
    unfolding t(3) by (rule row_past_eval) (use t e(1) in auto)
  have len: "length (row_prefix s out t) = Suc (nat (position_offset ?e) + j)"
    using pre [OF t(2)] e(1,3) t(2) by (simp add: t(3) entry_len_def)
  then show "length (row_past ?s out t) = length (row_prefix s out t)" by (simp add: past)
  fix q assume "q < length (row_prefix s out t)"
  then have q: "q \<le> nat (position_offset ?e) + j" using len by simp
  have sl: "row_past ?s out t ! q = kv_slot ?s (allocated_blocks ?e) (int q)" using q by (simp add: past del: upt_Suc)
  have tk: "take (Suc q) (row_prefix s out t) = take (Suc q) (token_ids ?r)" using q pre [OF t(2)] by (simp add: t(3) min_def)
  show "(\<exists>u < ?n. fb_slot_mapping ?b ! u = row_past ?s out t ! q \<and> row_prefix s out u = take (Suc q) (row_prefix s out t))
      \<or> (\<forall>u < ?n. fb_slot_mapping ?b ! u \<noteq> row_past ?s out t ! q) \<and> slot_good K m cache (row_past ?s out t ! q) (take (Suc q) (row_prefix s out t))"
  proof (cases "nat (position_offset ?e) \<le> q")
    case True
    let ?k = "q - nat (position_offset ?e)"
    have k: "?k < length (tokens_to_compute ?e)" using q t(2) by simp
    have "position_offset ?e + int ?k = int q" "nat (position_offset ?e) + ?k = q" using True e(1) by auto
    then show ?thesis
      using scheduled_mapping [OF ok t(1) k] pre [OF k] row_less [OF t(1) k] sl tk
      by (intro disjI1 exI [of _ "row_start out i + ?k"]) simp
  next
    case False
    then have lt: "int q < position_offset ?e" by simp
    have "found (slot_good K m cache) s ?r (position_offset ?e)"
      using tracked_found [OF tr, of i] t(1) ir by (simp add: progress_def)
    moreover have "blocks_of (kv_cache_manager s) (req_id ?r) = allocated_blocks ?e"
      using sched_inv_owns [OF inv, of i] t(1) ir by auto
    ultimately have "slot_good K m cache (kv_slot ?s (allocated_blocks ?e) (int q)) (take (Suc q) (token_ids ?r))"
      using lt by (simp add: found_def reaches_def)
    moreover have "kv_slot ?s (allocated_blocks ?e) (int q) \<notin> set (batch_slots ?s out)"
      using sched_inv_exclusive [OF inv] t(1) lt by (simp add: batch_exclusive_def)
    then have "fb_slot_mapping ?b ! u \<noteq> kv_slot ?s (allocated_blocks ?e) (int q)" if "u < ?n" for u
    proof -
      from that obtain i' j' where u: "i' < length out" "j' < length (tokens_to_compute (out ! i'))" "u = row_start out i' + j'" by (rule row_cases)
      have "fb_slot_mapping ?b ! u \<in> set (batch_slots ?s out)"
        unfolding batch_slots_in u(3) scheduled_mapping [OF ok u(1,2)]
        by (intro exI [of _ i'] conjI exI [of _ "position_offset (out ! i') + int j'"]) (use u in \<open>auto simp: entry_len_def\<close>)
      then show ?thesis using \<open>kv_slot ?s (allocated_blocks ?e) (int q) \<notin> set (batch_slots ?s out)\<close> by auto
    qed
    ultimately show ?thesis using sl tk by simp
  qed
qed

subsection \<open>Attention over a schedule\<close>

definition attention_fits :: "ModelConfig \<Rightarrow> int \<Rightarrow> int \<Rightarrow> int \<Rightarrow> bool" where
  \<comment> \<open>sizes the attention kernel supports: blocks of \<open>bs\<close> slots, \<open>nb\<close> blocks, \<open>n\<close> tokens a step\<close>
  "attention_fits mc bs nb n \<longleftrightarrow> (head_dim mc = 64 \<or> head_dim mc = 128) \<and> (\<exists>shift < 31. bs = 2 ^ shift) \<and> nb * bs \<le> 2 ^ 32
     \<and> 0 < num_kv_heads mc \<and> 0 < num_attention_heads mc \<and> num_kv_heads mc dvd num_attention_heads mc
     \<and> n * (num_attention_heads mc div num_kv_heads mc) < 2 ^ 32"

lemma flat_batch_requests [simp]:
  "fb_num_reqs (flat_batch bb out p) = int (length out)" "fb_query_start_loc (flat_batch bb out p) = query_starts 0 out"
  "fb_seq_lens (flat_batch bb out p) = map (\<lambda>e. position_offset e + entry_len e) out"
  "fb_block_table (flat_batch bb out p) = map (table_row (host_block_table_stride out)) out"
  "fb_num_tokens (flat_batch bb out p) = total_tokens out" "fb_logits_indices (flat_batch bb out p) = last_token_indices 0 out"
  "fb_sample_params (flat_batch bb out p) = map sr_sample_params (filter needs_sampling out)"
  by (simp_all add: flat_batch_def Let_def total_tokens_entry_len)

lemma starts_of_flat: "i \<le> length out \<Longrightarrow> starts_of (flat_batch bb out p) ! i = row_start out i"
  by (simp add: starts_of_def length_query_starts query_starts_row)

lemma scheduled_attention:
  assumes ok: "scheduled_batch bb out s p" and shift: "num_block_slots (kv_cache_manager s) = 2 ^ shift"
    and pool: "num_blocks (kv_cache_manager s) * num_block_slots (kv_cache_manager s) \<le> 2 ^ 32"
    and g: "0 < g" "row_start out (length out) * g < 2 ^ 32"
  shows "attention_batch (flat_batch bb out p) g shift"
proof -
  let ?b = "flat_batch bb out p" and ?m = "kv_cache_manager s"
  let ?q = "starts_of ?b"
  note q = starts_of_flat [of _ out bb p]
  have len: "length ?q = length out + 1" by (simp add: starts_of_def length_query_starts)
  have pos: "0 < length (tokens_to_compute (out ! i))" if "i < length out" for i using scheduled_entry(2) [OF ok that] by simp
  have "starts_ok ?q (length out)" using pos by (simp add: starts_ok_def len q row_start_Suc)
  then have "tiling ?q (length out) g" using g by (simp add: tiling_def q)
  moreover have "nat (fb_num_tokens ?b) = ?q ! length out" by (simp add: q row_start_total [symmetric])
  moreover have "?q ! (i + 1) - ?q ! i \<le> nat (fb_seq_lens ?b ! i) \<and> table_ok shift (fb_block_table ?b ! i)
      \<and> nat (fb_seq_lens ?b ! i) \<le> length (fb_block_table ?b ! i) * 2 ^ shift" if i: "i < length out" for i
  proof -
    let ?e = "out ! i"
    note e = scheduled_entry [OF ok i]
    have diff: "?q ! (i + 1) - ?q ! i = length (tokens_to_compute ?e)" using i by (simp add: q row_start_Suc)
    have block: "0 \<le> x \<and> (nat x + 1) * 2 ^ shift \<le> 2 ^ 32" if x: "is_block ?m x" for x
    proof -
      have x': "0 \<le> x" "x + 1 \<le> num_blocks ?m" using x by (simp_all add: in_bounds_def num_blocks_def)
      have "(x + 1) * 2 ^ shift \<le> num_blocks ?m * 2 ^ shift" using x'(2) by (rule mult_right_mono) simp
      then have "(x + 1) * 2 ^ shift \<le> 2 ^ 32" using pool unfolding shift by (rule order.trans)
      moreover have "int ((nat x + 1) * 2 ^ shift) = (x + 1) * 2 ^ shift" using x'(1) by (simp add: distrib_right)
      ultimately have "int ((nat x + 1) * 2 ^ shift) \<le> int (2 ^ 32)" by simp
      then show ?thesis using x'(1) by linarith
    qed
    have "0 < entry_len ?e" using pos [OF i] by (simp add: entry_len_def)
    then have "allocated_blocks ?e \<noteq> []" using e(1,4) by auto
    then obtain x where "x \<in> set (allocated_blocks ?e)" by (cases "allocated_blocks ?e") auto
    then have "is_block ?m x" by (rule e(7))
    then have "(0 + 1) * 2 ^ shift \<le> (nat x + 1) * (2 :: nat) ^ shift" "(nat x + 1) * 2 ^ shift \<le> (2 :: nat) ^ 32"
      using block by (auto intro: mult_le_mono1)
    then have zero: "(nat 0 + 1) * 2 ^ shift \<le> (2 :: nat) ^ 32" using order.trans by fastforce
    have "set (table_row (host_block_table_stride out) ?e) \<subseteq> set (allocated_blocks ?e) \<union> {0}" by (auto simp: table_row_def)
    then have "table_ok shift (table_row (host_block_table_stride out) ?e)"
      using block e(7) zero unfolding table_ok_def by blast
    moreover have "nat (position_offset ?e + entry_len ?e) \<le> length (table_row (host_block_table_stride out) ?e) * 2 ^ shift"
    proof -
      have "position_offset ?e + entry_len ?e \<le> int (length (allocated_blocks ?e) * 2 ^ shift)" using e(4) shift by simp
      then have "nat (position_offset ?e + entry_len ?e) \<le> length (allocated_blocks ?e) * 2 ^ shift" by linarith
      also have "\<dots> \<le> length (table_row (host_block_table_stride out) ?e) * 2 ^ shift" by (intro mult_le_mono1) (simp add: table_row_def)
      finally show ?thesis .
    qed
    moreover have "length (tokens_to_compute ?e) \<le> nat (position_offset ?e + entry_len ?e)" using e(1) by (simp add: entry_len_def)
    ultimately show ?thesis using i diff by simp
  qed
  ultimately show ?thesis by (simp add: attention_batch_def Let_def)
qed

lemma scheduled_past_slots:
  assumes ok: "scheduled_batch bb out s p" and shift: "num_block_slots (kv_cache_manager s) = 2 ^ shift"
    and i: "i < length out" "j < length (tokens_to_compute (out ! i))"
  shows "past_slots (flat_batch bb out p) shift i (row_position (flat_batch bb out p) i (row_start out i + j))
    = row_past (num_block_slots (kv_cache_manager s)) out (row_start out i + j)"
proof -
  let ?b = "flat_batch bb out p" and ?e = "out ! i" and ?s = "num_block_slots (kv_cache_manager s)"
  note e = scheduled_entry [OF ok i(1)]
  have s: "0 < ?s" using scheduled_slots [OF ok] by simp
  have "nat (position_offset ?e + entry_len ?e) - length (tokens_to_compute ?e) = nat (position_offset ?e)"
    using e(1) by (simp add: entry_len_def nat_add_distrib)
  then have pos: "row_position ?b i (row_start out i + j) = nat (position_offset ?e) + j"
    using i(1) by (simp add: row_position_def starts_of_flat row_start_Suc)
  have "kv_slot (2 ^ shift) (table_row (host_block_table_stride out) ?e) (int q) = kv_slot ?s (allocated_blocks ?e) (int q)"
    if "q < Suc (nat (position_offset ?e) + j)" for q
  proof -
    have "int q < int (length (allocated_blocks ?e)) * ?s" using that e(1,4) i(2) by (simp add: entry_len_def)
    then show ?thesis unfolding table_row_def shift [symmetric] by (intro kv_slot_append [OF s]) simp_all
  qed
  then show ?thesis
    using i(1) row_past_eval [OF i e(1), of ?s] by (simp add: past_slots_def pos del: upt_Suc)
qed

lemma scheduled_heads:
  assumes ok: "scheduled_batch bb out s p"
    and fits: "attention_fits mc (num_block_slots (kv_cache_manager s)) (num_blocks (kv_cache_manager s)) (total_tokens out)"
  shows "heads_ok mc (num_block_slots (kv_cache_manager s)) (flat_batch bb out p) (row_start out (length out))
    (row_past (num_block_slots (kv_cache_manager s)) out)"
proof -
  let ?b = "flat_batch bb out p" and ?s = "num_block_slots (kv_cache_manager s)"
  obtain shift where shift: "shift < 31" "?s = 2 ^ shift" using fits by (auto simp: attention_fits_def)
  obtain g where g: "num_attention_heads mc = num_kv_heads mc * g" using fits by (auto simp: attention_fits_def)
  have kv: "0 < num_kv_heads mc" "0 < num_kv_heads mc * g" "head_dim mc = 64 \<or> head_dim mc = 128" "num_blocks (kv_cache_manager s) * ?s \<le> 2 ^ 32"
    "total_tokens out * g < 2 ^ 32" using fits by (auto simp: attention_fits_def g)
  then have g0: "0 < g" by (simp add: zero_less_mult_iff)
  have n: "row_start out (length out) * nat g < 2 ^ 32"
  proof -
    have "int (row_start out (length out) * nat g) = total_tokens out * g" using g0 by (simp add: row_start_total)
    then have "int (row_start out (length out) * nat g) < int (2 ^ 32)" using kv(5) by simp
    then show ?thesis by (simp only: of_nat_less_iff)
  qed
  have att: "attention_batch ?b (nat g) shift" by (rule scheduled_attention [OF ok shift(2) kv(4) _ n]) (use g0 in simp)
  let ?ws = "launch_paged_attention ?b (nat (num_kv_heads mc)) (nat (num_kv_heads mc) * nat g) shift"
  have heads: "nat (num_attention_heads mc) = nat (num_kv_heads mc) * nat g" using kv(1) g0 by (simp add: g nat_mult_distrib)
  have dim: "nat (head_dim mc) = 64 \<or> nat (head_dim mc) = 128" using kv(3) by auto
  have "nat (num_attention_heads mc * head_dim mc) div nat (head_dim mc) = nat (num_attention_heads mc)"
    using kv(2,3) g by (auto simp: nat_mult_distrib)
  then have "paged_attention ?b (nat (num_kv_heads mc)) (nat (head_dim mc)) (nat (num_attention_heads mc * head_dim mc)) ?s = Inr ?ws"
    using dim by (auto simp: paged_attention_def shift(2) countr_zero_power [OF shift(1)] heads)
  moreover have "distinct (map head_key ?ws)" using launch_covers [OF att] by blast
  moreover have "nat (num_attention_heads mc) div nat (num_kv_heads mc) = nat g" using kv(1) by (simp add: heads)
  moreover have "(t, h, h div nat g, row_past ?s out t) \<in> set ?ws" if t: "t < row_start out (length out)" and h: "h < nat (num_attention_heads mc)" for t h
  proof -
    from t obtain i j where ij: "i < length out" "j < length (tokens_to_compute (out ! i))" "t = row_start out i + j" by (rule row_cases)
    have "starts_of ?b ! i \<le> t" "t < starts_of ?b ! (i + 1)" using ij by (simp_all add: starts_of_flat row_start_Suc)
    moreover have "row_past ?s out t = past_slots ?b shift i (row_position ?b i t)"
      unfolding ij(3) by (rule scheduled_past_slots [OF ok shift(2) ij(1,2), symmetric])
    ultimately show ?thesis using launch_covers [OF att, of "nat (num_kv_heads mc)"] ij(1) h heads by auto
  qed
  ultimately show ?thesis unfolding heads_ok_def by auto
qed

end
