(* ===== verification/Inference.thy ===== *)
theory Inference
  imports Engine_Start Batch_Rows
begin

text \<open>
  The engine computes the model. With the device of \<open>Device\<close>, every token the engine core emits
  for a request is drawn from the logits of the reference decoder on the tokens of that request
  alone: batching, chunked prefill, padding, preemption, shared prefix blocks and the reuse of
  freed blocks change nothing.
\<close>

subsection \<open>One step of the device\<close>

lemma sampling_row:
  assumes ok: "scheduled_batch bb out s p" and j: "j < length (sampling_indices out)"
  defines "i \<equiv> sampling_indices out ! j"
  shows "i < length out" "needs_sampling (out ! i)" "nat (last_token_indices 0 out ! j) < row_start out (length out)"
    "row_prefix s out (nat (last_token_indices 0 out ! j)) = token_ids (node s (running s ! i))"
    "map sr_sample_params (filter needs_sampling out) ! j = sr_sample_params (out ! i)"
proof -
  have "i \<in> set (sampling_indices out)" using j by (simp add: i_def)
  then show i: "i < length out" "needs_sampling (out ! i)" by (simp_all add: sampling_indices_def)
  note e = scheduled_entry [OF ok i(1)]
  let ?k = "length (tokens_to_compute (out ! i)) - 1"
  have k: "?k < length (tokens_to_compute (out ! i))" using e(2) by (cases "tokens_to_compute (out ! i)") auto
  have "last_token_indices 0 out ! j = int (row_start out (Suc i)) - 1" using j by (simp add: last_token_indices_rows i_def)
  then have last: "nat (last_token_indices 0 out ! j) = row_start out i + ?k" using k row_start_Suc [OF i(1)] by simp
  show "nat (last_token_indices 0 out ! j) < row_start out (length out)" unfolding last by (rule row_less [OF i(1) k])
  have "Suc (nat (position_offset (out ! i)) + ?k) = length (token_ids (node s (running s ! i)))"
    using e(1) e(6) [OF i(2)] k by (simp add: entry_len_def)
  then show "row_prefix s out (nat (last_token_indices 0 out ! j)) = token_ids (node s (running s ! i))"
    unfolding last using row_prefix_eval [OF _ i(1) k e(1), of s] scheduled_slots [OF ok] by simp
  show "map sr_sample_params (filter needs_sampling out) ! j = sr_sample_params (out ! i)"
    using sampled_rows_indices [of out] j by (simp add: sampled_rows_def i_def)
qed

lemma device_step:
  fixes K :: "'v Kernels" and offset :: "64 word" and r' :: int
  assumes ok: "scheduled_batch bb out s p" and m: "model_ok m"
    and fits: "attention_fits (lm_config m) (num_block_slots (kv_cache_manager s)) (num_blocks (kv_cache_manager s)) (total_tokens out)"
    and tr: "tracked (slot_good K m (g_pool g)) U out s"
  defines "g' \<equiv> gpu_after K (lm_config m) (num_block_slots (kv_cache_manager s)) g
     (step_stream (flat_batch bb out p) (replayed m p r') (int (length (sampled_rows out))) offset)"
  shows "step_written (slot_good K m (g_pool g)) (slot_good K m (g_pool g')) out s"
    and "j < length (sampling_indices out) \<Longrightarrow> (let r = node s (running s ! (sampling_indices out ! j)) in
       g_pinned g' j = k_sample K (sample_params r) (offset + of_nat j) (logits_of K m (token_ids r)))"
proof -
  let ?s = "num_block_slots (kv_cache_manager s)" and ?b = "flat_batch bb out p" and ?n = "row_start out (length out)"
  have ns: "length (sampled_rows out) = length (sampling_indices out)" by (simp add: sampled_rows_indices)
  have idx: "\<forall>j. int j < int (length (sampled_rows out)) \<longrightarrow> nat (fb_logits_indices ?b ! j) < ?n"
    using sampling_row(3) [OF ok] by (simp add: ns)
  note eff = step_stream_effect [OF scheduled_rows [OF ok] scheduled_slots_ok [OF ok] scheduled_heads [OF ok fits]
      scheduled_past [OF ok tr] m idx, where offset = offset and r' = r', folded g'_def]
  have inv: "sched_inv out s" using ok by (simp add: scheduled_batch_def)
  have bb: "bb_block_size bb = ?s" using ok by (simp add: scheduled_batch_def)
  have slot_row: "fb_slot_mapping ?b ! t \<in> set (batch_slots ?s out)" if "t < ?n" for t
  proof -
    from that obtain i j where t: "i < length out" "j < length (tokens_to_compute (out ! i))" "t = row_start out i + j" by (rule row_cases)
    show ?thesis unfolding batch_slots_in t(3) scheduled_mapping [OF ok t(1,2)]
      by (intro exI [of _ i] conjI exI [of _ "position_offset (out ! i) + int j"]) (use t in \<open>auto simp: entry_len_def\<close>)
  qed
  have "slot_good K m (g_pool g') x ts" if "x \<notin> set (batch_slots ?s out)" "slot_good K m (g_pool g) x ts" for x ts
  proof -
    have "\<forall>t < ?n. fb_slot_mapping ?b ! t \<noteq> x" using slot_row that(1) by blast
    then show ?thesis using that(2) eff(2) by (simp add: slot_good_def)
  qed
  moreover have "slot_good K m (g_pool g') (kv_slot ?s (allocated_blocks (out ! i)) q) (take (nat q + 1) (token_ids (node s (running s ! i))))"
    if i: "i < length out" and q: "position_offset (out ! i) \<le> q" "q < position_offset (out ! i) + entry_len (out ! i)" for i q
  proof -
    note e = scheduled_entry [OF ok i]
    let ?k = "nat (q - position_offset (out ! i))"
    have k: "?k < length (tokens_to_compute (out ! i))" using q by (simp add: entry_len_def)
    have "position_offset (out ! i) + int ?k = q" "nat (position_offset (out ! i)) + ?k = nat q" using q e(1) by auto
    then have "fb_slot_mapping ?b ! (row_start out i + ?k) = kv_slot ?s (allocated_blocks (out ! i)) q"
        "row_prefix s out (row_start out i + ?k) = take (nat q + 1) (token_ids (node s (running s ! i)))"
      using scheduled_mapping [OF ok i k] row_prefix_eval [OF _ i k e(1), of s] scheduled_slots [OF ok] by simp_all
    then show ?thesis using eff(1) [OF _ row_less [OF i k]] by (simp add: slot_good_def)
  qed
  ultimately show "step_written (slot_good K m (g_pool g)) (slot_good K m (g_pool g')) out s"
    by (simp add: step_written_def Let_def)
  assume j: "j < length (sampling_indices out)"
  note row = sampling_row [OF ok j]
  have "sr_sample_params (out ! (sampling_indices out ! j)) = sample_params (node s (running s ! (sampling_indices out ! j)))"
    by (rule scheduled_entry(9) [OF ok row(1)])
  then show "let r = node s (running s ! (sampling_indices out ! j)) in
       g_pinned g' j = k_sample K (sample_params r) (offset + of_nat j) (logits_of K m (token_ids r))"
    using eff(3) [of j] j row(4,5) by (simp add: ns Let_def)
qed

subsection \<open>Tokens and outputs\<close>

lemma update_tokens:
  assumes "step_inv W s" "distinct (map st_request_id ts)" "set (map st_request_id ts) = W"
    and "W \<subseteq> (\<lambda>n. req_id (node s n)) ` set (running s)" "update_scheduler ts s = Some (outs, s')"
    and "n \<in> set (queue s')"
  shows "token_ids (node s' n) = token_ids (node s n) @ map token_id (filter (\<lambda>t. st_request_id t = req_id (node s n)) ts)"
  using assms
proof (induction ts arbitrary: s W outs)
  case (Cons t ts)
  then obtain x where x: "x \<in> set (running s)" "req_id (node s x) = st_request_id t" by auto
  note store = step_invD(1) [OF Cons.prems(1)]
  have W: "st_request_id t \<in> W" using Cons.prems(3) by auto
  from Cons.prems(5) obtain o' outs' s1 where u: "update_one t s = Some (o', s1)" "update_scheduler ts s1 = Some (outs', s')"
    by (auto simp: bind_eq_Some_conv split: prod.splits)
  from update_one_ok [OF Cons.prems(1) x W] u(1) obtain reason where s1: "step_inv (W - {st_request_id t}) s1"
    "running s1 = (if reason = kReasonRunning then running s else remove1 x (running s))"
    "queue s1 = (if reason = kReasonRunning then queue s else remove1 x (queue s))"
    "nodes s1 = (nodes s)(x := if reason = kReasonRunning then Some (appended (node s x) (token_id t)) else None)" by auto
  have rest: "set (map st_request_id ts) = W - {st_request_id t}" "distinct (map st_request_id ts)"
    using Cons.prems(2,3) by (metis Diff_insert_absorb distinct.simps(2) list.simps(15) list.simps(9)) (use Cons.prems(2) in simp)
  have sub: "W - {st_request_id t} \<subseteq> (\<lambda>n. req_id (node s1 n)) ` set (running s1)"
  proof
    fix q assume q: "q \<in> W - {st_request_id t}"
    then obtain y where y: "y \<in> set (running s)" "req_id (node s y) = q" using Cons.prems(4) by auto
    then have "y \<noteq> x" using q x(2) by auto
    then have "y \<in> set (running s1)" "req_id (node s1 y) = q" using y by (auto simp: s1(2,4) node_def)
    then show "q \<in> (\<lambda>n. req_id (node s1 n)) ` set (running s1)" by auto
  qed
  from update_scheduler_ok [OF s1(1) rest(2,1) sub] u(2) obtain n': "queue s' = filter (\<lambda>n. req_id (node s1 n) \<notin> set (final_ids outs')) (queue s1)"
    by auto
  then have q1: "n \<in> set (queue s1)" using Cons.prems(6) by simp
  note IH = Cons.IH [OF s1(1) rest(2,1) sub u(2) Cons.prems(6)]
  have dis: "distinct (queue s)" using store by (simp add: store_ok_def)
  have q: "n \<in> set (queue s)" using q1 s1(3) dis by (auto split: if_splits dest: in_set_remove1 [THEN iffD1, rotated])
  show ?case
  proof (cases "n = x")
    case True
    then have "reason = kReasonRunning" using q1 s1(3) dis by (auto split: if_splits)
    then have "node s1 n = appended (node s x) (token_id t)" by (simp add: node_def s1(4) True)
    then show ?thesis using IH x(2) True by simp
  next
    case False
    then have "node s1 n = node s n" by (simp add: node_def s1(4))
    moreover have "req_id (node s n) \<noteq> st_request_id t"
      using store_ok_inj [OF store q queue_parts(1) [OF x(1)]] False x(2) by auto
    ultimately show ?thesis using IH by simp
  qed
qed simp

subsection \<open>One step of the engine\<close>

definition pool_after :: "'v Kernels \<Rightarrow> CausalLM \<Rightarrow> int \<Rightarrow> 'v Gpu \<Rightarrow> StreamOp list \<Rightarrow> int \<Rightarrow> int \<Rightarrow> 'v" where
  "pool_after K m bs g0 ops = g_pool (gpu_after K (lm_config m) bs g0 ops)"

definition serving_ok :: "'v Kernels \<Rightarrow> 'v Gpu \<Rightarrow> CausalLM \<Rightarrow> int \<Rightarrow> int list set \<Rightarrow> EngineCore \<Rightarrow> bool" where
  \<comment> \<open>an engine core that runs \<open>m\<close> on the device; its KV pool holds what the scheduler believes\<close>
  "serving_ok K g0 m bs U e \<longleftrightarrow> (let mr = ec_runner e; s = ec_scheduler e in
     engine_ok e \<and> mr_model mr = m \<and> block_size (mr_config mr) = bs
     \<and> attention_fits (lm_config m) bs (num_blocks (kv_cache_manager s)) (max_num_scheduled_tokens s)
     \<and> coherent (slot_good K m (pool_after K m bs g0 (mr_stream mr))) U s \<and> computed_in U s)"

definition reference_tokens :: "'v Kernels \<Rightarrow> CausalLM \<Rightarrow> Scheduler \<Rightarrow> EngineCoreOutput list \<Rightarrow> Scheduler \<Rightarrow> bool" where
  \<comment> \<open>every output is one token drawn from the reference's logits on the tokens of its request, which it extends\<close>
  "reference_tokens K m s outs s' \<longleftrightarrow>
     (\<forall>o' \<in> set outs. \<exists>n \<in> set (queue s). out_request_id o' = req_id (node s n)
        \<and> (\<exists>stream. new_token_ids o' = [k_sample K (sample_params (node s n)) stream (logits_of K m (token_ids (node s n)))]))
   \<and> (\<forall>n \<in> set (queue s'). token_ids (node s' n)
        = token_ids (node s n) @ concat (map new_token_ids (filter (\<lambda>o'. out_request_id o' = req_id (node s n)) outs)))"

lemma attention_fits_mono: "attention_fits mc bs nb n \<Longrightarrow> k \<le> n \<Longrightarrow> attention_fits mc bs nb k"
proof -
  assume a: "attention_fits mc bs nb n" "k \<le> n"
  have "0 \<le> num_attention_heads mc div num_kv_heads mc" using a(1) by (simp add: attention_fits_def pos_imp_zdiv_nonneg_iff)
  then have "k * (num_attention_heads mc div num_kv_heads mc) \<le> n * (num_attention_heads mc div num_kv_heads mc)"
    using a(2) by (rule mult_right_mono [rotated])
  then show ?thesis using a(1) by (auto simp: attention_fits_def)
qed

lemma outputs_of_tokens:
  assumes "map (\<lambda>o'. (out_request_id o', new_token_ids o')) outs = map (\<lambda>t. (st_request_id t, [token_id t])) ts"
  shows "o' \<in> set outs \<Longrightarrow> \<exists>t \<in> set ts. out_request_id o' = st_request_id t \<and> new_token_ids o' = [token_id t]"
    and "concat (map new_token_ids (filter (\<lambda>o'. out_request_id o' = rid) outs)) = map token_id (filter (\<lambda>t. st_request_id t = rid) ts)"
proof -
  show "\<exists>t \<in> set ts. out_request_id o' = st_request_id t \<and> new_token_ids o' = [token_id t]" if "o' \<in> set outs"
  proof -
    have "(out_request_id o', new_token_ids o') \<in> set (map (\<lambda>o'. (out_request_id o', new_token_ids o')) outs)"
      using that by (simp add: image_iff) blast
    then show ?thesis unfolding assms by auto
  qed
  show "concat (map new_token_ids (filter (\<lambda>o'. out_request_id o' = rid) outs)) = map token_id (filter (\<lambda>t. st_request_id t = rid) ts)"
    using assms
  proof (induction outs arbitrary: ts)
    case (Cons o' outs)
    then obtain t ts' where "ts = t # ts'" by (cases ts) auto
    then show ?case using Cons by auto
  qed simp
qed

text \<open>What the runner returns for a schedule, on the device.\<close>

lemma runner_tokens:
  fixes K :: "'v Kernels"
  assumes ok: "runner_ok mr" and m: "mr_model mr = m" and bs: "block_size (mr_config mr) = num_block_slots (kv_cache_manager s)"
    and out: "out = [] \<or> batch_fits mr out" and inv: "sched_inv out s"
    and fits: "attention_fits (lm_config m) (block_size (mr_config mr)) (num_blocks (kv_cache_manager s)) (total_tokens out)"
    and tr: "tracked (slot_good K m (pool_after K m (block_size (mr_config mr)) g0 (mr_stream mr))) U out s"
  defines "dev \<equiv> gpu K (lm_config m) (block_size (mr_config mr)) g0"
  shows "\<exists>mr1 ts mr2. run_model out mr = Some mr1 \<and> finish dev mr1 = Some (ts, mr2) \<and> mr_model mr2 = m \<and> mr_config mr2 = mr_config mr
     \<and> map st_request_id ts = awaiting out
     \<and> step_written (slot_good K m (pool_after K m (block_size (mr_config mr)) g0 (mr_stream mr)))
         (slot_good K m (pool_after K m (block_size (mr_config mr)) g0 (mr_stream mr2))) out s
     \<and> (\<forall>t \<in> set ts. \<exists>n \<in> set (running s). st_request_id t = req_id (node s n)
         \<and> (\<exists>stream. token_id t = k_sample K (sample_params (node s n)) stream (logits_of K m (token_ids (node s n)))))"
proof (cases "out = []")
  case True
  have "finish dev mr = Some ([], mr)" using ok by (simp add: runner_ok_def finish_def)
  moreover have "step_written good good [] s" for good by (simp add: step_written_def Let_def)
  ultimately show ?thesis using True m by (intro exI [of _ mr] exI [of _ "[]"] exI [of _ mr]) (simp add: run_model_def awaiting_def)
next
  case False
  let ?bs = "block_size (mr_config mr)" and ?es = "sampled_rows out"
  from run_ok [OF ok] False out obtain mr1 p where r: "run_model out mr = Some mr1"
    "mr_stream mr1 = mr_stream mr @ step_stream (flat_batch (mr_batch_buffer mr) out p) (replayed (mr_model mr) p (total_tokens out))
       (int (length ?es)) (sp_offset (mr_sampler mr))"
    "total_tokens out \<le> p" "mr_inflight mr1 = map inflight_token ?es" "mr_downloaded mr1 = int (length ?es)"
    "mr1 = mr\<lparr>mr_sampler := mr_sampler mr1, mr_stream := mr_stream mr1, mr_downloaded := mr_downloaded mr1, mr_inflight := mr_inflight mr1\<rparr>"
    by blast
  have cfg: "mr_model mr1 = m" "mr_config mr1 = mr_config mr" using m by (subst r(6); simp)+
  let ?tok = "\<lambda>i. finish_token (mr_model_config mr1) (dev (mr_stream mr1) i) (inflight_token (?es ! i))"
  have fin: "finish dev mr1 = Some (map ?tok [0..<length ?es], mr1\<lparr>mr_inflight := []\<rparr>)" by (rule finish_ok [OF r(4,5)])
  have bb: "bb_block_size (mr_batch_buffer mr) = num_block_slots (kv_cache_manager s)"
    using ok bs by (simp add: runner_ok_def buffers_ok_def Let_def)
  have sb: "scheduled_batch (mr_batch_buffer mr) out s p" using inv bb r(3) by (simp add: scheduled_batch_def)
  have mok: "model_ok m" using ok m by (simp add: runner_ok_def)
  let ?g = "gpu_after K (lm_config m) ?bs g0 (mr_stream mr)"
  have after: "gpu_after K (lm_config m) ?bs g0 (mr_stream mr1) = gpu_after K (lm_config m) ?bs ?g
      (step_stream (flat_batch (mr_batch_buffer mr) out p) (replayed m p (total_tokens out)) (int (length ?es)) (sp_offset (mr_sampler mr)))"
    unfolding r(2) gpu_after_append m ..
  note dev_step = device_step [OF sb mok, where K = K and g = ?g and U = U and offset = "sp_offset (mr_sampler mr)" and r' = "total_tokens out",
      folded bs, folded after]
  have fits': "attention_fits (lm_config m) ?bs (num_blocks (kv_cache_manager s)) (total_tokens out)" by (rule fits)
  have tr': "tracked (slot_good K m (g_pool ?g)) U out s" using tr by (simp add: pool_after_def)
  note eff = dev_step [OF fits' tr']
  have len: "length (sampling_indices out) = length ?es" by (simp add: sampled_rows_indices)
  have tok: "\<exists>n \<in> set (running s). st_request_id (?tok j) = req_id (node s n)
      \<and> (\<exists>stream. token_id (?tok j) = k_sample K (sample_params (node s n)) stream (logits_of K m (token_ids (node s n))))"
    if j: "j < length ?es" for j
  proof -
    let ?i = "sampling_indices out ! j"
    have i: "?i < length out" using sampling_row(1) [OF sb, of j] j len by simp
    have "st_request_id (?tok j) = req_id (node s (running s ! ?i))"
    proof -
      have "?es ! j = out ! ?i" using j unfolding sampled_rows_indices by simp
      then show ?thesis using scheduled_entry(8) [OF sb i] by (simp add: finish_token_def inflight_token_def)
    qed
    moreover have "running s ! ?i \<in> set (running s)" using i scheduled_slots [OF sb] by simp
    moreover have "token_id (?tok j) = g_pinned (gpu_after K (lm_config m) ?bs g0 (mr_stream mr1)) j"
      by (simp add: finish_token_def dev_def gpu_def)
    moreover have "g_pinned (gpu_after K (lm_config m) ?bs g0 (mr_stream mr1)) j = k_sample K (sample_params (node s (running s ! ?i)))
        (sp_offset (mr_sampler mr) + of_nat j) (logits_of K m (token_ids (node s (running s ! ?i))))"
      using eff(2) [of j] j unfolding len Let_def by blast
    ultimately show ?thesis by metis
  qed
  have ids: "map st_request_id (map ?tok [0..<length ?es]) = map sr_request_id (map ((!) ?es) [0..<length ?es])"
    by (simp add: finish_token_def inflight_token_def)
  show ?thesis
  proof (intro exI conjI)
    show "run_model out mr = Some mr1" "finish dev mr1 = Some (map ?tok [0..<length ?es], mr1\<lparr>mr_inflight := []\<rparr>)" by (rule r(1) fin)+
    show "mr_model (mr1\<lparr>mr_inflight := []\<rparr>) = m" "mr_config (mr1\<lparr>mr_inflight := []\<rparr>) = mr_config mr" using cfg by simp_all
    show "map st_request_id (map ?tok [0..<length ?es]) = awaiting out"
      using ids unfolding map_nth by (simp only: awaiting_def sampled_rows_def)
    show "step_written (slot_good K m (pool_after K m ?bs g0 (mr_stream mr)))
         (slot_good K m (pool_after K m ?bs g0 (mr_stream (mr1\<lparr>mr_inflight := []\<rparr>)))) out s"
      using eff(1) by (simp add: pool_after_def)
    show "\<forall>t \<in> set (map ?tok [0..<length ?es]). \<exists>n \<in> set (running s). st_request_id t = req_id (node s n)
         \<and> (\<exists>stream. token_id t = k_sample K (sample_params (node s n)) stream (logits_of K m (token_ids (node s n))))"
      unfolding set_map ball_simps using tok by (metis (no_types, lifting) atLeastLessThan_iff set_upt)
  qed
qed

lemma serving_step:
  fixes K :: "'v Kernels"
  assumes ok: "serving_ok K g0 m bs U e" and U: "prefixes_in U (ec_scheduler e)" and coll: "inj_on chain_hash U"
  shows "\<exists>e' outs. run_step (gpu K (lm_config m) bs g0) e = Some e' \<and> serving_ok K g0 m bs U e' \<and> step_outputs_of e outs e'
     \<and> reference_tokens K m (ec_scheduler e) outs (ec_scheduler e')"
proof -
  let ?s = "ec_scheduler e" and ?mr = "ec_runner e" and ?dev = "gpu K (lm_config m) bs g0"
  have eok: "engine_ok e" and model: "mr_model ?mr = m" "block_size (mr_config ?mr) = bs"
    and fits: "attention_fits (lm_config m) bs (num_blocks (kv_cache_manager ?s)) (max_num_scheduled_tokens ?s)"
    and coh: "coherent (slot_good K m (pool_after K m bs g0 (mr_stream ?mr))) U ?s"
    using ok by (simp_all add: serving_ok_def Let_def)
  note d = eok [unfolded engine_ok_def Let_def]
  have inv: "step_inv {} ?s" using d by blast
  obtain out s1 where run: "schedule ?s = Some (out, s1)" using schedule_ok [OF inv] by blast
  have o: "sched_inv out s1" "same_requests ?s s1" "queue s1 = queue ?s" "total_tokens out \<le> max_num_scheduled_tokens ?s"
    using schedule_ok [OF inv] run by auto
  have fitb: "out = [] \<or> batch_fits ?mr out" by (rule schedule_fits [OF inv run]) (use d in auto)
  have slots: "num_block_slots (kv_cache_manager s1) = bs" "num_blocks (kv_cache_manager s1) = num_blocks (kv_cache_manager ?s)"
    using o(2) d model(2) by (simp_all add: same_requests_def)
  have tr: "tracked (slot_good K m (pool_after K m bs g0 (mr_stream ?mr))) U out s1"
    using schedule_tracked [OF inv coll _ U run] coh by (simp add: coherent_tracked)
  have fits1: "attention_fits (lm_config m) bs (num_blocks (kv_cache_manager s1)) (total_tokens out)"
    using attention_fits_mono [OF fits o(4)] slots(2) by simp
  have "runner_ok ?mr" using d by blast
  from runner_tokens [OF this model(1) _ fitb o(1), where K = K and ?g0.0 = g0 and U = U] obtain mr1 ts mr2 where r:
    "run_model out ?mr = Some mr1" "finish ?dev mr1 = Some (ts, mr2)" "mr_model mr2 = m" "mr_config mr2 = mr_config ?mr"
    "map st_request_id ts = awaiting out"
    "step_written (slot_good K m (pool_after K m bs g0 (mr_stream ?mr))) (slot_good K m (pool_after K m bs g0 (mr_stream mr2))) out s1"
    "\<And>t. t \<in> set ts \<Longrightarrow> \<exists>n \<in> set (running s1). st_request_id t = req_id (node s1 n)
         \<and> (\<exists>stream. token_id t = k_sample K (sample_params (node s1 n)) stream (logits_of K m (token_ids (node s1 n))))"
    unfolding model(2) slots(1) using fits1 tr by blast
  from step_effect [OF inv run r(5)] obtain outs s2 where u: "update_scheduler ts s1 = Some (outs, s2)" "step_inv {} s2"
    "map (\<lambda>o'. (out_request_id o', new_token_ids o')) outs = map (\<lambda>t. (st_request_id t, [token_id t])) ts" "limits s2 = limits ?s"
    "queue s2 = filter (\<lambda>n. req_id (node ?s n) \<notin> set (final_ids outs)) (queue ?s)" by blast
  define e3 where "e3 = (let e1 = e\<lparr>ec_runner := mr2, ec_scheduler := s2\<rparr>;
       e2 = (if outs \<noteq> [] then send_message (OutputsMessage outs) e1 else e1) in e2\<lparr>ec_num_steps := ec_num_steps e2 + 1\<rparr>)"
  define e' where "e' = (if ec_num_steps e3 mod 200 = 0 then log_prefix_cache_stats e3 else e3)"
  have run': "run_step ?dev e = Some e'" by (simp add: run_step_def run r(1,2) u(1) e'_def e3_def Let_def)
  have f: "ec_runner e' = mr2" "ec_scheduler e' = s2" "step_outputs_of e outs e'"
    by (simp_all add: e'_def e3_def step_outputs_of_def Let_def)
  have "coherent (slot_good K m (pool_after K m bs g0 (mr_stream mr2))) U s2 \<and> computed_in U s2"
    by (rule step_coherent [OF inv coll coh U run r(6,5) u(1)])
  moreover have "engine_ok e'" using run_step_ok [OF eok, of ?dev] run' by auto
  moreover have "num_blocks (kv_cache_manager s2) = num_blocks (kv_cache_manager ?s)" "max_num_scheduled_tokens s2 = max_num_scheduled_tokens ?s"
    using u(4) by (simp_all add: limits_def)
  ultimately have sok: "serving_ok K g0 m bs U e'" using fits r(3,4) model(2) by (simp add: serving_ok_def f Let_def)
  have store: "store_ok ?s" using step_invD(1) [OF inv] .
  have same: "req_id (node s1 n) = req_id (node ?s n)" "token_ids (node s1 n) = token_ids (node ?s n)"
      "sample_params (node s1 n) = sample_params (node ?s n)" if "n \<in> set (queue ?s)" for n
    using content_fields [OF same_requests_content [OF o(2)]] store_ok_node [OF store that]
      same_requests_content [OF o(2), of n] by auto
  have "reference_tokens K m ?s outs s2"
    unfolding reference_tokens_def
  proof (intro conjI ballI)
    fix o' assume "o' \<in> set outs"
    then obtain t where t: "t \<in> set ts" "out_request_id o' = st_request_id t" "new_token_ids o' = [token_id t]"
      using outputs_of_tokens(1) [OF u(3)] by blast
    obtain n stream where n: "n \<in> set (running s1)" "st_request_id t = req_id (node s1 n)"
      "token_id t = k_sample K (sample_params (node s1 n)) stream (logits_of K m (token_ids (node s1 n)))" using r(7) [OF t(1)] by blast
    have q: "n \<in> set (queue ?s)" using queue_parts(1) [OF n(1)] o(3) by simp
    show "\<exists>n \<in> set (queue ?s). out_request_id o' = req_id (node ?s n)
        \<and> (\<exists>stream. new_token_ids o' = [k_sample K (sample_params (node ?s n)) stream (logits_of K m (token_ids (node ?s n)))])"
      by (rule bexI [OF _ q]) (use t(2,3) n(2,3) same [OF q] in auto)
  next
    fix n assume n: "n \<in> set (queue s2)"
    then have q: "n \<in> set (queue ?s)" using u(5) by simp
    have "token_ids (node s2 n) = token_ids (node s1 n) @ map token_id (filter (\<lambda>t. st_request_id t = req_id (node s1 n)) ts)"
      by (rule update_tokens [OF sched_inv_step [OF o(1)] _ _ sched_inv_awaiting_running [OF o(1)] u(1) n])
        (use awaiting_distinct [OF o(1)] r(5) in simp_all)
    then show "token_ids (node s2 n) = token_ids (node ?s n) @ concat (map new_token_ids (filter (\<lambda>o'. out_request_id o' = req_id (node ?s n)) outs))"
      by (simp add: outputs_of_tokens(2) [OF u(3)] same [OF q])
  qed
  then show ?thesis using run' sok f by (intro exI [of _ e'] exI [of _ outs]) simp
qed

subsection \<open>Inputs\<close>

lemma process_message_coherent:
  assumes inv: "step_inv {} s" and m: "valid_message wire s msg" and coh: "coherent good U s" "computed_in U s"
    and run: "process_message wire msg s = Inr (Some s')"
  shows "coherent good U s' \<and> computed_in U s' \<and> limits s' = limits s"
proof -
  obtain ty where ty: "request_type msg = Inr ty" using m by (auto simp: valid_message_def split: sum.splits)
  note v = m [unfolded valid_message_def ty sum.case]
  consider "ty = 0" | "ty = 1" | "ty = 2" "ty \<noteq> 0" "ty \<noteq> 1" using v by (auto split: if_splits)
  then show ?thesis
  proof cases
    case 1
    then obtain r where r: "unpack_payload (wire_request wire) msg = Inr r" using v by (auto split: sum.splits)
    then have "s' = add_request (to_request r) s" using run 1 ty by (simp add: process_message_def)
    then show ?thesis
      using add_request_coherent [OF step_invD(1) [OF inv] coh(1)] add_request_computed [OF inv coh(2)]
      by (simp add: add_request_def Let_def limits_def)
  next
    case 2
    then obtain ids where ids: "unpack_payload (wire_ids wire) msg = Inr ids" using v by (auto split: sum.splits)
    then have "abort_requests ids s = Some s'" using run 2 ty by (simp add: process_message_def split: option.splits)
    then show ?thesis using abort_requests_coherent [OF inv coh] abort_requests_ok [OF inv, of ids] by auto
  next
    case 3
    then show ?thesis using run ty by (simp add: process_message_def)
  qed
qed

lemma process_inputs_coherent:
  assumes "step_inv {} s" "valid_inputs wire msgs s" "coherent good U s" "computed_in U s" "process_inputs wire msgs s = Inr (go, s')"
  shows "coherent good U s' \<and> computed_in U s'"
  using assms
proof (induction msgs arbitrary: s)
  case (Cons msg ms)
  from process_message_ok [OF Cons.prems(1), of wire msg] Cons.prems(2)
  consider "process_message wire msg s = Inr None" |
    s1 where "process_message wire msg s = Inr (Some s1)" "step_inv {} s1" by auto
  then show ?case
  proof cases
    case 1
    then show ?thesis using Cons.prems by simp
  next
    case (2 s1)
    then show ?thesis
      using Cons.IH [OF 2(2)] process_message_coherent [OF Cons.prems(1) _ Cons.prems(3,4) 2(1)] Cons.prems(2,5) by simp
  qed
qed simp

lemma serving_inputs:
  assumes ok: "serving_ok K g0 m bs U e" and msgs: "valid_inputs wire msgs (ec_scheduler e)"
    and run: "process_inputs wire msgs (ec_scheduler e) = Inr (go, s)"
  shows "serving_ok K g0 m bs U (e\<lparr>ec_scheduler := s\<rparr>)"
proof -
  have eok: "engine_ok e" using ok by (simp add: serving_ok_def Let_def)
  then have inv: "step_inv {} (ec_scheduler e)" by (simp add: engine_ok_def Let_def)
  have lim: "limits s = limits (ec_scheduler e)" "step_inv {} s" using process_inputs_ok [OF inv msgs] run by auto
  then have "engine_ok (e\<lparr>ec_scheduler := s\<rparr>)" using engine_ok_scheduler [OF eok] by blast
  moreover have "num_blocks (kv_cache_manager s) = num_blocks (kv_cache_manager (ec_scheduler e))"
      "max_num_scheduled_tokens s = max_num_scheduled_tokens (ec_scheduler e)" using lim(1) by (simp_all add: limits_def)
  moreover have "coherent (slot_good K m (pool_after K m bs g0 (mr_stream (ec_runner e)))) U s \<and> computed_in U s"
    by (rule process_inputs_coherent [OF inv msgs _ _ run]) (use ok in \<open>simp_all add: serving_ok_def Let_def\<close>)
  ultimately show ?thesis using ok by (simp add: serving_ok_def Let_def)
qed

subsection \<open>Every turn\<close>

inductive serves_in :: "int list set \<Rightarrow> Wire \<Rightarrow> (StreamOp list \<Rightarrow> nat \<Rightarrow> int) \<Rightarrow> EngineCore \<Rightarrow> EngineCore \<Rightarrow> bool"
  for U wire device e0 where
  \<comment> \<open>the serving states reached with well-formed inputs, where \<open>U\<close> holds the block-aligned prefixes of what is scheduled\<close>
  start: "serves_in U wire device e0 e0"
| turn: "serves_in U wire device e0 e \<Longrightarrow> valid_inputs wire msgs (ec_scheduler e)
    \<Longrightarrow> process_inputs wire msgs (ec_scheduler e) = Inr (True, s) \<Longrightarrow> prefixes_in U s
    \<Longrightarrow> turn wire device msgs e = Looping e' \<Longrightarrow> serves_in U wire device e0 e'"

lemma serving_turn:
  assumes ok: "serving_ok K g0 m bs U e" and msgs: "valid_inputs wire msgs (ec_scheduler e)"
    and run: "process_inputs wire msgs (ec_scheduler e) = Inr (True, s)" and U: "prefixes_in U s" and coll: "inj_on chain_hash U"
  shows "\<exists>e' outs. turn wire (gpu K (lm_config m) bs g0) msgs e = Looping e' \<and> serving_ok K g0 m bs U e' \<and> step_outputs_of e outs e'
     \<and> reference_tokens K m s outs (ec_scheduler e')"
proof -
  have ok': "serving_ok K g0 m bs U (e\<lparr>ec_scheduler := s\<rparr>)" by (rule serving_inputs [OF ok msgs run])
  from serving_step [OF ok' _ coll] U obtain e' outs where st: "run_step (gpu K (lm_config m) bs g0) (e\<lparr>ec_scheduler := s\<rparr>) = Some e'"
    "serving_ok K g0 m bs U e'" "step_outputs_of (e\<lparr>ec_scheduler := s\<rparr>) outs e'" "reference_tokens K m s outs (ec_scheduler e')" by auto
  then show ?thesis using run by (intro exI [of _ e'] exI [of _ outs]) (simp add: turn_def step_outputs_of_def)
qed

lemma serving_reachable:
  assumes "serves_in U wire (gpu K (lm_config m) bs g0) e0 e" "serving_ok K g0 m bs U e0" "inj_on chain_hash U"
  shows "serving_ok K g0 m bs U e"
  using assms
proof (induction rule: serves_in.induct)
  case (turn e msgs s e')
  then show ?case using serving_turn [of K g0 m bs U e wire msgs s] by auto
qed

text \<open>A freshly started engine core serves: nothing is cached yet.\<close>

definition fresh_core :: "CausalLM \<Rightarrow> int \<Rightarrow> EngineCore \<Rightarrow> bool" where
  \<comment> \<open>no request, no published block, a model the attention kernel supports\<close>
  "fresh_core m bs e \<longleftrightarrow> (let s = ec_scheduler e; kv = kv_cache_manager s in
     engine_ok e \<and> mr_model (ec_runner e) = m \<and> block_size (mr_config (ec_runner e)) = bs \<and> queue s = []
     \<and> (\<forall>b. is_block kv b \<longrightarrow> \<not> hash_valid (blk kv b))
     \<and> attention_fits (lm_config m) bs (num_blocks kv) (max_num_scheduled_tokens s))"

lemma fresh_serving: "fresh_core m bs e \<Longrightarrow> serving_ok K g0 m bs U e"
  by (auto simp: fresh_core_def serving_ok_def Let_def coherent_def tags_sound_def computed_in_def queue_def)


definition demo_kernels :: "int list Kernels" where
  \<comment> \<open>kernels that carry the token ids along; the sampled token is the last one plus one\<close>
  "demo_kernels = \<lparr>k_zero = [], k_embed = (\<lambda>t. [t]), k_input_norm = (\<lambda>l x. x), k_qkv = (\<lambda>l x. x), k_qk_norm_rope = (\<lambda>l p x. p # x),
     k_rope = (\<lambda>p x. p # x), k_attend = (\<lambda>h k x kvs. concat kvs), k_out = (\<lambda>l hs. concat hs), k_post_norm = (\<lambda>l h x. (h, x)),
     k_gate_up = (\<lambda>l x. x), k_swiglu = (\<lambda>x. x), k_down = (\<lambda>l x. x), k_router = (\<lambda>l x. x), k_topk = (\<lambda>x. x),
     k_add = (\<lambda>h x. x @ h), k_final_norm = (\<lambda>x. x), k_lm_head = (\<lambda>x. x), k_sample = (\<lambda>ps stream x. hd x + 1)\<rparr>"

definition demo_prefixes :: "int list set" where
  "demo_prefixes = {[11, 12], [11, 12, 13, 14]}"

lemma demo_prefixes_hash: "inj_on chain_hash demo_prefixes"
proof -
  have "chain_hash [11, 12] \<noteq> chain_hash [11, 12, 13, 14]" by code_simp
  then show ?thesis by (simp add: inj_on_def demo_prefixes_def)
qed

lemma demo_fresh: "fresh_core demo_model 2 demo_core"
proof -
  have "\<exists>shift < 31. (2 :: int) = 2 ^ shift" by (intro exI [of _ 1]) simp
  then have "attention_fits (lm_config demo_model) 2 4 4"
    by (simp add: attention_fits_def demo_model_config_of) (simp add: demo_model_config_def)
  then show ?thesis using demo_core_ok by (simp add: fresh_core_def Let_def)
qed


end
