(* ===== verification/Sampling_Kernels.thy ===== *)
theory Sampling_Kernels
  imports Sampler "HOL-Library.Multiset"
begin

text \<open>
  The parts of the sampling kernels, csrc/ops/sampler.cu, that decide without floating-point
  arithmetic: the greedy token, as the reduction of \<open>Range\<close>s over threads, tiles and blocks, and
  the exact top-k cutoff, as two radix passes over order-preserving keys of the BF16 logits.
  Logits are BF16 bit patterns; \<open>rank\<close> is the order of the values they stand for (patterns of
  NaNs excluded by the theorems). CUB's block reduction is a parameter. The weights and the
  rejection sampler behind them are in \<open>Top_P\<close>.
\<close>

unbundle bit_operations_syntax

subsection \<open>Bits\<close>

lemma xor_high:
  assumes "0 \<le> b" "b < 2 ^ n"
  shows "b XOR 2 ^ n = b + (2 ^ n :: int)"
proof -
  have "take_bit n b = b" using assms by (simp add: take_bit_int_eq_self)
  then have "bit b k \<longrightarrow> k < n" for k by (metis bit_take_bit_iff)
  then have "b AND 2 ^ n = 0" by (intro bit_eqI) (auto simp: bit_and_iff bit_exp_iff)
  then show ?thesis by (simp add: disjunctive_add_eq_xor)
qed

lemma xor_mask:
  assumes "0 \<le> b" "b < 2 ^ n"
  shows "b XOR mask n = mask n - (b :: int)"
proof -
  have "take_bit n b = b" using assms by (simp add: take_bit_int_eq_self)
  then have "bit b k \<longrightarrow> k < n" for k by (metis bit_take_bit_iff)
  then have "NOT (mask n) AND b = 0" by (intro bit_eqI) (auto simp: bit_simps)
  then have "mask n - b = mask n XOR b" using disjunctive_diff_eq_and_not disjunctive_diff_eq_xor by metis
  then show ?thesis by (simp add: xor.commute)
qed

lemma and_high:
  assumes "0 \<le> b" "b < 2 ^ Suc n"
  shows "b AND 2 ^ n = (if b < 2 ^ n then 0 else 2 ^ n :: int)"
proof -
  have "b AND 2 ^ n = push_bit n (of_bool (bit b n))"
    by (rule bit_eqI) (auto simp: bit_simps)
  moreover have "b div 2 ^ n = (if b < 2 ^ n then 0 else 1)"
  proof (cases "b < 2 ^ n")
    case False
    have "b div 2 ^ n = 1 + (b - 2 ^ n) div 2 ^ n" using div_add_self1 [of "2 ^ n :: int" "b - 2 ^ n"] by simp
    then show ?thesis using False assms by (simp add: div_pos_pos_trivial)
  qed (use assms in simp)
  ultimately show ?thesis by (simp add: bit_iff_odd push_bit_eq_mult)
qed

subsection \<open>The order of BF16 values\<close>

type_synonym bf16 = "16 word"

definition rank :: "bf16 \<Rightarrow> int" where
  \<comment> \<open>sign and magnitude; both zeros have rank 0\<close>
  "rank b = (if uint b < 2 ^ 15 then uint b else 2 ^ 15 - uint b)"

definition neg_inf :: bf16 where
  "neg_inf = 0xff80"

definition not_nan :: "bf16 \<Rightarrow> bool" where
  "not_nan b \<longleftrightarrow> \<bar>rank b\<bar> \<le> 0x7f80"

definition bf16_key :: "bf16 \<Rightarrow> 32 word" where
  "bf16_key value = (let bits = (if rank value = 0 then 0 else ucast value :: 32 word) in
     bits XOR (if bits AND 0x8000 \<noteq> 0 then 0xffff else 0x8000))"

definition key_value :: "32 word \<Rightarrow> bf16" where
  \<comment> \<open>the value of the cutoff, from its key\<close>
  "key_value key = ucast (key XOR (if key AND 0x8000 \<noteq> 0 then 0x8000 else 0xffff))"

lemma xor_32: "uint b < 2 ^ 15 \<Longrightarrow> uint (b XOR 0x8000 :: 32 word) = uint b + 2 ^ 15"
  "uint b < 2 ^ 16 \<Longrightarrow> uint (b XOR 0xffff :: 32 word) = 2 ^ 16 - 1 - uint b"
proof -
  show "uint (b XOR 0x8000 :: 32 word) = uint b + 2 ^ 15" if "uint b < 2 ^ 15"
    using xor_high [OF _ that] by (simp add: uint_xor)
  show "uint (b XOR 0xffff :: 32 word) = 2 ^ 16 - 1 - uint b" if "uint b < 2 ^ 16"
    using xor_mask [OF _ that] by (simp add: uint_xor mask_eq_exp_minus_1)
qed

lemma sign_bit_32: "uint b < 2 ^ 16 \<Longrightarrow> (b AND 0x8000 :: 32 word) = 0 \<longleftrightarrow> uint b < 2 ^ 15"
  using and_high [of "uint b" 15] by (simp add: uint_and word_uint_eq_iff)

lemma rank_bounds: "- (2 ^ 15) < rank b" "rank b < 2 ^ 15"
proof -
  have "uint b < 2 ^ 16" using uint_lt2p [of b] by simp
  moreover have "- (2 ^ 15) < uint b" by (rule order.strict_trans2 [OF _ uint_ge_0]) simp
  ultimately show "- (2 ^ 15) < rank b" "rank b < 2 ^ 15" by (auto simp: rank_def)
qed

lemma key_rank: "uint (bf16_key b) = (if rank b < 0 then 2 ^ 15 - 1 + rank b else 2 ^ 15 + rank b)"
proof -
  define bits where "bits = (if rank b = 0 then 0 else ucast b :: 32 word)"
  have ub: "uint b < 2 ^ 16" using uint_lt2p [of b] uint_ge_0 [of b] by simp
  have bits: "uint bits = (if rank b = 0 then 0 else uint b)" by (simp add: bits_def uint_up_ucast is_up)
  then have u: "uint bits < 2 ^ 16" using ub by simp
  have key: "bf16_key b = bits XOR (if bits AND 0x8000 \<noteq> 0 then 0xffff else 0x8000)"
    by (simp add: bf16_key_def bits_def Let_def)
  show ?thesis
  proof (cases "uint bits < 2 ^ 15")
    case True
    then have "bf16_key b = bits XOR 0x8000" using sign_bit_32 [OF u] by (simp add: key)
    then have "uint (bf16_key b) = uint bits + 2 ^ 15" using xor_32(1) [OF True] by simp
    moreover have "uint bits = rank b" using True bits by (auto simp: rank_def split: if_splits)
    ultimately show ?thesis using uint_lt2p [of bits] uint_ge_0 [of bits] by simp
  next
    case False
    then have "bf16_key b = bits XOR 0xffff" using sign_bit_32 [OF u] by (simp add: key)
    then have "uint (bf16_key b) = 2 ^ 16 - 1 - uint bits" using xor_32(2) [OF u] by simp
    moreover have "rank b = 2 ^ 15 - uint bits" "rank b \<noteq> 0" using False bits by (auto simp: rank_def split: if_splits)
    ultimately show ?thesis using False by simp
  qed
qed

lemma key_bounds: "uint (bf16_key b) < 2 ^ 16"
  using rank_bounds [of b] by (simp add: key_rank)

lemma key_less: "uint (bf16_key a) < uint (bf16_key b) \<longleftrightarrow> rank a < rank b"
  by (auto simp: key_rank)

lemma rank_key_value:
  assumes "uint (bf16_key b) = uint key"
  shows "rank (key_value key) = rank b"
proof -
  have k: "uint key < 2 ^ 16" using key_bounds [of b] assms by simp
  show ?thesis
  proof (cases "uint key < 2 ^ 15")
    case True
    then have v: "key_value key = ucast (key XOR 0xffff)" using sign_bit_32 [OF k] by (simp add: key_value_def)
    have "uint (key_value key) = 2 ^ 16 - 1 - uint key"
    proof -
      have "0 \<le> 2 ^ 16 - 1 - uint key" "2 ^ 16 - 1 - uint key < 2 ^ 16" using k uint_ge_0 [of key] by linarith+
      then have "take_bit 16 (2 ^ 16 - 1 - uint key) = 2 ^ 16 - 1 - uint key" by (rule take_bit_int_eq_self)
      then show ?thesis using xor_32(2) [OF k] by (simp add: v unsigned_ucast_eq)
    qed
    then show ?thesis using True assms rank_bounds [of b] by (simp add: rank_def [of "key_value key"] key_rank split: if_splits)
  next
    case False
    then have v: "key_value key = ucast (key XOR 0x8000)" using sign_bit_32 [OF k] by (simp add: key_value_def)
    have "uint (key XOR 0x8000) = uint key - 2 ^ 15"
    proof -
      define low where "low = key - 0x8000"
      have low: "uint low = uint key - 2 ^ 15" using False uint_lt2p [of key] uint_ge_0 [of key] by (simp add: low_def uint_sub_if')
      then have "uint (low XOR 0x8000) = uint key" using k xor_32(1) [of low] by simp
      then have "low XOR 0x8000 = key" by (simp add: word_uint_eq_iff)
      then have "key XOR 0x8000 = low" by (metis bit.xor_cancel_right xor.assoc xor.right_neutral xor_self_eq)
      then show ?thesis using low by simp
    qed
    then have "uint (key_value key) = uint key - 2 ^ 15"
    proof -
      have "take_bit 16 (uint key - 2 ^ 15) = uint key - 2 ^ 15" using k False by (intro take_bit_int_eq_self) simp_all
      then show ?thesis using \<open>uint (key XOR 0x8000) = uint key - 2 ^ 15\<close> by (simp add: v unsigned_ucast_eq)
    qed
    then show ?thesis using False assms rank_bounds [of b] by (simp add: rank_def [of "key_value key"] key_rank split: if_splits)
  qed
qed

lemma bf16_key_order: "bf16_key a < bf16_key b \<longleftrightarrow> rank a < rank b"
  using key_less [of a b] by (simp add: word_less_def)

text \<open>
  C32: The keys of the radix passes order BF16 logits as their values do, with one key for both
  zeros, and the bits the cutoff is rebuilt from stand for the value its key came from.
\<close>

theorem bf16_key_roundtrip:
  "(bf16_key a < bf16_key b \<longleftrightarrow> rank a < rank b) \<and> (bf16_key a = bf16_key b \<longleftrightarrow> rank a = rank b)
     \<and> rank (key_value (bf16_key a)) = rank a"
proof -
  have "bf16_key a = bf16_key b \<longleftrightarrow> rank a = rank b"
    using key_less [of a b] key_less [of b a] by (auto simp: word_uint_eq_iff)
  then show ?thesis using key_less [of a b] rank_key_value [of a "bf16_key a"] by (simp add: word_less_def)
qed

subsection \<open>Histograms\<close>

text \<open>A lane is the digit of its element and whether it has one.\<close>

definition histogram_add :: "(nat \<times> bool) list \<Rightarrow> (nat \<Rightarrow> nat) \<Rightarrow> nat \<Rightarrow> nat" where
  \<comment> \<open>one warp: the first lane of every group of peers adds their number\<close>
  "histogram_add lanes h d = h d + (\<Sum>l \<leftarrow> [0..<length lanes].
     if snd (lanes ! l) \<and> fst (lanes ! l) = d \<and> (\<forall>k \<in> set [0..<l]. lanes ! k \<noteq> (d, True))
     then length (filter (\<lambda>p. p = (d, True)) lanes) else 0)"

definition block_add :: "(nat \<Rightarrow> nat \<times> bool) \<Rightarrow> (nat \<Rightarrow> nat) \<Rightarrow> nat \<Rightarrow> nat" where
  \<comment> \<open>the 16 warps of a block\<close>
  "block_add f = fold (\<lambda>w. histogram_add (map (\<lambda>l. f (w * 32 + l)) [0..<32])) [0..<16]"

definition load8 :: "bf16 list \<Rightarrow> nat \<Rightarrow> nat \<Rightarrow> bf16" where
  \<comment> \<open>element \<open>j\<close> of the eight from \<open>i\<close>: one vector load when the size of the row allows it\<close>
  "load8 logits i j = (if i + j < length logits
     then if length logits mod 8 = 0 then take 8 (drop (i div 8 * 8) logits) ! j else logits ! (i + j)
     else neg_inf)"

definition load4 :: "bf16 list \<Rightarrow> nat \<Rightarrow> nat \<Rightarrow> bf16" where
  "load4 logits i j = (if i < length logits
     then if length logits mod 4 = 0 then take 4 (drop (i div 4 * 4) logits) ! j
          else [logits ! i,
                if i + 1 < length logits then logits ! (i + 1) else neg_inf,
                if i + 2 < length logits then logits ! (i + 2) else neg_inf,
                if i + 3 < length logits then logits ! (i + 3) else neg_inf] ! j
     else neg_inf)"

text \<open>Both loads read the element, padded behind the row.\<close>

definition logit :: "bf16 list \<Rightarrow> nat \<Rightarrow> bf16" where
  "logit logits i = (if i < length logits then logits ! i else neg_inf)"

lemma load8_logit: "j < 8 \<Longrightarrow> load8 logits (tile * 4096 + tid * 8) j = logit logits (tile * 4096 + tid * 8 + j)"
proof -
  define i where "i = tile * 4096 + tid * 8"
  have i: "i div 8 * 8 = i" by (simp add: i_def)
  have "load8 logits i j = logit logits (i + j)" if "j < 8" using that by (simp add: load8_def logit_def i)
  then show "j < 8 \<Longrightarrow> load8 logits (tile * 4096 + tid * 8) j = logit logits (tile * 4096 + tid * 8 + j)" by (simp add: i_def)
qed

lemma load4_logit:
  assumes "j < 4"
  shows "load4 logits (base * 2048 + tid * 4) j = logit logits (base * 2048 + tid * 4 + j)"
proof -
  define i where "i = base * 2048 + tid * 4"
  have i: "i mod 4 = 0" "i div 4 * 4 = i" by (auto simp: i_def)
  have "i + j < length logits" if "length logits mod 4 = 0" "i < length logits" using that i(1) assms by presburger
  moreover have "j = 0 \<or> j = 1 \<or> j = 2 \<or> j = 3" using assms by linarith
  ultimately have "load4 logits i j = logit logits (i + j)" using assms i by (auto simp: load4_def logit_def)
  then show ?thesis by (simp add: i_def)
qed

definition high_digit :: "bf16 \<Rightarrow> nat" where
  "high_digit v = unat (drop_bit 8 (bf16_key v))"

definition low_digit :: "bf16 \<Rightarrow> nat" where
  "low_digit v = unat (bf16_key v AND 255)"

definition prepare_histogram :: "bf16 list \<Rightarrow> nat \<Rightarrow> nat \<Rightarrow> nat" where
  \<comment> \<open>the histogram \<open>prepare_logits\<close> writes for a tile\<close>
  "prepare_histogram logits tile = fold (\<lambda>j. block_add (\<lambda>tid. let i = tile * 4096 + tid * 8 in
     (high_digit (load8 logits i j), i + j < length logits))) [0..<8] (\<lambda>_. 0)"

definition boundary_histogram :: "bf16 list \<Rightarrow> nat \<Rightarrow> nat \<Rightarrow> nat" where
  \<comment> \<open>the second pass of \<open>sample_rows\<close>, over the elements with the selected high digit\<close>
  "boundary_histogram logits high = fold (\<lambda>base. fold (\<lambda>j. block_add (\<lambda>tid. let i = base * 2048 + tid * 4; x = load4 logits i j in
     (low_digit x, i + j < length logits \<and> high_digit x = high))) [0..<4])
     [0..<(length logits + 2047) div 2048] (\<lambda>_. 0)"

definition select_digit :: "(nat \<Rightarrow> nat) \<Rightarrow> nat \<Rightarrow> (nat \<times> nat) option" where
  \<comment> \<open>the digit of the thread whose range of the exclusive scan holds \<open>k\<close>, and the rest of \<open>k\<close>\<close>
  "select_digit counts k = (let prefix = (\<lambda>tid. sum_list (map counts [0..<tid])) in
     map_option (\<lambda>tid. (255 - tid, k - prefix tid)) (find (\<lambda>tid. prefix tid < k \<and> k \<le> prefix tid + counts tid) [0..<512]))"

definition tiles_of :: "bf16 list \<Rightarrow> nat" where
  "tiles_of logits = (length logits + 4095) div 4096"

definition topk_key :: "bf16 list \<Rightarrow> nat \<Rightarrow> 32 word option" where
  "topk_key logits n = do {
     (high, k) \<leftarrow> select_digit (\<lambda>tid. if tid < 256
        then sum_list (map (\<lambda>tile. prepare_histogram logits tile (255 - tid)) [0..<tiles_of logits]) else 0) n;
     (low, _) \<leftarrow> select_digit (\<lambda>tid. if tid < 256 then boundary_histogram logits high (255 - tid) else 0) k;
     Some (push_bit 8 (of_nat high) OR of_nat low)
   }"

lemma peers_count:
  "(\<Sum>l \<leftarrow> [0..<length lanes]. if lanes ! l = x \<and> (\<forall>k < l. lanes ! k \<noteq> x) then c else 0) = (if x \<in> set lanes then c else (0 :: nat))"
proof (induction lanes rule: rev_induct)
  case (snoc y lanes)
  have "(\<Sum>l \<leftarrow> [0..<length lanes]. if (lanes @ [y]) ! l = x \<and> (\<forall>k < l. (lanes @ [y]) ! k \<noteq> x) then c else 0)
      = (\<Sum>l \<leftarrow> [0..<length lanes]. if lanes ! l = x \<and> (\<forall>k < l. lanes ! k \<noteq> x) then c else 0)"
    by (rule arg_cong [where f = sum_list], rule map_cong) (auto simp: nth_append)
  moreover have "(\<forall>k < length lanes. (lanes @ [y]) ! k \<noteq> x) \<longleftrightarrow> x \<notin> set lanes" by (auto simp: nth_append in_set_conv_nth)
  ultimately show ?case using snoc by auto
qed simp

lemma histogram_add_count: "histogram_add lanes h d = h d + length (filter (\<lambda>p. p = (d, True)) lanes)"
proof -
  have eq: "(snd (lanes ! l) \<and> fst (lanes ! l) = d \<and> (\<forall>k \<in> set [0..<l]. lanes ! k \<noteq> (d, True)))
      = (lanes ! l = (d, True) \<and> (\<forall>k < l. lanes ! k \<noteq> (d, True)))" for l by (auto simp: prod_eq_iff)
  show ?thesis unfolding histogram_add_def eq peers_count by (auto simp: filter_empty_conv)
qed

lemma length_filter_sum: "length (filter P xs) = (\<Sum>x \<leftarrow> xs. of_bool (P x))"
  by (induction xs) auto

lemma sum_shift:
  fixes g :: "nat \<Rightarrow> nat"
  shows "(\<Sum>l < k. g (b + l)) = (\<Sum>i \<in> {b..<b + k}. g i)"
  using sum.shift_bounds_nat_ivl [of g 0 b k] by (simp add: atLeast0LessThan add.commute)

lemma block_add_count: "block_add f h d = h d + (\<Sum>t < 512. of_bool (f t = (d, True)))"
proof -
  have "fold (\<lambda>w. histogram_add (map (\<lambda>l. f (w * 32 + l)) [0..<32])) [0..<n] h d
      = h d + (\<Sum>w < n. \<Sum>t \<in> {w * 32..<w * 32 + 32}. of_bool (f t = (d, True)))" for n
  proof (induction n)
    case (Suc n)
    have "length (filter (\<lambda>p. p = (d, True)) (map (\<lambda>l. f (n * 32 + l)) [0..<32])) = (\<Sum>l < 32. of_bool (f (n * 32 + l) = (d, True)))"
      by (simp add: length_filter_sum comp_def interv_sum_list_conv_sum_set_nat atLeast0LessThan del: upt_rec_numeral sum_of_bool_eq)
    also have "\<dots> = (\<Sum>t \<in> {n * 32..<n * 32 + 32}. of_bool (f t = (d, True)))" by (rule sum_shift)
    finally show ?case using Suc by (simp add: histogram_add_count del: upt_rec_numeral sum_of_bool_eq)
  qed simp
  from this [of 16] show ?thesis
    unfolding block_add_def sum.nat_group by (simp del: sum_of_bool_eq)
qed

lemma fold_block_add:
  "fold (\<lambda>j. block_add (f j)) [0..<n] h d = h d + (\<Sum>j < n. \<Sum>t < 512. of_bool (f j t = (d, True)))"
  by (induction n) (simp_all add: block_add_count del: sum_of_bool_eq)

text \<open>Elements in groups of \<open>k\<close> per thread.\<close>

lemma thread_sum:
  fixes g :: "nat \<Rightarrow> nat"
  shows "(\<Sum>j < k. \<Sum>t < m. g (b + t * k + j)) = (\<Sum>i \<in> {b..<b + m * k}. g i)"
proof -
  have "(\<Sum>j < k. \<Sum>t < m. g (b + t * k + j)) = (\<Sum>t < m. \<Sum>j < k. g (b + (t * k + j)))"
    unfolding add.assoc by (rule sum.swap)
  also have "\<dots> = (\<Sum>t < m. \<Sum>i \<in> {t * k..<t * k + k}. g (b + i))"
    by (intro sum.cong sum_shift refl)
  also have "\<dots> = (\<Sum>i < m * k. g (b + i))" by (rule sum.nat_group)
  finally show ?thesis unfolding sum_shift .
qed

lemma sum_of_bool_count:
  assumes "length logits \<le> n"
  shows "(\<Sum>i < n. of_bool (i < length logits \<and> P (logit logits i))) = length (filter P logits)"
proof -
  have "(\<Sum>i < n. of_bool (i < length logits \<and> P (logit logits i))) = (\<Sum>i < length logits. of_bool (P (logits ! i)) :: nat)"
    by (rule sum.mono_neutral_cong_right) (use assms in \<open>auto simp: logit_def\<close>)
  also have "\<dots> = (\<Sum>i \<leftarrow> [0..<length logits]. of_bool (P (logits ! i)))"
    by (simp add: interv_sum_list_conv_sum_set_nat atLeast0LessThan del: sum_of_bool_eq)
  also have "\<dots> = (\<Sum>v \<leftarrow> logits. of_bool (P v))"
    by (subst (3) map_nth [symmetric]) (simp add: comp_def)
  finally show ?thesis by (simp add: length_filter_sum)
qed

lemma prepare_histogram_total:
  "sum_list (map (\<lambda>tile. prepare_histogram logits tile d) [0..<tiles_of logits]) = length (filter (\<lambda>v. high_digit v = d) logits)"
proof -
  let ?g = "\<lambda>i. of_bool (i < length logits \<and> high_digit (logit logits i) = d) :: nat"
  have tile: "prepare_histogram logits tile d = (\<Sum>i \<in> {tile * 4096..<tile * 4096 + 4096}. ?g i)" for tile
    unfolding prepare_histogram_def fold_block_add Let_def
    using thread_sum [where g = ?g and b = "tile * 4096" and m = 512 and k = 8]
    by (simp add: conj_commute load8_logit del: sum_of_bool_eq)
  have "sum_list (map (\<lambda>tile. prepare_histogram logits tile d) [0..<tiles_of logits]) = (\<Sum>i < tiles_of logits * 4096. ?g i)"
    unfolding tile by (simp add: interv_sum_list_conv_sum_set_nat atLeast0LessThan sum.nat_group del: sum_of_bool_eq)
  also have "\<dots> = length (filter (\<lambda>v. high_digit v = d) logits)"
    by (rule sum_of_bool_count) (simp add: tiles_of_def)
  finally show ?thesis .
qed

lemma boundary_histogram_total:
  "boundary_histogram logits high d = length (filter (\<lambda>v. high_digit v = high \<and> low_digit v = d) logits)"
proof -
  let ?g = "\<lambda>i. of_bool (i < length logits \<and> (high_digit (logit logits i) = high \<and> low_digit (logit logits i) = d)) :: nat"
  have base: "fold (\<lambda>base. fold (\<lambda>j. block_add (f base j)) [0..<4]) [0..<n] h d
      = h d + (\<Sum>b < n. \<Sum>j < 4. \<Sum>t < 512. of_bool (f b j t = (d, True)))" for f n h
    by (induction n) (simp_all add: fold_block_add del: upt_rec_numeral sum_of_bool_eq)
  have "boundary_histogram logits high d = (\<Sum>b < (length logits + 2047) div 2048. \<Sum>j < 4. \<Sum>t < 512. ?g (b * 2048 + t * 4 + j))"
    unfolding boundary_histogram_def base Let_def by (simp add: conj_ac load4_logit del: sum_of_bool_eq)
  also have "\<dots> = (\<Sum>b < (length logits + 2047) div 2048. \<Sum>i \<in> {b * 2048..<b * 2048 + 2048}. ?g i)"
    using thread_sum [where g = ?g and m = 512 and k = 4] by (simp del: sum_of_bool_eq)
  also have "\<dots> = (\<Sum>i < (length logits + 2047) div 2048 * 2048. ?g i)" by (rule sum.nat_group)
  also have "\<dots> = length (filter (\<lambda>v. high_digit v = high \<and> low_digit v = d) logits)"
    by (rule sum_of_bool_count) simp
  finally show ?thesis .
qed

subsection \<open>The cutoff\<close>

lemma unat_key: "unat (bf16_key v) < 65536"
proof -
  have "int (unat (bf16_key v)) < int 65536" using key_bounds [of v] by simp
  then show ?thesis by (rule of_nat_less_imp_less)
qed

lemma high_digit_div: "high_digit v = unat (bf16_key v) div 256"
  by (simp add: high_digit_def drop_bit_eq_div unat_div)

lemma low_digit_mod: "low_digit v = unat (bf16_key v) mod 256"
proof -
  have "bf16_key v AND 255 = take_bit 8 (bf16_key v)" by (simp add: take_bit_eq_mask mask_eq_exp_minus_1)
  then show ?thesis by (simp add: low_digit_def take_bit_eq_mod unat_mod)
qed

lemma digit_bounds: "high_digit v < 256" "low_digit v < 256"
  using unat_key [of v] by (simp_all add: high_digit_div low_digit_mod less_mult_imp_div_less)

lemma key_digits: "push_bit 8 (of_nat (high_digit v)) OR of_nat (low_digit v) = bf16_key v"
proof -
  have "push_bit 8 (drop_bit 8 (bf16_key v)) OR (bf16_key v AND mask 8) = bf16_key v"
    by (rule bit_eqI) (auto simp: bit_simps not_less)
  then show ?thesis by (simp add: high_digit_def low_digit_def mask_eq_exp_minus_1)
qed

lemma rank_digits:
  "rank v < rank w \<longleftrightarrow> high_digit v < high_digit w \<or> high_digit v = high_digit w \<and> low_digit v < low_digit w"
proof -
  have "rank v < rank w \<longleftrightarrow> unat (bf16_key v) < unat (bf16_key w)"
    using bf16_key_order [of v w] by (simp add: word_less_nat_alt)
  moreover have "unat (bf16_key u) = high_digit u * 256 + low_digit u" for u
    by (simp add: high_digit_div low_digit_mod)
  ultimately show ?thesis using digit_bounds [of v] digit_bounds [of w] by auto
qed

lemma digits_above:
  assumes "\<forall>v. f v < (256 :: nat)" "m \<le> 256"
  shows "(\<Sum>t < m. length (filter (\<lambda>v. P v \<and> f v = 255 - t) xs)) = length (filter (\<lambda>v. P v \<and> 256 \<le> f v + m) xs)"
  using assms(2)
proof (induction m)
  case 0
  have "\<not> 256 \<le> f v" for v using assms(1) by (simp add: not_le)
  then show ?case by simp
next
  case (Suc m)
  have "length (filter (\<lambda>v. P v \<and> 256 \<le> f v + m) xs) + length (filter (\<lambda>v. P v \<and> f v = 255 - m) xs)
      = length (filter (\<lambda>v. P v \<and> 256 \<le> f v + Suc m) xs)"
    using Suc.prems by (induction xs) auto
  then show ?case using Suc by simp
qed

lemma select_digit_found:
  assumes "0 < k" "k \<le> (\<Sum>t < m. counts t)" "m \<le> 512"
  obtains t where "t < m" "select_digit counts k = Some (255 - t, k - (\<Sum>u < t. counts u))"
    "(\<Sum>u < t. counts u) < k" "k \<le> (\<Sum>u < t. counts u) + counts t"
proof -
  let ?S = "\<lambda>t. \<Sum>u < t. counts u"
  have prefix: "sum_list (map counts [0..<t]) = ?S t" for t by (simp add: interv_sum_list_conv_sum_set_nat atLeast0LessThan)
  define t where "t = (LEAST t. k \<le> ?S (Suc t))"
  obtain m' where m': "m = Suc m'" using assms by (cases m) auto
  have "k \<le> ?S (Suc m')" using assms m' by simp
  then have t: "k \<le> ?S (Suc t)" "t \<le> m'" unfolding t_def by (rule LeastI, rule Least_le)
  have below: "?S u < k" if "u \<le> t" for u
  proof (cases u)
    case (Suc u')
    then show ?thesis using not_less_Least [of u' "\<lambda>t. k \<le> ?S (Suc t)"] that by (simp add: t_def not_le)
  qed (use assms in simp)
  have "find (\<lambda>t. ?S t < k \<and> k \<le> ?S t + counts t) [0..<512] = Some t"
    unfolding find_Some_iff
  proof (intro exI [of _ t] conjI allI impI)
    show "t < length [0..<512]" using t m' assms by simp
    show "?S ([0..<512] ! t) < k" "k \<le> ?S ([0..<512] ! t) + counts ([0..<512] ! t)" "t = [0..<512] ! t"
      using below t m' assms by (simp_all del: upt_rec_numeral)
    fix u assume "u < t"
    then show "\<not> (?S ([0..<512] ! u) < k \<and> k \<le> ?S ([0..<512] ! u) + counts ([0..<512] ! u))"
      using below [of "Suc u"] t m' assms by (simp del: upt_rec_numeral)
  qed
  then show ?thesis using that [of t] t m' below [of t] by (simp add: select_digit_def prefix Let_def)
qed

lemma select_digit_among:
  assumes digits: "\<forall>v. f v < (256 :: nat)" and k: "0 < k" "k \<le> length (filter P xs)"
  obtains d where "d < 256"
    "select_digit (\<lambda>t. if t < 256 then length (filter (\<lambda>v. P v \<and> f v = 255 - t) xs) else 0) k
       = Some (d, k - length (filter (\<lambda>v. P v \<and> d < f v) xs))"
    "length (filter (\<lambda>v. P v \<and> d < f v) xs) < k"
    "k \<le> length (filter (\<lambda>v. P v \<and> d < f v) xs) + length (filter (\<lambda>v. P v \<and> f v = d) xs)"
proof -
  let ?c = "\<lambda>t. if t < 256 then length (filter (\<lambda>v. P v \<and> f v = 255 - t) xs) else 0"
  have sums: "(\<Sum>u < t. ?c u) = length (filter (\<lambda>v. P v \<and> 256 \<le> f v + t) xs)" if "t \<le> 256" for t
    unfolding digits_above [OF digits that, symmetric] using that by (intro sum.cong) auto
  have "k \<le> (\<Sum>u < 256. ?c u)" using k sums [of 256] by simp
  from k(1) this obtain t where t: "t < 256" "select_digit ?c k = Some (255 - t, k - (\<Sum>u < t. ?c u))"
    "(\<Sum>u < t. ?c u) < k" "k \<le> (\<Sum>u < t. ?c u) + ?c t" by (rule select_digit_found) simp_all
  have "(256 \<le> n + t) = (255 - t < n)" for n using t(1) by auto
  then have "(\<Sum>u < t. ?c u) = length (filter (\<lambda>v. P v \<and> 255 - t < f v) xs)" using sums [of t] t(1) by simp
  then show ?thesis using that [of "255 - t"] t by simp
qed

text \<open>The key of the \<open>k\<close>-th largest logit, ties counted as one.\<close>

lemma filter_split:
  assumes "\<And>v. P v \<longleftrightarrow> Q v \<or> R v" "\<And>v. \<not> (Q v \<and> R v)"
  shows "length (filter P xs) = length (filter Q xs) + length (filter R xs)"
  using assms by (induction xs) auto

lemma topk_key_exact:
  assumes k: "0 < k" "k \<le> length logits"
  obtains v where "v \<in> set logits" "topk_key logits k = Some (bf16_key v)"
    "length (filter (\<lambda>w. rank v < rank w) logits) < k" "k \<le> length (filter (\<lambda>w. rank v \<le> rank w) logits)"
proof -
  let ?h = "high_digit" and ?l = "low_digit"
  let ?n = "\<lambda>P. length (filter P logits)"
  obtain h where h: "h < 256"
    "select_digit (\<lambda>t. if t < 256 then ?n (\<lambda>v. True \<and> ?h v = 255 - t) else 0) k = Some (h, k - ?n (\<lambda>v. True \<and> h < ?h v))"
    "?n (\<lambda>v. True \<and> h < ?h v) < k" "k \<le> ?n (\<lambda>v. True \<and> h < ?h v) + ?n (\<lambda>v. True \<and> ?h v = h)"
    by (rule select_digit_among [of ?h k "\<lambda>_. True" logits]) (use k digit_bounds in simp_all)
  define r where "r = k - ?n (\<lambda>v. h < ?h v)"
  have r: "0 < r" "r \<le> ?n (\<lambda>v. ?h v = h)" using h by (simp_all add: r_def)
  obtain l where l: "l < 256"
    "select_digit (\<lambda>t. if t < 256 then ?n (\<lambda>v. ?h v = h \<and> ?l v = 255 - t) else 0) r = Some (l, r - ?n (\<lambda>v. ?h v = h \<and> l < ?l v))"
    "?n (\<lambda>v. ?h v = h \<and> l < ?l v) < r" "r \<le> ?n (\<lambda>v. ?h v = h \<and> l < ?l v) + ?n (\<lambda>v. ?h v = h \<and> ?l v = l)"
    by (rule select_digit_among [of ?l r "\<lambda>v. ?h v = h" logits]) (use r digit_bounds in simp_all)
  have "0 < ?n (\<lambda>v. ?h v = h \<and> ?l v = l)" using l by linarith
  then obtain v where v: "v \<in> set logits" "?h v = h" "?l v = l" by (auto simp: length_greater_0_conv filter_empty_conv)
  have "topk_key logits k = Some (push_bit 8 (of_nat h) OR of_nat l)"
    unfolding topk_key_def prepare_histogram_total boundary_histogram_total
    using h(2) [unfolded simp_thms] l(2) by (simp add: r_def)
  then have key: "topk_key logits k = Some (bf16_key v)" using key_digits [of v] v by simp
  have above: "?n (\<lambda>w. rank v < rank w) = ?n (\<lambda>w. h < ?h w) + ?n (\<lambda>w. ?h w = h \<and> l < ?l w)"
  proof (rule filter_split)
    show "rank v < rank w \<longleftrightarrow> h < ?h w \<or> ?h w = h \<and> l < ?l w" for w using rank_digits [of v w] v by auto
  qed simp
  have "?n (\<lambda>w. rank v \<le> rank w) = ?n (\<lambda>w. rank v < rank w) + ?n (\<lambda>w. ?h w = h \<and> ?l w = l)"
  proof (rule filter_split)
    have not_above: "rank v \<le> rank w \<longleftrightarrow> \<not> rank w < rank v" for w by linarith
    show "rank v \<le> rank w \<longleftrightarrow> rank v < rank w \<or> ?h w = h \<and> ?l w = l" for w
      unfolding not_above rank_digits v(2,3) by auto
    show "\<not> (rank v < rank w \<and> ?h w = h \<and> ?l w = l)" for w using rank_digits [of v w] v by auto
  qed
  then show ?thesis using that [OF v(1) key] above r l h by (simp add: r_def)
qed

subsection \<open>The greedy token\<close>

record Range =
  rg_high :: bf16
  rg_index :: nat

definition less_f :: "bf16 \<Rightarrow> bf16 \<Rightarrow> bool" where
  "less_f a b \<longleftrightarrow> not_nan a \<and> not_nan b \<and> rank a < rank b"

definition eq_f :: "bf16 \<Rightarrow> bf16 \<Rightarrow> bool" where
  "eq_f a b \<longleftrightarrow> not_nan a \<and> not_nan b \<and> rank a = rank b"

definition fmax :: "bf16 \<Rightarrow> bf16 \<Rightarrow> bf16" where
  \<comment> \<open>\<open>fmaxf\<close>: a NaN loses, the positive zero is the larger one\<close>
  "fmax a b = (if \<not> not_nan a then b else if \<not> not_nan b then a
     else if rank a < rank b \<or> rank a = rank b \<and> uint b < uint a then b else a)"

definition merge_range :: "Range \<Rightarrow> Range \<Rightarrow> Range" where
  "merge_range a b = (let take_b = less_f (rg_high a) (rg_high b) \<or> eq_f (rg_high b) (rg_high a) \<and> rg_index b < rg_index a in
     \<lparr>rg_high = fmax (rg_high a) (rg_high b), rg_index = if take_b then rg_index b else rg_index a\<rparr>)"

definition INT_MAX :: nat where
  "INT_MAX = 2 ^ 31 - 1"

definition no_range :: Range where
  "no_range = \<lparr>rg_high = neg_inf, rg_index = INT_MAX\<rparr>"

type_synonym block_reduce = "(Range \<Rightarrow> Range \<Rightarrow> Range) \<Rightarrow> Range list \<Rightarrow> Range"

definition thread_range :: "bf16 list \<Rightarrow> nat \<Rightarrow> nat \<Rightarrow> Range" where
  \<comment> \<open>the eight elements of a thread of \<open>prepare_logits\<close>\<close>
  "thread_range logits tile tid = fold (\<lambda>j range. let i = tile * 4096 + tid * 8 in
     merge_range range \<lparr>rg_high = load8 logits i j, rg_index = i + j\<rparr>) [0..<8] no_range"

definition tile_range :: "block_reduce \<Rightarrow> bf16 list \<Rightarrow> nat \<Rightarrow> Range" where
  "tile_range reduce logits tile = reduce merge_range (map (thread_range logits tile) [0..<512])"

definition row_range :: "block_reduce \<Rightarrow> Range list \<Rightarrow> Range" where
  \<comment> \<open>\<open>sample_rows\<close>: thread \<open>tid\<close> merges the tiles \<open>tid\<close>, \<open>tid + 512\<close>, ...\<close>
  "row_range reduce ranges = reduce merge_range (map (\<lambda>tid. fold (\<lambda>i range. merge_range range (ranges ! i))
     (filter (\<lambda>i. i mod 512 = tid) [0..<length ranges]) no_range) [0..<512])"

definition logits_range :: "block_reduce \<Rightarrow> bf16 list \<Rightarrow> Range" where
  "logits_range reduce logits = row_range reduce (map (tile_range reduce logits) [0..<tiles_of logits])"

definition greedy_token :: "block_reduce \<Rightarrow> bf16 list \<Rightarrow> nat" where
  "greedy_token reduce logits = rg_index (logits_range reduce logits)"

definition cutoff :: "block_reduce \<Rightarrow> bf16 list \<Rightarrow> int \<Rightarrow> bf16 option" where
  "cutoff reduce logits k =
     (if k = 1 then Some (rg_high (logits_range reduce logits))
      else if 1 < k \<and> k < int (length logits) then map_option key_value (topk_key logits (nat k))
      else Some neg_inf)"

text \<open>
  CUB reduces the values of a block by some tree of applications of the operator, over the
  threads in any order.
\<close>

inductive reduction :: "('a \<Rightarrow> 'a \<Rightarrow> 'a) \<Rightarrow> 'a multiset \<Rightarrow> 'a \<Rightarrow> bool" for f where
  single: "reduction f {#x#} x"
| join: "reduction f A x \<Longrightarrow> reduction f B y \<Longrightarrow> reduction f (A + B) (f x y)"

definition cub_reduce :: "block_reduce \<Rightarrow> bool" where
  "cub_reduce reduce \<longleftrightarrow> (\<forall>f values. values \<noteq> [] \<longrightarrow> reduction f (mset values) (reduce f values))"

definition best_of :: "bf16 list \<Rightarrow> nat set \<Rightarrow> Range \<Rightarrow> bool" where
  \<comment> \<open>the range of the elements \<open>I\<close>\<close>
  "best_of logits I r \<longleftrightarrow> not_nan (rg_high r)
     \<and> (\<forall>i \<in> I. not_nan (logit logits i) \<longrightarrow> rank (logit logits i) < rank (rg_high r)
          \<or> rank (logit logits i) = rank (rg_high r) \<and> rg_index r \<le> i)
     \<and> (rank (rg_high r) = rank neg_inf \<and> rg_index r = INT_MAX
        \<or> rg_index r \<in> I \<and> not_nan (logit logits (rg_index r)) \<and> rank (logit logits (rg_index r)) = rank (rg_high r))"

lemma rank_neg_inf: "rank neg_inf = - 0x7f80"
  by (simp add: rank_def neg_inf_def)

lemma not_nan_neg_inf: "not_nan neg_inf"
  by (simp add: not_nan_def rank_neg_inf)

lemma not_nan_above: "not_nan v \<Longrightarrow> rank neg_inf \<le> rank v"
  by (simp add: not_nan_def rank_neg_inf)

lemma rank_fmax: "not_nan a \<Longrightarrow> not_nan b \<Longrightarrow> not_nan (fmax a b) \<and> rank (fmax a b) = max (rank a) (rank b)"
  by (auto simp: fmax_def)

lemma best_of_none: "best_of logits {} no_range"
  by (simp add: best_of_def no_range_def not_nan_neg_inf)

lemma merge_range_eq:
  assumes "not_nan (rg_high a)" "not_nan (rg_high b)"
  shows "not_nan (rg_high (merge_range a b))"
    "rank (rg_high (merge_range a b)) = max (rank (rg_high a)) (rank (rg_high b))"
    "rg_index (merge_range a b) = (if rank (rg_high a) < rank (rg_high b)
       \<or> rank (rg_high a) = rank (rg_high b) \<and> rg_index b < rg_index a then rg_index b else rg_index a)"
  using rank_fmax [OF assms] assms by (auto simp: merge_range_def less_f_def eq_f_def Let_def)

lemma best_of_merge:
  assumes a: "best_of logits A a" and b: "best_of logits B b"
  shows "best_of logits (A \<union> B) (merge_range a b)"
proof -
  have nan: "not_nan (rg_high a)" "not_nan (rg_high b)" using a b by (simp_all add: best_of_def)
  note m = merge_range_eq [OF nan]
  show ?thesis
    unfolding best_of_def m(2,3)
  proof (intro conjI ballI impI)
    show "not_nan (rg_high (merge_range a b))" by (rule m)
  next
    fix i assume i: "i \<in> A \<union> B" "not_nan (logit logits i)"
    have "i \<in> A \<Longrightarrow> rank (logit logits i) < rank (rg_high a) \<or> rank (logit logits i) = rank (rg_high a) \<and> rg_index a \<le> i"
      using a i by (simp add: best_of_def)
    moreover have "i \<in> B \<Longrightarrow> rank (logit logits i) < rank (rg_high b) \<or> rank (logit logits i) = rank (rg_high b) \<and> rg_index b \<le> i"
      using b i by (simp add: best_of_def)
    ultimately show "rank (logit logits i) < max (rank (rg_high a)) (rank (rg_high b))
      \<or> rank (logit logits i) = max (rank (rg_high a)) (rank (rg_high b))
        \<and> (if rank (rg_high a) < rank (rg_high b) \<or> rank (rg_high a) = rank (rg_high b) \<and> rg_index b < rg_index a
            then rg_index b else rg_index a) \<le> i"
      using i by (auto simp: max_def)
  next
    have "rank (rg_high a) = rank neg_inf \<and> rg_index a = INT_MAX
        \<or> rg_index a \<in> A \<and> not_nan (logit logits (rg_index a)) \<and> rank (logit logits (rg_index a)) = rank (rg_high a)"
      using a by (simp add: best_of_def)
    moreover have "rank (rg_high b) = rank neg_inf \<and> rg_index b = INT_MAX
        \<or> rg_index b \<in> B \<and> not_nan (logit logits (rg_index b)) \<and> rank (logit logits (rg_index b)) = rank (rg_high b)"
      using b by (simp add: best_of_def)
    ultimately show "max (rank (rg_high a)) (rank (rg_high b)) = rank neg_inf
        \<and> (if rank (rg_high a) < rank (rg_high b) \<or> rank (rg_high a) = rank (rg_high b) \<and> rg_index b < rg_index a
            then rg_index b else rg_index a) = INT_MAX
      \<or> (if rank (rg_high a) < rank (rg_high b) \<or> rank (rg_high a) = rank (rg_high b) \<and> rg_index b < rg_index a
            then rg_index b else rg_index a) \<in> A \<union> B
        \<and> not_nan (logit logits (if rank (rg_high a) < rank (rg_high b) \<or> rank (rg_high a) = rank (rg_high b) \<and> rg_index b < rg_index a
            then rg_index b else rg_index a))
        \<and> rank (logit logits (if rank (rg_high a) < rank (rg_high b) \<or> rank (rg_high a) = rank (rg_high b) \<and> rg_index b < rg_index a
            then rg_index b else rg_index a)) = max (rank (rg_high a)) (rank (rg_high b))"
      by (cases "rank (rg_high a) < rank (rg_high b) \<or> rank (rg_high a) = rank (rg_high b) \<and> rg_index b < rg_index a")
        (auto simp: max_def)
  qed
qed

lemma best_of_element:
  assumes "best_of logits I r" "i < INT_MAX"
  shows "best_of logits (insert i I) (merge_range r \<lparr>rg_high = logit logits i, rg_index = i\<rparr>)"
proof (cases "not_nan (logit logits i)")
  case True
  then have "best_of logits {i} \<lparr>rg_high = logit logits i, rg_index = i\<rparr>" by (simp add: best_of_def)
  from best_of_merge [OF assms(1) this] show ?thesis by simp
next
  case False
  then have "merge_range r \<lparr>rg_high = logit logits i, rg_index = i\<rparr> = r"
    using assms(1) by (simp add: merge_range_def less_f_def eq_f_def fmax_def best_of_def)
  then show ?thesis using False assms(1) by (auto simp: best_of_def)
qed

lemma best_of_reduction:
  assumes "reduction merge_range R r" "R = image_mset g T" "\<forall>t \<in># T. best_of logits (I t) (g t)"
  shows "best_of logits (\<Union>t \<in> set_mset T. I t) r"
  using assms
proof (induction arbitrary: T rule: reduction.induct)
  case (single x)
  then have "size T = 1" by (metis size_image_mset size_single)
  then obtain t where "T = {#t#}" using size_1_singleton_mset by blast
  then show ?case using single by simp
next
  case (join A x B y)
  obtain S U where T: "T = S + U" "A = image_mset g S" "B = image_mset g U"
    using image_mset_eq_plusD [OF join.prems(1) [symmetric]] by auto
  have "best_of logits (\<Union>t \<in> set_mset S. I t) x" "best_of logits (\<Union>t \<in> set_mset U. I t) y"
    using join T by (auto simp: )
  then show ?case unfolding T by (simp add: UN_Un best_of_merge)
qed

lemma best_of_block:
  assumes "cub_reduce reduce" "0 < n" "\<forall>t < n. best_of logits (I t) (g t)"
  shows "best_of logits (\<Union>t < n. I t) (reduce merge_range (map g [0..<n]))"
proof -
  have "reduction merge_range (mset (map g [0..<n])) (reduce merge_range (map g [0..<n]))"
    using assms(1,2) by (simp add: cub_reduce_def del: mset_map)
  from best_of_reduction [OF this, where T = "mset [0..<n]" and logits = logits and I = I] assms(3)
  show ?thesis by (simp add: atLeast0LessThan)
qed

lemma best_of_fold:
  assumes "best_of logits I r" "\<forall>j \<in> set js. best_of logits (J j) (g j)"
  shows "best_of logits (I \<union> (\<Union>j \<in> set js. J j)) (fold (\<lambda>j range. merge_range range (g j)) js r)"
  using assms
proof (induction js arbitrary: I r)
  case (Cons j js)
  have "best_of logits (I \<union> J j) (merge_range r (g j))" using Cons.prems by (simp add: best_of_merge)
  from Cons.IH [OF this] show ?case using Cons.prems by (simp add: Un_assoc)
qed simp

lemma best_of_elements:
  assumes "best_of logits I r" "\<forall>j \<in> set js. f j < INT_MAX"
  shows "best_of logits (I \<union> f ` set js) (fold (\<lambda>j range. merge_range range \<lparr>rg_high = logit logits (f j), rg_index = f j\<rparr>) js r)"
  using assms
proof (induction js arbitrary: I r)
  case (Cons j js)
  have "best_of logits (insert (f j) I) (merge_range r \<lparr>rg_high = logit logits (f j), rg_index = f j\<rparr>)"
    using Cons.prems by (simp add: best_of_element)
  from Cons.IH [OF this] show ?case using Cons.prems by simp
qed simp

lemma tile_elements: "(\<Union>tid < 512. {b + tid * 8..<b + tid * 8 + 8}) = {b..<b + 4096 :: nat}"
proof (intro equalityI subsetI)
  fix i assume i: "i \<in> {b..<b + 4096}"
  define q where "q = (i - b) div 8"
  have "q * 8 \<le> i - b" "i - b < q * 8 + 8" unfolding q_def by linarith+
  moreover have "q < 512" using i unfolding q_def by (auto simp: less_mult_imp_div_less)
  ultimately show "i \<in> (\<Union>tid < 512. {b + tid * 8..<b + tid * 8 + 8})" using i by (intro UN_I [of q]) auto
qed auto

lemma thread_best:
  assumes "length logits + 4096 \<le> INT_MAX" "tile < tiles_of logits" "tid < 512"
  shows "best_of logits {tile * 4096 + tid * 8..<tile * 4096 + tid * 8 + 8} (thread_range logits tile tid)"
proof -
  have "tile * 4096 < length logits" using assms(2) by (auto simp: tiles_of_def)
  then have "\<forall>j \<in> set [0..<8]. tile * 4096 + tid * 8 + j < INT_MAX" using assms by auto
  note best = best_of_elements [OF best_of_none this]
  have "thread_range logits tile tid = fold (\<lambda>j range. merge_range range \<lparr>rg_high = logit logits (tile * 4096 + tid * 8 + j),
      rg_index = tile * 4096 + tid * 8 + j\<rparr>) [0..<8] no_range"
    unfolding thread_range_def Let_def by (rule fold_cong) (simp_all add: load8_logit del: upt_rec_numeral)
  then show ?thesis using best by (simp add: add.commute del: upt_rec_numeral)
qed

lemma tile_best:
  assumes "cub_reduce reduce" "length logits + 4096 \<le> INT_MAX" "tile < tiles_of logits"
  shows "best_of logits {tile * 4096..<tile * 4096 + 4096} (tile_range reduce logits tile)"
  using best_of_block [OF assms(1), of 512 logits "\<lambda>tid. {tile * 4096 + tid * 8..<tile * 4096 + tid * 8 + 8}" "thread_range logits tile"]
    thread_best [OF assms(2,3)] unfolding tile_elements by (simp add: tile_range_def del: upt_rec_numeral)

lemma logits_best:
  assumes "cub_reduce reduce" "length logits + 4096 \<le> INT_MAX"
  shows "best_of logits {..<tiles_of logits * 4096} (logits_range reduce logits)"
proof -
  let ?ranges = "map (tile_range reduce logits) [0..<tiles_of logits]"
  let ?tile = "\<lambda>i. {i * 4096..<i * 4096 + 4096 :: nat}"
  let ?mine = "\<lambda>tid. filter (\<lambda>i. i mod 512 = tid) [0..<length ?ranges]"
  have "best_of logits ({} \<union> (\<Union>i \<in> set (?mine tid). ?tile i)) (fold (\<lambda>i range. merge_range range (?ranges ! i)) (?mine tid) no_range)" for tid
    by (rule best_of_fold [OF best_of_none]) (simp add: tile_best [OF assms])
  then have "best_of logits (\<Union>tid < 512. \<Union>i \<in> set (?mine tid). ?tile i) (logits_range reduce logits)"
    unfolding logits_range_def row_range_def by (intro best_of_block [OF assms(1)]) simp_all
  moreover have "(\<Union>tid < 512. \<Union>i \<in> set (?mine tid). ?tile i) = {..<tiles_of logits * 4096}"
  proof (intro equalityI subsetI)
    fix i assume i: "i \<in> {..<tiles_of logits * 4096}"
    have "i div 4096 \<in> set (?mine (i div 4096 mod 512))" using i by (simp add: less_mult_imp_div_less)
    moreover have "i \<in> ?tile (i div 4096)" using div_mult_mod_eq [of i 4096] mod_less_divisor [of 4096 i] by auto
    ultimately show "i \<in> (\<Union>tid < 512. \<Union>i \<in> set (?mine tid). ?tile i)"
      by (intro UN_I [of "i div 4096 mod 512"] UN_I [of "i div 4096"]) simp_all
  qed auto
  ultimately show ?thesis by simp
qed

lemma logits_best_above:
  assumes "cub_reduce reduce" "length logits + 4096 \<le> INT_MAX" "i < length logits" "not_nan (logits ! i)"
  shows "rank (logits ! i) < rank (rg_high (logits_range reduce logits))
    \<or> rank (logits ! i) = rank (rg_high (logits_range reduce logits)) \<and> rg_index (logits_range reduce logits) \<le> i"
proof -
  have "i \<in> {..<tiles_of logits * 4096}" using assms(3) unfolding tiles_of_def lessThan_iff by linarith
  moreover have "logit logits i = logits ! i" using assms(3) by (simp add: logit_def)
  ultimately show ?thesis using logits_best [OF assms(1,2)] assms(4) unfolding best_of_def by metis
qed

lemma logits_best_index:
  assumes "cub_reduce reduce" "length logits + 4096 \<le> INT_MAX" "v \<in> set logits" "not_nan v"
  shows "rg_index (logits_range reduce logits) < length logits"
proof -
  let ?r = "logits_range reduce logits"
  note best = logits_best [OF assms(1,2), unfolded best_of_def]
  obtain i where i: "i < length logits" "logits ! i = v" using assms(3) by (auto simp: in_set_conv_nth)
  have above: "rank v < rank (rg_high ?r) \<or> rank v = rank (rg_high ?r) \<and> rg_index ?r \<le> i"
    using logits_best_above [OF assms(1,2) i(1)] i(2) assms(4) by simp
  show ?thesis
  proof (rule ccontr)
    assume far: "\<not> rg_index ?r < length logits"
    then have "rank (rg_high ?r) = rank neg_inf" using best by (auto simp: logit_def)
    then show False using above not_nan_above [OF assms(4)] i far by auto
  qed
qed

text \<open>
  C30: For temperature zero, the token of a row is the lowest index among its largest logits, NaNs
  left out, for every row with a logit that is a number and whatever order the block reductions
  take: the padding behind a row and the initial index INT_MAX never win.
\<close>

theorem greedy_argmax:
  assumes "cub_reduce reduce" "length logits + 4096 \<le> INT_MAX" "v \<in> set logits" "not_nan v"
  shows "greedy_token reduce logits < length logits \<and> not_nan (logits ! greedy_token reduce logits)
    \<and> (\<forall>i < length logits. not_nan (logits ! i) \<longrightarrow> rank (logits ! i) < rank (logits ! greedy_token reduce logits)
         \<or> rank (logits ! i) = rank (logits ! greedy_token reduce logits) \<and> greedy_token reduce logits \<le> i)"
proof -
  let ?r = "logits_range reduce logits"
  note best = logits_best [OF assms(1,2), unfolded best_of_def]
  have index: "rg_index ?r < length logits" by (rule logits_best_index [OF assms])
  then have "rg_index ?r \<noteq> INT_MAX" using assms(2) by simp
  then have high: "not_nan (logits ! rg_index ?r)" "rank (logits ! rg_index ?r) = rank (rg_high ?r)"
    using best index by (auto simp: logit_def)
  then show ?thesis using logits_best_above [OF assms(1,2)] index by (simp add: greedy_token_def)
qed

text \<open>One block reduction: from the left.\<close>

definition left_reduce :: block_reduce where
  "left_reduce f xs = foldl f (hd xs) (tl xs)"

lemma foldl_reduction: "reduction f A x \<Longrightarrow> reduction f (A + mset xs) (foldl f x xs)"
proof (induction xs arbitrary: A x)
  case (Cons y xs)
  from Cons.IH [OF reduction.join [OF Cons.prems reduction.single [of f y]]] show ?case by simp
qed simp

lemma left_reduce_ok: "cub_reduce left_reduce"
  unfolding cub_reduce_def
proof (intro allI impI)
  fix f :: "Range \<Rightarrow> Range \<Rightarrow> Range" and xs :: "Range list"
  assume "xs \<noteq> []"
  then show "reduction f (mset xs) (left_reduce f xs)"
    using foldl_reduction [OF reduction.single, of f "hd xs" "tl xs"] by (cases xs) (simp_all add: left_reduce_def)
qed

theorem greedy_argmax_witness: "greedy_token left_reduce [0xffc0, 0x3f80, 0x4000, 0x4000] = 2"
proof -
  let ?logits = "[0xffc0, 0x3f80, 0x4000, 0x4000] :: bf16 list"
  have ranks: "rank 0x3f80 = 0x3f80" "rank 0x4000 = 0x4000" "rank 0xffc0 = - 0x7fc0" by (simp_all add: rank_def)
  then have nan: "not_nan 0x3f80" "not_nan 0x4000" "\<not> not_nan 0xffc0" by (simp_all add: not_nan_def)
  note g = greedy_argmax [OF left_reduce_ok, of ?logits "0x4000"]
  have "greedy_token left_reduce ?logits < 4" using g nan by (simp add: INT_MAX_def)
  then consider "greedy_token left_reduce ?logits = 0" | "greedy_token left_reduce ?logits = 1"
    | "greedy_token left_reduce ?logits = 2" | "greedy_token left_reduce ?logits = 3" by linarith
  then show ?thesis
  proof cases
    case 1
    then show ?thesis using g nan by (simp add: INT_MAX_def)
  next
    case 2
    then show ?thesis using g nan ranks by (auto simp: INT_MAX_def dest!: spec [where x = 2])
  next
    case 4
    then show ?thesis using g nan ranks by (auto simp: INT_MAX_def dest!: spec [where x = 2])
  qed simp
qed

lemma logits_best_rank:
  assumes "cub_reduce reduce" "length logits + 4096 \<le> INT_MAX" "v \<in> set logits" "not_nan v"
  shows "not_nan (rg_high (logits_range reduce logits)) \<and> rank (logits ! rg_index (logits_range reduce logits)) = rank (rg_high (logits_range reduce logits))"
proof -
  note index = logits_best_index [OF assms]
  then have "rg_index (logits_range reduce logits) \<noteq> INT_MAX" using assms(2) by simp
  then show ?thesis using logits_best [OF assms(1,2), unfolded best_of_def] index by (auto simp: logit_def)
qed

lemma cutoff_exact:
  assumes "cub_reduce reduce" "length logits + 4096 \<le> INT_MAX" "logits \<noteq> []" "\<forall>v \<in> set logits. not_nan v"
  shows "\<exists>c. cutoff reduce logits k = Some c \<and> not_nan c
    \<and> (if 0 < k \<and> k < int (length logits)
        then int (length (filter (\<lambda>v. less_f c v) logits)) < k \<and> k \<le> int (length (filter (\<lambda>v. \<not> less_f v c) logits))
        else filter (\<lambda>v. \<not> less_f v c) logits = logits)"
proof -
  let ?r = "logits_range reduce logits"
  have less: "less_f c v \<longleftrightarrow> rank c < rank v" "less_f v c \<longleftrightarrow> rank v < rank c" if "v \<in> set logits" "not_nan c" for c v
    using that assms(4) by (simp_all add: less_f_def)
  then have above: "filter (\<lambda>v. less_f c v) logits = filter (\<lambda>v. rank c < rank v) logits"
      "filter (\<lambda>v. \<not> less_f v c) logits = filter (\<lambda>v. rank c \<le> rank v) logits" if "not_nan c" for c
    using that by (auto intro!: filter_cong)
  consider "k = 1" | "1 < k" "k < int (length logits)" | "k \<noteq> 1" "\<not> (0 < k \<and> k < int (length logits))" by linarith
  then show ?thesis
  proof cases
    case 1
    obtain v where v: "v \<in> set logits" "not_nan v" using assms by (cases logits) auto
    note index = logits_best_index [OF assms(1,2) v]
    have nan: "not_nan (rg_high ?r)" and at: "rank (logits ! rg_index ?r) = rank (rg_high ?r)" using logits_best_rank [OF assms(1,2) v] by simp_all
    have le: "rank w \<le> rank (rg_high ?r)" if w: "w \<in> set logits" for w
    proof -
      obtain i where i: "i < length logits" "logits ! i = w" using w by (auto simp: in_set_conv_nth)
      then show ?thesis using logits_best_above [OF assms(1,2) i(1)] i assms(4) w by auto
    qed
    then have none: "filter (\<lambda>v. rank (rg_high ?r) < rank v) logits = []" by (auto simp: filter_empty_conv not_less)
    have "logits ! rg_index ?r \<in> set (filter (\<lambda>v. rank (rg_high ?r) \<le> rank v) logits)" using index at by simp
    then have some: "0 < length (filter (\<lambda>v. rank (rg_high ?r) \<le> rank v) logits)" by (rule length_pos_if_in_set)
    then have some': "Suc 0 \<le> length (filter (\<lambda>v. rank (rg_high ?r) \<le> rank v) logits)" by linarith
    show ?thesis
    proof (cases "1 < length logits")
      case False
      then have "length logits = 1" using assms(3) by (cases logits) auto
      then obtain w where "logits = [w]" by (auto simp: length_Suc_conv)
      then show ?thesis using 1 nan some above [OF nan] by (auto simp: cutoff_def split: if_splits)
    qed (use 1 nan none some' above [OF nan] in \<open>simp add: cutoff_def\<close>)
  next
    case 2
    have "0 < nat k" "nat k \<le> length logits" using 2 by simp_all
    then obtain v where v: "v \<in> set logits" "topk_key logits (nat k) = Some (bf16_key v)"
      "length (filter (\<lambda>w. rank v < rank w) logits) < nat k" "nat k \<le> length (filter (\<lambda>w. rank v \<le> rank w) logits)"
      by (rule topk_key_exact)
    define c where "c = key_value (bf16_key v)"
    have c: "rank c = rank v" using rank_key_value [of v "bf16_key v"] by (simp add: c_def)
    then have nan: "not_nan c" using v(1) assms(4) by (simp add: not_nan_def)
    have "cutoff reduce logits k = Some c" using 2 v(2) by (simp add: cutoff_def c_def)
    then show ?thesis using 2 v(3,4) nan above [OF nan] c by auto
  next
    case 3
    then have "cutoff reduce logits k = Some neg_inf" by (auto simp: cutoff_def)
    moreover have "filter (\<lambda>v. \<not> less_f v neg_inf) logits = logits"
      using less not_nan_neg_inf not_nan_above assms(4) by (fastforce intro: filter_True)
    moreover have "\<not> (0 < k \<and> k < int (length logits))" by (rule 3)
    ultimately show ?thesis using not_nan_neg_inf by auto
  qed
qed

text \<open>
  C31: The two radix passes compute the exact top-k cutoff, ties at the cutoff retained: fewer than
  \<open>k\<close> logits lie above it and at least \<open>k\<close> are not below it. A \<open>top_k\<close> that does not restrict the
  row gives a cutoff that keeps every logit.
\<close>

theorem topk_cutoff_exact:
  assumes "cub_reduce reduce" "length logits + 4096 \<le> INT_MAX" "logits \<noteq> []" "\<forall>v \<in> set logits. not_nan v"
  shows "\<exists>c. cutoff reduce logits k = Some c \<and> not_nan c
    \<and> (if 0 < k \<and> k < int (length logits)
        then int (length (filter (\<lambda>v. less_f c v) logits)) < k \<and> k \<le> int (length (filter (\<lambda>v. \<not> less_f v c) logits))
        else filter (\<lambda>v. \<not> less_f v c) logits = logits)"
  by (rule cutoff_exact [OF assms])

theorem topk_cutoff_exact_witness:
  "\<exists>c. cutoff left_reduce [0x3f80, 0x4000, 0xbf80, 0x4000] 2 = Some c
     \<and> int (length (filter (\<lambda>v. less_f c v) [0x3f80, 0x4000, 0xbf80, 0x4000])) < 2
     \<and> 2 \<le> int (length (filter (\<lambda>v. \<not> less_f v c) [0x3f80, 0x4000, 0xbf80, 0x4000]))"
  using topk_cutoff_exact [OF left_reduce_ok, of "[0x3f80, 0x4000, 0xbf80, 0x4000]" 2]
  by (auto simp: INT_MAX_def not_nan_def rank_def simp del: filter.simps)

end
