(* ===== verification/Warp.thy ===== *)
theory Warp
  imports Prelude "HOL-Library.Multiset"
begin

text \<open>
  The vocabulary of the floating-point kernels: patterns of BF16 and FP32 values with the order of
  the values they stand for, the arithmetic of the GPU as the parameter \<open>Float_Ops\<close>, and the warp
  primitives of csrc/ops/utils.h. A warp is a function from its lanes; \<open>butterfly\<close> is the exchange
  pattern of \<open>__shfl_xor_sync\<close>.
\<close>

unbundle bit_operations_syntax

type_synonym bfloat = "16 word"
type_synonym f32 = "32 word"

record Float_Ops =
  to_f :: "bfloat \<Rightarrow> f32"  \<comment> \<open>\<open>__bfloat162float\<close>\<close>
  to_b :: "f32 \<Rightarrow> bfloat"  \<comment> \<open>\<open>__float2bfloat16\<close>\<close>
  f_add :: "f32 \<Rightarrow> f32 \<Rightarrow> f32"
  f_sub :: "f32 \<Rightarrow> f32 \<Rightarrow> f32"
  f_mul :: "f32 \<Rightarrow> f32 \<Rightarrow> f32"
  f_div :: "f32 \<Rightarrow> f32 \<Rightarrow> f32"
  f_neg :: "f32 \<Rightarrow> f32"
  f_fma :: "f32 \<Rightarrow> f32 \<Rightarrow> f32 \<Rightarrow> f32"
  f_exp :: "f32 \<Rightarrow> f32"
  f_rcp :: "f32 \<Rightarrow> f32"
  f_rsqrt :: "f32 \<Rightarrow> f32"
  f_inverse :: "nat \<Rightarrow> f32"  \<comment> \<open>the constant \<open>1.f / n\<close>\<close>
  b_add :: "bfloat \<Rightarrow> bfloat \<Rightarrow> bfloat"  \<comment> \<open>one half of \<open>__hadd2\<close>\<close>
  b_mul :: "bfloat \<Rightarrow> bfloat \<Rightarrow> bfloat"

definition demo_ops :: Float_Ops where
  \<comment> \<open>an arithmetic that keeps the patterns\<close>
  "demo_ops = \<lparr>to_f = (\<lambda>b. push_bit 16 (ucast b)), to_b = (\<lambda>f. ucast (drop_bit 16 f)), f_add = (+), f_sub = (-), f_mul = (*), f_div = (\<lambda>a b. a),
     f_neg = uminus, f_fma = (\<lambda>a b c. a * b + c), f_exp = (\<lambda>a. a), f_rcp = (\<lambda>a. a), f_rsqrt = (\<lambda>a. a), f_inverse = of_nat,
     b_add = (+), b_mul = (*)\<rparr>"

subsection \<open>The order of FP32 values\<close>

definition frank :: "f32 \<Rightarrow> int" where
  \<comment> \<open>sign and magnitude; both zeros have rank 0\<close>
  "frank f = (if uint f < 2 ^ 31 then uint f else 2 ^ 31 - uint f)"

definition number :: "f32 \<Rightarrow> bool" where
  "number f \<longleftrightarrow> \<bar>frank f\<bar> \<le> 0x7f800000"

definition f_neg_inf :: f32 where
  "f_neg_inf = 0xff800000"

definition f_less :: "f32 \<Rightarrow> f32 \<Rightarrow> bool" where
  "f_less a b \<longleftrightarrow> number a \<and> number b \<and> frank a < frank b"

definition f_eq :: "f32 \<Rightarrow> f32 \<Rightarrow> bool" where
  "f_eq a b \<longleftrightarrow> number a \<and> number b \<and> frank a = frank b"

definition f_max :: "f32 \<Rightarrow> f32 \<Rightarrow> f32" where
  \<comment> \<open>\<open>fmaxf\<close>: a NaN loses, two give the canonical one, the positive zero is the larger one\<close>
  "f_max a b = (if \<not> number a \<and> \<not> number b then 0x7fffffff
     else if \<not> number a then b else if \<not> number b then a
     else if frank a < frank b \<or> frank a = frank b \<and> uint b < uint a then b else a)"

lemma f_neg_inf_least: "number f_neg_inf" "number f \<Longrightarrow> frank f_neg_inf \<le> frank f"
  by (simp_all add: number_def f_neg_inf_def frank_def)

lemma f_max_rank: "number a \<Longrightarrow> number b \<Longrightarrow> number (f_max a b) \<and> frank (f_max a b) = max (frank a) (frank b)"
  by (auto simp: f_max_def)

subsection \<open>Warps\<close>

definition exchange :: "('a \<Rightarrow> 'a \<Rightarrow> 'a) \<Rightarrow> nat \<Rightarrow> (nat \<Rightarrow> 'a) \<Rightarrow> nat \<Rightarrow> 'a" where
  "exchange f m v = (\<lambda>l. f (v l) (v (l XOR m)))"

primrec butterfly :: "('a \<Rightarrow> 'a \<Rightarrow> 'a) \<Rightarrow> nat list \<Rightarrow> (nat \<Rightarrow> 'a) \<Rightarrow> nat \<Rightarrow> 'a" where
  "butterfly f [] v = v"
| "butterfly f (m # ms) v = butterfly f ms (exchange f m v)"

fun halvings :: "nat \<Rightarrow> nat list" where
  \<comment> \<open>the values of \<open>i\<close> in \<open>for (i = width >> 1; i > 0; i >>= 1)\<close>\<close>
  "halvings width = (if width div 2 = 0 then [] else width div 2 # halvings (width div 2))"

declare halvings.simps [simp del]

definition warp_butterfly_reduce_sum :: "Float_Ops \<Rightarrow> nat \<Rightarrow> (nat \<Rightarrow> f32) \<Rightarrow> nat \<Rightarrow> f32" where
  "warp_butterfly_reduce_sum F width = butterfly (f_add F) (halvings width)"

definition warp_butterfly_reduce_max :: "(nat \<Rightarrow> f32) \<Rightarrow> nat \<Rightarrow> f32" where
  "warp_butterfly_reduce_max = butterfly f_max [16, 8, 4, 2, 1]"

definition warp_reduce_sum :: "Float_Ops \<Rightarrow> (nat \<Rightarrow> f32) \<Rightarrow> nat \<Rightarrow> f32" where
  \<comment> \<open>\<open>__shfl_down_sync\<close> of a lane behind the warp returns the caller's own value\<close>
  "warp_reduce_sum F = (\<lambda>v. fold (\<lambda>d v l. f_add F (v l) (v (if l + d < 32 then l + d else l))) [16, 8, 4, 2, 1] v)"

fun span :: "nat list \<Rightarrow> nat set" where
  \<comment> \<open>the distances a butterfly covers\<close>
  "span [] = {0}"
| "span (m # ms) = span ms \<union> (\<lambda>s. s XOR m) ` span ms"

lemma f_max_commute: "f_max a b = f_max b a"
  by (auto simp: f_max_def word_uint_eq_iff frank_def split: if_splits)

lemma butterfly_max:
  assumes "\<forall>s \<in> span ms. number (v (l XOR s))"
  shows "number (butterfly f_max ms v l)" "\<forall>s \<in> span ms. frank (v (l XOR s)) \<le> frank (butterfly f_max ms v l)"
    "\<exists>s \<in> span ms. frank (v (l XOR s)) = frank (butterfly f_max ms v l)"
proof -
  have "number (butterfly f_max ms v l) \<and> (\<forall>s \<in> span ms. frank (v (l XOR s)) \<le> frank (butterfly f_max ms v l))
      \<and> (\<exists>s \<in> span ms. frank (v (l XOR s)) = frank (butterfly f_max ms v l))"
    using assms
  proof (induction ms arbitrary: v)
    case (Cons m ms)
    let ?v = "exchange f_max m v"
    have both: "number (?v (l XOR s)) \<and> frank (?v (l XOR s)) = max (frank (v (l XOR s))) (frank (v (l XOR (s XOR m))))"
      if "s \<in> span ms" for s
    proof -
      have "number (v (l XOR s))" "number (v (l XOR (s XOR m)))" using Cons.prems that by auto
      then show ?thesis unfolding exchange_def xor.assoc by (rule f_max_rank)
    qed
    have ih: "number (butterfly f_max ms ?v l)" "\<forall>s \<in> span ms. frank (?v (l XOR s)) \<le> frank (butterfly f_max ms ?v l)"
      "\<exists>s \<in> span ms. frank (?v (l XOR s)) = frank (butterfly f_max ms ?v l)"
      using Cons.IH [of ?v] both by blast+
    have le: "\<forall>s \<in> span ms. frank (v (l XOR s)) \<le> frank (butterfly f_max ms ?v l)
        \<and> frank (v (l XOR (s XOR m))) \<le> frank (butterfly f_max ms ?v l)"
      using ih(2) both by fastforce
    obtain s where s: "s \<in> span ms" "max (frank (v (l XOR s))) (frank (v (l XOR (s XOR m)))) = frank (butterfly f_max ms ?v l)"
      using ih(3) both by auto
    then have "frank (v (l XOR s)) = frank (butterfly f_max ms ?v l)
        \<or> frank (v (l XOR (s XOR m))) = frank (butterfly f_max ms ?v l)" by linarith
    then show ?case using ih(1) le s(1) by auto
  qed simp
  then show "number (butterfly f_max ms v l)" "\<forall>s \<in> span ms. frank (v (l XOR s)) \<le> frank (butterfly f_max ms v l)"
    "\<exists>s \<in> span ms. frank (v (l XOR s)) = frank (butterfly f_max ms v l)" by blast+
qed

lemma span_warp: "span [16, 8, 4, 2, 1] = {..<32}"
proof -
  have "span [16, 8, 4, 2, 1] = set [0..<32]" by code_simp
  then show ?thesis by (simp add: atLeast0LessThan)
qed

lemma xor_below: "a < 2 ^ n \<Longrightarrow> b < 2 ^ n \<Longrightarrow> a XOR b < (2 ^ n :: nat)"
  by (simp flip: take_bit_nat_eq_self_iff add: take_bit_xor)

lemma xor_back: "a XOR (a XOR b) = (b :: nat)"
  by (simp flip: xor.assoc)

lemma warp_max:
  assumes v: "\<forall>k < 32. number (v k)" and l: "l < 32"
  shows "number (warp_butterfly_reduce_max v l)" "k < 32 \<Longrightarrow> frank (v k) \<le> frank (warp_butterfly_reduce_max v l)"
    "\<exists>k < 32. frank (v k) = frank (warp_butterfly_reduce_max v l)"
proof -
  have in_warp: "l XOR s < 32" if "s < 32" for s using xor_below [of l 5 s] l that by simp
  then have "\<forall>s \<in> span [16, 8, 4, 2, 1]. number (v (l XOR s))" using v unfolding span_warp by simp
  note max = butterfly_max [OF this, folded warp_butterfly_reduce_max_def, unfolded span_warp]
  show "number (warp_butterfly_reduce_max v l)" by (rule max(1))
  show "k < 32 \<Longrightarrow> frank (v k) \<le> frank (warp_butterfly_reduce_max v l)"
    using max(2) in_warp xor_back [of l k] by force
  show "\<exists>k < 32. frank (v k) = frank (warp_butterfly_reduce_max v l)" using max(3) in_warp by force
qed

text \<open>With a commutative operation all lanes of a butterfly end with the same value.\<close>

lemma butterfly_shift: "butterfly f ms (\<lambda>l. v (l XOR m)) l = butterfly f ms v (l XOR m)"
proof (induction ms arbitrary: v)
  case (Cons n ms)
  have "exchange f n (\<lambda>l. v (l XOR m)) = (\<lambda>l. exchange f n v (l XOR m))" by (simp add: exchange_def ac_simps)
  then show ?case using Cons.IH [of "exchange f n v"] by simp
qed simp

lemma butterfly_uniform:
  assumes comm: "\<forall>a b. f a b = f b a" and s: "s \<in> span ms"
  shows "butterfly f ms v (l XOR s) = butterfly f ms v l"
  using s
proof (induction ms arbitrary: v s l)
  case (Cons m ms)
  let ?v = "exchange f m v"
  have "(\<lambda>l. ?v (l XOR m)) = ?v" using comm by (simp add: exchange_def xor.assoc)
  then have shift: "butterfly f ms ?v (k XOR m) = butterfly f ms ?v k" for k using butterfly_shift [of f ms ?v m k] by simp
  consider "s \<in> span ms" | t where "t \<in> span ms" "s = t XOR m" using Cons.prems by auto
  then show ?case
  proof cases
    case 1
    then show ?thesis using Cons.IH by simp
  next
    case 2
    then have "butterfly f ms ?v (l XOR s) = butterfly f ms ?v (l XOR t)" using shift [of "l XOR t"] by (simp add: xor.assoc)
    then show ?thesis using Cons.IH [OF 2(1)] by simp
  qed
qed simp

lemma halvings_eval: "halvings 32 = [16, 8, 4, 2, 1]" "halvings 8 = [4, 2, 1]" "halvings 16 = [8, 4, 2, 1]" "halvings 4 = [2, 1]"
  by (simp_all add: halvings.simps)

lemma span_eight: "span [4, 2, 1] = {..<8}"
proof -
  have "span [4, 2, 1] = set [0..<8]" by code_simp
  then show ?thesis by (simp add: atLeast0LessThan)
qed

lemma reduce_max_uniform: "l < 32 \<Longrightarrow> warp_butterfly_reduce_max v l = warp_butterfly_reduce_max v 0"
  using butterfly_uniform [of f_max l "[16, 8, 4, 2, 1]" v 0] f_max_commute
  by (simp add: warp_butterfly_reduce_max_def span_warp del: span.simps butterfly.simps One_nat_def)

lemma reduce_sum_uniform:
  assumes comm: "\<forall>a b. f_add F a b = f_add F b a"
  shows "l < 32 \<Longrightarrow> warp_butterfly_reduce_sum F 32 v l = warp_butterfly_reduce_sum F 32 v 0"
    "l < 8 \<Longrightarrow> warp_butterfly_reduce_sum F 8 v l = warp_butterfly_reduce_sum F 8 v 0"
  using butterfly_uniform [OF comm, of l "[16, 8, 4, 2, 1]" v 0] butterfly_uniform [OF comm, of l "[4, 2, 1]" v 0]
  by (simp_all add: warp_butterfly_reduce_sum_def halvings_eval span_warp span_eight del: span.simps butterfly.simps One_nat_def)

subsection \<open>Strided loops\<close>

function strided :: "nat \<Rightarrow> nat \<Rightarrow> nat \<Rightarrow> nat list" where
  \<comment> \<open>the indices of \<open>for (i = first; i < n; i += step)\<close>; \<open>n\<close> is at most \<open>2 ^ 29\<close> in the kernels, so that \<open>i\<close> never wraps\<close>
  "strided i step n = (if i < n \<and> 0 < step then i # strided (i + step) step n else [])"
  by pat_completeness auto
termination
  by (relation "measure (\<lambda>(i, step, n). n - i)") auto

declare strided.simps [simp del]

lemma strided_set: "0 < step \<Longrightarrow> set (strided i step n) = {j. i \<le> j \<and> j < n \<and> j mod step = i mod step}"
proof (induction i step n rule: strided.induct)
  case (1 i step n)
  show ?case
  proof (cases "i < n")
    case True
    have "{j. i \<le> j \<and> j < n \<and> j mod step = i mod step} = insert i {j. i + step \<le> j \<and> j < n \<and> j mod step = (i + step) mod step}"
    proof (intro equalityI subsetI)
      fix j assume j: "j \<in> {j. i \<le> j \<and> j < n \<and> j mod step = i mod step}"
      have "j = i \<or> i + step \<le> j"
      proof (cases "j = i")
        case False
        then have "step dvd j - i" using j mod_eq_dvd_iff_nat [of i j step] by simp
        then have "step \<le> j - i" using False j by (intro dvd_imp_le) auto
        then show ?thesis using j by auto
      qed simp
      then show "j \<in> insert i {j. i + step \<le> j \<and> j < n \<and> j mod step = (i + step) mod step}" using j by auto
    qed (use True in auto)
    then show ?thesis using 1 True by (subst strided.simps) simp
  qed (auto simp: strided.simps [of i step n])
qed

lemma strided_cover: "0 < step \<Longrightarrow> (\<Union>tid < step. set (strided tid step n)) = {..<n}"
proof (intro equalityI subsetI)
  fix j assume "0 < step" "j \<in> {..<n}"
  then show "j \<in> (\<Union>tid < step. set (strided tid step n))" by (intro UN_I [of "j mod step"]) (auto simp: strided_set)
qed (auto simp: strided_set)

lemma strided_distinct: "distinct (strided i step n)"
proof (induction i step n rule: strided.induct)
  case (1 i step n)
  have "i \<notin> set (strided (i + step) step n)" if "0 < step" using that by (simp add: strided_set)
  then show ?case using 1 by (subst strided.simps) simp
qed

subsection \<open>Blocks of a grid\<close>

type_synonym memory = "nat \<Rightarrow> bfloat"

definition valid_row :: "int option \<Rightarrow> nat \<Rightarrow> bool" where
  \<comment> \<open>the guard of the kernels on \<open>num_tokens_device\<close>, compared as \<open>uint32_t\<close>\<close>
  "valid_row device_tokens row = (case device_tokens of None \<Rightarrow> True | Some n \<Rightarrow> \<not> nat (n mod 2 ^ 32) \<le> row)"

text \<open>
  Blocks run in any order. A block that reads and writes only its own region (and constant
  memory) behaves as if it ran alone.
\<close>

definition local_block :: "(('a \<Rightarrow> 'v) \<Rightarrow> 'a \<Rightarrow> 'v) \<Rightarrow> 'a set \<Rightarrow> bool" where
  "local_block f R \<longleftrightarrow> (\<forall>mem a. a \<notin> R \<longrightarrow> f mem a = mem a) \<and> (\<forall>m m'. (\<forall>a \<in> R. m a = m' a) \<longrightarrow> (\<forall>a \<in> R. f m a = f m' a))"

lemma grid_outside:
  assumes "\<forall>b \<in> set bs. local_block (f b) (R b)" "\<forall>b \<in> set bs. a \<notin> R b"
  shows "fold f bs mem a = mem a"
  using assms by (induction bs arbitrary: mem) (auto simp: local_block_def)

lemma grid_inside:
  assumes "\<forall>b \<in> set bs. local_block (f b) (R b)" "\<forall>b \<in> set bs. \<forall>c \<in> set bs. b \<noteq> c \<longrightarrow> R b \<inter> R c = {}"
    and "distinct bs" "b \<in> set bs" "a \<in> R b"
  shows "fold f bs mem a = f b mem a"
  using assms
proof (induction bs arbitrary: mem)
  case (Cons c bs)
  show ?case
  proof (cases "c = b")
    case True
    have "\<forall>d \<in> set bs. a \<notin> R d" using Cons.prems(2,3,5) True by auto
    then have "fold f bs (f b mem) a = f b mem a" using grid_outside [of bs f R a] Cons.prems(1) by simp
    then show ?thesis using True by simp
  next
    case False
    then have "fold f bs (f c mem) a = f b (f c mem) a" using Cons by auto
    moreover have "\<forall>x \<in> R b. f c mem x = mem x"
    proof
      fix x assume "x \<in> R b"
      then have "x \<notin> R c" using Cons.prems(2,4) False by auto
      then show "f c mem x = mem x" using Cons.prems(1) by (simp add: local_block_def)
    qed
    moreover have "local_block (f b) (R b)" using Cons.prems(1,4) by blast
    ultimately show ?thesis using Cons.prems(5) unfolding local_block_def by simp
  qed
qed simp

lemma grid_idle:
  \<comment> \<open>a block that returns at once leaves even its own region\<close>
  assumes "\<forall>b \<in> set bs. local_block (f b) (R b)" "\<forall>b \<in> set bs. \<not> active b \<longrightarrow> (\<forall>m. f b m = m)" "\<forall>b \<in> set bs. active b \<longrightarrow> a \<notin> R b"
  shows "fold f bs mem a = mem a"
proof (rule grid_outside [where R = "\<lambda>b. if active b then R b else {}"])
  show "\<forall>b \<in> set bs. local_block (f b) (if active b then R b else {})" using assms(1,2) by (simp add: local_block_def)
qed (use assms(3) in simp)

lemma row_start_fits:
  fixes row num_rows W :: nat
  assumes "num_rows * W \<le> 2 ^ 32" "row < num_rows" "0 < W"
  shows "row * W < 2 ^ 32"
proof -
  have "row * W < num_rows * W" using assms(2,3) by simp
  then show ?thesis using assms(1) by (rule less_le_trans)
qed

text \<open>Stores of vectors; the stores of a block go to different addresses.\<close>

definition store_vec :: "nat \<times> 'v list \<Rightarrow> (nat \<Rightarrow> 'v) \<Rightarrow> nat \<Rightarrow> 'v" where
  "store_vec w mem a = (if fst w \<le> a \<and> a < fst w + length (snd w) then snd w ! (a - fst w) else mem a)"

lemma store_vecs_outside:
  "\<forall>w \<in> set ws. \<not> (fst w \<le> a \<and> a < fst w + length (snd w)) \<Longrightarrow> fold store_vec ws mem a = mem a"
  by (induction ws arbitrary: mem) (auto simp: store_vec_def)

lemma store_vecs_inside:
  assumes "w \<in> set ws" "fst w \<le> a" "a < fst w + length (snd w)"
    and "\<forall>u \<in> set ws. fst u \<le> a \<and> a < fst u + length (snd u) \<longrightarrow> snd u ! (a - fst u) = v"
  shows "fold store_vec ws mem a = v"
  using assms
proof (induction ws rule: rev_induct)
  case (snoc u ws)
  show ?case
  proof (cases "fst u \<le> a \<and> a < fst u + length (snd u)")
    case True
    then show ?thesis using snoc.prems(4) by (simp add: store_vec_def)
  next
    case False
    then have "w \<in> set ws" using snoc.prems by auto
    then have "fold store_vec ws mem a = v" using snoc by simp
    moreover have "fold store_vec (ws @ [u]) mem a = fold store_vec ws mem a" using False by (simp only: fold_append fold.simps comp_apply id_apply store_vec_def [of u] if_False)
    ultimately show ?thesis by simp
  qed
qed simp

text \<open>
  Work items that store one vector each, with regions of their own: whatever their order, each
  finds its operands as they were before the launch.
\<close>

lemma fold_fold: "fold (\<lambda>t. fold f (items t)) ts = fold f (concat (map items ts))"
  by (induction ts) (simp_all add: fun_eq_iff)

lemma vectors_outside:
  assumes "\<forall>x \<in> set xs. \<forall>m. length (val x m) = w x" "\<forall>x \<in> set xs. \<not> (ad x \<le> a \<and> a < ad x + w x)"
  shows "fold (\<lambda>x m. store_vec (ad x, val x m) m) xs mem a = mem a"
  using assms by (induction xs arbitrary: mem) (auto simp: store_vec_def)

lemma vectors_inside:
  fixes val :: "'x \<Rightarrow> (nat \<Rightarrow> 'v) \<Rightarrow> 'v list"
  assumes len: "\<forall>x \<in> set xs. \<forall>m. length (val x m) = w x" and writes: "\<forall>x \<in> set xs. {ad x ..< ad x + w x} \<subseteq> R x"
    and reads: "\<forall>x \<in> set xs. \<forall>m m'. (\<forall>a \<in> R x. m a = m' a) \<longrightarrow> val x m = val x m'"
    and apart: "\<forall>x \<in> set xs. \<forall>y \<in> set xs. x \<noteq> y \<longrightarrow> R x \<inter> R y = {}" and "distinct xs"
    and x: "x \<in> set xs" "j < w x"
  shows "fold (\<lambda>x m. store_vec (ad x, val x m) m) xs mem (ad x + j) = val x mem ! j"
proof -
  have loc: "\<forall>x \<in> set xs. local_block (\<lambda>m. store_vec (ad x, val x m) m) (R x)"
    unfolding local_block_def
  proof (intro ballI conjI allI impI)
    fix x a and m :: "nat \<Rightarrow> 'v" assume "x \<in> set xs" "a \<notin> R x"
    then have "a \<notin> {ad x ..< ad x + w x}" using writes by blast
    then show "store_vec (ad x, val x m) m a = m a" using len \<open>x \<in> set xs\<close> by (auto simp: store_vec_def)
  next
    fix x a and m m' :: "nat \<Rightarrow> 'v" assume x: "x \<in> set xs" and a: "\<forall>a \<in> R x. m a = m' a" "a \<in> R x"
    then have "val x m = val x m'" using reads by blast
    then show "store_vec (ad x, val x m) m a = store_vec (ad x, val x m') m' a" using a by (simp add: store_vec_def)
  qed
  have "ad x + j \<in> R x" using x writes by fastforce
  then have "fold (\<lambda>x m. store_vec (ad x, val x m) m) xs mem (ad x + j) = store_vec (ad x, val x mem) mem (ad x + j)"
    by (rule grid_inside [OF loc apart \<open>distinct xs\<close> x(1)])
  then show ?thesis using len x by (simp add: store_vec_def)
qed

end
