(* ===== verification/KV_Update.thy ===== *)
theory KV_Update
  imports Device Warp
begin

text \<open>
  The kernel that stores keys and values, csrc/ops/unified_kv_cache_update.cu, thread by thread:
  launch parameters, strided vector copies and the 32- and 64-bit addressing. The theorem relates
  it to \<open>store_rows\<close>, the effect the launch has in \<open>Device\<close>, for every order in which the
  device performs the copies. Addresses count BF16 elements; a copy moves the eight of a \<open>uint4\<close>.
\<close>

definition u64 :: "nat \<Rightarrow> nat" where
  "u64 n = n mod 2 ^ 64"

definition kNumBf16sPerVector :: nat where "kNumBf16sPerVector = 8"
definition kMaxNumThreads :: nat where "kMaxNumThreads = 256"

datatype cache_side = KCache | VCache

type_synonym kv_copy = "cache_side \<times> nat \<times> nat"  \<comment> \<open>destination and source of eight elements\<close>

definition kv_thread :: "int list \<Rightarrow> nat \<Rightarrow> nat \<Rightarrow> nat \<Rightarrow> nat \<Rightarrow> nat \<Rightarrow> kv_copy list" where
  \<comment> \<open>the copies of thread \<open>tid\<close> of block \<open>t\<close>, in program order\<close>
  "kv_thread mapping q_elems kv_elems block_dim t tid = (let slot = mapping ! t in
     if slot < 0 then []
     else let stride = u32 (q_elems + u32 (2 * kv_elems));
              src = u64 (u64 (t * stride) + q_elems);
              dst = u64 (nat slot * kv_elems)
          in concat (map (\<lambda>i. [(KCache, dst + kNumBf16sPerVector * i, src + kNumBf16sPerVector * i),
                               (VCache, dst + kNumBf16sPerVector * i, src + kv_elems + kNumBf16sPerVector * i)])
               (strided tid block_dim (kv_elems div kNumBf16sPerVector))))"

datatype KvUpdateError = UnsupportedSizes nat nat | KvLaunchFailed

definition unified_kv_cache_update ::
    "bool \<Rightarrow> int \<Rightarrow> int \<Rightarrow> int \<Rightarrow> int \<Rightarrow> int list \<Rightarrow> (KvUpdateError + kv_copy list list) option" where
  \<comment> \<open>what \<open>cudaGetLastError\<close> says, \<open>qkv.shape\<close>, \<open>k_cache.shape[1]\<close> and \<open>[2]\<close>: the copies of every thread\<close>
  "unified_kv_cache_update launched tokens columns heads dim mapping = do {
     size \<leftarrow> c_int (heads * dim);
     let kv_elems = nat (size mod 2 ^ 32);
     let q_elems = nat ((columns - 2 * int kv_elems) mod 2 ^ 32);
     let num_threads = min (max (kv_elems div kNumBf16sPerVector) 1) kMaxNumThreads;
     Some (if kv_elems mod kNumBf16sPerVector \<noteq> 0 \<or> q_elems mod kNumBf16sPerVector \<noteq> 0
       then Inl (UnsupportedSizes q_elems kv_elems)
       else if \<not> launched then Inl KvLaunchFailed
       else Inr (concat (map (\<lambda>t. map (kv_thread mapping q_elems kv_elems num_threads t) [0..<num_threads])
              [0..<nat (tokens mod 2 ^ 32)])))
   }"

fun kv_copy_effect :: "(nat \<Rightarrow> 'e) \<Rightarrow> kv_copy \<Rightarrow> (cache_side \<Rightarrow> nat \<Rightarrow> 'e) \<Rightarrow> cache_side \<Rightarrow> nat \<Rightarrow> 'e" where
  "kv_copy_effect qkv (side, dst, src) mem =
     mem(side := (\<lambda>a. if dst \<le> a \<and> a < dst + kNumBf16sPerVector then qkv (src + (a - dst)) else mem side a))"

definition cache_row :: "nat \<Rightarrow> (nat \<Rightarrow> 'e) \<Rightarrow> int \<Rightarrow> 'e list" where
  \<comment> \<open>the vector of a slot\<close>
  "cache_row kv_elems cache x = map cache [nat x * kv_elems..<nat x * kv_elems + kv_elems]"

definition qkv_part :: "(nat \<Rightarrow> 'e) \<Rightarrow> nat \<Rightarrow> nat \<Rightarrow> cache_side \<Rightarrow> nat \<Rightarrow> 'e list" where
  \<comment> \<open>the key or value of row \<open>t\<close>, behind its \<open>q_elems\<close> query elements\<close>
  "qkv_part qkv q_elems kv_elems side t = (let first = t * (q_elems + 2 * kv_elems) + q_elems + (case side of KCache \<Rightarrow> 0 | VCache \<Rightarrow> kv_elems) in
     map qkv [first..<first + kv_elems])"

subsection \<open>Copies in any order\<close>

lemma copies_miss:
  "(\<And>d s. (side, d, s) \<in> set ws \<Longrightarrow> \<not> (d \<le> a \<and> a < d + kNumBf16sPerVector)) \<Longrightarrow> fold (kv_copy_effect qkv) ws mem side a = mem side a"
proof (induction ws arbitrary: mem)
  case (Cons w ws)
  obtain c d s where w: "w = (c, d, s)" by (cases w) auto
  have "fold (kv_copy_effect qkv) ws (kv_copy_effect qkv w mem) side a = kv_copy_effect qkv w mem side a"
    by (rule Cons.IH) (use Cons.prems in auto)
  moreover have "kv_copy_effect qkv w mem side a = mem side a" using Cons.prems [of d s] by (auto simp: w)
  ultimately show ?case by simp
qed simp

lemma copies_hit:
  assumes "(side, d, s) \<in> set ws" "d \<le> a" "a < d + kNumBf16sPerVector"
    and "\<And>d s. (side, d, s) \<in> set ws \<Longrightarrow> d \<le> a \<Longrightarrow> a < d + kNumBf16sPerVector \<Longrightarrow> qkv (s + (a - d)) = v"
  shows "fold (kv_copy_effect qkv) ws mem side a = v"
  using assms
proof (induction ws rule: rev_induct)
  case (snoc w ws)
  obtain c d' s' where w: "w = (c, d', s')" by (cases w) auto
  show ?case
  proof (cases "c = side \<and> d' \<le> a \<and> a < d' + kNumBf16sPerVector")
    case True
    then show ?thesis using snoc.prems(4) [of d' s'] by (simp add: w)
  next
    case False
    then have "(side, d, s) \<in> set ws" using snoc.prems by (auto simp: w)
    then have "fold (kv_copy_effect qkv) ws mem side a = v" using snoc by simp
    then show ?thesis using False by (auto simp: w)
  qed
qed simp

subsection \<open>The copies of a launch\<close>

definition sizes_ok :: "nat \<Rightarrow> nat \<Rightarrow> bool" where
  "sizes_ok q_elems kv_elems \<longleftrightarrow> 0 < kv_elems \<and> q_elems + 2 * kv_elems < 2 ^ 31
     \<and> kv_elems mod kNumBf16sPerVector = 0 \<and> q_elems mod kNumBf16sPerVector = 0"

definition mapping_ok :: "nat \<Rightarrow> int list \<Rightarrow> bool" where
  \<comment> \<open>no slot twice; padding rows have none\<close>
  "mapping_ok n mapping \<longleftrightarrow> n < 2 ^ 31 \<and> (\<forall>t < n. mapping ! t < 2 ^ 31)
     \<and> (\<forall>t < n. \<forall>u < n. 0 \<le> mapping ! t \<and> mapping ! t = mapping ! u \<longrightarrow> t = u)"

definition part_start :: "nat \<Rightarrow> nat \<Rightarrow> cache_side \<Rightarrow> nat \<Rightarrow> nat" where
  "part_start q_elems kv_elems side t = t * (q_elems + 2 * kv_elems) + q_elems + (case side of KCache \<Rightarrow> 0 | VCache \<Rightarrow> kv_elems)"

lemma no_wrap_64:
  assumes "a < 2 ^ 31" "b < 2 ^ 31" "c < (2 ^ 31 :: nat)"
  shows "u64 (u64 (a * b) + c) = a * b + c" "u64 (a * b) = a * b"
proof -
  have "a * b \<le> 2 ^ 31 * 2 ^ 31" using assms by (intro mult_le_mono) simp_all
  then have "a * b + c < 2 ^ 64" using assms(3) by simp
  then show "u64 (u64 (a * b) + c) = a * b + c" "u64 (a * b) = a * b" by (simp_all add: u64_def)
qed

lemma kv_thread_set:
  assumes ok: "sizes_ok q_elems kv_elems" "mapping_ok n mapping" and t: "t < n" and dim: "0 < dim"
  shows "(\<Union>tid < dim. set (kv_thread mapping q_elems kv_elems dim t tid)) =
     {(side, d, s). 0 \<le> mapping ! t \<and> (\<exists>i < kv_elems div kNumBf16sPerVector. d = nat (mapping ! t) * kv_elems + kNumBf16sPerVector * i
        \<and> s = part_start q_elems kv_elems side t + kNumBf16sPerVector * i)}"
proof (cases "mapping ! t < 0")
  case False
  let ?n = "kv_elems div kNumBf16sPerVector"
  let ?F = "\<lambda>i. {(side, d, s). d = nat (mapping ! t) * kv_elems + kNumBf16sPerVector * i \<and> s = part_start q_elems kv_elems side t + kNumBf16sPerVector * i}"
  have sizes: "kv_elems < 2 ^ 31" "q_elems < 2 ^ 31" "q_elems + 2 * kv_elems < 2 ^ 31" using ok by (simp_all add: sizes_ok_def)
  then have stride: "u32 (q_elems + u32 (2 * kv_elems)) = q_elems + 2 * kv_elems" by (simp add: u32_def)
  have "t < 2 ^ 31" "nat (mapping ! t) < 2 ^ 31" using ok(2) t by (auto simp: mapping_ok_def)
  then have wrap: "u64 (u64 (t * (q_elems + 2 * kv_elems)) + q_elems) = t * (q_elems + 2 * kv_elems) + q_elems"
      "u64 (nat (mapping ! t) * kv_elems) = nat (mapping ! t) * kv_elems"
    using no_wrap_64 sizes by blast+
  have F: "?F i = {(KCache, nat (mapping ! t) * kv_elems + kNumBf16sPerVector * i, part_start q_elems kv_elems KCache t + kNumBf16sPerVector * i),
         (VCache, nat (mapping ! t) * kv_elems + kNumBf16sPerVector * i, part_start q_elems kv_elems VCache t + kNumBf16sPerVector * i)}" for i
  proof (intro equalityI subsetI)
    fix w assume "w \<in> ?F i"
    then obtain side where "w = (side, nat (mapping ! t) * kv_elems + kNumBf16sPerVector * i, part_start q_elems kv_elems side t + kNumBf16sPerVector * i)" by auto
    then show "w \<in> {(KCache, nat (mapping ! t) * kv_elems + kNumBf16sPerVector * i, part_start q_elems kv_elems KCache t + kNumBf16sPerVector * i),
         (VCache, nat (mapping ! t) * kv_elems + kNumBf16sPerVector * i, part_start q_elems kv_elems VCache t + kNumBf16sPerVector * i)}" by (cases side) auto
  qed auto
  have "(\<Union>tid < dim. set (kv_thread mapping q_elems kv_elems dim t tid)) = (\<Union>tid < dim. \<Union>i \<in> set (strided tid dim ?n). ?F i)"
    unfolding F using False by (simp add: kv_thread_def Let_def stride wrap part_start_def add.assoc)
  also have "\<dots> = (\<Union>i \<in> (\<Union>tid < dim. set (strided tid dim ?n)). ?F i)" by (simp only: UN_UN_flatten)
  also have "\<dots> = (\<Union>i < ?n. ?F i)" by (simp only: strided_cover [OF dim])
  finally show ?thesis using False by auto
qed (simp add: kv_thread_def Let_def)

text \<open>What an element of a slot receives.\<close>

lemma copy_inside:
  assumes ok: "sizes_ok q_elems kv_elems" and i: "i < kv_elems div kNumBf16sPerVector" and e: "e < kv_elems"
    and hit: "y * kv_elems + kNumBf16sPerVector * i \<le> x * kv_elems + e" "x * kv_elems + e < y * kv_elems + kNumBf16sPerVector * i + kNumBf16sPerVector"
  shows "y = x" "kNumBf16sPerVector * i \<le> e"
proof -
  have k: "kv_elems = kNumBf16sPerVector * (kv_elems div kNumBf16sPerVector)" using ok by (auto simp: sizes_ok_def)
  have "kNumBf16sPerVector * (i + 1) \<le> kNumBf16sPerVector * (kv_elems div kNumBf16sPerVector)" using i by (intro mult_le_mono2) simp
  then have i': "kNumBf16sPerVector * i + kNumBf16sPerVector \<le> kv_elems" using k by simp
  have "(x * kv_elems + e) div kv_elems = x" using e by (metis add.commute add_0 div_less div_mult_self3 less_nat_zero_code neq0_conv)
  moreover define e' where "e' = x * kv_elems + e - y * kv_elems"
  have e': "x * kv_elems + e = y * kv_elems + e'" "e' < kv_elems" using hit i' by (simp_all add: e'_def)
  have "(y * kv_elems + e') div kv_elems = y" using e'(2) by (metis add.commute add_0 div_less div_mult_self3 less_nat_zero_code neq0_conv)
  ultimately show "y = x" using e'(1) by simp
  then show "kNumBf16sPerVector * i \<le> e" using hit by simp
qed

lemma copies_row:
  assumes ok: "sizes_ok q_elems kv_elems" "mapping_ok n mapping"
    and ws: "set ws = (\<Union>t < n. {(side, d, s). 0 \<le> mapping ! t \<and> (\<exists>i < kv_elems div kNumBf16sPerVector. d = nat (mapping ! t) * kv_elems + kNumBf16sPerVector * i
        \<and> s = part_start q_elems kv_elems side t + kNumBf16sPerVector * i)})"
    and x: "0 \<le> x"
  shows "cache_row kv_elems (fold (kv_copy_effect qkv) ws mem side) x
    = store_rows mapping (qkv_part qkv q_elems kv_elems side) n (cache_row kv_elems (mem side)) x"
proof (cases "\<exists>t < n. mapping ! t = x")
  case True
  then obtain t where t: "t < n" "mapping ! t = x" by blast
  have unique: "u = t" if "u < n" "0 \<le> mapping ! u" "mapping ! u = x" for u using ok(2) t that by (simp add: mapping_ok_def)
  have "fold (kv_copy_effect qkv) ws mem side (nat x * kv_elems + e) = qkv (part_start q_elems kv_elems side t + e)" if e: "e < kv_elems" for e
  proof -
    define i where "i = e div kNumBf16sPerVector"
    have i: "i < kv_elems div kNumBf16sPerVector" using e ok(1) unfolding i_def sizes_ok_def
      by (metis div_le_mono div_less_iff_less_mult dvd_div_mult_self kNumBf16sPerVector_def mod_0_imp_dvd zero_less_numeral)
    have ie: "kNumBf16sPerVector * i \<le> e" "e < kNumBf16sPerVector * i + kNumBf16sPerVector" by (simp_all add: i_def kNumBf16sPerVector_def)
    show ?thesis
    proof (rule copies_hit)
      show "(side, nat x * kv_elems + kNumBf16sPerVector * i, part_start q_elems kv_elems side t + kNumBf16sPerVector * i) \<in> set ws"
        unfolding ws using t x i by auto
    next
      fix d s assume w: "(side, d, s) \<in> set ws" "d \<le> nat x * kv_elems + e" "nat x * kv_elems + e < d + kNumBf16sPerVector"
      then obtain u j where u: "u < n" "0 \<le> mapping ! u" "j < kv_elems div kNumBf16sPerVector"
        "d = nat (mapping ! u) * kv_elems + kNumBf16sPerVector * j" "s = part_start q_elems kv_elems side u + kNumBf16sPerVector * j"
        unfolding ws by auto
      have j: "nat (mapping ! u) = nat x" "kNumBf16sPerVector * j \<le> e"
        using copy_inside [OF ok(1) u(3) e] w(2,3) unfolding u(4) by blast+
      then have "u = t" using unique u(1,2) x by simp
      then show "qkv (s + (nat x * kv_elems + e - d)) = qkv (part_start q_elems kv_elems side t + e)"
        using j by (simp add: u(4,5))
    qed (use ie in simp_all)
  qed
  then have "cache_row kv_elems (fold (kv_copy_effect qkv) ws mem side) x = qkv_part qkv q_elems kv_elems side t"
    by (auto simp: cache_row_def qkv_part_def Let_def part_start_def [symmetric] intro!: nth_equalityI)
  moreover have "store_rows mapping (qkv_part qkv q_elems kv_elems side) n (cache_row kv_elems (mem side)) x = qkv_part qkv q_elems kv_elems side t"
    using store_rows_row [of t n mapping] t x unique by blast
  ultimately show ?thesis by simp
next
  case False
  have "fold (kv_copy_effect qkv) ws mem side (nat x * kv_elems + e) = mem side (nat x * kv_elems + e)" if e: "e < kv_elems" for e
  proof (rule copies_miss)
    fix d s assume "(side, d, s) \<in> set ws"
    then obtain u j where u: "u < n" "0 \<le> mapping ! u" "j < kv_elems div kNumBf16sPerVector"
        "d = nat (mapping ! u) * kv_elems + kNumBf16sPerVector * j" unfolding ws by auto
    have "nat (mapping ! u) \<noteq> nat x" using False u(1,2) x by auto
    then show "\<not> (d \<le> nat x * kv_elems + e \<and> nat x * kv_elems + e < d + kNumBf16sPerVector)"
      using copy_inside(1) [OF ok(1) u(3) e] unfolding u(4) by blast
  qed
  then have "cache_row kv_elems (fold (kv_copy_effect qkv) ws mem side) x = cache_row kv_elems (mem side) x"
    unfolding cache_row_def by (intro nth_equalityI) simp_all
  moreover have "store_rows mapping (qkv_part qkv q_elems kv_elems side) n (cache_row kv_elems (mem side)) x = cache_row kv_elems (mem side) x"
    by (rule store_rows_other) (use False in auto)
  ultimately show ?thesis by simp
qed

text \<open>
  C28: The launch stores keys and values as the effect of a KV cache update says: whatever the
  order of the copies of its threads, every slot of a row gets exactly the key (value) part of this
  row, rows without a slot store nothing and no other slot changes. No 32- or 64-bit offset wraps.
\<close>

theorem kv_update_stores_rows:
  assumes "0 < heads" "0 < dim" "2 * (heads * dim) \<le> columns" "columns < 2 ^ 31" "heads * dim mod 8 = 0" "columns mod 8 = 0"
    and "0 \<le> tokens" "tokens < 2 ^ 31" "mapping_ok (nat tokens) mapping"
  shows "\<exists>threads. unified_kv_cache_update True tokens columns heads dim mapping = Some (Inr threads)
    \<and> (\<forall>ws qkv mem x side. mset ws = mset (concat threads) \<and> 0 \<le> x \<longrightarrow>
        cache_row (nat (heads * dim)) (fold (kv_copy_effect qkv) ws mem side) x
        = store_rows mapping (qkv_part qkv (nat (columns - 2 * (heads * dim))) (nat (heads * dim)) side) (nat tokens)
            (cache_row (nat (heads * dim)) (mem side)) x)"
proof -
  let ?kv = "nat (heads * dim)" and ?q = "nat (columns - 2 * (heads * dim))"
  have pos: "0 < heads * dim" using assms(1,2) by simp
  have size: "c_int (heads * dim) = Some (heads * dim)" using pos assms(3,4) by (simp add: c_int_def)
  have kv32: "nat (heads * dim mod 2 ^ 32) = ?kv" using pos assms(3,4) by (simp add: mod_pos_pos_trivial)
  have q32: "nat ((columns - 2 * int ?kv) mod 2 ^ 32) = ?q" using pos assms(3,4) by (simp add: mod_pos_pos_trivial)
  have t32: "nat (tokens mod 2 ^ 32) = nat tokens" using assms(7,8) by (simp add: mod_pos_pos_trivial)
  have kv8: "?kv mod 8 = 0" using nat_mod_distrib [of "heads * dim" 8] assms(5) pos by simp
  have "(columns - 2 * (heads * dim)) mod 8 = 0" using assms(5,6) by presburger
  then have q8: "?q mod 8 = 0" using nat_mod_distrib [of "columns - 2 * (heads * dim)" 8] assms(3) by simp
  have ok: "sizes_ok ?q ?kv" using pos assms(3,4) kv8 q8 by (simp add: sizes_ok_def kNumBf16sPerVector_def)
  define m where "m = min (max (?kv div kNumBf16sPerVector) 1) kMaxNumThreads"
  have m: "0 < m" by (simp add: m_def kMaxNumThreads_def)
  let ?threads = "concat (map (\<lambda>t. map (kv_thread mapping ?q ?kv m t) [0..<m]) [0..<nat tokens])"
  have launch: "unified_kv_cache_update True tokens columns heads dim mapping = Some (Inr ?threads)"
    unfolding unified_kv_cache_update_def size Option.bind_lunit Let_def kv32 q32 t32
    using kv8 q8 by (simp add: m_def kNumBf16sPerVector_def)
  have copies: "set (concat ?threads) = (\<Union>t < nat tokens. {(side, d, s). 0 \<le> mapping ! t \<and> (\<exists>i < ?kv div kNumBf16sPerVector.
        d = nat (mapping ! t) * ?kv + kNumBf16sPerVector * i \<and> s = part_start ?q ?kv side t + kNumBf16sPerVector * i)})"
    using kv_thread_set [OF ok assms(9) _ m] by (simp add: atLeast0LessThan)
  show ?thesis
  proof (intro exI conjI allI impI, rule launch)
    fix ws qkv mem x side
    assume w: "mset ws = mset (concat ?threads) \<and> (0 :: int) \<le> x"
    have "set ws = set (concat ?threads)" by (rule mset_eq_setD, rule conjunct1 [OF w])
    note all = this [unfolded copies]
    show "cache_row ?kv (fold (kv_copy_effect qkv) ws mem side) x = store_rows mapping (qkv_part qkv ?q ?kv side) (nat tokens) (cache_row ?kv (mem side)) x"
      by (rule copies_row [OF ok assms(9) all conjunct2 [OF w]])
  qed
qed

theorem kv_update_stores_rows_witness:
  "\<exists>threads. unified_kv_cache_update True 3 64 2 8 [5, - 1, 2] = Some (Inr threads)
    \<and> (\<forall>(qkv :: nat \<Rightarrow> 'e) mem side. cache_row 16 (fold (kv_copy_effect qkv) (concat threads) mem side) 2 = qkv_part qkv 32 16 side 2
        \<and> cache_row 16 (fold (kv_copy_effect qkv) (concat threads) mem side) 3 = cache_row 16 (mem side) 3)"
proof -
  have "mapping_ok 3 [5, - 1, 2]" by (auto simp: mapping_ok_def less_Suc_eq numeral_3_eq_3)
  then have "\<exists>threads. unified_kv_cache_update True 3 64 2 8 [5, - 1, 2] = Some (Inr threads)
    \<and> (\<forall>ws (qkv :: nat \<Rightarrow> 'e) mem x side. mset ws = mset (concat threads) \<and> 0 \<le> x \<longrightarrow>
        cache_row 16 (fold (kv_copy_effect qkv) ws mem side) x
        = store_rows [5, - 1, 2] (qkv_part qkv 32 16 side) 3 (cache_row 16 (mem side)) x)"
    using kv_update_stores_rows [of 2 8 64 3 "[5, - 1, 2]"] by simp
  then obtain threads where t: "unified_kv_cache_update True 3 64 2 8 [5, - 1, 2] = Some (Inr threads)"
    "cache_row 16 (fold (kv_copy_effect qkv) (concat threads) mem side) x
        = store_rows [5, - 1, 2] (qkv_part qkv 32 16 side) 3 (cache_row 16 (mem side)) x" if "0 \<le> x" for qkv :: "nat \<Rightarrow> 'e" and mem x side by blast
  show ?thesis using t(1) [of 0] t(2) [of 2] t(2) [of 3] by (auto simp: store_rows_def upt_rec numeral_2_eq_2 [symmetric])
qed

end
