(* ===== verification/Device_Memory.thy ===== *)
theory Device_Memory
  imports Prelude
begin

text \<open>
  The owners of device and pinned host memory, csrc/cuda/cuda_device_buffer.cpp and
  csrc/cuda/pinned_buffer.cpp, over the allocations of the CUDA runtime. What the runtime answers
  to a call is a parameter of the operation, \<open>Answer\<close>: any call may fail, an allocation that
  succeeds returns an address that is not allocated, and a free that fails frees nothing.
  \<open>misused\<close> records that the program has freed an address that is not allocated or has copied
  outside of an allocation, \<open>lost\<close> that a free failed.
\<close>

record Memory =
  live :: "int \<rightharpoonup> nat"  \<comment> \<open>the allocations and their sizes\<close>
  misused :: bool
  lost :: bool

record Answer =
  an_context :: bool  \<comment> \<open>\<open>cudaFree(nullptr)\<close>, which creates the context\<close>
  an_malloc :: "int option"
  an_free :: bool
  an_copy :: bool

record Buffer =
  device_data :: int  \<comment> \<open>0 is \<open>nullptr\<close>\<close>
  byte_size :: "64 word"

datatype BufferError = Thrown | AssertFailed

definition fresh_answer :: "Answer \<Rightarrow> Memory \<Rightarrow> bool" where
  "fresh_answer an m \<longleftrightarrow> (\<forall>p. an_malloc an = Some p \<longrightarrow> p \<noteq> 0 \<and> live m p = None)"

definition empty_buffer :: Buffer where
  "empty_buffer = \<lparr>device_data = 0, byte_size = 0\<rparr>"

definition release :: "Answer \<Rightarrow> int \<Rightarrow> Memory \<Rightarrow> BufferError option \<times> Memory" where
  \<comment> \<open>\<open>cudaFree\<close> and \<open>cudaFreeHost\<close> of an address that is not null\<close>
  "release an p m = (if live m p = None then (Some Thrown, m\<lparr>misused := True\<rparr>)
     else if an_free an then (None, m\<lparr>live := (live m)(p := None)\<rparr>) else (Some Thrown, m\<lparr>lost := True\<rparr>))"

definition copy_memory :: "Answer \<Rightarrow> int \<Rightarrow> nat \<Rightarrow> nat \<Rightarrow> Memory \<Rightarrow> BufferError option \<times> Memory" where
  \<comment> \<open>\<open>n\<close> bytes at an offset of the allocation, in either direction\<close>
  "copy_memory an p offset n m =
     (if (case live m p of None \<Rightarrow> True | Some sz \<Rightarrow> sz < offset + n) then (Some Thrown, m\<lparr>misused := True\<rparr>)
      else (if an_copy an then None else Some Thrown, m))"

subsection \<open>CudaDeviceBuffer\<close>

definition allocate_device_memory :: "Answer \<Rightarrow> 64 word \<Rightarrow> Memory \<Rightarrow> int option \<times> Memory" where
  "allocate_device_memory an n m = (case an_malloc an of None \<Rightarrow> (None, m)
     | Some p \<Rightarrow> (Some p, m\<lparr>live := (live m)(p \<mapsto> unat n)\<rparr>))"

definition buffer_default :: "Answer \<Rightarrow> BufferError + Buffer" where
  "buffer_default an = (if an_context an then Inr empty_buffer else Inl Thrown)"

definition buffer_create :: "Answer \<Rightarrow> 64 word \<Rightarrow> Memory \<Rightarrow> (BufferError + Buffer) \<times> Memory" where
  "buffer_create an n m = (if \<not> an_context an then (Inl Thrown, m) else if n = 0 then (Inl AssertFailed, m)
     else case allocate_device_memory an n m of
       (None, m') \<Rightarrow> (Inl Thrown, m')
     | (Some p, m') \<Rightarrow> (Inr \<lparr>device_data = p, byte_size = n\<rparr>, m'))"

definition destroy :: "Answer \<Rightarrow> Buffer \<Rightarrow> Memory \<Rightarrow> BufferError option \<times> Buffer \<times> Memory" where
  "destroy an b m = (if device_data b \<noteq> 0
     then case release an (device_data b) m of
         (Some e, m') \<Rightarrow> (Some e, b, m')
       | (None, m') \<Rightarrow> (None, empty_buffer, m')
     else (None, b, m))"

definition buffer_destructor :: "Answer \<Rightarrow> Buffer \<Rightarrow> Memory \<Rightarrow> Memory" where
  \<comment> \<open>an exception is caught and reported\<close>
  "buffer_destructor an b m = snd (snd (destroy an b m))"

definition buffer_move :: "Buffer \<Rightarrow> Buffer \<times> Buffer" where
  \<comment> \<open>the new buffer and what is left of the other; the context call may not throw\<close>
  "buffer_move other = (\<lparr>device_data = device_data other, byte_size = byte_size other\<rparr>, empty_buffer)"

definition buffer_move_assign :: "Answer \<Rightarrow> Buffer \<Rightarrow> Buffer \<Rightarrow> Memory \<Rightarrow> Buffer \<times> Buffer \<times> Memory" where
  \<comment> \<open>of another object; an exception of \<open>destroy\<close> is caught and reported\<close>
  "buffer_move_assign an this other m = (case destroy an this m of (_, this', m') \<Rightarrow>
     (this'\<lparr>device_data := device_data other, byte_size := byte_size other\<rparr>, empty_buffer, m'))"

definition buffer_resize :: "Answer \<Rightarrow> Answer \<Rightarrow> Buffer \<Rightarrow> 64 word \<Rightarrow> Memory \<Rightarrow> BufferError option \<times> Buffer \<times> Memory" where
  "buffer_resize an an' b n m = (if n = 0 then (Some AssertFailed, b, m)
     else case destroy an b m of
         (Some e, b', m') \<Rightarrow> (Some e, b', m')
       | (None, b', m') \<Rightarrow> (case allocate_device_memory an' n m' of
             (None, m'') \<Rightarrow> (Some Thrown, b', m'')
           | (Some p, m'') \<Rightarrow> (None, b'\<lparr>device_data := p, byte_size := n\<rparr>, m'')))"

definition upload_at :: "Answer \<Rightarrow> Buffer \<Rightarrow> 64 word \<Rightarrow> bool \<Rightarrow> 64 word \<Rightarrow> Memory \<Rightarrow> BufferError option \<times> Memory" where
  \<comment> \<open>\<open>src\<close> says that the source is not null; the asynchronous form checks the same\<close>
  "upload_at an b dst_offset src n m =
     (if device_data b \<noteq> 0 \<and> src \<and> n \<noteq> 0 \<and> dst_offset + n \<le> byte_size b
      then copy_memory an (device_data b) (unat dst_offset) (unat n) m else (Some AssertFailed, m))"

definition buffer_upload :: "Answer \<Rightarrow> Buffer \<Rightarrow> bool \<Rightarrow> 64 word \<Rightarrow> Memory \<Rightarrow> BufferError option \<times> Memory" where
  "buffer_upload an b src n m =
     (if device_data b \<noteq> 0 \<and> src \<and> n \<noteq> 0 \<and> n \<le> byte_size b
      then copy_memory an (device_data b) 0 (unat n) m else (Some AssertFailed, m))"

definition buffer_download :: "Answer \<Rightarrow> Buffer \<Rightarrow> bool \<Rightarrow> 64 word \<Rightarrow> Memory \<Rightarrow> (BufferError + 64 word) \<times> Memory" where
  "buffer_download an b dst n m =
     (if device_data b \<noteq> 0 \<and> dst \<and> n \<noteq> 0
      then let download_size = min n (byte_size b) in
        (case copy_memory an (device_data b) 0 (unat download_size) m of
           (Some e, m') \<Rightarrow> (Inl e, m') | (None, m') \<Rightarrow> (Inr download_size, m'))
      else (Inl AssertFailed, m))"

subsection \<open>PinnedBuffer\<close>

definition pinned_create :: "Answer \<Rightarrow> 64 word \<Rightarrow> Memory \<Rightarrow> (BufferError + Buffer) \<times> Memory" where
  "pinned_create an n m = (case allocate_device_memory an n m of
       (None, m') \<Rightarrow> (Inl Thrown, m')
     | (Some p, m') \<Rightarrow> (Inr \<lparr>device_data = p, byte_size = n\<rparr>, m'))"

definition pinned_destructor :: "Answer \<Rightarrow> Buffer \<Rightarrow> Memory \<Rightarrow> Memory" where
  "pinned_destructor an b m = (if device_data b \<noteq> 0 then snd (release an (device_data b) m) else m)"

definition pinned_move_assign :: "Answer \<Rightarrow> Buffer \<Rightarrow> Buffer \<Rightarrow> Memory \<Rightarrow> Buffer \<times> Buffer \<times> Memory" where
  "pinned_move_assign an this other m = (this\<lparr>device_data := device_data other, byte_size := byte_size other\<rparr>, empty_buffer,
     if device_data this \<noteq> 0 then snd (release an (device_data this) m) else m)"

definition pinned_resize :: "Answer \<Rightarrow> Answer \<Rightarrow> Buffer \<Rightarrow> 64 word \<Rightarrow> Memory \<Rightarrow> BufferError option \<times> Buffer \<times> Memory" where
  \<comment> \<open>a new buffer is swapped in by three moves and the old memory is released by its destructor\<close>
  "pinned_resize an an' b n m = (case pinned_create an n m of
       (Inl e, m') \<Rightarrow> (Some e, b, m')
     | (Inr tmp, m') \<Rightarrow> (let (saved, left) = buffer_move b;
           (b', tmp', m1) = pinned_move_assign an' left tmp m';
           (tmp'', _, m2) = pinned_move_assign an' tmp' saved m1
         in (None, b', pinned_destructor an' tmp'' m2)))"

subsection \<open>The life of the objects\<close>

record Owners =
  objects :: "nat \<rightharpoonup> Buffer"
  memory :: Memory

inductive device_step :: "Owners \<Rightarrow> Owners \<Rightarrow> bool" where
  construct_default: "objects s i = None \<Longrightarrow> buffer_default an = Inr b \<Longrightarrow> device_step s (s\<lparr>objects := (objects s)(i \<mapsto> b)\<rparr>)"
| construct: "objects s i = None \<Longrightarrow> fresh_answer an (memory s) \<Longrightarrow> buffer_create an n (memory s) = (Inr b, m) \<Longrightarrow>
    device_step s \<lparr>objects = (objects s)(i \<mapsto> b), memory = m\<rparr>"
| construct_throws: "fresh_answer an (memory s) \<Longrightarrow> buffer_create an n (memory s) = (Inl Thrown, m) \<Longrightarrow>
    device_step s (s\<lparr>memory := m\<rparr>)"
| destruct: "objects s i = Some b \<Longrightarrow>
    device_step s \<lparr>objects = (objects s)(i := None), memory = buffer_destructor an b (memory s)\<rparr>"
| destroy: "objects s i = Some b \<Longrightarrow> destroy an b (memory s) = (r, b', m) \<Longrightarrow> device_step s \<lparr>objects = (objects s)(i \<mapsto> b'), memory = m\<rparr>"
| move: "objects s i = None \<Longrightarrow> objects s j = Some other \<Longrightarrow> buffer_move other = (b, left) \<Longrightarrow>
    device_step s (s\<lparr>objects := (objects s)(i \<mapsto> b, j \<mapsto> left)\<rparr>)"
| move_assign: "objects s i = Some b \<Longrightarrow> objects s j = Some other \<Longrightarrow> i \<noteq> j \<Longrightarrow> buffer_move_assign an b other (memory s) = (b', left, m) \<Longrightarrow>
    device_step s \<lparr>objects = (objects s)(i \<mapsto> b', j \<mapsto> left), memory = m\<rparr>"
| resize: "objects s i = Some b \<Longrightarrow> fresh_answer an' (snd (snd (destroy an b (memory s)))) \<Longrightarrow>
    buffer_resize an an' b n (memory s) = (r, b', m) \<Longrightarrow> r \<noteq> Some AssertFailed \<Longrightarrow>
    device_step s \<lparr>objects = (objects s)(i \<mapsto> b'), memory = m\<rparr>"
| upload: "objects s i = Some b \<Longrightarrow> buffer_upload an b src n (memory s) = (r, m) \<Longrightarrow> device_step s (s\<lparr>memory := m\<rparr>)"
| upload_at: "objects s i = Some b \<Longrightarrow> unat off + unat n < 2 ^ 64 \<Longrightarrow> upload_at an b off src n (memory s) = (r, m) \<Longrightarrow>
    device_step s (s\<lparr>memory := m\<rparr>)"
| download: "objects s i = Some b \<Longrightarrow> buffer_download an b dst n (memory s) = (r, m) \<Longrightarrow> device_step s (s\<lparr>memory := m\<rparr>)"

inductive pinned_step :: "Owners \<Rightarrow> Owners \<Rightarrow> bool" where
  construct_default: "objects s i = None \<Longrightarrow> pinned_step s (s\<lparr>objects := (objects s)(i \<mapsto> empty_buffer)\<rparr>)"
| construct: "objects s i = None \<Longrightarrow> fresh_answer an (memory s) \<Longrightarrow> pinned_create an n (memory s) = (Inr b, m) \<Longrightarrow>
    pinned_step s \<lparr>objects = (objects s)(i \<mapsto> b), memory = m\<rparr>"
| destruct: "objects s i = Some b \<Longrightarrow>
    pinned_step s \<lparr>objects = (objects s)(i := None), memory = pinned_destructor an b (memory s)\<rparr>"
| move: "objects s i = None \<Longrightarrow> objects s j = Some other \<Longrightarrow> buffer_move other = (b, left) \<Longrightarrow>
    pinned_step s (s\<lparr>objects := (objects s)(i \<mapsto> b, j \<mapsto> left)\<rparr>)"
| move_assign: "objects s i = Some b \<Longrightarrow> objects s j = Some other \<Longrightarrow> i \<noteq> j \<Longrightarrow> pinned_move_assign an b other (memory s) = (b', left, m) \<Longrightarrow>
    pinned_step s \<lparr>objects = (objects s)(i \<mapsto> b', j \<mapsto> left), memory = m\<rparr>"
| resize: "objects s i = Some b \<Longrightarrow> fresh_answer an (memory s) \<Longrightarrow> pinned_resize an an' b n (memory s) = (r, b', m) \<Longrightarrow>
    pinned_step s \<lparr>objects = (objects s)(i \<mapsto> b'), memory = m\<rparr>"

definition start :: Owners where
  "start = \<lparr>objects = Map.empty, memory = \<lparr>live = Map.empty, misused = False, lost = False\<rparr>\<rparr>"

inductive_cases device_stepE: "device_step s s'"
inductive_cases pinned_stepE: "pinned_step s s'"

subsection \<open>The invariant\<close>

definition backed :: "Memory \<Rightarrow> Buffer \<Rightarrow> bool" where
  "backed m b \<longleftrightarrow> (if device_data b = 0 then byte_size b = 0 else live m (device_data b) = Some (unat (byte_size b)))"

definition owned :: "(nat \<rightharpoonup> Buffer) \<Rightarrow> Memory \<Rightarrow> bool" where
  \<comment> \<open>every object that is not empty is the only owner of an allocation of its size; every allocation
    has an owner unless a free has failed\<close>
  "owned obj m \<longleftrightarrow> \<not> misused m \<and> live m 0 = None
     \<and> (\<forall>i b. obj i = Some b \<longrightarrow> backed m b)
     \<and> (\<forall>i j b c. obj i = Some b \<and> obj j = Some c \<and> device_data b = device_data c \<and> device_data b \<noteq> 0 \<longrightarrow> i = j)
     \<and> (lost m \<or> (\<forall>p. live m p \<noteq> None \<longrightarrow> (\<exists>i b. obj i = Some b \<and> device_data b = p)))"

definition vacant :: "(nat \<rightharpoonup> Buffer) \<Rightarrow> nat \<Rightarrow> bool" where
  "vacant obj i \<longleftrightarrow> (\<forall>b. obj i = Some b \<longrightarrow> device_data b = 0)"

lemma ownedI:
  assumes "\<not> misused m" "live m 0 = None" "\<And>i b. obj i = Some b \<Longrightarrow> backed m b"
    and "\<And>i j b c. obj i = Some b \<Longrightarrow> obj j = Some c \<Longrightarrow> device_data b = device_data c \<Longrightarrow> device_data b \<noteq> 0 \<Longrightarrow> i = j"
    and "\<And>p. \<not> lost m \<Longrightarrow> live m p \<noteq> None \<Longrightarrow> \<exists>i b. obj i = Some b \<and> device_data b = p"
  shows "owned obj m"
  using assms unfolding owned_def by blast

lemma ownedD:
  assumes "owned obj m"
  shows "\<not> misused m" "live m 0 = None" "obj i = Some b \<Longrightarrow> backed m b"
    "obj i = Some b \<Longrightarrow> obj j = Some c \<Longrightarrow> device_data b = device_data c \<Longrightarrow> device_data b \<noteq> 0 \<Longrightarrow> i = j"
  using assms unfolding owned_def by blast+

lemma owned_owner:
  assumes "owned obj m" "\<not> lost m" "live m p \<noteq> None"
  obtains j b where "obj j = Some b" "device_data b = p" "p \<noteq> 0"
  using assms unfolding owned_def by (metis (no_types))

lemma owned_start: "owned (objects start) (memory start)"
  by (simp add: owned_def start_def)

lemma owned_drop:
  assumes o: "owned obj m" and i: "vacant obj i \<or> lost m"
  shows "owned (obj(i := None)) m"
proof (rule ownedI)
  fix p assume "\<not> lost m" "live m p \<noteq> None"
  then obtain j b where "obj j = Some b" "device_data b = p" "p \<noteq> 0" by (rule owned_owner [OF o])
  then show "\<exists>j b. (obj(i := None)) j = Some b \<and> device_data b = p" using i \<open>\<not> lost m\<close> by (intro exI [of _ j] exI [of _ b]) (auto simp: vacant_def)
qed (use ownedD [OF o] in \<open>auto split: if_splits\<close>)

lemma owned_empty:
  assumes o: "owned obj m" and i: "vacant obj i"
  shows "owned (obj(i \<mapsto> empty_buffer)) m"
proof (rule ownedI)
  fix p assume "\<not> lost m" "live m p \<noteq> None"
  then obtain j b where "obj j = Some b" "device_data b = p" "p \<noteq> 0" by (rule owned_owner [OF o])
  then show "\<exists>j b. (obj(i \<mapsto> empty_buffer)) j = Some b \<and> device_data b = p" using i by (intro exI [of _ j] exI [of _ b]) (auto simp: vacant_def)
qed (use ownedD [OF o] in \<open>auto simp: empty_buffer_def backed_def split: if_splits\<close>)

lemma owned_allocate:
  assumes o: "owned obj m" and i: "vacant obj i" and p: "p \<noteq> 0" "live m p = None"
  shows "owned (obj(i \<mapsto> \<lparr>device_data = p, byte_size = n\<rparr>)) (m\<lparr>live := (live m)(p \<mapsto> unat n)\<rparr>)" (is "owned ?obj ?m")
proof (rule ownedI)
  have new: "device_data b \<noteq> p" if "obj j = Some b" for j b
    using ownedD(3) [OF o that] p by (auto simp: backed_def split: if_splits)
  show "backed ?m b" if b: "?obj j = Some b" for j b
  proof (cases "j = i")
    case False
    then have "obj j = Some b" using b by simp
    then show ?thesis using ownedD(3) [OF o] new by (auto simp: backed_def)
  qed (use b p in \<open>auto simp: backed_def\<close>)
  show "j = k" if bc: "?obj j = Some b" "?obj k = Some c" "device_data b = device_data c" "device_data b \<noteq> 0" for j k b c
    using bc new [of j b] new [of k c] ownedD(4) [OF o, of j b k c] by (auto split: if_splits)
  fix q assume q: "\<not> lost ?m" "live ?m q \<noteq> None"
  show "\<exists>j b. ?obj j = Some b \<and> device_data b = q"
  proof (cases "q = p")
    case False
    then obtain j b where "obj j = Some b" "device_data b = q" "q \<noteq> 0" using q owned_owner [OF o, of q] by auto
    then show ?thesis using i by (intro exI [of _ j] exI [of _ b]) (auto simp: vacant_def)
  qed auto
qed (use ownedD [OF o] p in auto)

lemma owned_move:
  assumes o: "owned obj m" and i: "vacant obj i" and j: "obj j = Some b" "i \<noteq> j"
  shows "owned (obj(i \<mapsto> b, j \<mapsto> empty_buffer)) m" (is "owned ?obj m")
proof (rule ownedI)
  show "backed m c" if "?obj k = Some c" for k c
    using that ownedD(3) [OF o] j by (auto simp: empty_buffer_def backed_def split: if_splits)
  show "k = l" if kl: "?obj k = Some c" "?obj l = Some d" "device_data c = device_data d" "device_data c \<noteq> 0" for k l c d
  proof -
    have from_old: "k \<noteq> j \<and> obj (if k = i then j else k) = Some c" if "?obj k = Some c" "device_data c \<noteq> 0" for k c
      using that j by (auto simp: empty_buffer_def split: if_splits)
    have k: "k \<noteq> j" "obj (if k = i then j else k) = Some c" using from_old [OF kl(1,4)] by blast+
    have l: "l \<noteq> j" "obj (if l = i then j else l) = Some d" using from_old [OF kl(2)] kl(3,4) by simp_all
    have "(if k = i then j else k) = (if l = i then j else l)" by (rule ownedD(4) [OF o k(2) l(2) kl(3,4)])
    then show ?thesis using k(1) l(1) by (auto split: if_splits)
  qed
  fix q assume "\<not> lost m" "live m q \<noteq> None"
  then obtain k c where "obj k = Some c" "device_data c = q" "q \<noteq> 0" by (rule owned_owner [OF o])
  then show "\<exists>k c. ?obj k = Some c \<and> device_data c = q"
    using i j by (intro exI [of _ "if k = j then i else k"] exI [of _ c]) (auto simp: vacant_def)
qed (use ownedD [OF o] in auto)

lemma owned_release:
  assumes o: "owned obj m" and i: "obj i = Some b" "device_data b \<noteq> 0" and r: "release an (device_data b) m = (r, m')"
  shows "r = None \<Longrightarrow> owned (obj(i \<mapsto> empty_buffer)) m'" "r \<noteq> None \<Longrightarrow> owned obj m' \<and> lost m'"
proof -
  have l: "live m (device_data b) \<noteq> None" using ownedD(3) [OF o i(1)] i(2) by (simp add: backed_def)
  have keep: "owned obj (m\<lparr>lost := True\<rparr>)" by (rule ownedI) (use ownedD [OF o] in \<open>auto simp: backed_def\<close>)
  show "r \<noteq> None \<Longrightarrow> owned obj m' \<and> lost m'" using l r keep by (auto simp: release_def split: if_splits)
  assume "r = None"
  then have m': "m' = m\<lparr>live := (live m)(device_data b := None)\<rparr>" using l r by (auto simp: release_def split: if_splits)
  show "owned (obj(i \<mapsto> empty_buffer)) m'" (is "owned ?obj m'")
  proof (rule ownedI)
    show "backed m' c" if c: "?obj k = Some c" for k c
    proof (cases "k = i")
      case False
      then have "obj k = Some c" using c by simp
      then show ?thesis using ownedD(3) [OF o, of k c] ownedD(4) [OF o i(1), of k c] i(2) False by (auto simp: backed_def m')
    qed (use c in \<open>auto simp: backed_def empty_buffer_def\<close>)
    show "k = l" if "?obj k = Some c" "?obj l = Some d" "device_data c = device_data d" "device_data c \<noteq> 0" for k l c d
      using that ownedD(4) [OF o, of k c l d] by (auto simp: empty_buffer_def split: if_splits)
    fix q assume q: "\<not> lost m'" "live m' q \<noteq> None"
    then obtain k c where k: "obj k = Some c" "device_data c = q" using owned_owner [OF o, of q] by (auto simp: m' split: if_splits)
    have "k \<noteq> i" using k i q(2) by (auto simp: m')
    then show "\<exists>k c. ?obj k = Some c \<and> device_data c = q" using k by (intro exI [of _ k] exI [of _ c]) simp
  qed (use ownedD [OF o] in \<open>auto simp: m'\<close>)
qed

lemma owned_copy:
  assumes "owned obj m" "obj i = Some b" "device_data b \<noteq> 0" "offset + n \<le> unat (byte_size b)"
  shows "snd (copy_memory an (device_data b) offset n m) = m"
  using ownedD(3) [OF assms(1,2)] assms(3,4) by (auto simp: backed_def copy_memory_def)

lemma destroy_owned:
  assumes o: "owned obj m" and i: "obj i = Some b" and d: "destroy an b m = (r, b', m')"
  shows "owned (obj(i \<mapsto> b')) m'" "r = None \<Longrightarrow> device_data b' = 0 \<and> byte_size b' = 0" "r \<noteq> None \<Longrightarrow> lost m'"
proof -
  have "owned (obj(i \<mapsto> b')) m' \<and> (r = None \<longrightarrow> device_data b' = 0 \<and> byte_size b' = 0) \<and> (r \<noteq> None \<longrightarrow> lost m')"
  proof (cases "device_data b = 0")
    case True
    then show ?thesis using o i d ownedD(3) [OF o i] by (auto simp: destroy_def backed_def fun_upd_idem)
  next
    case False
    obtain e m1 where e: "release an (device_data b) m = (e, m1)" by fastforce
    show ?thesis using owned_release [OF o i False e] d False e i
      by (auto simp: destroy_def empty_buffer_def fun_upd_idem split: option.splits)
  qed
  then show "owned (obj(i \<mapsto> b')) m'" "r = None \<Longrightarrow> device_data b' = 0 \<and> byte_size b' = 0" "r \<noteq> None \<Longrightarrow> lost m'" by auto
qed

lemma buffer_eq: "\<lparr>device_data = device_data b, byte_size = byte_size b\<rparr> = b"
  "b1\<lparr>device_data := device_data b, byte_size := byte_size b\<rparr> = b"
  by simp_all

lemma allocate_owned:
  assumes "owned obj m" "vacant obj i" "fresh_answer an m" "allocate_device_memory an n m = (a, m')"
  shows "a = None \<Longrightarrow> m' = m" "a = Some p \<Longrightarrow> owned (obj(i \<mapsto> \<lparr>device_data = p, byte_size = n\<rparr>)) m'"
  using assms owned_allocate by (auto simp: allocate_device_memory_def fresh_answer_def split: option.splits)

lemma owned_replace:
  \<comment> \<open>moving into an object whose memory has been destroyed or given up\<close>
  assumes "owned (obj(i \<mapsto> b')) m" "device_data b' = 0 \<or> lost m" "obj j = Some other" "i \<noteq> j"
  shows "owned (obj(i \<mapsto> other, j \<mapsto> empty_buffer)) m"
proof -
  have "owned ((obj(i \<mapsto> b'))(i := None)) m" by (rule owned_drop [OF assms(1)]) (use assms(2) in \<open>auto simp: vacant_def\<close>)
  then have none: "owned (obj(i := None)) m" by simp
  have "vacant (obj(i := None)) i" "(obj(i := None)) j = Some other" using assms(3,4) by (simp_all add: vacant_def)
  from owned_move [OF none this assms(4)] show ?thesis by (simp only: fun_upd_upd)
qed

lemma move_assign_owned:
  assumes o: "owned obj m" and ij: "obj i = Some b" "obj j = Some other" "i \<noteq> j" and r: "buffer_move_assign an b other m = (b', left, m')"
  shows "owned (obj(i \<mapsto> b', j \<mapsto> left)) m'"
proof -
  obtain e b1 where d: "destroy an b m = (e, b1, m')" using r by (auto simp: buffer_move_assign_def split: prod.splits)
  then have "b' = other" "left = empty_buffer" using r by (auto simp: buffer_move_assign_def buffer_eq)
  moreover have "device_data b1 = 0 \<or> lost m'" using destroy_owned(2,3) [OF o ij(1) d] by auto
  ultimately show ?thesis using owned_replace [OF destroy_owned(1) [OF o ij(1) d] _ ij(2,3)] by simp
qed

lemma destructor_owned:
  assumes o: "owned obj m" and i: "obj i = Some b"
  shows "owned (obj(i := None)) (buffer_destructor an b m)" "owned (obj(i := None)) (pinned_destructor an b m)"
proof -
  obtain e b1 m1 where d: "destroy an b m = (e, b1, m1)" by (cases "destroy an b m") auto
  have "owned ((obj(i \<mapsto> b1))(i := None)) m1"
    by (rule owned_drop [OF destroy_owned(1) [OF o i d]]) (use destroy_owned(2,3) [OF o i d] in \<open>cases e; auto simp: vacant_def\<close>)
  then have one: "owned (obj(i := None)) m1" by simp
  then show "owned (obj(i := None)) (buffer_destructor an b m)" by (simp add: buffer_destructor_def d)
  have "pinned_destructor an b m = m1"
    using d by (auto simp: pinned_destructor_def destroy_def split: if_splits prod.splits option.splits)
  then show "owned (obj(i := None)) (pinned_destructor an b m)" using one by simp
qed

lemma resize_owned:
  assumes o: "owned obj m" and i: "obj i = Some b" and fresh: "fresh_answer an' (snd (snd (destroy an b m)))"
    and r: "buffer_resize an an' b n m = (r, b', m')"
  shows "owned (obj(i \<mapsto> b')) m'"
proof -
  obtain e b1 m1 where d: "destroy an b m = (e, b1, m1)" by (cases "destroy an b m") auto
  note one = destroy_owned [OF o i d]
  show ?thesis
  proof (cases "n = 0 \<or> e \<noteq> None")
    case True
    then show ?thesis using r o i d one by (auto simp: buffer_resize_def fun_upd_idem split: if_splits)
  next
    case False
    then have b1: "b1 = empty_buffer" using one(2) by (cases b1) (auto simp: empty_buffer_def)
    obtain a m2 where a: "allocate_device_memory an' n m1 = (a, m2)" by fastforce
    have "vacant (obj(i \<mapsto> b1)) i" by (simp add: vacant_def b1 empty_buffer_def)
    from allocate_owned [OF one(1) this _ a] have two: "a = None \<Longrightarrow> m2 = m1" "a = Some p \<Longrightarrow> owned (obj(i \<mapsto> \<lparr>device_data = p, byte_size = n\<rparr>)) m2" for p
      using fresh d by auto
    show ?thesis using r False d a two one(1) b1 by (cases a) (auto simp: buffer_resize_def empty_buffer_def)
  qed
qed

lemma pinned_resize_owned:
  assumes o: "owned obj m" and i: "obj i = Some b" and fresh: "fresh_answer an m" and r: "pinned_resize an an' b n m = (r, b', m')"
  shows "owned (obj(i \<mapsto> b')) m'"
proof (cases "an_malloc an")
  case None
  then show ?thesis using r o i by (auto simp: pinned_resize_def pinned_create_def allocate_device_memory_def fun_upd_idem)
next
  case (Some p)
  then have p: "p \<noteq> 0" "live m p = None" using fresh by (simp_all add: fresh_answer_def)
  let ?new = "\<lparr>device_data = p, byte_size = n\<rparr>" and ?m = "m\<lparr>live := (live m)(p \<mapsto> unat n)\<rparr>"
  have b': "b' = ?new" "m' = pinned_destructor an' b ?m"
    using r Some by (auto simp: pinned_resize_def pinned_create_def allocate_device_memory_def Let_def buffer_move_def
        pinned_move_assign_def empty_buffer_def buffer_eq)
  have first: "owned (obj(i := None)) (pinned_destructor an' b m)" by (rule destructor_owned(2) [OF o i])
  have "device_data b \<noteq> p" using ownedD(3) [OF o i] p by (auto simp: backed_def split: if_splits)
  then have swap: "pinned_destructor an' b ?m = (pinned_destructor an' b m)\<lparr>live := (live (pinned_destructor an' b m))(p \<mapsto> unat n)\<rparr>"
    "live (pinned_destructor an' b m) p = None"
    using p by (auto simp: pinned_destructor_def release_def fun_upd_twist)
  have "vacant (obj(i := None)) i" by (simp add: vacant_def)
  from owned_allocate [OF first this p(1) swap(2)] show ?thesis by (simp add: b' swap)
qed

lemma device_step_owned:
  assumes "device_step s s'" "owned (objects s) (memory s)"
  shows "owned (objects s') (memory s')"
  using assms
proof cases
  case (construct_default i an b)
  then show ?thesis using assms(2) owned_empty by (auto simp: buffer_default_def vacant_def split: if_splits)
next
  case (construct i an n b m)
  then show ?thesis using assms(2) allocate_owned(2) [of "objects s" "memory s" i an n]
    by (auto simp: buffer_create_def vacant_def split: if_splits prod.splits option.splits)
next
  case (construct_throws an n m)
  then show ?thesis using assms(2) allocate_owned(1)
    by (auto simp: buffer_create_def allocate_device_memory_def split: if_splits option.splits)
next
  case (destruct i b an)
  then show ?thesis using assms(2) destructor_owned(1) by simp
next
  case (destroy i b an r b' m)
  then show ?thesis using assms(2) destroy_owned(1) by simp
next
  case (move i j other b left)
  then have "i \<noteq> j" by auto
  then show ?thesis using move assms(2) owned_move [of "objects s" "memory s" i j other] by (auto simp: buffer_move_def vacant_def buffer_eq)
next
  case (move_assign i b j other an b' left m)
  then show ?thesis using assms(2) move_assign_owned by simp
next
  case (resize i b an' an n r b' m)
  then show ?thesis using assms(2) resize_owned by simp
next
  case (upload i b an src n r m)
  then show ?thesis using assms(2) owned_copy [OF assms(2), of i b 0 "unat n" an] by (auto simp: buffer_upload_def word_le_nat_alt split: if_splits)
next
  case (upload_at i b off n an src r m)
  then have "unat (off + n) = unat off + unat n" by (simp add: unat_add_lem [THEN iffD1])
  then show ?thesis using upload_at assms(2) owned_copy [OF assms(2), of i b "unat off" "unat n" an]
    by (auto simp: upload_at_def word_le_nat_alt split: if_splits)
next
  case (download i b an dst n r m)
  have "unat (min n (byte_size b)) \<le> unat (byte_size b)" by (simp add: min_def word_le_nat_alt)
  then show ?thesis using download assms(2) owned_copy [OF assms(2), of i b 0 "unat (min n (byte_size b))" an]
    by (auto simp: buffer_download_def Let_def split: if_splits prod.splits option.splits)
qed

lemma pinned_step_owned:
  assumes "pinned_step s s'" "owned (objects s) (memory s)"
  shows "owned (objects s') (memory s')"
  using assms
proof cases
  case (construct_default i)
  then show ?thesis using assms(2) owned_empty by (simp add: vacant_def)
next
  case (construct i an n b m)
  then show ?thesis using assms(2) allocate_owned(2) [of "objects s" "memory s" i an n]
    by (auto simp: pinned_create_def vacant_def split: prod.splits option.splits)
next
  case (destruct i b an)
  then show ?thesis using assms(2) destructor_owned(2) by simp
next
  case (move i j other b left)
  then have "i \<noteq> j" by auto
  then show ?thesis using move assms(2) owned_move [of "objects s" "memory s" i j other] by (auto simp: buffer_move_def vacant_def buffer_eq)
next
  case (move_assign i b j other an b' left m)
  then have "(b', left, m) = buffer_move_assign an b other (memory s)"
    by (auto simp: pinned_move_assign_def buffer_move_assign_def destroy_def empty_buffer_def split: prod.splits option.splits)
  then show ?thesis using move_assign assms(2) move_assign_owned [of "objects s" "memory s" i b j other an b' left m] by simp
next
  case (resize i b an an' n r b' m)
  then show ?thesis using assms(2) pinned_resize_owned by simp
qed

lemma reachable_owned:
  assumes "device_step\<^sup>*\<^sup>* start s \<or> pinned_step\<^sup>*\<^sup>* start s"
  shows "owned (objects s) (memory s)"
  using assms
proof
  assume "device_step\<^sup>*\<^sup>* start s"
  then show ?thesis by induction (simp_all add: owned_start device_step_owned)
next
  assume "pinned_step\<^sup>*\<^sup>* start s"
  then show ?thesis by induction (simp_all add: owned_start pinned_step_owned)
qed



text \<open>The sum in the guard of \<open>upload_at\<close> wraps: an offset of \<open>2 ^ 64 - 1\<close> passes it.\<close>

lemma upload_at_guard_wraps:
  "misused (snd (upload_at an \<lparr>device_data = 256, byte_size = 16\<rparr> (- 1) True 1
     \<lparr>live = [256 \<mapsto> 16], misused = False, lost = False\<rparr>))"
  by (simp add: upload_at_def copy_memory_def unsigned_minus_1_eq_mask mask_eq_exp_minus_1)

text \<open>A resize that throws: pinned memory is kept, device memory has been given up.\<close>

lemma pinned_resize_throws: "pinned_resize an an' b n m = (Some e, b', m') \<Longrightarrow> b' = b \<and> m' = m"
  by (auto simp: pinned_resize_def pinned_create_def allocate_device_memory_def Let_def split: option.splits prod.splits)

lemma buffer_resize_throws:
  assumes "an_free an" "live m (device_data b) \<noteq> None" "n \<noteq> 0" "an_malloc an' = None"
  shows "buffer_resize an an' b n m = (Some Thrown, if device_data b = 0 then b else empty_buffer, snd (snd (destroy an b m)))"
  using assms by (auto simp: buffer_resize_def destroy_def release_def allocate_device_memory_def)

end
