(* ===== verification/Topk_Gating.thy ===== *)
theory Topk_Gating
  imports Warp Data_Type
begin

text \<open>
  The router of the experts, csrc/ops/topk_gating_softmax.cu. One warp serves a row: each lane holds
  four of the 128 logits, eight rounds of a butterfly maximum and a minimum of indices select the
  experts. A slot of a lane is its value and its expert.
\<close>

definition kNumExperts :: nat where "kNumExperts = 128"
definition kTopK :: nat where "kTopK = 8"
definition kWarpsPerBlock :: nat where "kWarpsPerBlock = 4"
definition kExpertsPerLane :: nat where "kExpertsPerLane = 4"

type_synonym slots = "nat \<Rightarrow> nat \<Rightarrow> f32 \<times> nat"

definition gating_load :: "(nat \<Rightarrow> f32) \<Rightarrow> slots" where
  "gating_load logits lane i = (logits (lane + i * 32), lane + i * 32)"

definition lane_best :: "slots \<Rightarrow> nat \<Rightarrow> f32 \<times> nat" where
  "lane_best st lane = fold (\<lambda>i best. if f_less (fst best) (fst (st lane i))
       \<or> f_eq (fst (st lane i)) (fst best) \<and> snd (st lane i) < snd best then st lane i else best)
     [1..<kExpertsPerLane] (st lane 0)"

definition reduce_min :: "(nat \<Rightarrow> nat) \<Rightarrow> nat" where
  \<comment> \<open>\<open>__reduce_min_sync\<close> over the warp\<close>
  "reduce_min v = Min (set (map v [0..<32]))"

definition gating_round :: "slots \<Rightarrow> ((nat \<Rightarrow> f32) \<times> nat) \<times> slots" where
  \<comment> \<open>the maximum in every lane, the expert selected, and the slots without it\<close>
  "gating_round st = (let max_value = warp_butterfly_reduce_max (\<lambda>lane. fst (lane_best st lane));
       expert = reduce_min (\<lambda>lane. if f_eq (fst (lane_best st lane)) (max_value lane) then snd (lane_best st lane) else kNumExperts)
     in ((max_value, expert), \<lambda>lane i. if snd (st lane i) = expert then (f_neg_inf, kNumExperts) else st lane i))"

primrec gating_select :: "nat \<Rightarrow> slots \<Rightarrow> ((nat \<Rightarrow> f32) \<times> nat) list" where
  "gating_select 0 st = []"
| "gating_select (Suc n) st = (case gating_round st of (r, st') \<Rightarrow> r # gating_select n st')"

definition gating_row :: "Float_Ops \<Rightarrow> bool \<Rightarrow> (nat \<Rightarrow> f32) \<Rightarrow> (f32 \<times> nat) list" where
  \<comment> \<open>the weights and indices of a row\<close>
  "gating_row F renormalize logits = (
     let vals = gating_load logits;
         all_max = warp_butterfly_reduce_max (\<lambda>lane. fold (\<lambda>i m. f_max m (fst (vals lane i))) [0..<kExpertsPerLane] f_neg_inf);
         all_sum = warp_butterfly_reduce_sum F 32 (\<lambda>lane. fold (\<lambda>i d. f_add F d (f_exp F (f_sub F (fst (vals lane i)) (all_max lane))))
           [0..<kExpertsPerLane] 0);
         selected = gating_select kTopK vals;
         selected_logit = (\<lambda>lane. if lane < kTopK then fst (selected ! lane) lane else f_neg_inf);
         max_logit = (\<lambda>lane. if renormalize then selected_logit 0 else all_max lane);
         weight = (\<lambda>lane. if lane < kTopK then f_exp F (f_sub F (selected_logit lane) (max_logit lane)) else 0);
         denominator = (if renormalize then warp_butterfly_reduce_sum F kTopK weight else all_sum)
     in map (\<lambda>lane. (f_mul F (weight lane) (f_rcp F (denominator lane)), snd (selected ! lane))) [0..<kTopK])"

definition gating_rows :: "nat \<Rightarrow> int option \<Rightarrow> nat list" where
  \<comment> \<open>the rows the warps of the grid serve; the \<open>int\<close> on the device is compared as \<open>uint32_t\<close>\<close>
  "gating_rows num_tokens num_tokens_device =
     filter (\<lambda>row. \<not> (num_tokens \<le> row \<or> (case num_tokens_device of None \<Rightarrow> False | Some n \<Rightarrow> nat (n mod 2 ^ 32) \<le> row)))
       (concat (map (\<lambda>block. map (\<lambda>warp. block * kWarpsPerBlock + warp) [0..<kWarpsPerBlock])
          [0..<(num_tokens + kWarpsPerBlock - 1) div kWarpsPerBlock]))"

datatype GatingError = UnsupportedDtype

definition topk_gating_softmax ::
    "Float_Ops \<Rightarrow> DataType \<Rightarrow> (nat \<Rightarrow> nat \<Rightarrow> f32) \<Rightarrow> nat \<Rightarrow> bool \<Rightarrow> int option \<Rightarrow> GatingError + (nat \<times> (f32 \<times> nat) list) list" where
  \<comment> \<open>the rows written; \<open>logits row e\<close> is the logit after \<open>static_cast<float>\<close>\<close>
  "topk_gating_softmax F dtype logits num_tokens renormalize num_tokens_device =
     (if dtype = kBf16 \<or> dtype = kFp32
      then Inr (map (\<lambda>row. (row, gating_row F renormalize (logits row))) (gating_rows num_tokens num_tokens_device))
      else Inl UnsupportedDtype)"

subsection \<open>The best slot\<close>

definition beats :: "f32 \<times> nat \<Rightarrow> f32 \<times> nat \<Rightarrow> bool" where
  "beats a b \<longleftrightarrow> frank (fst b) < frank (fst a) \<or> frank (fst b) = frank (fst a) \<and> snd a \<le> snd b"

lemma best_fold:
  assumes "number (fst b)" "\<forall>i \<in> set js. number (fst (s i))"
  shows "(fold (\<lambda>i best. if f_less (fst best) (fst (s i)) \<or> f_eq (fst (s i)) (fst best) \<and> snd (s i) < snd best then s i else best) js b)
      \<in> insert b (s ` set js)
    \<and> (\<forall>t \<in> insert b (s ` set js). beats (fold (\<lambda>i best. if f_less (fst best) (fst (s i))
         \<or> f_eq (fst (s i)) (fst best) \<and> snd (s i) < snd best then s i else best) js b) t)"
  using assms
proof (induction js arbitrary: b)
  case (Cons j js)
  let ?b = "if f_less (fst b) (fst (s j)) \<or> f_eq (fst (s j)) (fst b) \<and> snd (s j) < snd b then s j else b"
  have "?b = b \<or> ?b = s j" by simp
  then have n: "number (fst ?b)" using Cons.prems by auto
  have better: "beats ?b b" "beats ?b (s j)" using Cons.prems by (auto simp: beats_def f_less_def f_eq_def)
  have trans: "beats x b \<and> beats x (s j)" if "beats x ?b" for x
    using that better unfolding beats_def by linarith
  from Cons.IH [OF n] Cons.prems(2) \<open>?b = b \<or> ?b = s j\<close> trans show ?case by auto
qed (simp add: beats_def)

lemma lane_best_slot:
  assumes "\<forall>i < 4. number (fst (st lane i))"
  shows "\<exists>i < 4. lane_best st lane = st lane i" "\<forall>i < 4. beats (lane_best st lane) (st lane i)"
proof -
  have four: "insert (st lane 0) (st lane ` set [1..<kExpertsPerLane]) = st lane ` {..<4}"
    by (auto simp: kExpertsPerLane_def lessThan_Suc numeral_eq_Suc)
  have "\<forall>i \<in> set [1..<kExpertsPerLane]. number (fst (st lane i))" using assms by (simp add: kExpertsPerLane_def)
  note best = best_fold [OF _ this, of "st lane 0", folded lane_best_def, unfolded four]
  show "\<exists>i < 4. lane_best st lane = st lane i" "\<forall>i < 4. beats (lane_best st lane) (st lane i)" using best assms by auto
qed

subsection \<open>One round\<close>

definition before :: "(nat \<Rightarrow> f32) \<Rightarrow> nat \<Rightarrow> nat \<Rightarrow> bool" where
  \<comment> \<open>the order of selection: larger logits first, among equal ones the lower index\<close>
  "before logits a b \<longleftrightarrow> frank (logits b) < frank (logits a) \<or> frank (logits b) = frank (logits a) \<and> a < b"

definition remaining :: "(nat \<Rightarrow> f32) \<Rightarrow> nat set \<Rightarrow> slots \<Rightarrow> bool" where
  \<comment> \<open>the slots without the experts of \<open>D\<close>\<close>
  "remaining logits D st \<longleftrightarrow> (\<forall>lane < 32. \<forall>i < 4. st lane i =
     (if lane + i * 32 \<in> D then (f_neg_inf, kNumExperts) else (logits (lane + i * 32), lane + i * 32)))"

lemma expert_slot: "e < 128 \<Longrightarrow> e mod 32 < 32 \<and> e div 32 < 4 \<and> e mod 32 + e div 32 * 32 = (e :: nat)"
  by auto

lemma slot_expert: "lane < 32 \<Longrightarrow> i < 4 \<Longrightarrow> lane + i * 32 < (128 :: nat)"
  by auto

lemma gating_round_selects:
  assumes nums: "\<forall>e < 128. number (logits e)" and st: "remaining logits D st" and left: "e0 < 128" "e0 \<notin> D"
  obtains max_value e where "gating_round st = ((max_value, e), snd (gating_round st))" "e < 128" "e \<notin> D"
    "\<forall>e' < 128. e' \<notin> D \<longrightarrow> e' = e \<or> before logits e e'" "\<forall>lane < 32. number (max_value lane) \<and> frank (max_value lane) = frank (logits e)"
    "remaining logits (insert e D) (snd (gating_round st))"
proof -
  have slot: "st lane i = (if lane + i * 32 \<in> D then (f_neg_inf, kNumExperts) else (logits (lane + i * 32), lane + i * 32))"
    if "lane < 32" "i < 4" for lane i using st that by (simp add: remaining_def)
  have num: "number (fst (st lane i))" if "lane < 32" "i < 4" for lane i
    using slot [OF that] nums slot_expert [OF that] f_neg_inf_least(1) by auto
  let ?best = "lane_best st"
  have best: "\<exists>i < 4. ?best lane = st lane i" "\<forall>i < 4. beats (?best lane) (st lane i)" if "lane < 32" for lane
    using lane_best_slot [of st lane] num [OF that] by blast+
  have best_num: "\<forall>lane < 32. number (fst (?best lane))" using best(1) num by metis
  let ?mx = "warp_butterfly_reduce_max (\<lambda>lane. fst (?best lane))"
  define R where "R = frank (?mx 0)"
  have top: "frank (fst (?best k)) \<le> frank (?mx l)" "\<exists>k < 32. frank (fst (?best k)) = frank (?mx l)" "number (?mx l)"
    if "k < 32" "l < 32" for k l
    using warp_max [OF best_num that(2)] that(1) by blast+
  have R: "frank (?mx l) = R" if l: "l < 32" for l
  proof -
    obtain k where "k < 32" "frank (fst (?best k)) = frank (?mx l)" using top(2) [OF l l] by blast
    moreover obtain k' where "k' < 32" "frank (fst (?best k')) = frank (?mx 0)" using top(2) [of 0 0] by auto
    ultimately show ?thesis using top(1) [of k 0] top(1) [of k' l] l by (simp add: R_def)
  qed
  have le: "frank (logits e) \<le> R \<and> frank (fst (?best (e mod 32))) \<le> R
      \<and> (frank (logits e) = R \<longrightarrow> frank (fst (?best (e mod 32))) = R \<and> snd (?best (e mod 32)) \<le> e)" if e: "e < 128" "e \<notin> D" for e
  proof -
    have "beats (?best (e mod 32)) (logits e, e)"
      using best(2) [of "e mod 32"] slot [of "e mod 32" "e div 32"] expert_slot [OF e(1)] e(2) by auto
    moreover have "frank (fst (?best (e mod 32))) \<le> R" using top(1) [of "e mod 32" 0] by (simp add: R_def)
    ultimately show ?thesis by (auto simp: beats_def)
  qed
  obtain e1 where e1: "e1 < 128" "e1 \<notin> D" "frank (logits e1) = R"
  proof -
    obtain k where k: "k < 32" "frank (fst (?best k)) = R" using top(2) [of 0 0] by (auto simp: R_def)
    obtain i where i: "i < 4" "?best k = st k i" using best(1) [OF k(1)] by blast
    show ?thesis
    proof (cases "k + i * 32 \<in> D")
      case True
      then have "R = frank f_neg_inf" using k i slot by simp
      then have "frank (logits e0) = R" using le [OF left] f_neg_inf_least(2) nums left(1) by fastforce
      then show ?thesis using that left by blast
    next
      case False
      then show ?thesis using that [of "k + i * 32"] k i slot slot_expert by simp
    qed
  qed
  let ?cand = "\<lambda>lane. if f_eq (fst (?best lane)) (?mx lane) then snd (?best lane) else kNumExperts"
  have cand: "?cand lane = (if frank (fst (?best lane)) = R then snd (?best lane) else kNumExperts)" if "lane < 32" for lane
    using best_num top(3) [OF that that] R that by (simp add: f_eq_def)
  define e where "e = reduce_min ?cand"
  have min: "e \<le> ?cand lane" if "lane < 32" for lane unfolding e_def reduce_min_def using that by (intro Min_le) auto
  have min_le: "e \<le> e'" if "e' < 128" "e' \<notin> D" "frank (logits e') = R" for e'
    using min [of "e' mod 32"] le [OF that(1,2)] that(3) cand [of "e' mod 32"] by simp
  have "e \<in> set (map ?cand [0..<32])" unfolding e_def reduce_min_def
    by (rule Min_in [OF finite_set]) (simp only: set_empty map_is_Nil_conv upt_eq_Nil_conv, simp)
  then obtain k where k: "k < 32" "?cand k = e" by (auto simp del: upt_rec_numeral)
  have "e < kNumExperts" using min_le [OF e1] e1(1) by (simp add: kNumExperts_def)
  then have kbest: "frank (fst (?best k)) = R" "snd (?best k) = e" using k cand [OF k(1)] by (auto split: if_splits)
  obtain i where i: "i < 4" "?best k = st k i" using best(1) [OF k(1)] by blast
  have e: "k + i * 32 \<notin> D" "e = k + i * 32" "frank (logits e) = R"
    using kbest i slot [OF k(1) i(1)] \<open>e < kNumExperts\<close> by (auto split: if_splits)
  have round: "gating_round st = ((?mx, e), \<lambda>lane i. if snd (st lane i) = e then (f_neg_inf, kNumExperts) else st lane i)"
    by (simp add: gating_round_def e_def Let_def)
  show ?thesis
  proof (rule that [of ?mx e])
    show "gating_round st = ((?mx, e), snd (gating_round st))" by (simp add: round)
    show "e < 128" "e \<notin> D" using e slot_expert [OF k(1) i(1)] by simp_all
    show "\<forall>e' < 128. e' \<notin> D \<longrightarrow> e' = e \<or> before logits e e'"
    proof (intro allI impI)
      fix e' assume e': "e' < 128" "e' \<notin> D"
      show "e' = e \<or> before logits e e'"
        using le [OF e'] min_le [OF e'] e(3) unfolding before_def by linarith
    qed
    show "\<forall>lane < 32. number (?mx lane) \<and> frank (?mx lane) = frank (logits e)" using R e(3) top(3) by simp
    show "remaining logits (insert e D) (snd (gating_round st))"
      unfolding remaining_def
    proof (intro allI impI)
      fix lane i assume l: "lane < (32 :: nat)" "i < (4 :: nat)"
      show "snd (gating_round st) lane i = (if lane + i * 32 \<in> insert e D then (f_neg_inf, kNumExperts) else (logits (lane + i * 32), lane + i * 32))"
        using slot [OF l] \<open>e < kNumExperts\<close> by (auto simp: round)
    qed
  qed
qed

subsection \<open>All rounds\<close>

definition selects :: "(nat \<Rightarrow> f32) \<Rightarrow> nat set \<Rightarrow> nat list \<Rightarrow> bool" where
  \<comment> \<open>every expert selected comes before all that are not selected earlier\<close>
  "selects logits D es \<longleftrightarrow> distinct es \<and> set es \<subseteq> {..<128} - D
     \<and> (\<forall>k < length es. \<forall>e < 128. e \<notin> D \<union> set (take k es) \<longrightarrow> e = es ! k \<or> before logits (es ! k) e)"

lemma gating_select_correct:
  assumes nums: "\<forall>e < 128. number (logits e)" and st: "remaining logits D st" and D: "D \<subseteq> {..<128}" "card D + n \<le> 128"
  shows "length (gating_select n st) = n \<and> selects logits D (map snd (gating_select n st))
    \<and> (\<forall>r \<in> set (gating_select n st). \<forall>lane < 32. number (fst r lane) \<and> frank (fst r lane) = frank (logits (snd r)))"
  using st D
proof (induction n arbitrary: D st)
  case (Suc n)
  have "card D < 128" using Suc.prems(3) by simp
  then have "D \<noteq> {..<128}" by auto
  then obtain e0 where "e0 < 128" "e0 \<notin> D" using Suc.prems(2) by auto
  then obtain max_value e where e: "gating_round st = ((max_value, e), snd (gating_round st))" "e < 128" "e \<notin> D"
    "\<forall>e' < 128. e' \<notin> D \<longrightarrow> e' = e \<or> before logits e e'" "\<forall>lane < 32. number (max_value lane) \<and> frank (max_value lane) = frank (logits e)"
    "remaining logits (insert e D) (snd (gating_round st))"
    by (rule gating_round_selects [OF nums Suc.prems(1)])
  let ?rest = "gating_select n (snd (gating_round st))"
  have "card (insert e D) + n \<le> 128" using Suc.prems(2,3) e(3) finite_subset [OF Suc.prems(2)] by simp
  then have ih: "length ?rest = n" "selects logits (insert e D) (map snd ?rest)"
    "\<forall>r \<in> set ?rest. \<forall>lane < 32. number (fst r lane) \<and> frank (fst r lane) = frank (logits (snd r))"
    using Suc.IH [OF e(6)] Suc.prems(2) e(2) by simp_all
  have step: "gating_select (Suc n) st = (max_value, e) # ?rest" by (subst gating_select.simps, subst e(1)) simp
  have "selects logits D (map snd (gating_select (Suc n) st))"
    unfolding selects_def step list.map snd_conv
  proof (intro conjI allI impI)
    show "distinct (e # map snd ?rest)" "set (e # map snd ?rest) \<subseteq> {..<128} - D"
      using ih(2) e(2,3) by (auto simp: selects_def)
    fix k e' assume k: "k < length (e # map snd ?rest)" and e': "e' < 128" "e' \<notin> D \<union> set (take k (e # map snd ?rest))"
    show "e' = (e # map snd ?rest) ! k \<or> before logits ((e # map snd ?rest) ! k) e'"
    proof (cases k)
      case 0
      then show ?thesis using e(4) e' by simp
    next
      case (Suc j)
      then show ?thesis using ih(2) k e' unfolding selects_def by simp
    qed
  qed
  then show ?case using ih e(5) by (simp add: step del: gating_select.simps)
qed (simp add: selects_def)

subsection \<open>The rows\<close>

lemma block_rows: "concat (map (\<lambda>b. map (\<lambda>w. b * k + w) [0..<k]) [0..<n]) = [0..<n * k]"
proof (induction n)
  case (Suc n)
  have "map (\<lambda>w. n * k + w) [0..<k] = [n * k..<n * k + k]" by (simp add: map_add_upt add.commute)
  then show ?case using Suc upt_add_eq_append [of 0 "n * k" k] by (simp add: add.commute)
qed simp

lemma filter_below: "filter (\<lambda>i. i < m) [0..<n] = [0..<min m n]"
  by (induction n) (auto simp: min_def not_less le_Suc_eq)

lemma gating_rows_eval:
  "gating_rows n valid = [0..<min n (case valid of None \<Rightarrow> n | Some c \<Rightarrow> nat (c mod 2 ^ 32))]"
proof -
  let ?m = "case valid of None \<Rightarrow> n | Some c \<Rightarrow> nat (c mod 2 ^ 32)"
  have "gating_rows n valid = filter (\<lambda>i. i < min n ?m) [0..<(n + 3) div 4 * 4]"
    unfolding gating_rows_def block_rows kWarpsPerBlock_def
    by (intro filter_cong) (auto simp: not_le add.commute split: option.splits)
  moreover have "n \<le> (n + 3) div 4 * 4" by linarith
  then have "min (min n ?m) ((n + 3) div 4 * 4) = min n ?m" by (intro min.absorb1 order.trans [OF min.cobounded1])
  ultimately show ?thesis unfolding filter_below by simp
qed

lemma lane_max:
  assumes "\<forall>i < 4. number (fst (st lane i))"
  defines "m \<equiv> fold (\<lambda>i m. f_max m (fst (st lane i))) [0..<kExpertsPerLane] f_neg_inf"
  shows "number m" "i < 4 \<Longrightarrow> frank (fst (st lane i)) \<le> frank m" "\<exists>i < 4. frank m = frank (fst (st lane i))"
proof -
  have "number (fold (\<lambda>i m. f_max m (fst (st lane i))) [0..<n] f_neg_inf)
      \<and> (\<forall>i < n. frank (fst (st lane i)) \<le> frank (fold (\<lambda>i m. f_max m (fst (st lane i))) [0..<n] f_neg_inf))
      \<and> (\<exists>i \<le> n. 0 < n \<longrightarrow> i < n \<and> frank (fold (\<lambda>i m. f_max m (fst (st lane i))) [0..<n] f_neg_inf) = frank (fst (st lane i)))"
    if "n \<le> 4" for n
    using that
  proof (induction n)
    case (Suc n)
    let ?f = "fold (\<lambda>i m. f_max m (fst (st lane i))) [0..<n] f_neg_inf"
    have n: "number (fst (st lane n))" using assms(1) Suc.prems by simp
    have ih: "number ?f" "\<forall>i < n. frank (fst (st lane i)) \<le> frank ?f"
      "\<exists>i \<le> n. 0 < n \<longrightarrow> i < n \<and> frank ?f = frank (fst (st lane i))" using Suc by auto
    have f: "fold (\<lambda>i m. f_max m (fst (st lane i))) [0..<Suc n] f_neg_inf = f_max ?f (fst (st lane n))" by simp
    note m = f_max_rank [OF ih(1) n]
    have "\<exists>i < Suc n. frank (f_max ?f (fst (st lane n))) = frank (fst (st lane i))"
    proof (cases "frank ?f \<le> frank (fst (st lane n))")
      case True
      then show ?thesis using m by (intro exI [of _ n]) simp
    next
      case False
      then have "0 < n" using f_neg_inf_least(2) [OF n] by (cases n) auto
      then obtain i where "i < n" "frank ?f = frank (fst (st lane i))" using ih(3) by blast
      then show ?thesis using m False by (intro exI [of _ i]) (simp add: max_def)
    qed
    then have "\<exists>i \<le> Suc n. 0 < Suc n \<longrightarrow> i < Suc n \<and> frank (f_max ?f (fst (st lane n))) = frank (fst (st lane i))"
      using less_imp_le by blast
    moreover have "\<forall>i < Suc n. frank (fst (st lane i)) \<le> frank (f_max ?f (fst (st lane n)))"
      using m ih(2) by (auto simp: less_Suc_eq le_max_iff_disj)
    ultimately show ?case unfolding f using m by blast
  qed (simp add: f_neg_inf_least(1))
  from this [of 4] show "number m" "i < 4 \<Longrightarrow> frank (fst (st lane i)) \<le> frank m" "\<exists>i < 4. frank m = frank (fst (st lane i))"
    by (auto simp: m_def kExpertsPerLane_def)
qed

lemma all_max_rank:
  assumes nums: "\<forall>e < 128. number (logits e)" and top: "a < 128" "\<forall>e < 128. e = a \<or> before logits a e"
  shows "frank (warp_butterfly_reduce_max (\<lambda>lane. fold (\<lambda>i m. f_max m (fst (gating_load logits lane i))) [0..<kExpertsPerLane] f_neg_inf) 0)
    = frank (logits a)" (is "frank (warp_butterfly_reduce_max ?v 0) = _")
proof -
  have num: "\<forall>i < 4. number (fst (gating_load logits lane i))" if "lane < 32" for lane
    using nums slot_expert [OF that] by (simp add: gating_load_def)
  have lane: "number (?v k)" "i < 4 \<Longrightarrow> frank (fst (gating_load logits k i)) \<le> frank (?v k)"
      "\<exists>i < 4. frank (?v k) = frank (fst (gating_load logits k i))" if "k < 32" for k i
    using lane_max [of "gating_load logits" k] num [OF that] by blast+
  have v: "\<forall>k < 32. number (?v k)" using lane(1) by blast
  have "frank (logits e) \<le> frank (logits a)" if "e < 128" for e using top(2) that by (auto simp: before_def)
  then have le: "frank (?v k) \<le> frank (logits a)" if "k < 32" for k
    using lane(3) [OF that] slot_expert [OF that] by (auto simp: gating_load_def)
  have "frank (logits a) \<le> frank (?v (a mod 32))"
    using lane(2) [of "a mod 32" "a div 32"] expert_slot [OF top(1)] by (simp add: gating_load_def)
  also have "\<dots> \<le> frank (warp_butterfly_reduce_max ?v 0)" using warp_max(2) [OF v, of 0 "a mod 32"] by simp
  finally show ?thesis using warp_max(3) [OF v, of 0] le by force
qed

definition softmax_weight :: "Float_Ops \<Rightarrow> f32 \<Rightarrow> f32 \<Rightarrow> f32 \<Rightarrow> f32" where
  "softmax_weight F v m d = f_mul F (f_exp F (f_sub F v m)) (f_rcp F d)"

lemma gating_row_correct:
  assumes nums: "\<forall>e < 128. number (logits e)" and comm: "\<forall>a b. f_add F a b = f_add F b a"
  shows "length (gating_row F renormalize logits) = 8 \<and> selects logits {} (map snd (gating_row F renormalize logits))
    \<and> (\<exists>m d. frank m = frank (logits (snd (gating_row F renormalize logits ! 0)))
        \<and> (\<forall>k < 8. \<exists>v. frank v = frank (logits (snd (gating_row F renormalize logits ! k)))
             \<and> fst (gating_row F renormalize logits ! k) = softmax_weight F v m d))"
proof -
  let ?vals = "gating_load logits"
  let ?out = "gating_row F renormalize logits"
  let ?max = "warp_butterfly_reduce_max (\<lambda>lane. fold (\<lambda>i m. f_max m (fst (?vals lane i))) [0..<kExpertsPerLane] f_neg_inf)"
  define sel where "sel = gating_select 8 ?vals"
  have "remaining logits {} ?vals" by (simp add: remaining_def gating_load_def)
  from gating_select_correct [OF nums this, of 8] have sel: "length sel = 8" "selects logits {} (map snd sel)"
    "\<forall>r \<in> set sel. \<forall>lane < 32. number (fst r lane) \<and> frank (fst r lane) = frank (logits (snd r))" by (simp_all add: sel_def)
  define weight where "weight = (\<lambda>lane. if lane < kTopK then f_exp F (f_sub F (if lane < kTopK then fst (sel ! lane) lane else f_neg_inf)
      (if renormalize then (if 0 < kTopK then fst (sel ! 0) 0 else f_neg_inf) else ?max lane)) else 0)"
  define den where "den = (if renormalize then warp_butterfly_reduce_sum F kTopK weight
      else warp_butterfly_reduce_sum F 32 (\<lambda>lane. fold (\<lambda>i d. f_add F d (f_exp F (f_sub F (fst (?vals lane i)) (?max lane)))) [0..<kExpertsPerLane] 0))"
  have out: "?out = map (\<lambda>lane. (f_mul F (weight lane) (f_rcp F (den lane)), snd (sel ! lane))) [0..<kTopK]"
    unfolding gating_row_def Let_def weight_def den_def sel_def kTopK_def by simp
  have at: "?out ! k = (f_mul F (weight k) (f_rcp F (den k)), snd (sel ! k))" if "k < 8" for k
    using that unfolding out kTopK_def by (simp del: upt_rec_numeral)
  have len: "length ?out = 8" by (simp add: out kTopK_def)
  have snds: "map snd ?out = map snd sel" by (rule nth_equalityI) (simp_all add: len sel(1) at)
  have den: "den k = den 0" if "k < 8" for k
    using that reduce_sum_uniform(1) [OF comm, of k] reduce_sum_uniform(2) [OF comm, of k] by (simp add: den_def kTopK_def)
  define m where "m = (if renormalize then fst (sel ! 0) 0 else ?max 0)"
  have weight: "weight k = f_exp F (f_sub F (fst (sel ! k) k) m)" if "k < 8" for k
    using that reduce_max_uniform [of k] by (simp add: weight_def m_def kTopK_def)
  have frank_sel: "frank (fst (sel ! k) k) = frank (logits (snd (sel ! k)))" if "k < 8" for k using sel(1,3) that by simp
  have "sel ! 0 \<in> set sel" using sel(1) by simp
  then have "snd (sel ! 0) \<in> {..<128}" using sel(2) by (force simp: selects_def)
  moreover have "\<forall>e < 128. e = snd (sel ! 0) \<or> before logits (snd (sel ! 0)) e"
    using sel(1,2) by (auto simp: selects_def)
  ultimately have "snd (sel ! 0) < 128" "\<forall>e < 128. e = snd (sel ! 0) \<or> before logits (snd (sel ! 0)) e" by simp_all
  then have "frank (?max 0) = frank (logits (snd (sel ! 0)))" by (rule all_max_rank [OF nums])
  then have "frank m = frank (logits (snd (sel ! 0)))" using frank_sel [of 0] by (simp add: m_def)
  then have m: "frank m = frank (logits (snd (?out ! 0)))" using at [of 0] by simp
  have weights: "\<forall>k < 8. frank (fst (sel ! k) k) = frank (logits (snd (?out ! k))) \<and> fst (?out ! k) = softmax_weight F (fst (sel ! k) k) m (den 0)"
  proof (intro allI impI)
    fix k :: nat
    assume k: "k < 8"
    show "frank (fst (sel ! k) k) = frank (logits (snd (?out ! k))) \<and> fst (?out ! k) = softmax_weight F (fst (sel ! k) k) m (den 0)"
      unfolding at [OF k] fst_conv snd_conv weight [OF k] den [OF k] softmax_weight_def using frank_sel [OF k] by simp
  qed
  then have "\<forall>k < 8. \<exists>v. frank v = frank (logits (snd (?out ! k))) \<and> fst (?out ! k) = softmax_weight F v m (den 0)" by blast
  with m have "\<exists>m d. frank m = frank (logits (snd (?out ! 0)))
        \<and> (\<forall>k < 8. \<exists>v. frank v = frank (logits (snd (?out ! k))) \<and> fst (?out ! k) = softmax_weight F v m d)" by blast
  moreover have "selects logits {} (map snd ?out)" unfolding snds by (rule sel(2))
  ultimately show ?thesis using len by blast
qed



end
