(* ===== verification/Rope.thy ===== *)
theory Rope
  imports Warp
begin

text \<open>
  The rotary embedding, csrc/ops/rope.cu, with its exchange of half heads between the lanes of a
  warp. A thread holds eight elements of a head; two exchanges give it four pairs to rotate and its
  own eight results back. The arithmetic is \<open>Float_Ops\<close>, in the order the source writes it.
\<close>

definition swap_words :: "'a list \<Rightarrow> 'a list" where
  \<comment> \<open>the words \<open>y\<close> and \<open>z\<close> of eight elements change places\<close>
  "swap_words v = [v ! 0, v ! 1, v ! 4, v ! 5, v ! 2, v ! 3, v ! 6, v ! 7]"

definition swap_halves :: "'a list \<Rightarrow> 'a list" where
  "swap_halves v = drop 4 v @ take 4 v"

definition pack_halves :: "nat \<Rightarrow> 'a list \<Rightarrow> 'a list" where
  \<comment> \<open>\<open>make_uint4\<close>: the own words first, those to exchange behind them\<close>
  "pack_halves grp v = (if grp = 0 then [v ! 0, v ! 1, v ! 4, v ! 5, v ! 2, v ! 3, v ! 6, v ! 7]
     else [v ! 2, v ! 3, v ! 6, v ! 7, v ! 0, v ! 1, v ! 4, v ! 5])"

definition shuffle_upper :: "nat \<Rightarrow> (nat \<Rightarrow> 'a list) \<Rightarrow> nat \<Rightarrow> 'a list" where
  \<comment> \<open>\<open>__shfl_xor_sync\<close> of the upper 64 bits\<close>
  "shuffle_upper m v = (\<lambda>tid. take 4 (v tid) @ drop 4 (v (tid XOR m)))"

definition rotate_pairs :: "Float_Ops \<Rightarrow> nat \<Rightarrow> f32 list \<Rightarrow> bfloat list \<Rightarrow> bfloat list" where
  \<comment> \<open>the eight results of a lane: its own four, then the four of its peer\<close>
  "rotate_pairs F grp cs v = (
     let self_val = (\<lambda>i. to_f F (v ! i)); peer_val = (\<lambda>i. to_f F (v ! (i + 4)));
         c = (\<lambda>i. cs ! (2 * i)); s = (\<lambda>i. if grp = 0 then cs ! (2 * i + 1) else f_neg F (cs ! (2 * i + 1)))
     in map (\<lambda>i. to_b F (f_sub F (f_mul F (self_val i) (c i)) (f_mul F (peer_val i) (s i)))) [0..<4]
      @ map (\<lambda>i. to_b F (f_add F (f_mul F (peer_val i) (c i)) (f_mul F (self_val i) (s i)))) [0..<4])"

definition lane_cos_sin :: "(nat \<Rightarrow> f32) \<Rightarrow> nat \<Rightarrow> nat \<Rightarrow> nat \<Rightarrow> f32 list" where
  \<comment> \<open>the two \<open>float4\<close> of a lane\<close>
  "lane_cos_sin cos_sin base group_lane grp =
     map (\<lambda>j. cos_sin (base + 4 * (4 * group_lane + grp) + j)) [0..<4]
   @ map (\<lambda>j. cos_sin (base + 4 * (4 * group_lane + 2 + grp) + j)) [0..<4]"

definition rotate_lanes :: "Float_Ops \<Rightarrow> nat \<Rightarrow> (nat \<Rightarrow> f32 list) \<Rightarrow> (nat \<Rightarrow> bfloat list) \<Rightarrow> nat \<Rightarrow> bfloat list" where
  \<comment> \<open>the vectors a block of threads stores, from those it has loaded; \<open>half_lanes\<close> serve one half of a head\<close>
  "rotate_lanes F half_lanes cs heads = (
     let grp = (\<lambda>tid. tid mod (2 * half_lanes) div half_lanes);
         packed = shuffle_upper half_lanes (\<lambda>tid. pack_halves (grp tid) (heads tid));
         rotated = shuffle_upper half_lanes (\<lambda>tid. rotate_pairs F (grp tid) (cs tid) (packed tid))
     in (\<lambda>tid. swap_words (if grp tid = 1 then swap_halves (rotated tid) else rotated tid)))"

definition rope_block :: "Float_Ops \<Rightarrow> nat \<Rightarrow> nat \<Rightarrow> (nat \<Rightarrow> f32) \<Rightarrow> (nat \<Rightarrow> nat) \<Rightarrow> nat \<Rightarrow> int option \<Rightarrow> nat \<times> nat \<Rightarrow> memory \<Rightarrow> memory" where
  \<comment> \<open>\<open>bf16_rope_packedqkv<head_dim, num_heads>\<close> for one block; \<open>positions\<close> as \<open>uint32_t\<close>\<close>
  "rope_block F head_dim num_heads cos_sin positions stride device_tokens block qkv = (
     let (row, y) = block; per_head = head_dim div 8; per_block = 128 div per_head; half_lanes = per_head div 2;
         head_idx = (\<lambda>tid. y * per_block + tid div per_head);
         address = (\<lambda>tid. u32 (row * stride) + head_idx tid * head_dim + 8 * (tid mod per_head));
         heads = (\<lambda>tid. map (\<lambda>j. qkv (address tid + j)) [0..<8]);
         cs = (\<lambda>tid. lane_cos_sin cos_sin (u32 (positions row * head_dim)) (tid mod per_head mod half_lanes) (tid mod per_head div half_lanes))
     in if valid_row device_tokens row
        then fold store_vec (map (\<lambda>tid. (address tid, rotate_lanes F half_lanes cs heads tid)) (filter (\<lambda>tid. head_idx tid < num_heads) [0..<128])) qkv
        else qkv)"

datatype RopeError = UnsupportedRope int int int

definition rope :: "Float_Ops \<Rightarrow> nat \<Rightarrow> nat \<Rightarrow> (nat \<Rightarrow> f32) \<Rightarrow> (nat \<Rightarrow> nat) \<Rightarrow> int \<Rightarrow> int \<Rightarrow> int \<Rightarrow> int option
    \<Rightarrow> RopeError + ((nat \<times> nat) list \<times> (nat \<times> nat \<Rightarrow> memory \<Rightarrow> memory))" where
  \<comment> \<open>the blocks of the grid and what each does\<close>
  "rope F num_tokens stride cos_sin positions q_size k_size head_dim device_tokens =
     (let grid = (\<lambda>blocks. List.product [0..<num_tokens] [0..<blocks]) in
      if q_size = 2048 \<and> k_size = 1024 \<and> head_dim = 128 then Inr (grid 3, rope_block F 128 24 cos_sin positions stride device_tokens)
      else if q_size = 2048 \<and> k_size = 512 \<and> head_dim = 64 then Inr (grid 3, rope_block F 64 40 cos_sin positions stride device_tokens)
      else Inl (UnsupportedRope q_size k_size head_dim))"

subsection \<open>The lanes of a head\<close>

definition rope_first :: "Float_Ops \<Rightarrow> f32 \<Rightarrow> f32 \<Rightarrow> bfloat \<Rightarrow> bfloat \<Rightarrow> bfloat" where
  "rope_first F c s x1 x2 = to_b F (f_sub F (f_mul F (to_f F x1) c) (f_mul F (to_f F x2) s))"

definition rope_second :: "Float_Ops \<Rightarrow> f32 \<Rightarrow> f32 \<Rightarrow> bfloat \<Rightarrow> bfloat \<Rightarrow> bfloat" where
  "rope_second F c s x1 x2 = to_b F (f_add F (f_mul F (to_f F x2) c) (f_mul F (to_f F x1) s))"

definition sign_laws :: "Float_Ops \<Rightarrow> bool" where
  \<comment> \<open>the sign of a product is the product of the signs, and subtraction adds the opposite\<close>
  "sign_laws F \<longleftrightarrow> (\<forall>a b c. f_sub F a (f_mul F b (f_neg F c)) = f_add F a (f_mul F b c)
     \<and> f_add F a (f_mul F b (f_neg F c)) = f_sub F a (f_mul F b c))"

lemma below_eight: "j < 8 \<Longrightarrow> j = 0 \<or> j = 1 \<or> j = 2 \<or> j = 3 \<or> j = 4 \<or> j = 5 \<or> j = 6 \<or> j = (7 :: nat)"
  by linarith

lemma upt_four: "[0..<4] = [0, 1, 2, 3 :: nat]"
  by code_simp

lemma lane_cos_sin_nth:
  "lane_cos_sin C base gl grp = [C (base + 16 * gl + 4 * grp), C (base + 16 * gl + 4 * grp + 1), C (base + 16 * gl + 4 * grp + 2), C (base + 16 * gl + 4 * grp + 3),
     C (base + 16 * gl + 8 + 4 * grp), C (base + 16 * gl + 8 + 4 * grp + 1), C (base + 16 * gl + 8 + 4 * grp + 2), C (base + 16 * gl + 8 + 4 * grp + 3)]"
  by (simp add: lane_cos_sin_def upt_four algebra_simps)

lemma rotate_pairs_nth:
  "rotate_pairs F 0 cs v = [rope_first F (cs ! 0) (cs ! 1) (v ! 0) (v ! 4), rope_first F (cs ! 2) (cs ! 3) (v ! 1) (v ! 5),
     rope_first F (cs ! 4) (cs ! 5) (v ! 2) (v ! 6), rope_first F (cs ! 6) (cs ! 7) (v ! 3) (v ! 7),
     rope_second F (cs ! 0) (cs ! 1) (v ! 0) (v ! 4), rope_second F (cs ! 2) (cs ! 3) (v ! 1) (v ! 5),
     rope_second F (cs ! 4) (cs ! 5) (v ! 2) (v ! 6), rope_second F (cs ! 6) (cs ! 7) (v ! 3) (v ! 7)]"
  "sign_laws F \<Longrightarrow> rotate_pairs F 1 cs v = [rope_second F (cs ! 0) (cs ! 1) (v ! 4) (v ! 0), rope_second F (cs ! 2) (cs ! 3) (v ! 5) (v ! 1),
     rope_second F (cs ! 4) (cs ! 5) (v ! 6) (v ! 2), rope_second F (cs ! 6) (cs ! 7) (v ! 7) (v ! 3),
     rope_first F (cs ! 0) (cs ! 1) (v ! 4) (v ! 0), rope_first F (cs ! 2) (cs ! 3) (v ! 5) (v ! 1),
     rope_first F (cs ! 4) (cs ! 5) (v ! 6) (v ! 2), rope_first F (cs ! 6) (cs ! 7) (v ! 7) (v ! 3)]"
  by (simp_all add: rotate_pairs_def rope_first_def rope_second_def sign_laws_def upt_four Let_def)

lemma rotate_lanes_head:
  assumes laws: "sign_laws F" and x: "tid XOR h = tid + h" "(tid + h) XOR h = tid"
    and grp: "tid mod (2 * h) div h = 0" "(tid + h) mod (2 * h) div h = 1"
    and cs: "cs tid = lane_cos_sin C base gl 0" "cs (tid + h) = lane_cos_sin C base gl 1" and j: "j < 8"
  shows "rotate_lanes F h cs heads tid ! j = rope_first F (C (base + 16 * gl + 2 * j)) (C (base + 16 * gl + 2 * j + 1)) (heads tid ! j) (heads (tid + h) ! j)"
    "rotate_lanes F h cs heads (tid + h) ! j = rope_second F (C (base + 16 * gl + 2 * j)) (C (base + 16 * gl + 2 * j + 1)) (heads tid ! j) (heads (tid + h) ! j)"
proof -
  let ?a = "heads tid" and ?b = "heads (tid + h)"
  let ?P = "shuffle_upper h (\<lambda>tid. pack_halves (tid mod (2 * h) div h) (heads tid))"
  have p: "?P tid = [?a ! 0, ?a ! 1, ?a ! 4, ?a ! 5, ?b ! 0, ?b ! 1, ?b ! 4, ?b ! 5]"
    "?P (tid + h) = [?b ! 2, ?b ! 3, ?b ! 6, ?b ! 7, ?a ! 2, ?a ! 3, ?a ! 6, ?a ! 7]"
    by (simp_all add: shuffle_upper_def pack_halves_def x grp)
  let ?R = "\<lambda>tid. rotate_pairs F (tid mod (2 * h) div h) (cs tid) (?P tid)"
  have r: "?R tid = [rope_first F (C (base + 16 * gl)) (C (base + 16 * gl + 1)) (?a ! 0) (?b ! 0), rope_first F (C (base + 16 * gl + 2)) (C (base + 16 * gl + 3)) (?a ! 1) (?b ! 1),
      rope_first F (C (base + 16 * gl + 8)) (C (base + 16 * gl + 9)) (?a ! 4) (?b ! 4), rope_first F (C (base + 16 * gl + 10)) (C (base + 16 * gl + 11)) (?a ! 5) (?b ! 5),
      rope_second F (C (base + 16 * gl)) (C (base + 16 * gl + 1)) (?a ! 0) (?b ! 0), rope_second F (C (base + 16 * gl + 2)) (C (base + 16 * gl + 3)) (?a ! 1) (?b ! 1),
      rope_second F (C (base + 16 * gl + 8)) (C (base + 16 * gl + 9)) (?a ! 4) (?b ! 4), rope_second F (C (base + 16 * gl + 10)) (C (base + 16 * gl + 11)) (?a ! 5) (?b ! 5)]"
    unfolding grp p cs lane_cos_sin_nth rotate_pairs_nth by (simp add: ac_simps)
  have r': "?R (tid + h) = [rope_second F (C (base + 16 * gl + 4)) (C (base + 16 * gl + 5)) (?a ! 2) (?b ! 2), rope_second F (C (base + 16 * gl + 6)) (C (base + 16 * gl + 7)) (?a ! 3) (?b ! 3),
      rope_second F (C (base + 16 * gl + 12)) (C (base + 16 * gl + 13)) (?a ! 6) (?b ! 6), rope_second F (C (base + 16 * gl + 14)) (C (base + 16 * gl + 15)) (?a ! 7) (?b ! 7),
      rope_first F (C (base + 16 * gl + 4)) (C (base + 16 * gl + 5)) (?a ! 2) (?b ! 2), rope_first F (C (base + 16 * gl + 6)) (C (base + 16 * gl + 7)) (?a ! 3) (?b ! 3),
      rope_first F (C (base + 16 * gl + 12)) (C (base + 16 * gl + 13)) (?a ! 6) (?b ! 6), rope_first F (C (base + 16 * gl + 14)) (C (base + 16 * gl + 15)) (?a ! 7) (?b ! 7)]"
    unfolding grp p cs lane_cos_sin_nth rotate_pairs_nth(2) [OF laws] by (simp add: ac_simps)
  have s: "shuffle_upper h ?R tid = take 4 (?R tid) @ drop 4 (?R (tid + h))" "shuffle_upper h ?R (tid + h) = take 4 (?R (tid + h)) @ drop 4 (?R tid)"
    by (simp_all only: shuffle_upper_def x)
  have out: "rotate_lanes F h cs heads tid = swap_words (shuffle_upper h ?R tid)"
    "rotate_lanes F h cs heads (tid + h) = swap_words (swap_halves (shuffle_upper h ?R (tid + h)))"
    by (simp_all only: rotate_lanes_def Let_def grp) simp_all
  show "rotate_lanes F h cs heads tid ! j = rope_first F (C (base + 16 * gl + 2 * j)) (C (base + 16 * gl + 2 * j + 1)) (?a ! j) (?b ! j)"
    unfolding out s r r' using below_eight [OF j] by (elim disjE) (simp_all add: swap_words_def add.assoc del: One_nat_def add_Suc_right add_2_eq_Suc add_2_eq_Suc')
  show "rotate_lanes F h cs heads (tid + h) ! j = rope_second F (C (base + 16 * gl + 2 * j)) (C (base + 16 * gl + 2 * j + 1)) (?a ! j) (?b ! j)"
    unfolding out s r r' using below_eight [OF j] by (elim disjE) (simp_all add: swap_words_def swap_halves_def add.assoc del: One_nat_def add_Suc_right add_2_eq_Suc add_2_eq_Suc')
qed

subsection \<open>One block\<close>

definition rope_sizes :: "nat \<Rightarrow> nat \<Rightarrow> bool" where
  \<comment> \<open>the instances of the kernel\<close>
  "rope_sizes head_dim num_heads \<longleftrightarrow> (head_dim, num_heads) \<in> {(128, 24), (64, 40)}"

lemma half_exchange:
  fixes tid h :: nat
  assumes "h \<in> {4, 8}" "tid < 128" "tid mod (2 * h) < h"
  shows "tid XOR h = tid + h" "(tid + h) XOR h = tid"
proof -
  have "\<forall>tid \<in> set [0..<128]. (tid mod 8 < 4 \<longrightarrow> tid XOR 4 = tid + 4) \<and> (tid mod 16 < 8 \<longrightarrow> tid XOR 8 = tid + 8)" by code_simp
  then show x: "tid XOR h = tid + h" using assms by auto
  show "(tid + h) XOR h = tid" unfolding x [symmetric] by (simp add: xor.assoc)
qed

lemma rope_block_invalid: "\<not> valid_row device_tokens row \<Longrightarrow> rope_block F D H C positions stride device_tokens (row, y) mem = mem"
  by (simp add: rope_block_def Let_def)

lemma rope_block_stores:
  fixes D H T h stride :: nat
  assumes sizes: "rope_sizes D H" and fits: "row * stride < 2 ^ 32" "positions row * D < 2 ^ 32" and valid: "valid_row device_tokens row"
  defines "T \<equiv> D div 8"
  defines "h \<equiv> T div 2"
  shows "rope_block F D H C positions stride device_tokens (row, y) mem = fold store_vec
    (map (\<lambda>tid. (row * stride + y * 1024 + 8 * tid,
        rotate_lanes F h (\<lambda>tid. lane_cos_sin C (positions row * D) (tid mod T mod h) (tid mod T div h))
          (\<lambda>tid. map (\<lambda>j. mem (row * stride + y * 1024 + 8 * tid + j)) [0..<8]) tid))
      (filter (\<lambda>tid. y * 1024 + 8 * tid < H * D) [0..<128])) mem"
proof -
  have address: "u32 (row * stride) + (y * (128 div T) + tid div T) * D + 8 * (tid mod T) = row * stride + y * 1024 + 8 * tid" for tid
  proof -
    have "y * (128 div T) * D = y * 1024" using sizes by (auto simp: rope_sizes_def T_def)
    moreover have "tid div T * D + 8 * (tid mod T) = 8 * tid"
    proof -
      have "D = 128 \<or> D = 64" using sizes by (auto simp: rope_sizes_def)
      then show ?thesis
      proof (elim disjE)
        assume "D = 128"
        moreover have "tid div 16 * 128 + 8 * (tid mod 16) = 8 * tid" using div_mult_mod_eq [of tid 16] by linarith
        ultimately show ?thesis by (simp add: T_def)
      next
        assume "D = 64"
        moreover have "tid div 8 * 64 + 8 * (tid mod 8) = 8 * tid" using div_mult_mod_eq [of tid 8] by linarith
        ultimately show ?thesis by (simp add: T_def)
      qed
    qed
    ultimately show ?thesis using fits(1) by (simp add: u32_id distrib_right)
  qed
  have active: "(y * (128 div T) + tid div T < H) = (y * 1024 + 8 * tid < H * D)" for tid
    using sizes by (auto simp: rope_sizes_def T_def)
  show ?thesis
    unfolding rope_block_def Let_def case_prod_conv T_def [symmetric] h_def [symmetric] address active u32_id [OF fits(2)]
    using valid by simp
qed

lemma head_numbers:
  assumes "rope_sizes D H" "head < H" "e < D div 2"
  obtains tid j where "tid < 128" "tid mod (D div 8) = e div 8" "e div 8 < D div 8 div 2" "j < 8" "D div 8 div 2 \<in> {4, 8}" "2 * (D div 8 div 2) = D div 8"
    "8 * (D div 8 div 2) = D div 2" "tid + D div 8 div 2 < 128" "j = e mod 8"
    "head * D div 1024 * 1024 + 8 * tid + j = head * D + e" "head * D + D \<le> H * D"
proof -
  define q where "q = e div 8"
  have q: "e = 8 * q + e mod 8" "q < D div 8 div 2" using assms by (auto simp: q_def rope_sizes_def)
  define pb where "pb = 1024 div D"
  define r where "r = head mod pb"
  have r: "r < pb" using assms(1) by (auto simp: r_def pb_def rope_sizes_def)
  have head: "head * D = head div pb * 1024 + r * D"
  proof -
    have "D = 128 \<or> D = 64" using assms(1) by (auto simp: rope_sizes_def)
    then show ?thesis
    proof (elim disjE)
      assume "D = 128"
      moreover have "head * 128 = head div 8 * 1024 + head mod 8 * 128" using div_mult_mod_eq [of head 8] by linarith
      ultimately show ?thesis by (simp add: r_def pb_def)
    next
      assume "D = 64"
      moreover have "head * 64 = head div 16 * 1024 + head mod 16 * 64" using div_mult_mod_eq [of head 16] by linarith
      ultimately show ?thesis by (simp add: r_def pb_def)
    qed
  qed
  have "r * D < 1024" using r assms(1) unfolding pb_def rope_sizes_def by auto
  then have y: "head * D div 1024 = head div pb" unfolding head by simp
  let ?tid = "r * (D div 8) + q"
  have "8 * ?tid = r * D + 8 * q" using assms(1) by (auto simp: rope_sizes_def)
  then have place: "head * D div 1024 * 1024 + 8 * ?tid + e mod 8 = head * D + e" using q(1) unfolding y unfolding head by linarith
  have inside: "?tid + D div 8 div 2 < 128" using r q(2) assms(1) unfolding pb_def rope_sizes_def by auto
  have "head * D + D = (head + 1) * D" by simp
  also have "\<dots> \<le> H * D" using assms(2) by (intro mult_le_mono1) simp
  finally have last: "head * D + D \<le> H * D" .
  have D: "D div 8 div 2 \<in> {4, 8}" "2 * (D div 8 div 2) = D div 8" "8 * (D div 8 div 2) = D div 2" using assms(1) by (auto simp: rope_sizes_def)
  have "q < D div 8" using q(2) D by linarith
  then have "?tid mod (D div 8) = q" by simp
  then show ?thesis using that [of ?tid "e mod 8"] inside q(2) D place last by (simp add: q_def)
qed

lemma length_rotate_lanes: "length (rotate_lanes F h cs heads tid) = 8"
  by (simp add: rotate_lanes_def Let_def swap_words_def)

lemma rope_block_lane:
  assumes "tid < 128" "y * 1024 + 8 * tid < n" "j < 8"
  shows "fold store_vec (map (\<lambda>tid. (base + y * 1024 + 8 * tid, rotate_lanes F h cs heads tid)) (filter (\<lambda>tid. y * 1024 + 8 * tid < n) [0..<128])) mem
     (base + y * 1024 + 8 * tid + j) = rotate_lanes F h cs heads tid ! j"
proof (rule store_vecs_inside)
  show "(base + y * 1024 + 8 * tid, rotate_lanes F h cs heads tid) \<in> set (map (\<lambda>tid. (base + y * 1024 + 8 * tid, rotate_lanes F h cs heads tid))
      (filter (\<lambda>tid. y * 1024 + 8 * tid < n) [0..<128]))" using assms by (auto simp del: upt_rec_numeral)
next
  show "\<forall>u \<in> set (map (\<lambda>tid. (base + y * 1024 + 8 * tid, rotate_lanes F h cs heads tid)) (filter (\<lambda>tid. y * 1024 + 8 * tid < n) [0..<128])).
      fst u \<le> base + y * 1024 + 8 * tid + j \<and> base + y * 1024 + 8 * tid + j < fst u + length (snd u)
      \<longrightarrow> snd u ! (base + y * 1024 + 8 * tid + j - fst u) = rotate_lanes F h cs heads tid ! j"
  proof (intro ballI impI)
    fix u assume "u \<in> set (map (\<lambda>tid. (base + y * 1024 + 8 * tid, rotate_lanes F h cs heads tid)) (filter (\<lambda>tid. y * 1024 + 8 * tid < n) [0..<128]))"
      and hit: "fst u \<le> base + y * 1024 + 8 * tid + j \<and> base + y * 1024 + 8 * tid + j < fst u + length (snd u)"
    then obtain t where u: "u = (base + y * 1024 + 8 * t, rotate_lanes F h cs heads t)" by auto
    have "t = tid" using hit assms(3) by (simp add: u length_rotate_lanes)
    then show "snd u ! (base + y * 1024 + 8 * tid + j - fst u) = rotate_lanes F h cs heads tid ! j" by (simp add: u)
  qed
qed (use assms(3) in \<open>simp_all add: length_rotate_lanes\<close>)

lemma rope_block_head:
  fixes D H stride :: nat and C :: "nat \<Rightarrow> f32"
  assumes sizes: "rope_sizes D H" and laws: "sign_laws F" and fits: "row * stride < 2 ^ 32" "positions row * D < 2 ^ 32" and valid: "valid_row device_tokens row"
    and head: "head < H" "head * D div 1024 = y" and e: "e < D div 2"
  defines "a \<equiv> row * stride + head * D + e"
  defines "c \<equiv> C (positions row * D + 2 * e)" and "sn \<equiv> C (positions row * D + 2 * e + 1)"
  shows "rope_block F D H C positions stride device_tokens (row, y) mem a = rope_first F c sn (mem a) (mem (a + D div 2))"
    "rope_block F D H C positions stride device_tokens (row, y) mem (a + D div 2) = rope_second F c sn (mem a) (mem (a + D div 2))"
proof -
  let ?T = "D div 8" and ?h = "D div 8 div 2"
  let ?cs = "\<lambda>tid. lane_cos_sin C (positions row * D) (tid mod ?T mod ?h) (tid mod ?T div ?h)"
  let ?heads = "\<lambda>tid. map (\<lambda>j. mem (row * stride + y * 1024 + 8 * tid + j)) [0..<8]"
  obtain tid j where num: "tid < 128" "tid mod ?T = e div 8" "e div 8 < ?h" "j < 8" "?h \<in> {4, 8}" "2 * ?h = ?T"
    "8 * ?h = D div 2" "tid + ?h < 128" "j = e mod 8" "y * 1024 + 8 * tid + j = head * D + e" "head * D + D \<le> H * D"
    using head_numbers [OF sizes head(1) e] unfolding head(2) by metis
  have x: "tid XOR ?h = tid + ?h" "(tid + ?h) XOR ?h = tid" using half_exchange [OF num(5,1)] num(2,3,6) by simp_all
  have upper: "(tid + ?h) mod ?T = e div 8 + ?h"
  proof -
    have "(tid + ?h) mod ?T = (tid mod ?T + ?h) mod ?T" by (simp add: mod_add_left_eq)
    then show ?thesis using num(2,3,6) by simp
  qed
  have "?h \<noteq> 0" using num(5) by auto
  then have "(e div 8 + ?h) div ?h = 1" using num(3) by (simp add: div_add_self2)
  then have grp: "tid mod (2 * ?h) div ?h = 0" "(tid + ?h) mod (2 * ?h) div ?h = 1" using num(2,3) upper unfolding num(6) by simp_all
  have cs: "?cs tid = lane_cos_sin C (positions row * D) (e div 8) 0" "?cs (tid + ?h) = lane_cos_sin C (positions row * D) (e div 8) 1"
    unfolding num(2) upper mod_add_self2 div_less [OF num(3)] mod_less [OF num(3)] \<open>(e div 8 + ?h) div ?h = 1\<close> by (rule refl)+
  have two: "8 * ?h + D div 2 = D" "8 * (tid + ?h) = 8 * tid + D div 2" using num(7) sizes by (auto simp: rope_sizes_def)
  have active: "y * 1024 + 8 * tid < H * D" "y * 1024 + 8 * (tid + ?h) < H * D" using num(10,11) e two by linarith+
  have a: "a = row * stride + y * 1024 + 8 * tid + j" "a + D div 2 = row * stride + y * 1024 + 8 * (tid + ?h) + j"
    using num(10) two by (simp_all add: a_def)
  have h: "?heads tid ! j = mem a" "?heads (tid + ?h) ! j = mem (a + D div 2)" unfolding a(2) unfolding a(1) using num(4) by (simp_all del: upt_rec_numeral)
  have e8: "positions row * D + 16 * (e div 8) + 2 * j = positions row * D + 2 * e" using num(9) div_mult_mod_eq [of e 8] by linarith
  note lanes = rotate_lanes_head [OF laws x grp cs num(4), of ?heads, unfolded h e8, folded c_def sn_def]
  note stores = rope_block_stores [where positions = positions, OF sizes fits valid, of F C y mem]
  let ?after = "rope_block F D H C positions stride device_tokens (row, y) mem"
  have "?after a = rotate_lanes F ?h ?cs ?heads tid ! j"
    unfolding stores a(1) by (rule rope_block_lane [OF num(1) active(1) num(4)])
  then show "?after a = rope_first F c sn (mem a) (mem (a + D div 2))" unfolding lanes(1) .
  have "?after (a + D div 2) = rotate_lanes F ?h ?cs ?heads (tid + ?h) ! j"
    unfolding stores a(2) by (rule rope_block_lane [OF num(8) active(2) num(4)])
  then show "?after (a + D div 2) = rope_second F c sn (mem a) (mem (a + D div 2))" unfolding lanes(2) .
qed

definition rope_region :: "nat \<Rightarrow> nat \<Rightarrow> nat \<Rightarrow> nat \<times> nat \<Rightarrow> nat set" where
  "rope_region D H stride = (\<lambda>(row, y). {row * stride + y * 1024 ..< row * stride + min (y * 1024 + 1024) (H * D)})"

lemma rope_region_head:
  assumes sizes: "rope_sizes D H" and a: "a \<in> rope_region D H stride (row, y)"
  obtains head e where "head < H" "head * D div 1024 = y" "e < D div 2" "a = row * stride + head * D + e \<or> a = row * stride + head * D + e + D div 2"
    "row * stride + head * D + e \<in> rope_region D H stride (row, y)" "row * stride + head * D + e + D div 2 \<in> rope_region D H stride (row, y)"
proof -
  define off where "off = a - row * stride"
  have off: "a = row * stride + off" "y * 1024 \<le> off" "off < y * 1024 + 1024" "off < H * D"
    using a by (auto simp: rope_region_def off_def)
  define head where "head = off div D"
  define e where "e = off mod D mod (D div 2)"
  have D: "0 < D" "2 * (D div 2) = D" using sizes by (auto simp: rope_sizes_def)
  have e: "e < D div 2" using D by (simp add: e_def)
  have half: "off mod D = e \<or> off mod D = e + D div 2"
  proof (cases "off mod D < D div 2")
    case False
    then have "(off mod D - D div 2) < D div 2" using D mod_less_divisor [of D off] by linarith
    moreover have "off mod D mod (D div 2) = (off mod D - D div 2) mod (D div 2)" using False by (simp add: le_mod_geq)
    ultimately show ?thesis using False by (simp add: e_def)
  qed (simp add: e_def)
  have split: "off = head * D + off mod D" by (simp add: head_def)
  have pb: "y * 1024 div D * D = y * 1024" "(y * 1024 + 1024) div D * D = y * 1024 + 1024" using sizes by (auto simp: rope_sizes_def)
  have head: "head < H" using off(4) D by (simp add: head_def less_mult_imp_div_less)
  have low: "y * 1024 \<le> head * D" using div_le_mono [OF off(2), of D] mult_le_mono1 [of "y * 1024 div D" head D] pb(1) by (simp add: head_def)
  have "head * D < (y * 1024 + 1024) div D * D" using split off(3) unfolding pb(2) by linarith
  then have "head < (y * 1024 + 1024) div D" using D(1) by simp
  then have "(head + 1) * D \<le> (y * 1024 + 1024) div D * D" by (intro mult_le_mono1) simp
  then have high: "head * D + D \<le> y * 1024 + 1024" unfolding pb(2) by simp
  have "(head + 1) * D \<le> H * D" using head by (intro mult_le_mono1) simp
  then have inside: "head * D + D \<le> min (y * 1024 + 1024) (H * D)" using high by simp
  have "head * D div 1024 = y" using low high D(1) by (intro div_nat_eqI) simp_all
  moreover have "a = row * stride + head * D + e \<or> a = row * stride + head * D + e + D div 2"
    using off(1) split half by linarith
  moreover have "row * stride + head * D + e \<in> rope_region D H stride (row, y)" "row * stride + head * D + e + D div 2 \<in> rope_region D H stride (row, y)"
    using low inside e D(2) by (simp_all add: rope_region_def)
  ultimately show ?thesis using that head e by blast
qed

lemma rope_head_region:
  assumes sizes: "rope_sizes D H" and head: "head < H" "e < D div 2"
  shows "row * stride + head * D + e \<in> rope_region D H stride (row, head * D div 1024)"
    "row * stride + head * D + e + D div 2 \<in> rope_region D H stride (row, head * D div 1024)"
proof -
  have "1024 = 8 * D \<or> 1024 = 16 * D" "D \<noteq> 0" and D: "2 * (D div 2) = D" using sizes by (auto simp: rope_sizes_def)
  then obtain k where k: "1024 = k * D" "k \<noteq> 0" by (metis zero_neq_numeral)
  have y: "head * D div 1024 * 1024 = head div k * k * D" unfolding k(1) using \<open>D \<noteq> 0\<close> by simp
  have low: "head div k * k * D \<le> head * D" by (intro mult_le_mono1) simp
  have "head < head div k * k + k" using k(2) div_mult_mod_eq [of head k] mod_less_divisor [of k head] by linarith
  then have "(head + 1) * D \<le> (head div k * k + k) * D" by (intro mult_le_mono1) simp
  then have high: "head * D + D \<le> head div k * k * D + 1024" unfolding k(1) by (simp add: distrib_right)
  have "(head + 1) * D \<le> H * D" using head(1) by (intro mult_le_mono1) simp
  then have "head * D + D \<le> H * D" by simp
  then show "row * stride + head * D + e \<in> rope_region D H stride (row, head * D div 1024)"
    "row * stride + head * D + e + D div 2 \<in> rope_region D H stride (row, head * D div 1024)"
    unfolding rope_region_def case_prod_conv y atLeastLessThan_iff min_add_distrib_right min_less_iff_conj
    using low high head(2) D by (intro conjI; linarith)+
qed

lemma rope_block_local:
  fixes D H stride :: nat and C :: "nat \<Rightarrow> f32"
  assumes sizes: "rope_sizes D H" and laws: "sign_laws F" and fits: "row * stride < 2 ^ 32" "positions row * D < 2 ^ 32"
  shows "local_block (rope_block F D H C positions stride device_tokens (row, y)) (rope_region D H stride (row, y))"
proof (cases "valid_row device_tokens row")
  case True
  let ?f = "rope_block F D H C positions stride device_tokens (row, y)"
  have "?f mem a = mem a" if a: "a \<notin> rope_region D H stride (row, y)" for mem a
    unfolding rope_block_stores [where positions = positions, OF sizes fits True, of F C y mem]
  proof (rule store_vecs_outside, intro ballI notI)
    fix w assume "w \<in> set (map (\<lambda>tid. (row * stride + y * 1024 + 8 * tid,
        rotate_lanes F (D div 8 div 2) (\<lambda>tid. lane_cos_sin C (positions row * D) (tid mod (D div 8) mod (D div 8 div 2)) (tid mod (D div 8) div (D div 8 div 2)))
          (\<lambda>tid. map (\<lambda>j. mem (row * stride + y * 1024 + 8 * tid + j)) [0..<8]) tid)) (filter (\<lambda>tid. y * 1024 + 8 * tid < H * D) [0..<128]))"
      and hit: "fst w \<le> a \<and> a < fst w + length (snd w)"
    then obtain tid where tid: "tid < 128" "y * 1024 + 8 * tid < H * D" "row * stride + y * 1024 + 8 * tid \<le> a" "a < row * stride + y * 1024 + 8 * tid + 8"
      by (auto simp: length_rotate_lanes simp del: upt_rec_numeral)
    have "8 * (H * D div 8) = H * D" using sizes by (auto simp: rope_sizes_def)
    moreover from this have "y * 128 + tid < H * D div 8" using tid(2) by linarith
    ultimately have "y * 1024 + 8 * tid + 8 \<le> H * D" by linarith
    then show False using a tid by (simp add: rope_region_def)
  qed
  moreover have "?f m a = ?f m' a" if same: "\<forall>a \<in> rope_region D H stride (row, y). m a = m' a" and a: "a \<in> rope_region D H stride (row, y)" for m m' a
  proof -
    obtain head e where head: "head < H" "head * D div 1024 = y" "e < D div 2" "a = row * stride + head * D + e \<or> a = row * stride + head * D + e + D div 2"
      "row * stride + head * D + e \<in> rope_region D H stride (row, y)" "row * stride + head * D + e + D div 2 \<in> rope_region D H stride (row, y)"
      using rope_region_head [OF sizes a] by metis
    note both = rope_block_head [where positions = positions, OF sizes laws fits True head(1-3)]
    show ?thesis using head(4) same head(5,6) by (elim disjE) (simp_all add: both)
  qed
  ultimately show ?thesis unfolding local_block_def by blast
qed (simp add: local_block_def rope_block_invalid)

lemma rope_regions_disjoint:
  assumes "b \<noteq> c" "H * D \<le> stride"
  shows "rope_region D H stride b \<inter> rope_region D H stride c = {}"
proof (rule ccontr)
  assume meet: "rope_region D H stride b \<inter> rope_region D H stride c \<noteq> {}"
  then obtain r y r' y' a where b: "b = (r, y)" "c = (r', y')" and
    a: "r * stride + y * 1024 \<le> a" "a < r * stride + (y * 1024 + 1024)" "a < r * stride + H * D"
      "r' * stride + y' * 1024 \<le> a" "a < r' * stride + (y' * 1024 + 1024)" "a < r' * stride + H * D"
  proof -
    obtain a where "a \<in> rope_region D H stride b" "a \<in> rope_region D H stride c" using meet by blast
    then show ?thesis using that [of "fst b" "snd b" "fst c" "snd c" a] by (simp add: rope_region_def case_prod_beta min_add_distrib_right)
  qed
  have "a div stride = r" using a assms(2) by (intro div_nat_eqI) (simp_all add: mult.commute)
  moreover have "a div stride = r'" using a assms(2) by (intro div_nat_eqI) (simp_all add: mult.commute)
  ultimately have "r = r'" by simp
  then have "y = y'" using a unfolding \<open>r = r'\<close> by linarith
  then show False using b assms(1) \<open>r = r'\<close> by simp
qed

lemma rope_rotates_parts:
  assumes run: "rope F num_tokens stride C positions (int Q) (int K) (int D) device_tokens = Inr (grid, block)"
    and order: "mset blocks = mset grid" and laws: "sign_laws F"
    and fits: "num_tokens * stride \<le> 2 ^ 32" "\<forall>row < num_tokens. positions row * D < 2 ^ 32" "Q + K \<le> stride"
  shows "row < num_tokens \<Longrightarrow> valid_row device_tokens row \<Longrightarrow> head * D < Q + K \<Longrightarrow> e < D div 2 \<Longrightarrow>
      a = row * stride + head * D + e \<Longrightarrow> c = C (positions row * D + 2 * e) \<Longrightarrow> s = C (positions row * D + 2 * e + 1) \<Longrightarrow>
      fold block blocks mem a = rope_first F c s (mem a) (mem (a + D div 2))
      \<and> fold block blocks mem (a + D div 2) = rope_second F c s (mem a) (mem (a + D div 2))"
    and "\<forall>row < num_tokens. valid_row device_tokens row \<longrightarrow> a < row * stride \<or> row * stride + Q + K \<le> a \<Longrightarrow> fold block blocks mem a = mem a"
proof -
  obtain H where H: "rope_sizes D H" "H * D = Q + K" "block = rope_block F D H C positions stride device_tokens"
    "grid = List.product [0..<num_tokens] [0..<3]"
    using run by (auto simp: rope_def Let_def rope_sizes_def split: if_splits)
  have blocks: "set blocks = {..<num_tokens} \<times> {..<3}" "distinct blocks"
    using order H(4) mset_eq_setD [OF order] mset_eq_imp_distinct_iff [OF order] by (auto simp: distinct_product)
  have wide: "0 < stride" "H * D \<le> stride" using fits(3) H(1,2) by (auto simp: rope_sizes_def)
  have row_fits: "row * stride < 2 ^ 32" if "row < num_tokens" for row by (rule row_start_fits [OF fits(1) that wide(1)])
  have loc: "\<forall>b \<in> set blocks. local_block (block b) (rope_region D H stride b)"
  proof
    fix b assume b: "b \<in> set blocks"
    then have "fst b < num_tokens" unfolding blocks(1) by auto
    then show "local_block (block b) (rope_region D H stride b)"
      using rope_block_local [where positions = positions and row = "fst b" and y = "snd b", OF H(1) laws] row_fits fits(2) unfolding H(3) by simp
  qed
  have apart: "\<forall>b \<in> set blocks. \<forall>c \<in> set blocks. b \<noteq> c \<longrightarrow> rope_region D H stride b \<inter> rope_region D H stride c = {}"
    using rope_regions_disjoint wide(2) by blast
  show "fold block blocks mem a = rope_first F c s (mem a) (mem (a + D div 2))
      \<and> fold block blocks mem (a + D div 2) = rope_second F c s (mem a) (mem (a + D div 2))"
    if row: "row < num_tokens" "valid_row device_tokens row" and head: "head * D < Q + K" "e < D div 2"
      and acs: "a = row * stride + head * D + e" "c = C (positions row * D + 2 * e)" "s = C (positions row * D + 2 * e + 1)"
  proof -
    define y where "y = head * D div 1024"
    have below: "head < H" using head(1) unfolding H(2) [symmetric] by simp
    have region: "a \<in> rope_region D H stride (row, y)" "a + D div 2 \<in> rope_region D H stride (row, y)"
      using rope_head_region [OF H(1) below head(2)] by (simp_all add: acs(1) y_def)
    have "head * D < 3072" using head(1) H(1,2) by (auto simp: rope_sizes_def)
    then have b: "(row, y) \<in> set blocks" using row(1) by (simp add: blocks(1) y_def)
    have step: "fold block blocks mem x = block (row, y) mem x" if "x \<in> rope_region D H stride (row, y)" for x
      by (rule grid_inside [OF loc apart blocks(2) b that])
    show ?thesis unfolding step [OF region(1)] step [OF region(2)] unfolding H(3) acs
      using rope_block_head [where positions = positions, OF H(1) laws row_fits [OF row(1)] _ row(2) below y_def [symmetric] head(2)] fits(2) row(1) by simp
  qed
  show "fold block blocks mem a = mem a" if free: "\<forall>row < num_tokens. valid_row device_tokens row \<longrightarrow> a < row * stride \<or> row * stride + Q + K \<le> a"
  proof (rule grid_idle [where active = "\<lambda>b. valid_row device_tokens (fst b)", OF loc]; intro ballI impI allI)
    fix b m assume "b \<in> set blocks" "\<not> valid_row device_tokens (fst b)"
    then show "block b m = m" using rope_block_invalid [of device_tokens "fst b" F D H C positions stride "snd b" m] by (simp add: H(3))
  next
    fix b assume b: "b \<in> set blocks" "valid_row device_tokens (fst b)"
    then have "fst b < num_tokens" by (simp add: blocks(1) mem_Times_iff)
    then show "a \<notin> rope_region D H stride b" using free b(2) by (auto simp: rope_region_def H(2) case_prod_beta)
  qed
qed

text \<open>
  C34: The packed rotation is the textbook one. For the supported sizes, in every order of the blocks,
  each pair (element \<open>e\<close> and element \<open>e + head_dim / 2\<close> of a query or key head) of every valid token
  becomes (x1 cos - x2 sin, x2 cos + x1 sin) with the cosine and sine of its position, and nothing
  else in memory changes: not the values, not the padding rows.
\<close>

theorem rope_rotates:
  assumes run: "rope F num_tokens stride C positions (int Q) (int K) (int D) device_tokens = Inr (grid, block)"
    and order: "mset blocks = mset grid" and laws: "sign_laws F"
    and fits: "num_tokens * stride \<le> 2 ^ 32" "\<forall>row < num_tokens. positions row * D < 2 ^ 32" "Q + K \<le> stride"
  shows "(\<forall>row < num_tokens. valid_row device_tokens row \<longrightarrow> (\<forall>head e. head * D < Q + K \<longrightarrow> e < D div 2 \<longrightarrow>
      (let a = row * stride + head * D + e; c = C (positions row * D + 2 * e); s = C (positions row * D + 2 * e + 1) in
        fold block blocks mem a = rope_first F c s (mem a) (mem (a + D div 2))
        \<and> fold block blocks mem (a + D div 2) = rope_second F c s (mem a) (mem (a + D div 2)))))
    \<and> (\<forall>a. (\<forall>row < num_tokens. valid_row device_tokens row \<longrightarrow> a < row * stride \<or> row * stride + Q + K \<le> a) \<longrightarrow> fold block blocks mem a = mem a)"
proof (rule conjI)
  show "\<forall>row < num_tokens. valid_row device_tokens row \<longrightarrow> (\<forall>head e. head * D < Q + K \<longrightarrow> e < D div 2 \<longrightarrow>
      (let a = row * stride + head * D + e; c = C (positions row * D + 2 * e); s = C (positions row * D + 2 * e + 1) in
        fold block blocks mem a = rope_first F c s (mem a) (mem (a + D div 2))
        \<and> fold block blocks mem (a + D div 2) = rope_second F c s (mem a) (mem (a + D div 2))))"
    unfolding Let_def by (intro allI impI) (rule rope_rotates_parts(1) [OF assms _ _ _ _ refl refl refl])
qed (intro allI impI, rule rope_rotates_parts(2) [OF assms])

theorem rope_rotates_witness:
  "\<exists>grid block. rope demo_ops 2 3072 of_nat (\<lambda>row. row) 2048 1024 128 (Some 2) = Inr (grid, block)
     \<and> fold block (rev grid) of_nat 3715 = rope_first demo_ops (of_nat 134) (of_nat 135) (of_nat 3715) (of_nat 3779)
     \<and> fold block (rev grid) of_nat 6144 = of_nat 6144"
proof -
  have laws: "sign_laws demo_ops" by (simp add: sign_laws_def demo_ops_def)
  obtain grid block where run: "rope demo_ops 2 3072 of_nat (\<lambda>row. row) (int 2048) (int 1024) (int 128) (Some 2) = Inr (grid, block)"
    by (simp add: rope_def)
  note rotates = rope_rotates [OF run, of "rev grid" of_nat, OF _ laws]
  have "fold block (rev grid) of_nat 3715 = rope_first demo_ops (of_nat 134) (of_nat 135) (of_nat 3715) (of_nat 3779)"
    using rotates [THEN conjunct1, rule_format, of 1 5 3] by (simp add: valid_row_def Let_def)
  moreover have "fold block (rev grid) of_nat 6144 = of_nat 6144"
    using rotates [THEN conjunct2, rule_format, of 6144] by (simp add: valid_row_def)
  ultimately show ?thesis using run by simp
qed

end
