(* ===== verification/Elementwise.thy ===== *)
theory Elementwise
  imports Warp
begin

text \<open>
  The element-wise kernels: the gather of csrc/ops/embedding.cu, the residual addition of
  csrc/ops/residual_add.cu and the gated activation of csrc/ops/swiglu.cu. A launch is the list of its
  threads, (block, thread), with what each does to the memory; the threads run in any order.
\<close>

type_synonym launch = "(nat \<times> nat) list \<times> (nat \<times> nat \<Rightarrow> memory \<Rightarrow> memory)"

datatype OpError = UnsupportedEmbedding int | UnsupportedIntermediate nat

definition launch_threads :: "nat \<Rightarrow> nat \<Rightarrow> (nat \<times> nat) list" where
  "launch_threads blocks threads = List.product [0..<blocks] [0..<threads]"

definition load_vec :: "(nat \<Rightarrow> 'v) \<Rightarrow> nat \<Rightarrow> 'v list" where
  \<comment> \<open>a \<open>uint4\<close>: eight BF16 values\<close>
  "load_vec m p = map (\<lambda>j. m (p + j)) [0..<8]"

subsection \<open>Embedding\<close>

definition bf16_embedding :: "nat \<Rightarrow> (nat \<Rightarrow> int) \<Rightarrow> memory \<Rightarrow> int option \<Rightarrow> nat \<times> nat \<Rightarrow> memory \<Rightarrow> memory" where
  "bf16_embedding dim token_ids table device_tokens thread output = (
     let (row, tid) = thread; token_id = nat (token_ids row mod 2 ^ 32)
     in if valid_row device_tokens row
        then store_vec (u32 (row * dim) + 8 * tid, load_vec table (u32 (token_id * dim) + 8 * tid)) output
        else output)"

definition embedding :: "(nat \<Rightarrow> int) \<Rightarrow> memory \<Rightarrow> int \<Rightarrow> nat \<Rightarrow> int option \<Rightarrow> OpError + launch" where
  "embedding token_ids table embedding_dim num_tokens device_tokens =
     (if embedding_dim = 1024 then Inr (launch_threads num_tokens (1024 div 8), bf16_embedding 1024 token_ids table device_tokens)
      else if embedding_dim = 2048 then Inr (launch_threads num_tokens (2048 div 8), bf16_embedding 2048 token_ids table device_tokens)
      else Inl (UnsupportedEmbedding embedding_dim))"

subsection \<open>Residual addition\<close>

definition add_vec :: "Float_Ops \<Rightarrow> memory \<Rightarrow> nat \<Rightarrow> memory \<Rightarrow> memory" where
  \<comment> \<open>four \<open>__hadd2\<close>\<close>
  "add_vec F a p b = store_vec (p, map2 (b_add F) (load_vec a p) (load_vec b p)) b"

definition add_row :: "Float_Ops \<Rightarrow> nat \<Rightarrow> memory \<Rightarrow> int option \<Rightarrow> nat \<times> nat \<Rightarrow> memory \<Rightarrow> memory" where
  \<comment> \<open>\<open>bf16_elementwise_add<kHiddenSize>\<close>\<close>
  "add_row F hidden_size a device_tokens thread b = (
     let (row, tid) = thread in if valid_row device_tokens row then add_vec F a (row * hidden_size + tid * 8) b else b)"

definition add_any :: "Float_Ops \<Rightarrow> memory \<Rightarrow> nat \<Rightarrow> nat \<Rightarrow> nat \<Rightarrow> int option \<Rightarrow> nat \<times> nat \<Rightarrow> memory \<Rightarrow> memory" where
  \<comment> \<open>\<open>bf16_elementwise_add<256>\<close> with \<open>num_blocks\<close> blocks; \<open>size_t\<close> has 64 bits\<close>
  "add_any F a n hidden_size num_blocks device_tokens thread b0 = (
     let (block, tid) = thread;
         n = (case device_tokens of None \<Rightarrow> n | Some t \<Rightarrow> nat (t * int hidden_size mod 2 ^ 64));
         num_vec = n div 8;
         b = fold (\<lambda>i. add_vec F a (8 * i)) (strided (block * 256 + tid) (num_blocks * 256) num_vec) b0;
         tail = n - num_vec * 8; i = num_vec * 8 + tid
     in if block = 0 \<and> tid < tail then b(i := b_add F (b i) (a i)) else b)"

definition residual_add :: "Float_Ops \<Rightarrow> nat \<Rightarrow> nat \<Rightarrow> memory \<Rightarrow> int option \<Rightarrow> launch" where
  "residual_add F num_tokens hidden_size hidden device_tokens =
     (if hidden_size = 1024 then (launch_threads num_tokens (1024 div 8), add_row F 1024 hidden device_tokens)
      else if hidden_size = 2048 then (launch_threads num_tokens (2048 div 8), add_row F 2048 hidden device_tokens)
      else let num_elements = num_tokens * hidden_size; num_vec = num_elements div 8;
               num_blocks = min (max ((num_vec + 256 - 1) div 256) 1) 4096
           in (launch_threads num_blocks 256, add_any F hidden num_elements hidden_size num_blocks device_tokens))"

subsection \<open>Gated activation\<close>

definition silu_and_mul :: "Float_Ops \<Rightarrow> bfloat \<Rightarrow> bfloat \<Rightarrow> bfloat" where
  \<comment> \<open>one half of \<open>silu_and_mul_bf162\<close>; \<open>0x3f800000\<close> is 1\<close>
  "silu_and_mul F x y = to_b F (f_div F (f_mul F (to_f F x) (to_f F y)) (f_add F 0x3f800000 (f_exp F (f_neg F (to_f F x)))))"

definition bf16_swiglu :: "Float_Ops \<Rightarrow> nat \<Rightarrow> int option \<Rightarrow> nat \<times> nat \<Rightarrow> memory \<Rightarrow> memory" where
  \<comment> \<open>\<open>bf16_swiglu_packedgu<128>\<close>\<close>
  "bf16_swiglu F intermediate_size device_tokens thread gate_up = (
     let (row, tid) = thread; stride = u32 (2 * intermediate_size); gate = u32 (row * stride); up = intermediate_size + gate
     in if valid_row device_tokens row
        then fold (\<lambda>i m. store_vec (gate + 8 * i, map2 (silu_and_mul F) (load_vec m (gate + 8 * i)) (load_vec m (up + 8 * i))) m)
               (strided tid 128 (intermediate_size div 8)) gate_up
        else gate_up)"

definition swiglu :: "Float_Ops \<Rightarrow> nat \<Rightarrow> nat \<Rightarrow> int option \<Rightarrow> OpError + launch" where
  \<comment> \<open>\<open>columns\<close> is \<open>gate_up.shape[1]\<close>\<close>
  "swiglu F num_tokens columns device_tokens = (
     let inter_dim = columns div 2
     in if inter_dim mod 8 = 0 then Inr (launch_threads num_tokens 128, bf16_swiglu F inter_dim device_tokens)
        else Inl (UnsupportedIntermediate inter_dim))"

subsection \<open>Threads and their items\<close>

lemma length_load_vec [simp]: "length (load_vec m p) = 8"
  by (simp add: load_vec_def)

lemma load_vec_nth [simp]: "j < 8 \<Longrightarrow> load_vec m p ! j = m (p + j)"
  by (simp add: load_vec_def)

lemma load_vec_cong: "(\<forall>a \<in> {p ..< p + 8}. m a = m' a) \<Longrightarrow> load_vec m p = load_vec m' p"
  by (auto simp: load_vec_def)

lemma threads_of: "mset ts = mset (launch_threads blocks threads) \<Longrightarrow> set ts = {..<blocks} \<times> {..<threads} \<and> distinct ts"
  using mset_eq_setD [of ts "launch_threads blocks threads"] mset_eq_imp_distinct_iff [of ts "launch_threads blocks threads"]
  by (auto simp: launch_threads_def distinct_product)

lemma row_items_apart:
  fixes row row' i i' w W :: nat
  assumes "(row, i) \<noteq> (row', i')" "w * i + w \<le> W" "w * i' + w \<le> W"
  shows "{row * W + w * i ..< row * W + w * i + w} \<inter> {row' * W + w * i' ..< row' * W + w * i' + w} = {}"
proof (rule ccontr)
  assume meet: "{row * W + w * i ..< row * W + w * i + w} \<inter> {row' * W + w * i' ..< row' * W + w * i' + w} \<noteq> {}"
  then obtain a where a: "row * W + w * i \<le> a" "a < row * W + w * i + w" "row' * W + w * i' \<le> a" "a < row' * W + w * i' + w"
    unfolding ex_in_conv [symmetric] Int_iff atLeastLessThan_iff by blast
  have "a div W = row" using a assms(2) by (intro div_nat_eqI) (simp_all add: mult.commute)
  moreover have "a div W = row'" using a assms(3) by (intro div_nat_eqI) (simp_all add: mult.commute)
  ultimately have "row = row'" by simp
  then have "w * i < w * i' + w" "w * i' < w * i + w" using a unfolding \<open>row = row'\<close> by linarith+
  then have "w * i < w * (i' + 1)" "w * i' < w * (i + 1)" by simp_all
  then have "i < i' + 1" "i' < i + 1" by (simp_all only: mult_less_cancel1)
  then show False using assms(1) \<open>row = row'\<close> by simp
qed

lemma fold_if_filter: "fold (\<lambda>x m. if P x then f x m else m) xs = fold f (filter P xs)"
  by (induction xs) (simp_all add: fun_eq_iff)

lemma row_vectors:
  \<comment> \<open>a launch of rows, one vector per thread\<close>
  fixes W T :: nat and val :: "nat \<times> nat \<Rightarrow> memory \<Rightarrow> bfloat list" and mem :: memory and device_tokens :: "int option"
  assumes order: "mset ts = mset (launch_threads num_tokens T)" and W: "W = 8 * T"
    and len: "\<forall>x m. length (val x m) = 8"
    and reads: "\<forall>row tid m m'. (\<forall>a \<in> {row * W + 8 * tid ..< row * W + 8 * tid + 8}. m a = m' a) \<longrightarrow> val (row, tid) m = val (row, tid) m'"
  defines "out \<equiv> fold (\<lambda>x m. if valid_row device_tokens (fst x) then store_vec (fst x * W + 8 * snd x, val x m) m else m) ts mem"
  shows "row < num_tokens \<Longrightarrow> valid_row device_tokens row \<Longrightarrow> i < W \<Longrightarrow> out (row * W + i) = val (row, i div 8) mem ! (i mod 8)"
    and "(\<forall>row < num_tokens. valid_row device_tokens row \<longrightarrow> a < row * W \<or> row * W + W \<le> a) \<Longrightarrow> out a = mem a"
proof -
  let ?xs = "filter (\<lambda>x. valid_row device_tokens (fst x)) ts"
  have ts: "set ts = {..<num_tokens} \<times> {..<T}" "distinct ts" using threads_of [OF order] by simp_all
  have out: "out = fold (\<lambda>x m. store_vec (fst x * W + 8 * snd x, val x m) m) ?xs mem"
    unfolding out_def fold_if_filter ..
  show "out (row * W + i) = val (row, i div 8) mem ! (i mod 8)" if row: "row < num_tokens" "valid_row device_tokens row" "i < W"
  proof -
    have "(row, i div 8) \<in> set ?xs" using row W ts(1) by auto
    then have "out (fst (row, i div 8) * W + 8 * snd (row, i div 8) + i mod 8) = val (row, i div 8) mem ! (i mod 8)"
      unfolding out
    proof (rule vectors_inside [where w = "\<lambda>x. 8" and R = "\<lambda>x. {fst x * W + 8 * snd x ..< fst x * W + 8 * snd x + 8}", rotated 5])
      show "\<forall>x \<in> set ?xs. \<forall>y \<in> set ?xs. x \<noteq> y \<longrightarrow> {fst x * W + 8 * snd x ..< fst x * W + 8 * snd x + 8} \<inter> {fst y * W + 8 * snd y ..< fst y * W + 8 * snd y + 8} = {}"
      proof (intro ballI impI)
        fix x y assume "x \<in> set ?xs" "y \<in> set ?xs" "x \<noteq> y"
        then have "(fst x, snd x) \<noteq> (fst y, snd y)" "snd x < T" "snd y < T" by (simp_all add: ts(1) mem_Times_iff)
        then show "{fst x * W + 8 * snd x ..< fst x * W + 8 * snd x + 8} \<inter> {fst y * W + 8 * snd y ..< fst y * W + 8 * snd y + 8} = {}"
          using W by (intro row_items_apart) simp_all
      qed
    qed (use len reads ts(2) in auto)
    then show ?thesis by (simp add: add.assoc)
  qed
  show "out a = mem a" if free: "\<forall>row < num_tokens. valid_row device_tokens row \<longrightarrow> a < row * W \<or> row * W + W \<le> a"
    unfolding out
  proof (rule vectors_outside)
    show "\<forall>x \<in> set ?xs. \<not> (fst x * W + 8 * snd x \<le> a \<and> a < fst x * W + 8 * snd x + 8)"
    proof (intro ballI notI)
      fix x assume x: "x \<in> set ?xs" and hit: "fst x * W + 8 * snd x \<le> a \<and> a < fst x * W + 8 * snd x + 8"
      then have "fst x < num_tokens" "snd x < T" "valid_row device_tokens (fst x)" by (simp_all add: ts(1) mem_Times_iff)
      then show False using free hit W by (auto simp: not_less)
    qed
  qed (use len in simp)
qed

subsection \<open>The gather\<close>

lemma embedding_gathers_parts:
  assumes run: "embedding token_ids table (int dim) num_tokens device_tokens = Inr (threads, thread)" and order: "mset ts = mset threads"
    and fits: "num_tokens * dim \<le> 2 ^ 32" "\<forall>row < num_tokens. 0 \<le> token_ids row \<and> nat (token_ids row) * dim < 2 ^ 32"
  shows "row < num_tokens \<Longrightarrow> valid_row device_tokens row \<Longrightarrow> i < dim \<Longrightarrow> fold thread ts mem (row * dim + i) = table (nat (token_ids row) * dim + i)"
    and "\<forall>row < num_tokens. valid_row device_tokens row \<longrightarrow> a < row * dim \<or> row * dim + dim \<le> a \<Longrightarrow> fold thread ts mem a = mem a"
proof -
  define T where "T = dim div 8"
  let ?val = "\<lambda>x m. load_vec table (nat (token_ids (fst x)) * dim + 8 * snd x) :: bfloat list"
  have dim: "dim = 8 * T" "0 < dim" and launch: "threads = launch_threads num_tokens T" "thread = bf16_embedding dim token_ids table device_tokens"
    using run by (auto simp: embedding_def T_def split: if_splits)
  have step: "fold thread ts mem = fold (\<lambda>x m. if valid_row device_tokens (fst x) then store_vec (fst x * dim + 8 * snd x, ?val x m) m else m) ts mem"
  proof (rule fold_cong [OF refl refl])
    fix x assume "x \<in> set ts"
    then have row: "fst x < num_tokens" using threads_of [of ts num_tokens T] order launch(1) by (simp add: mem_Times_iff)
    have "fst x * dim < 2 ^ 32" by (rule row_start_fits [OF fits(1) row dim(2)])
    moreover have id: "0 \<le> token_ids (fst x)" "nat (token_ids (fst x)) * dim < 2 ^ 32" using fits(2) row by simp_all
    moreover have "nat (token_ids (fst x)) \<le> nat (token_ids (fst x)) * dim" using dim(2) by simp
    then have "nat (token_ids (fst x)) < 2 ^ 32" using id(2) by (rule le_less_trans)
    then have "token_ids (fst x) < 2 ^ 32" using id(1) by (simp add: nat_less_iff)
    ultimately show "thread x = (\<lambda>m. if valid_row device_tokens (fst x) then store_vec (fst x * dim + 8 * snd x, ?val x m) m else m)"
      by (simp add: launch(2) bf16_embedding_def case_prod_beta Let_def u32_id fun_eq_iff)
  qed
  note rows = row_vectors [where val = ?val and mem = mem and device_tokens = device_tokens, OF order [unfolded launch(1)] dim(1), folded step]
  show "fold thread ts mem (row * dim + i) = table (nat (token_ids row) * dim + i)"
    if "row < num_tokens" "valid_row device_tokens row" "i < dim"
    using rows(1) [of row i] that by (simp add: add.assoc)
  show "fold thread ts mem a = mem a" if "\<forall>row < num_tokens. valid_row device_tokens row \<longrightarrow> a < row * dim \<or> row * dim + dim \<le> a"
    using rows(2) [of a] that by simp
qed

text \<open>
  The embedding kernel gathers. For the supported widths, in every order of its threads, the row of
  every valid token is the row of the table its token id names, and nothing else changes.
\<close>

theorem embedding_gathers:
  assumes run: "embedding token_ids table (int dim) num_tokens device_tokens = Inr (threads, thread)" and order: "mset ts = mset threads"
    and fits: "num_tokens * dim \<le> 2 ^ 32" "\<forall>row < num_tokens. 0 \<le> token_ids row \<and> nat (token_ids row) * dim < 2 ^ 32"
  shows "(\<forall>row < num_tokens. valid_row device_tokens row \<longrightarrow> (\<forall>i < dim. fold thread ts mem (row * dim + i) = table (nat (token_ids row) * dim + i)))
    \<and> (\<forall>a. (\<forall>row < num_tokens. valid_row device_tokens row \<longrightarrow> a < row * dim \<or> row * dim + dim \<le> a) \<longrightarrow> fold thread ts mem a = mem a)"
  by (rule conjI; intro allI impI; rule embedding_gathers_parts [OF assms]; assumption)

theorem embedding_gathers_witness:
  "\<exists>threads thread. embedding (\<lambda>row. 7) of_nat 1024 3 (Some 2) = Inr (threads, thread)
     \<and> fold thread (rev threads) (\<lambda>a. 0) 1029 = of_nat 7173 \<and> fold thread (rev threads) (\<lambda>a. 0) 2048 = 0"
proof -
  obtain threads thread where run: "embedding (\<lambda>row. 7) of_nat (int 1024) 3 (Some 2) = Inr (threads, thread)" by (simp add: embedding_def)
  note gathers = embedding_gathers [OF run, of "rev threads" "\<lambda>a. 0"]
  have "fold thread (rev threads) (\<lambda>a. 0) 1029 = of_nat 7173" using gathers [THEN conjunct1, rule_format, of 1 5] by (simp add: valid_row_def)
  moreover have "fold thread (rev threads) (\<lambda>a. 0) 2048 = 0" using gathers [THEN conjunct2, rule_format, of 2048] by (simp add: valid_row_def)
  ultimately show ?thesis using run by simp
qed

subsection \<open>The sum\<close>

definition add_item :: "Float_Ops \<Rightarrow> memory \<Rightarrow> nat \<times> nat \<Rightarrow> memory \<Rightarrow> bfloat list" where
  "add_item F a x b = map (\<lambda>j. b_add F (a (fst x + j)) (b (fst x + j))) [0..<snd x]"

definition add_items :: "nat \<Rightarrow> nat \<Rightarrow> nat \<times> nat \<Rightarrow> (nat \<times> nat) list" where
  \<comment> \<open>address and length of what a thread of \<open>add_any\<close> adds\<close>
  "add_items n num_blocks = (\<lambda>(block, tid). map (\<lambda>i. (8 * i, 8)) (strided (block * 256 + tid) (num_blocks * 256) (n div 8))
     @ (if block = 0 \<and> tid < n mod 8 then [(n div 8 * 8 + tid, 1)] else []))"

lemma add_vec_item: "add_vec F a p b = store_vec (p, add_item F a (p, 8) b) b"
proof -
  have "map2 (b_add F) (load_vec a p) (load_vec b p) = add_item F a (p, 8) b"
    by (rule nth_equalityI) (simp_all add: add_item_def)
  then show ?thesis by (simp add: add_vec_def)
qed

lemma distinct_concat_disjoint:
  assumes "distinct xs" "\<forall>x \<in> set xs. distinct (f x)" "\<forall>x \<in> set xs. \<forall>y \<in> set xs. x \<noteq> y \<longrightarrow> set (f x) \<inter> set (f y) = {}"
  shows "distinct (concat (map f xs))"
  using assms
proof (induction xs)
  case (Cons x xs)
  have "set (f x) \<inter> set (f y) = {}" if "y \<in> set xs" for y using Cons.prems that by auto
  then show ?case using Cons by auto
qed simp

lemma add_items_of:
  assumes "block < num_blocks" "tid < 256"
  shows "(p, w) \<in> set (add_items n num_blocks (block, tid)) \<longleftrightarrow>
     (\<exists>i < n div 8. i mod (num_blocks * 256) = block * 256 + tid \<and> p = 8 * i \<and> w = 8) \<or> block = 0 \<and> tid < n mod 8 \<and> p = n div 8 * 8 + tid \<and> w = 1"
proof -
  have below: "block * 256 + tid < num_blocks * 256" using assms by linarith
  then have "(block * 256 + tid) mod (num_blocks * 256) = block * 256 + tid" by simp
  moreover have "block * 256 + tid \<le> i" if "i mod (num_blocks * 256) = block * 256 + tid" for i using that mod_less_eq_dividend by metis
  ultimately have "set (strided (block * 256 + tid) (num_blocks * 256) (n div 8)) = {i. i < n div 8 \<and> i mod (num_blocks * 256) = block * 256 + tid}"
    using below by (subst strided_set) auto
  then show ?thesis by (auto simp: add_items_def)
qed

lemma add_items_cover:
  fixes num_blocks n :: nat
  assumes ts: "set ts = {..<num_blocks} \<times> {..<256}" "distinct ts" and "0 < num_blocks"
  shows "distinct (concat (map (add_items n num_blocks) ts))"
    and "(p, w) \<in> set (concat (map (add_items n num_blocks) ts)) \<longleftrightarrow> (\<exists>i < n div 8. p = 8 * i \<and> w = 8) \<or> (\<exists>k < n mod 8. p = n div 8 * 8 + k \<and> w = 1)"
proof -
  let ?S = "num_blocks * 256"
  have mem: "fst x < num_blocks" "snd x < 256" if "x \<in> set ts" for x using that by (simp_all add: ts(1) mem_Times_iff)
  have items: "(p, w) \<in> set (add_items n num_blocks x) \<longleftrightarrow>
     (\<exists>i < n div 8. i mod ?S = fst x * 256 + snd x \<and> p = 8 * i \<and> w = 8) \<or> fst x = 0 \<and> snd x < n mod 8 \<and> p = n div 8 * 8 + snd x \<and> w = 1"
    if "x \<in> set ts" for x p w
    using add_items_of [OF mem(1) [OF that] mem(2) [OF that], of p w n] unfolding prod.collapse .
  show "distinct (concat (map (add_items n num_blocks) ts))"
  proof (rule distinct_concat_disjoint [OF ts(2)]; intro ballI impI)
    fix x assume "x \<in> set ts"
    have "inj_on (\<lambda>i. (8 * i, 8 :: nat)) A" for A :: "nat set" by (simp add: inj_on_def)
    moreover have "n div 8 * 8 + snd x \<noteq> 8 * i" if "i < n div 8" for i using that by linarith
    ultimately show "distinct (add_items n num_blocks x)"
      by (auto simp: add_items_def case_prod_beta distinct_map strided_distinct strided_set)
  next
    fix x y assume xy: "x \<in> set ts" "y \<in> set ts" "x \<noteq> y"
    have "False" if "(p, w) \<in> set (add_items n num_blocks x)" "(p, w) \<in> set (add_items n num_blocks y)" for p w
    proof -
      have "fst x * 256 + snd x = fst y * 256 + snd y" using that unfolding items [OF xy(1)] items [OF xy(2)] by auto
      moreover from this have "fst x = fst y" using mem(2) [OF xy(1)] mem(2) [OF xy(2)] by linarith
      ultimately show False using xy(3) by (simp add: prod_eq_iff)
    qed
    then show "set (add_items n num_blocks x) \<inter> set (add_items n num_blocks y) = {}" by auto
  qed
  show "(p, w) \<in> set (concat (map (add_items n num_blocks) ts)) \<longleftrightarrow> (\<exists>i < n div 8. p = 8 * i \<and> w = 8) \<or> (\<exists>k < n mod 8. p = n div 8 * 8 + k \<and> w = 1)"
  proof
    assume "(p, w) \<in> set (concat (map (add_items n num_blocks) ts))"
    then obtain x where "x \<in> set ts" "(p, w) \<in> set (add_items n num_blocks x)" by auto
    then show "(\<exists>i < n div 8. p = 8 * i \<and> w = 8) \<or> (\<exists>k < n mod 8. p = n div 8 * 8 + k \<and> w = 1)" using items [of x p w] by blast
  next
    assume "(\<exists>i < n div 8. p = 8 * i \<and> w = 8) \<or> (\<exists>k < n mod 8. p = n div 8 * 8 + k \<and> w = 1)"
    then show "(p, w) \<in> set (concat (map (add_items n num_blocks) ts))"
    proof (elim disjE exE conjE)
      fix i assume i: "i < n div 8" "p = 8 * i" "w = 8"
      define x where "x = (i mod ?S div 256, i mod ?S mod 256)"
      have "i mod ?S < ?S" using assms(3) by simp
      then have "i mod ?S div 256 < num_blocks" by (intro less_mult_imp_div_less)
      then have x: "x \<in> set ts" by (simp add: x_def ts(1))
      have "i mod ?S = fst x * 256 + snd x" by (simp add: x_def)
      then have "(p, w) \<in> set (add_items n num_blocks x)" using items [OF x, of p w] i by blast
      then show ?thesis using x by auto
    next
      fix k assume k: "k < n mod 8" "p = n div 8 * 8 + k" "w = 1"
      have "n mod 8 < 8" by simp
      then have x: "(0, k) \<in> set ts" using k(1) assms(3) by (simp add: ts(1))
      then have "(p, w) \<in> set (add_items n num_blocks (0, k))" using items [OF x, of p w] k by simp
      then show ?thesis using x by auto
    qed
  qed
qed

lemma add_any_items:
  assumes comm: "\<forall>x y. b_add F x y = b_add F y x" and n: "(case device_tokens of None \<Rightarrow> m | Some t \<Rightarrow> nat (t * int hidden_size mod 2 ^ 64)) = n"
  shows "add_any F a m hidden_size num_blocks device_tokens t = fold (\<lambda>x b. store_vec (fst x, add_item F a x b) b) (add_items n num_blocks t)"
proof
  fix b
  obtain block tid where t: "t = (block, tid)" by (cases t)
  have "b(p := b_add F (b p) (a p)) = store_vec (p, add_item F a (p, 1) b) b" for p and b :: memory
    using comm by (auto simp: store_vec_def add_item_def fun_eq_iff)
  moreover have "n - n div 8 * 8 = n mod 8" by (simp add: minus_div_mult_eq_mod)
  moreover have "fold (\<lambda>x b. store_vec (fst x, add_item F a x b) b) (map (\<lambda>i. (8 * i, 8)) is') b = fold (\<lambda>i. add_vec F a (8 * i)) is' b" for is' b
  proof -
    have "add_vec F a p = (\<lambda>b. store_vec (p, add_item F a (p, 8) b) b)" for p by (simp add: add_vec_item fun_eq_iff)
    then show ?thesis by (simp add: fold_map comp_def)
  qed
  ultimately show "add_any F a m hidden_size num_blocks device_tokens t b = fold (\<lambda>x b. store_vec (fst x, add_item F a x b) b) (add_items n num_blocks t) b"
    unfolding add_any_def Let_def t case_prod_conv n by (simp add: add_items_def)
qed

lemma add_any_adds:
  assumes comm: "\<forall>x y. b_add F x y = b_add F y x" and n: "(case device_tokens of None \<Rightarrow> m | Some t \<Rightarrow> nat (t * int hidden_size mod 2 ^ 64)) = n"
    and order: "mset ts = mset (launch_threads num_blocks 256)" and blocks: "0 < num_blocks"
  shows "fold (add_any F a m hidden_size num_blocks device_tokens) ts b p = (if p < n then b_add F (a p) (b p) else b p)"
proof -
  have ts: "set ts = {..<num_blocks} \<times> {..<256}" "distinct ts" using threads_of [OF order] by simp_all
  let ?xs = "concat (map (add_items n num_blocks) ts)"
  note xs = add_items_cover [where n = n, OF ts blocks]
  have kind: "(\<exists>i. i < n div 8 \<and> fst x = 8 * i \<and> snd x = 8) \<or> (\<exists>k. k < n mod 8 \<and> fst x = n div 8 * 8 + k \<and> snd x = 1)"
    if "x \<in> set ?xs" for x
    using that xs(2) [of "fst x" "snd x"] unfolding prod.collapse by blast
  have "add_any F a m hidden_size num_blocks device_tokens = (\<lambda>t. fold (\<lambda>x b. store_vec (fst x, add_item F a x b) b) (add_items n num_blocks t))"
    using add_any_items [OF comm n] by (rule ext)
  then have step: "fold (add_any F a m hidden_size num_blocks device_tokens) ts b = fold (\<lambda>x b. store_vec (fst x, add_item F a x b) b) ?xs b"
    by (simp add: fold_fold)
  show ?thesis
  proof (cases "p < n")
    case True
    obtain q w j where q: "(q, w) \<in> set ?xs" "p = q + j" "j < w"
    proof (cases "p < n div 8 * 8")
      case True
      then have "p div 8 < n div 8" by (simp add: less_mult_imp_div_less)
      then show ?thesis using that [of "8 * (p div 8)" 8 "p mod 8"] xs(2) [of "8 * (p div 8)" 8] by simp
    next
      case False
      then have "p - n div 8 * 8 < n mod 8" using \<open>p < n\<close> div_mult_mod_eq [of n 8] by linarith
      then show ?thesis using that [of p 1 0] xs(2) [of p 1] False by (auto intro!: exI [of _ "p - n div 8 * 8"])
    qed
    have apart: "\<forall>x \<in> set ?xs. \<forall>y \<in> set ?xs. x \<noteq> y \<longrightarrow> {fst x ..< fst x + snd x} \<inter> {fst y ..< fst y + snd y} = {}"
    proof (intro ballI impI)
      fix x y assume xy: "x \<in> set ?xs" "y \<in> set ?xs" "x \<noteq> y"
      have "fst x + snd x \<le> fst y \<or> fst y + snd y \<le> fst x"
        using kind [OF xy(1)] kind [OF xy(2)] xy(3) by (elim disjE exE conjE) (auto simp: prod_eq_iff)
      then show "{fst x ..< fst x + snd x} \<inter> {fst y ..< fst y + snd y} = {}" by auto
    qed
    have "fold (\<lambda>x b. store_vec (fst x, add_item F a x b) b) ?xs b (fst (q, w) + j) = add_item F a (q, w) b ! j"
      by (rule vectors_inside [where w = snd and R = "\<lambda>x. {fst x ..< fst x + snd x}", OF _ _ _ apart xs(1) q(1)])
        (use q(3) in \<open>auto simp: add_item_def\<close>)
    then show ?thesis using True q(2,3) by (simp add: step add_item_def)
  next
    case False
    have "\<forall>x \<in> set ?xs. \<not> (fst x \<le> p \<and> p < fst x + snd x)"
    proof
      fix x assume x: "x \<in> set ?xs"
      have "fst x + snd x \<le> n" using kind [OF x] div_mult_mod_eq [of n 8] by (elim disjE exE conjE) linarith+
      then show "\<not> (fst x \<le> p \<and> p < fst x + snd x)" using False by linarith
    qed
    then have "fold (\<lambda>x b. store_vec (fst x, add_item F a x b) b) ?xs b p = b p"
      by (intro vectors_outside [where w = snd]) (simp_all add: add_item_def)
    then show ?thesis using False by (simp add: step)
  qed
qed

text \<open>
  C38: Both kernels of the residual addition compute the same sum. For every hidden size (the two
  specialised ones and the grid-stride loop with its scalar tail) and every order of the threads, the
  elements of the rows in use become \<open>hidden + residual\<close> and no other element changes.
\<close>

theorem residual_add_adds:
  assumes run: "residual_add F num_tokens hidden_size a device_tokens = (threads, thread)" and order: "mset ts = mset threads"
    and comm: "\<forall>x y. b_add F x y = b_add F y x" and fits: "num_tokens * hidden_size < 2 ^ 64" "num_tokens < 2 ^ 31"
    and device: "case device_tokens of None \<Rightarrow> used = num_tokens | Some t \<Rightarrow> 0 \<le> t \<and> nat t = used \<and> used \<le> num_tokens"
  shows "fold thread ts b p = (if p < used * hidden_size then b_add F (a p) (b p) else b p)"
proof (cases "hidden_size \<in> {1024, 2048}")
  case True
  define T where "T = hidden_size div 8"
  let ?val = "\<lambda>x m. map2 (b_add F) (load_vec a (fst x * hidden_size + 8 * snd x)) (load_vec m (fst x * hidden_size + 8 * snd x))"
  have W: "hidden_size = 8 * T" "0 < hidden_size" and launch: "threads = launch_threads num_tokens T" "thread = add_row F hidden_size a device_tokens"
    using run True by (auto simp: residual_add_def T_def split: if_splits)
  have "thread x = (\<lambda>m. if valid_row device_tokens (fst x) then store_vec (fst x * hidden_size + 8 * snd x, ?val x m) m else m)" for x
    by (simp add: launch(2) add_row_def add_vec_def case_prod_beta Let_def fun_eq_iff mult.commute)
  then have step: "fold thread ts b = fold (\<lambda>x m. if valid_row device_tokens (fst x) then store_vec (fst x * hidden_size + 8 * snd x, ?val x m) m else m) ts b"
    by (intro fold_cong refl)
  have reads: "\<forall>row tid m m'. (\<forall>a \<in> {row * hidden_size + 8 * tid ..< row * hidden_size + 8 * tid + 8}. m a = m' a) \<longrightarrow> ?val (row, tid) m = ?val (row, tid) m'"
  proof (intro allI impI)
    fix row tid and m m' :: memory assume "\<forall>a \<in> {row * hidden_size + 8 * tid ..< row * hidden_size + 8 * tid + 8}. m a = m' a"
    then show "?val (row, tid) m = ?val (row, tid) m'" using load_vec_cong [of "row * hidden_size + 8 * tid" m m'] by simp
  qed
  have "\<forall>x m. length (?val x m) = 8" by simp
  note rows = row_vectors [where val = ?val and mem = b and device_tokens = device_tokens, OF order [unfolded launch(1)] W(1) this reads, folded step]
  have valid: "valid_row device_tokens row \<longleftrightarrow> row < used" if "row < num_tokens" for row
    using device fits(2) that by (auto simp: valid_row_def split: option.splits)
  have used: "used \<le> num_tokens" using device by (auto split: option.splits)
  show ?thesis
  proof (cases "p < used * hidden_size")
    case True
    define row where "row = p div hidden_size"
    define i where "i = p mod hidden_size"
    have p: "p = row * hidden_size + i" "i < hidden_size" using W(2) by (simp_all add: row_def i_def)
    have row: "row < used" using True by (simp add: row_def less_mult_imp_div_less)
    then have "fold thread ts b (row * hidden_size + i) = ?val (row, i div 8) b ! (i mod 8)" using rows(1) [of row i] p(2) used valid by simp
    then show ?thesis using True by (simp add: p(1) add.assoc)
  next
    case False
    have "fold thread ts b p = b p"
    proof (rule rows(2), intro allI impI)
      fix row assume "row < num_tokens" "valid_row device_tokens row"
      then have "(row + 1) * hidden_size \<le> used * hidden_size" using valid by (intro mult_le_mono1) simp
      then show "p < row * hidden_size \<or> row * hidden_size + hidden_size \<le> p" using False by simp
    qed
    then show ?thesis using False by simp
  qed
next
  case False
  define blocks where "blocks = min (max ((num_tokens * hidden_size div 8 + 256 - 1) div 256) 1) 4096"
  have launch: "threads = launch_threads blocks 256" "thread = add_any F a (num_tokens * hidden_size) hidden_size blocks device_tokens"
    using run False by (simp_all add: residual_add_def Let_def blocks_def)
  have n: "(case device_tokens of None \<Rightarrow> num_tokens * hidden_size | Some t \<Rightarrow> nat (t * int hidden_size mod 2 ^ 64)) = used * hidden_size"
  proof (cases device_tokens)
    case (Some t)
    have "used * hidden_size \<le> num_tokens * hidden_size" using device Some by (intro mult_le_mono1) simp
    then have "used * hidden_size < 2 ^ 64" using fits(1) by linarith
    moreover have "t = int used" using device Some by auto
    ultimately show ?thesis by (simp add: Some flip: of_nat_mult)
  qed (use device in simp)
  have "0 < blocks" by (simp add: blocks_def)
  then show ?thesis using add_any_adds [OF comm n order [unfolded launch(1)]] launch(2) by simp
qed

theorem residual_add_adds_witness:
  "fold (snd (residual_add demo_ops 3 100 of_nat (Some 2))) (rev (fst (residual_add demo_ops 3 100 of_nat (Some 2)))) of_nat 199 = of_nat 398
    \<and> fold (snd (residual_add demo_ops 3 100 of_nat (Some 2))) (rev (fst (residual_add demo_ops 3 100 of_nat (Some 2)))) of_nat 200 = of_nat 200"
proof -
  note adds = residual_add_adds [of demo_ops 3 100 of_nat "Some 2", OF surjective_pairing, of "rev (fst (residual_add demo_ops 3 100 of_nat (Some 2)))" 2 of_nat]
  have comm: "\<forall>x y. b_add demo_ops x y = b_add demo_ops y x" by (simp add: demo_ops_def add.commute)
  show ?thesis using adds [of 199] adds [of 200] comm by (simp add: demo_ops_def)
qed

subsection \<open>The activation\<close>

lemma strided_vectors:
  fixes V :: nat and P :: "nat \<Rightarrow> bool"
  assumes ts: "set ts = {..<num_tokens} \<times> {..<128}" "distinct ts"
  defines "items \<equiv> \<lambda>t. if P (fst t) then map (Pair (fst t)) (strided (snd t) 128 V) else []"
  shows "distinct (concat (map items ts))"
    and "x \<in> set (concat (map items ts)) \<longleftrightarrow> fst x < num_tokens \<and> P (fst x) \<and> snd x < V"
proof -
  have mem: "fst t < num_tokens" "snd t < 128" if "t \<in> set ts" for t using that by (simp_all add: ts(1) mem_Times_iff)
  have item: "x \<in> set (items t) \<longleftrightarrow> P (fst t) \<and> fst x = fst t \<and> snd x < V \<and> snd x mod 128 = snd t" if "t \<in> set ts" for x t
  proof -
    have "snd t \<le> j" if "j mod 128 = snd t" for j using that mod_less_eq_dividend by metis
    then show ?thesis using mem(2) [OF that] by (cases x) (auto simp: items_def strided_set)
  qed
  show "distinct (concat (map items ts))"
  proof (rule distinct_concat_disjoint [OF ts(2)]; intro ballI impI)
    fix t show "distinct (items t)" by (simp add: items_def distinct_map strided_distinct inj_on_def)
  next
    fix t u assume tu: "t \<in> set ts" "u \<in> set ts" "t \<noteq> u"
    then show "set (items t) \<inter> set (items u) = {}" using item [OF tu(1)] item [OF tu(2)] by (auto simp: prod_eq_iff)
  qed
  show "x \<in> set (concat (map items ts)) \<longleftrightarrow> fst x < num_tokens \<and> P (fst x) \<and> snd x < V"
  proof
    assume "x \<in> set (concat (map items ts))"
    then obtain t where "t \<in> set ts" "x \<in> set (items t)" by auto
    then show "fst x < num_tokens \<and> P (fst x) \<and> snd x < V" using item mem by metis
  next
    assume x: "fst x < num_tokens \<and> P (fst x) \<and> snd x < V"
    then have t: "(fst x, snd x mod 128) \<in> set ts" by (simp add: ts(1))
    then have "x \<in> set (items (fst x, snd x mod 128))" using item [OF t] x by simp
    then show "x \<in> set (concat (map items ts))" using t by auto
  qed
qed

lemma swiglu_gates_parts:
  assumes run: "swiglu F num_tokens (2 * half) device_tokens = Inr (threads, thread)" and order: "mset ts = mset threads"
    and fits: "num_tokens * (2 * half) < 2 ^ 32" "2 * half < 2 ^ 32"
  shows "row < num_tokens \<Longrightarrow> valid_row device_tokens row \<Longrightarrow> i < half \<Longrightarrow>
      fold thread ts mem (row * (2 * half) + i) = silu_and_mul F (mem (row * (2 * half) + i)) (mem (row * (2 * half) + half + i))"
    and "\<forall>row < num_tokens. valid_row device_tokens row \<longrightarrow> a < row * (2 * half) \<or> row * (2 * half) + half \<le> a \<Longrightarrow> fold thread ts mem a = mem a"
proof -
  define V where "V = half div 8"
  define W where "W = 2 * half"
  have V: "half = 8 * V" "W = 16 * V" and launch: "threads = launch_threads num_tokens 128" "thread = bf16_swiglu F half device_tokens"
    using run by (auto simp: swiglu_def Let_def V_def W_def split: if_splits)
  let ?items = "\<lambda>t. if valid_row device_tokens (fst t) then map (Pair (fst t)) (strided (snd t) 128 V) else []"
  let ?ad = "\<lambda>x. fst x * W + 8 * snd x"
  let ?val = "\<lambda>x m. map2 (silu_and_mul F) (load_vec m (?ad x)) (load_vec m (half + ?ad x))"
  let ?xs = "concat (map ?items ts)"
  have ts: "set ts = {..<num_tokens} \<times> {..<128}" "distinct ts" using threads_of [OF order [unfolded launch(1)]] by simp_all
  note xs = strided_vectors [where P = "valid_row device_tokens" and V = V, OF ts]
  have "fold thread ts mem = fold (\<lambda>t. fold (\<lambda>x m. store_vec (?ad x, ?val x m) m) (?items t)) ts mem"
  proof (rule fold_cong [OF refl refl])
    fix t assume "t \<in> set ts"
    then have "fst t < num_tokens" by (simp add: ts(1) mem_Times_iff)
    then have "fst t * W \<le> num_tokens * (2 * half)" unfolding W_def by (intro mult_le_mono1) simp
    then have "fst t * W < 2 ^ 32" "W < 2 ^ 32" using fits unfolding W_def by linarith+
    then show "thread t = fold (\<lambda>x m. store_vec (?ad x, ?val x m) m) (?items t)"
      by (simp add: launch(2) bf16_swiglu_def case_prod_beta Let_def u32_id fold_map comp_def add.assoc fun_eq_iff flip: W_def V_def)
  qed
  then have step: "fold thread ts mem = fold (\<lambda>x m. store_vec (?ad x, ?val x m) m) ?xs mem" by (simp only: fold_fold)
  let ?R = "\<lambda>x. {?ad x ..< ?ad x + 8} \<union> {half + ?ad x ..< half + ?ad x + 8}"
  have apart: "\<forall>x \<in> set ?xs. \<forall>y \<in> set ?xs. x \<noteq> y \<longrightarrow> ?R x \<inter> ?R y = {}"
  proof (intro ballI impI)
    fix x y assume xy: "x \<in> set ?xs" "y \<in> set ?xs" "x \<noteq> y"
    have below: "snd x < V" "snd y < V" using xy(1,2) unfolding xs(2) by simp_all
    have up: "half + ?ad z = fst z * W + 8 * (V + snd z)" for z using V(1) by simp
    have "fst x = fst y \<longrightarrow> snd x \<noteq> snd y" using xy(3) by (simp add: prod_eq_iff)
    then have ne: "(fst x, i) \<noteq> (fst y, k)" if "(i, k) \<in> {(snd x, snd y), (V + snd x, V + snd y), (snd x, V + snd y), (V + snd x, snd y)}" for i k
      using that below by auto
    have fit: "8 * i + 8 \<le> W" if "i \<in> {snd x, snd y, V + snd x, V + snd y}" for i using that below V(2) by auto
    note clear = row_items_apart [OF ne fit fit, unfolded insert_iff empty_iff]
    have "{?ad x ..< ?ad x + 8} \<inter> {?ad y ..< ?ad y + 8} = {}" "{half + ?ad x ..< half + ?ad x + 8} \<inter> {half + ?ad y ..< half + ?ad y + 8} = {}"
      "{?ad x ..< ?ad x + 8} \<inter> {half + ?ad y ..< half + ?ad y + 8} = {}" "{half + ?ad x ..< half + ?ad x + 8} \<inter> {?ad y ..< ?ad y + 8} = {}"
      unfolding up by (rule clear; simp)+
    then show "?R x \<inter> ?R y = {}" by (simp only: Int_Un_distrib Int_Un_distrib2 Un_empty_left)
  qed
  show "fold thread ts mem (row * (2 * half) + i) = silu_and_mul F (mem (row * (2 * half) + i)) (mem (row * (2 * half) + half + i))"
    if row: "row < num_tokens" "valid_row device_tokens row" "i < half"
  proof -
    have x: "(row, i div 8) \<in> set ?xs" using row V(1) unfolding xs(2) by auto
    have "fold thread ts mem (?ad (row, i div 8) + i mod 8) = ?val (row, i div 8) mem ! (i mod 8)"
      unfolding step
    proof (rule vectors_inside [where w = "\<lambda>x. 8" and R = ?R, OF _ _ _ apart xs(1) x])
      show "\<forall>x \<in> set ?xs. \<forall>m m'. (\<forall>a \<in> ?R x. m a = m' a) \<longrightarrow> ?val x m = ?val x m'"
      proof (intro ballI allI impI)
        fix x and m m' :: memory assume same: "\<forall>a \<in> ?R x. m a = m' a"
        have "load_vec m (?ad x) = load_vec m' (?ad x)" "load_vec m (half + ?ad x) = load_vec m' (half + ?ad x)"
          using same by (auto intro!: load_vec_cong)
        then show "?val x m = ?val x m'" by simp
      qed
    qed (auto simp del: set_concat)
    then show ?thesis by (simp add: W_def ac_simps)
  qed
  show "fold thread ts mem a = mem a" if free: "\<forall>row < num_tokens. valid_row device_tokens row \<longrightarrow> a < row * (2 * half) \<or> row * (2 * half) + half \<le> a"
  proof -
    have "\<forall>x \<in> set ?xs. \<not> (?ad x \<le> a \<and> a < ?ad x + 8)"
    proof
      fix x assume "x \<in> set ?xs"
      then have x: "fst x < num_tokens" "valid_row device_tokens (fst x)" "snd x < V" unfolding xs(2) by simp_all
      then have "a < fst x * W \<or> fst x * W + half \<le> a" using free unfolding W_def by blast
      then show "\<not> (?ad x \<le> a \<and> a < ?ad x + 8)" using x(3) V(1) by linarith
    qed
    then show ?thesis unfolding step by (intro vectors_outside [where w = "\<lambda>x. 8"]) simp_all
  qed
qed

text \<open>
  The activation kernel gates in place. For an intermediate size divisible by 8, in every order of
  its threads, element \<open>i\<close> of the gate half of each valid row becomes \<open>silu_and_mul\<close> of element \<open>i\<close> of
  the gate half and of the up half; the up half and the other rows stay as they were.
\<close>

theorem swiglu_gates:
  assumes run: "swiglu F num_tokens (2 * half) device_tokens = Inr (threads, thread)" and order: "mset ts = mset threads"
    and fits: "num_tokens * (2 * half) < 2 ^ 32" "2 * half < 2 ^ 32"
  shows "(\<forall>row < num_tokens. valid_row device_tokens row \<longrightarrow> (\<forall>i < half.
      fold thread ts mem (row * (2 * half) + i) = silu_and_mul F (mem (row * (2 * half) + i)) (mem (row * (2 * half) + half + i))))
    \<and> (\<forall>a. (\<forall>row < num_tokens. valid_row device_tokens row \<longrightarrow> a < row * (2 * half) \<or> row * (2 * half) + half \<le> a) \<longrightarrow> fold thread ts mem a = mem a)"
  by (rule conjI; intro allI impI; rule swiglu_gates_parts [OF assms]; assumption)

theorem swiglu_gates_witness:
  "\<exists>threads thread. swiglu demo_ops 3 2048 (Some 2) = Inr (threads, thread)
     \<and> fold thread (rev threads) of_nat 2055 = silu_and_mul demo_ops (of_nat 2055) (of_nat 3079) \<and> fold thread (rev threads) of_nat 3079 = of_nat 3079"
proof -
  obtain threads thread where run: "swiglu demo_ops 3 (2 * 1024) (Some 2) = Inr (threads, thread)" by (simp add: swiglu_def)
  note gates = swiglu_gates [OF run, of "rev threads" of_nat]
  have "fold thread (rev threads) of_nat 2055 = silu_and_mul demo_ops (of_nat 2055) (of_nat 3079)" using gates [THEN conjunct1, rule_format, of 1 7] by (simp add: valid_row_def)
  moreover have "fold thread (rev threads) of_nat 3079 = of_nat 3079" using gates [THEN conjunct2, rule_format, of 3079] by (simp add: valid_row_def)
  ultimately show ?thesis using run by simp
qed

end
