(* ===== verification/Rms_Norm.thy ===== *)
theory Rms_Norm
  imports Rope Elementwise
begin

text \<open>
  The normalisation kernels: csrc/ops/rms_norm.cu, csrc/ops/residual_rms_norm_fused.cu and the fused
  normalisation and rotation of csrc/ops/qk_norm_rope_fused.cu. A row (or a head) is divided by the
  root of the mean of its squares; the squares are added by the threads of a block through warp
  exchanges and shared memory. Addition of floats is not associative: \<open>summed\<close> says that a value is
  the sum of a multiset in some bracketing.
\<close>

definition square_sum :: "Float_Ops \<Rightarrow> bfloat list \<Rightarrow> f32" where
  \<comment> \<open>two chains of \<open>fmaf\<close>, over the elements at even and at odd places\<close>
  "square_sum F xs = (
     let chain = (\<lambda>parity. fold (\<lambda>i sum. f_fma F (to_f F (xs ! i)) (to_f F (xs ! i)) sum) (filter (\<lambda>i. i mod 2 = parity) [0..<length xs]) 0)
     in f_add F (chain 0) (chain 1))"

definition block_sum_butterfly :: "Float_Ops \<Rightarrow> nat \<Rightarrow> (nat \<Rightarrow> f32) \<Rightarrow> f32" where
  \<comment> \<open>lane 0 of each warp stores its sum; every warp adds the \<open>num_warps\<close> sums\<close>
  "block_sum_butterfly F num_warps sums = (
     let smem = (\<lambda>warp. warp_butterfly_reduce_sum F 32 (\<lambda>lane. sums (32 * warp + lane)) 0)
     in warp_butterfly_reduce_sum F num_warps (\<lambda>lane. if lane < num_warps then smem lane else 0) 0)"

definition block_sum_down :: "Float_Ops \<Rightarrow> nat \<Rightarrow> (nat \<Rightarrow> f32) \<Rightarrow> f32" where
  \<comment> \<open>the same with \<open>warp_reduce_sum\<close>; warp 0 adds the \<open>num_warps\<close> sums and zeros\<close>
  "block_sum_down F num_warps sums = (
     let warp_sum_vals = (\<lambda>warp. warp_reduce_sum F (\<lambda>lane. sums (32 * warp + lane)) 0)
     in warp_reduce_sum F (\<lambda>lane. if lane < num_warps then warp_sum_vals lane else 0) 0)"

subsection \<open>The kernels\<close>

definition bf16_rms_norm :: "Float_Ops \<Rightarrow> nat \<Rightarrow> nat \<Rightarrow> memory \<Rightarrow> memory \<Rightarrow> f32 \<Rightarrow> int option \<Rightarrow> nat \<Rightarrow> memory \<Rightarrow> memory" where
  \<comment> \<open>one block; input and output are different buffers\<close>
  "bf16_rms_norm F hidden_size num_warps input weights eps device_tokens row output = (
     let base = u32 (row * hidden_size); reg = (\<lambda>tid. load_vec input (base + 8 * tid));
         sum_val = block_sum_butterfly F num_warps (\<lambda>tid. square_sum F (reg tid));
         factor = f_rsqrt F (f_add F (f_mul F sum_val (f_inverse F hidden_size)) eps)
     in if valid_row device_tokens row
        then fold store_vec (map (\<lambda>tid. (base + 8 * tid, map2 (\<lambda>x w. to_b F (f_mul F (f_mul F factor (to_f F x)) (to_f F w)))
               (reg tid) (load_vec weights (8 * tid)))) [0..<hidden_size div 8]) output
        else output)"

datatype NormError = UnsupportedHiddenSize int | UnsupportedHeads int int int

definition rms_norm :: "Float_Ops \<Rightarrow> nat \<Rightarrow> int \<Rightarrow> memory \<Rightarrow> memory \<Rightarrow> f32 \<Rightarrow> int option \<Rightarrow> NormError + (nat list \<times> (nat \<Rightarrow> memory \<Rightarrow> memory))" where
  "rms_norm F num_tokens hidden_size input weights eps device_tokens =
     (if hidden_size = 1024 then Inr ([0..<num_tokens], bf16_rms_norm F 1024 (1024 div 8 div 32) input weights eps device_tokens)
      else if hidden_size = 2048 then Inr ([0..<num_tokens], bf16_rms_norm F 2048 (2048 div 8 div 32) input weights eps device_tokens)
      else Inl (UnsupportedHiddenSize hidden_size))"

definition bf16_residual_rms_norm_fused :: "Float_Ops \<Rightarrow> nat \<Rightarrow> nat \<Rightarrow> memory \<Rightarrow> f32 \<Rightarrow> int option \<Rightarrow> nat \<Rightarrow> (nat + nat \<Rightarrow> bfloat) \<Rightarrow> nat + nat \<Rightarrow> bfloat" where
  \<comment> \<open>one block; the memory holds both buffers, \<open>Inl\<close> the hidden states and \<open>Inr\<close> the residual\<close>
  "bf16_residual_rms_norm_fused F hidden_size num_warps norm_weights eps device_tokens row mem = (
     let base = u32 (row * hidden_size); num_threads = 32 * num_warps; vectors = (\<lambda>tid. strided tid num_threads (hidden_size div 8));
         reg = (\<lambda>i. map2 (b_add F) (load_vec (mem \<circ> Inl) (base + 8 * i)) (load_vec (mem \<circ> Inr) (base + 8 * i)));
         sum = block_sum_down F num_warps (\<lambda>tid. square_sum F (concat (map reg (vectors tid))));
         factor = f_rsqrt F (f_fma F sum (f_inverse F hidden_size) eps);
         out = (\<lambda>i. map2 (\<lambda>r w. to_b F (f_mul F factor (to_f F (b_mul F r w)))) (reg i) (load_vec norm_weights (i * 8)));
         indices = concat (map vectors [0..<num_threads])
     in if valid_row device_tokens row
        then case_sum (fold store_vec (map (\<lambda>i. (base + 8 * i, out i)) indices) (mem \<circ> Inl))
               (fold store_vec (map (\<lambda>i. (base + 8 * i, reg i)) indices) (mem \<circ> Inr))
        else mem)"

definition residual_rms_norm_fused :: "Float_Ops \<Rightarrow> nat \<Rightarrow> int \<Rightarrow> memory \<Rightarrow> f32 \<Rightarrow> int option
    \<Rightarrow> NormError + (nat list \<times> (nat \<Rightarrow> (nat + nat \<Rightarrow> bfloat) \<Rightarrow> nat + nat \<Rightarrow> bfloat))" where
  "residual_rms_norm_fused F num_rows hidden_size norm_weights eps device_tokens = (
     let num_warps = (\<lambda>size. (min (max (size div 8) 1) 256 + 32 - 1) div 32)
     in if hidden_size = 1024 then Inr ([0..<num_rows], bf16_residual_rms_norm_fused F 1024 (num_warps 1024) norm_weights eps device_tokens)
        else if hidden_size = 2048 then Inr ([0..<num_rows], bf16_residual_rms_norm_fused F 2048 (num_warps 2048) norm_weights eps device_tokens)
        else Inl (UnsupportedHiddenSize hidden_size))"

definition kNumElemsPerBlock :: nat where "kNumElemsPerBlock = 512"

definition norm_rope_lane :: "Float_Ops \<Rightarrow> (nat \<Rightarrow> f32) \<Rightarrow> nat \<Rightarrow> (nat \<Rightarrow> bfloat list) \<Rightarrow> nat \<Rightarrow> bfloat list" where
  \<comment> \<open>the rotation of the lane's four normalised elements with those of the lane 16 further\<close>
  "norm_rope_lane F cos_sin base head lane = (
     let peer = head (lane XOR 16); grp = drop_bit 4 lane; group_lane = lane AND 15;
         cs = map (\<lambda>j. cos_sin (base + 4 * (2 * group_lane) + j)) [0..<4] @ map (\<lambda>j. cos_sin (base + 4 * (2 * group_lane + 1) + j)) [0..<4]
     in map (\<lambda>i. let c = cs ! (2 * i); s = (if grp = 0 then cs ! (2 * i + 1) else f_neg F (cs ! (2 * i + 1)))
          in to_b F (f_sub F (f_mul F (to_f F (head lane ! i)) c) (f_mul F (to_f F (peer ! i)) s))) [0..<4])"

definition norm_head :: "Float_Ops \<Rightarrow> f32 \<Rightarrow> memory \<Rightarrow> (nat \<Rightarrow> bfloat list) \<Rightarrow> nat \<Rightarrow> bfloat list" where
  \<comment> \<open>the normalisation of a head of 128 elements, four per lane\<close>
  "norm_head F eps weights head lane = (
     let sum0 = warp_butterfly_reduce_sum F 32 (\<lambda>lane. square_sum F (head lane));
         factor = f_rsqrt F (f_add F (f_mul F (sum0 0) (f_inverse F 128)) eps)
     in map2 (\<lambda>x w. to_b F (f_mul F (f_mul F factor (to_f F x)) (to_f F w))) (head lane) (map (\<lambda>j. weights (lane * 4 + j)) [0..<4]))"

definition qk_norm_rope_block :: "Float_Ops \<Rightarrow> memory \<Rightarrow> memory \<Rightarrow> (nat \<Rightarrow> f32) \<Rightarrow> (nat \<Rightarrow> nat) \<Rightarrow> nat \<Rightarrow> nat \<Rightarrow> f32 \<Rightarrow> int option
    \<Rightarrow> nat \<times> nat \<Rightarrow> memory \<Rightarrow> memory" where
  \<comment> \<open>\<open>bf16_qk_norm_rope_fused_packedqkv_perheadd128\<close> for one block; a warp per head\<close>
  "qk_norm_rope_block F q_weights k_weights cos_sin positions stride q_size eps device_tokens block qkv = (
     let (row, y) = block; base = u32 (row * stride) + y * kNumElemsPerBlock;
         weights = (if y * kNumElemsPerBlock < q_size then q_weights else k_weights);
         head = (\<lambda>warp lane. map (\<lambda>j. qkv (base + (32 * warp + lane) * 4 + j)) [0..<4]);
         out = (\<lambda>tid. norm_rope_lane F cos_sin (u32 (positions row * 128)) (norm_head F eps weights (head (tid div 32))) (tid mod 32))
     in if valid_row device_tokens row then fold store_vec (map (\<lambda>tid. (base + tid * 4, out tid)) [0..<128]) qkv else qkv)"

definition qk_norm_rope :: "Float_Ops \<Rightarrow> nat \<Rightarrow> nat \<Rightarrow> memory \<Rightarrow> memory \<Rightarrow> (nat \<Rightarrow> f32) \<Rightarrow> (nat \<Rightarrow> nat) \<Rightarrow> nat \<Rightarrow> nat \<Rightarrow> nat \<Rightarrow> f32 \<Rightarrow> int option
    \<Rightarrow> NormError + ((nat \<times> nat) list \<times> (nat \<times> nat \<Rightarrow> memory \<Rightarrow> memory))" where
  "qk_norm_rope F num_tokens stride q_weights k_weights cos_sin positions q_size k_size head_dim eps device_tokens =
     (if q_size mod kNumElemsPerBlock = 0 \<and> k_size mod kNumElemsPerBlock = 0 \<and> head_dim = 128
      then Inr (launch_threads num_tokens ((q_size + k_size) div kNumElemsPerBlock),
        qk_norm_rope_block F q_weights k_weights cos_sin positions stride q_size eps device_tokens)
      else Inl (UnsupportedHeads (int q_size) (int k_size) (int head_dim)))"

subsection \<open>Sums in some bracketing\<close>

inductive summed :: "Float_Ops \<Rightarrow> f32 multiset \<Rightarrow> f32 \<Rightarrow> bool" for F where
  one: "summed F {#x#} x"
| both: "summed F A a \<Longrightarrow> summed F B b \<Longrightarrow> summed F (A + B) (f_add F a b)"

lemma summed_of_sums:
  assumes "summed F (image_mset k M) r" "\<forall>s \<in># M. summed F (G s) (k s)"
  shows "summed F (\<Sum>s \<in># M. G s) r"
  using assms
proof (induction "image_mset k M" r arbitrary: M rule: summed.induct)
  case (one x)
  then obtain s where "M = {#s#}" by (metis size_1_singleton_mset size_image_mset size_single)
  then show ?case using one by auto
next
  case (both A a B b)
  then obtain A' B' where M: "M = A' + B'" "image_mset k A' = A" "image_mset k B' = B" by (metis image_mset_eq_plusD)
  then show ?case using both summed.both by simp
qed

primrec spans :: "nat list \<Rightarrow> nat multiset" where
  "spans [] = {#0#}"
| "spans (m # ms) = spans ms + image_mset (\<lambda>s. s XOR m) (spans ms)"

lemma butterfly_summed: "summed F (image_mset (\<lambda>s. v (l XOR s)) (spans ms)) (butterfly (f_add F) ms v l)"
proof (induction ms arbitrary: v)
  case (Cons m ms)
  let ?k = "\<lambda>s. exchange (f_add F) m v (l XOR s)"
  have "\<forall>s \<in># spans ms. summed F ({#v (l XOR s)#} + {#v (l XOR (s XOR m))#}) (?k s)"
    unfolding exchange_def xor.assoc by (intro ballI summed.intros)
  then have "summed F (\<Sum>s \<in># spans ms. {#v (l XOR s)#} + {#v (l XOR (s XOR m))#}) (butterfly (f_add F) ms (exchange (f_add F) m v) l)"
    by (rule summed_of_sums [OF Cons.IH])
  moreover have "(\<Sum>s \<in># M. {#v (l XOR s)#} + {#v (l XOR (s XOR m))#}) = image_mset (\<lambda>s. v (l XOR s)) M + image_mset (\<lambda>s. v (l XOR s)) (image_mset (\<lambda>s. s XOR m) M)" for M
    by (induction M) simp_all
  ultimately show ?case by simp
qed (simp add: summed.one)

lemma spans_of_warp: "spans [16, 8, 4, 2, 1] = mset [0..<32]" "spans [4, 2, 1] = mset [0..<8]" "spans [2, 1] = mset [0..<4]"
  by code_simp+

lemma warp_summed:
  "summed F (image_mset v (mset [0..<32])) (warp_butterfly_reduce_sum F 32 v 0)"
  "summed F (image_mset v (mset [0..<8])) (warp_butterfly_reduce_sum F 8 v 0)"
  "summed F (image_mset v (mset [0..<4])) (warp_butterfly_reduce_sum F 4 v 0)"
  unfolding warp_butterfly_reduce_sum_def halvings_eval
  using butterfly_summed [of F v 0 "[16, 8, 4, 2, 1]"] butterfly_summed [of F v 0 "[4, 2, 1]"] butterfly_summed [of F v 0 "[2, 1]"]
  unfolding spans_of_warp by (simp_all only: xor.left_neutral)

lemma down_is_butterfly: "warp_reduce_sum F v 0 = warp_butterfly_reduce_sum F 32 v 0"
  by (simp add: warp_reduce_sum_def warp_butterfly_reduce_sum_def halvings_eval exchange_def del: One_nat_def add_2_eq_Suc add_2_eq_Suc')

lemma lanes_of_warps: "(\<Sum>w \<in># mset [0..<n]. image_mset (\<lambda>l. f (32 * w + l)) (mset [0..<32])) = image_mset f (mset [0..<32 * n])"
proof (induction n)
  case (Suc n)
  have "[0..<32 * Suc n] = [0..<32 * n] @ map (\<lambda>l. l + 32 * n) [0..<32]"
    unfolding map_add_upt using upt_add_eq_append [of 0 "32 * n" 32] by (simp only: mult_Suc_right add.commute [of 32] zero_order add.left_neutral le0)
  then show ?case using Suc by (simp add: image_mset.compositionality comp_def add.commute del: upt_rec_numeral)
qed simp

lemma block_butterfly_summed:
  assumes "num_warps = 4 \<or> num_warps = 8"
  shows "summed F (image_mset sums (mset [0..<32 * num_warps])) (block_sum_butterfly F num_warps sums)"
proof -
  let ?smem = "\<lambda>warp. warp_butterfly_reduce_sum F 32 (\<lambda>lane. sums (32 * warp + lane)) 0"
  let ?v = "\<lambda>lane. if lane < num_warps then ?smem lane else 0"
  have "summed F (image_mset ?v (mset [0..<num_warps])) (block_sum_butterfly F num_warps sums)"
    using assms warp_summed(2,3) [of F ?v] unfolding block_sum_butterfly_def Let_def by (elim disjE) simp_all
  moreover have "image_mset ?v (mset [0..<num_warps]) = image_mset ?smem (mset [0..<num_warps])" by (intro image_mset_cong) simp
  ultimately have "summed F (image_mset ?smem (mset [0..<num_warps])) (block_sum_butterfly F num_warps sums)" by simp
  then have "summed F (\<Sum>w \<in># mset [0..<num_warps]. image_mset (\<lambda>lane. sums (32 * w + lane)) (mset [0..<32])) (block_sum_butterfly F num_warps sums)"
    by (rule summed_of_sums) (intro ballI warp_summed(1))
  then show ?thesis unfolding lanes_of_warps .
qed

lemma block_down_summed:
  assumes "num_warps \<le> 32"
  shows "summed F (image_mset sums (mset [0..<32 * num_warps]) + replicate_mset (32 - num_warps) 0) (block_sum_down F num_warps sums)"
proof -
  let ?vals = "\<lambda>warp. warp_butterfly_reduce_sum F 32 (\<lambda>lane. sums (32 * warp + lane)) 0"
  let ?v = "\<lambda>lane. if lane < num_warps then ?vals lane else 0"
  let ?G = "\<lambda>w. if w < num_warps then image_mset (\<lambda>lane. sums (32 * w + lane)) (mset [0..<32]) else {#0#}"
  have "summed F (image_mset ?v (mset [0..<32])) (block_sum_down F num_warps sums)"
    unfolding block_sum_down_def Let_def down_is_butterfly by (rule warp_summed(1))
  moreover have "\<forall>w \<in># mset [0..<32]. summed F (?G w) (?v w)" using warp_summed(1) summed.one by simp
  ultimately have "summed F (\<Sum>w \<in># mset [0..<32]. ?G w) (block_sum_down F num_warps sums)" by (rule summed_of_sums)
  moreover have "mset [0..<32] = mset [0..<num_warps] + mset [num_warps..<32]"
    using upt_add_eq_append [of 0 num_warps "32 - num_warps"] assms by (simp del: upt_rec_numeral)
  moreover have "(\<Sum>w \<in># mset [0..<num_warps]. ?G w) = image_mset sums (mset [0..<32 * num_warps])"
    unfolding lanes_of_warps [symmetric] by (intro arg_cong [where f = sum_mset] image_mset_cong) simp
  moreover have "(\<Sum>w \<in># mset [num_warps..<n]. ?G w) = replicate_mset (n - num_warps) 0" for n
    by (induction n) (auto simp: Suc_diff_le)
  ultimately show ?thesis by simp
qed

subsection \<open>What a block stores\<close>

lemma block_stores:
  fixes w T base :: nat and mem :: "nat \<Rightarrow> 'v"
  assumes len: "\<forall>tid < T. length (out tid) = w"
  defines "after \<equiv> fold store_vec (map (\<lambda>tid. (base + w * tid, out tid)) [0..<T]) mem"
  shows "tid < T \<Longrightarrow> j < w \<Longrightarrow> after (base + w * tid + j) = out tid ! j"
    and "a < base \<or> base + w * T \<le> a \<Longrightarrow> after a = mem a"
proof -
  show "after (base + w * tid + j) = out tid ! j" if "tid < T" "j < w"
    unfolding after_def
  proof (rule store_vecs_inside)
    show "(base + w * tid, out tid) \<in> set (map (\<lambda>tid. (base + w * tid, out tid)) [0..<T])" using that by auto
  next
    show "\<forall>u \<in> set (map (\<lambda>tid. (base + w * tid, out tid)) [0..<T]). fst u \<le> base + w * tid + j \<and> base + w * tid + j < fst u + length (snd u)
        \<longrightarrow> snd u ! (base + w * tid + j - fst u) = out tid ! j"
    proof (intro ballI impI)
      fix u assume u: "u \<in> set (map (\<lambda>tid. (base + w * tid, out tid)) [0..<T])" "fst u \<le> base + w * tid + j \<and> base + w * tid + j < fst u + length (snd u)"
      from u(1) obtain t where t: "u = (base + w * t, out t)" "t < T" unfolding set_map set_upt by (elim imageE) (use atLeastLessThan_iff in blast)
      then have "w * t \<le> w * tid + j" "w * tid + j < w * t + w" using u(2) len by simp_all
      then have "(w * tid + j) div w = t" by (intro div_nat_eqI) (simp_all add: mult.commute)
      moreover have "(w * tid + j) div w = tid" using that(2) by (intro div_nat_eqI) (simp_all add: mult.commute)
      ultimately show "snd u ! (base + w * tid + j - fst u) = out tid ! j" using t(1) by simp
    qed
  qed (use that len in simp_all)
  show "after a = mem a" if "a < base \<or> base + w * T \<le> a"
    unfolding after_def
  proof (rule store_vecs_outside, intro ballI notI)
    fix u assume u: "u \<in> set (map (\<lambda>tid. (base + w * tid, out tid)) [0..<T])" "fst u \<le> a \<and> a < fst u + length (snd u)"
    from u(1) obtain t where t: "u = (base + w * t, out t)" "t < T" unfolding set_map set_upt by (elim imageE) (use atLeastLessThan_iff in blast)
    have "w * t + w \<le> w * T" using mult_le_mono2 [of "t + 1" T w] t(2) by simp
    then show False using u(2) t len that by auto
  qed
qed

lemma rows_apart:
  fixes b c W :: nat
  assumes "b \<noteq> c"
  shows "{b * W ..< b * W + W} \<inter> {c * W ..< c * W + W} = {}"
proof -
  consider "b + 1 \<le> c" | "c + 1 \<le> b" using assms by linarith
  then show ?thesis
  proof cases
    case 1
    then show ?thesis using mult_le_mono1 [OF 1, of W] by auto
  next
    case 2
    then show ?thesis using mult_le_mono1 [OF 2, of W] by auto
  qed
qed

lemma rows_of: "mset bs = mset [0..<n] \<Longrightarrow> set bs = {..<n} \<and> distinct bs"
  using mset_eq_setD [of bs "[0..<n]"] mset_eq_imp_distinct_iff [of bs "[0..<n]"] by (auto simp: lessThan_atLeast0)

subsection \<open>The norm of a row\<close>

definition row_vectors_of :: "memory \<Rightarrow> nat \<Rightarrow> nat \<Rightarrow> bfloat list list" where
  \<comment> \<open>the vectors of a row, one per thread\<close>
  "row_vectors_of m base n = map (\<lambda>tid. load_vec m (base + 8 * tid)) [0..<n div 8]"

lemma rms_norm_block:
  fixes F :: Float_Ops and input weights :: memory and eps :: f32 and device_tokens :: "int option" and row hidden_size :: nat
  assumes size: "hidden_size = 1024 \<or> hidden_size = 2048" and fits: "row * hidden_size < 2 ^ 32"
  defines "after \<equiv> \<lambda>dest. bf16_rms_norm F hidden_size (hidden_size div 8 div 32) input weights eps device_tokens row dest"
  shows "local_block after {row * hidden_size ..< row * hidden_size + hidden_size}"
    and "\<not> valid_row device_tokens row \<Longrightarrow> after dest = dest"
    and "valid_row device_tokens row \<Longrightarrow> \<exists>total. summed F (image_mset (square_sum F) (mset (row_vectors_of input (row * hidden_size) hidden_size))) total
      \<and> (\<forall>i < hidden_size. after dest (row * hidden_size + i) =
           to_b F (f_mul F (f_mul F (f_rsqrt F (f_add F (f_mul F total (f_inverse F hidden_size)) eps)) (to_f F (input (row * hidden_size + i)))) (to_f F (weights i))))"
proof -
  define nw where "nw = hidden_size div 8 div 32"
  have nw: "nw = 4 \<or> nw = 8" "32 * nw = hidden_size div 8" "8 * (hidden_size div 8) = hidden_size" using size by (auto simp: nw_def)
  let ?base = "row * hidden_size"
  let ?reg = "\<lambda>tid. load_vec input (?base + 8 * tid)"
  define total where "total = block_sum_butterfly F nw (\<lambda>tid. square_sum F (?reg tid))"
  define factor where "factor = f_rsqrt F (f_add F (f_mul F total (f_inverse F hidden_size)) eps)"
  let ?out = "\<lambda>tid. map2 (\<lambda>x w. to_b F (f_mul F (f_mul F factor (to_f F x)) (to_f F w))) (?reg tid) (load_vec weights (8 * tid))"
  have after: "after dest = (if valid_row device_tokens row
      then fold store_vec (map (\<lambda>tid. (?base + 8 * tid, ?out tid)) [0..<hidden_size div 8]) dest else dest)" for dest
    by (simp only: after_def bf16_rms_norm_def u32_id [OF fits] Let_def nw_def [symmetric] total_def [symmetric] factor_def [symmetric])
  have stores: "after dest (?base + i) = ?out (i div 8) ! (i mod 8)" if "valid_row device_tokens row" "i < hidden_size" for i dest
  proof -
    have "i div 8 < hidden_size div 8" using that(2) nw(3) by (metis less_mult_imp_div_less mult.commute)
    then show ?thesis using that(1) block_stores(1) [of "hidden_size div 8" ?out 8 "i div 8" "i mod 8" ?base dest] by (simp add: after add.commute)
  qed
  have outside: "after dest a = dest a" if "a < ?base \<or> ?base + hidden_size \<le> a" for dest a
    using block_stores(2) [of "hidden_size div 8" ?out 8 a ?base dest] that nw(3) by (simp add: after)
  show "local_block after {?base ..< ?base + hidden_size}"
    unfolding local_block_def
  proof (intro conjI allI impI ballI)
    fix a and m :: memory assume "a \<notin> {?base ..< ?base + hidden_size}"
    then show "after m a = m a" by (intro outside) auto
  next
    fix a and m m' :: memory assume "\<forall>a \<in> {?base ..< ?base + hidden_size}. m a = m' a" and a: "a \<in> {?base ..< ?base + hidden_size}"
    then show "after m a = after m' a"
      using stores [of "a - ?base" m] stores [of "a - ?base" m'] by (cases "valid_row device_tokens row") (auto simp: after)
  qed
  show "\<not> valid_row device_tokens row \<Longrightarrow> after dest = dest" by (simp add: after)
  show "\<exists>total. summed F (image_mset (square_sum F) (mset (row_vectors_of input ?base hidden_size))) total
      \<and> (\<forall>i < hidden_size. after dest (?base + i) =
           to_b F (f_mul F (f_mul F (f_rsqrt F (f_add F (f_mul F total (f_inverse F hidden_size)) eps)) (to_f F (input (?base + i)))) (to_f F (weights i))))"
    if "valid_row device_tokens row"
  proof (intro exI [of _ total] conjI allI impI)
    have "image_mset (square_sum F) (mset (row_vectors_of input ?base hidden_size)) = image_mset (\<lambda>tid. square_sum F (?reg tid)) (mset [0..<32 * nw])"
      by (simp add: row_vectors_of_def nw(2) image_mset.compositionality comp_def)
    then show "summed F (image_mset (square_sum F) (mset (row_vectors_of input ?base hidden_size))) total"
      unfolding total_def using block_butterfly_summed [OF nw(1), of F "\<lambda>tid. square_sum F (?reg tid)"] by simp
  next
    fix i assume "i < hidden_size"
    then show "after dest (?base + i) = to_b F (f_mul F (f_mul F (f_rsqrt F (f_add F (f_mul F total (f_inverse F hidden_size)) eps)) (to_f F (input (?base + i)))) (to_f F (weights i)))"
      using stores [OF that] by (simp add: factor_def add.assoc)
  qed
qed

lemma rms_norm_rows_parts:
  assumes run: "rms_norm F num_tokens (int hidden_size) input weights eps device_tokens = Inr (grid, block)" and order: "mset bs = mset grid"
    and fits: "num_tokens * hidden_size \<le> 2 ^ 32"
  shows "row < num_tokens \<Longrightarrow> valid_row device_tokens row \<Longrightarrow>
      \<exists>total. summed F (image_mset (square_sum F) (mset (row_vectors_of input (row * hidden_size) hidden_size))) total
      \<and> (\<forall>i < hidden_size. fold block bs dest (row * hidden_size + i) =
           to_b F (f_mul F (f_mul F (f_rsqrt F (f_add F (f_mul F total (f_inverse F hidden_size)) eps)) (to_f F (input (row * hidden_size + i)))) (to_f F (weights i))))"
    and "\<forall>row < num_tokens. valid_row device_tokens row \<longrightarrow> a < row * hidden_size \<or> row * hidden_size + hidden_size \<le> a \<Longrightarrow> fold block bs dest a = dest a"
proof -
  have size: "hidden_size = 1024 \<or> hidden_size = 2048" and launch: "grid = [0..<num_tokens]"
    "block = bf16_rms_norm F hidden_size (hidden_size div 8 div 32) input weights eps device_tokens"
    using run by (auto simp: rms_norm_def split: if_splits)
  have bs: "set bs = {..<num_tokens}" "distinct bs" using rows_of [OF order [unfolded launch(1)]] by simp_all
  have row_fits: "row * hidden_size < 2 ^ 32" if "row < num_tokens" for row using row_start_fits [OF fits that] size by auto
  note one = rms_norm_block [OF size row_fits, where F = F and input = input and weights = weights and eps = eps and device_tokens = device_tokens, folded launch(2)]
  let ?R = "\<lambda>row. {row * hidden_size ..< row * hidden_size + hidden_size}"
  have loc: "\<forall>row \<in> set bs. local_block (block row) (?R row)" using one(1) bs(1) by simp
  have apart: "\<forall>b \<in> set bs. \<forall>c \<in> set bs. b \<noteq> c \<longrightarrow> ?R b \<inter> ?R c = {}" using rows_apart by blast
  show "\<exists>total. summed F (image_mset (square_sum F) (mset (row_vectors_of input (row * hidden_size) hidden_size))) total
      \<and> (\<forall>i < hidden_size. fold block bs dest (row * hidden_size + i) =
           to_b F (f_mul F (f_mul F (f_rsqrt F (f_add F (f_mul F total (f_inverse F hidden_size)) eps)) (to_f F (input (row * hidden_size + i)))) (to_f F (weights i))))"
    if row: "row < num_tokens" "valid_row device_tokens row"
  proof -
    have "fold block bs dest (row * hidden_size + i) = block row dest (row * hidden_size + i)" if "i < hidden_size" for i
      by (rule grid_inside [OF loc apart bs(2)]) (use row(1) bs(1) that in auto)
    then show ?thesis using one(3) [OF row, of dest] by simp
  qed
  show "fold block bs dest a = dest a" if free: "\<forall>row < num_tokens. valid_row device_tokens row \<longrightarrow> a < row * hidden_size \<or> row * hidden_size + hidden_size \<le> a"
    by (rule grid_idle [where active = "valid_row device_tokens", OF loc]) (use one(2) free bs(1) in \<open>auto simp: not_less\<close>)
qed

text \<open>
  C37: The normalisation kernel scales every row by one factor. In every order of its blocks, each
  element of a valid row becomes factor * x * weight, where factor is the reciprocal root of the mean of
  the squares plus \<open>eps\<close>: a total into which every vector of the row enters exactly once. No other
  element changes.
\<close>

theorem rms_norm_rows:
  assumes run: "rms_norm F num_tokens (int hidden_size) input weights eps device_tokens = Inr (grid, block)" and order: "mset bs = mset grid"
    and fits: "num_tokens * hidden_size \<le> 2 ^ 32"
  shows "(\<forall>row < num_tokens. valid_row device_tokens row \<longrightarrow>
      (\<exists>total. summed F (image_mset (square_sum F) (mset (row_vectors_of input (row * hidden_size) hidden_size))) total
      \<and> (\<forall>i < hidden_size. fold block bs dest (row * hidden_size + i) =
           to_b F (f_mul F (f_mul F (f_rsqrt F (f_add F (f_mul F total (f_inverse F hidden_size)) eps)) (to_f F (input (row * hidden_size + i)))) (to_f F (weights i))))))
    \<and> (\<forall>a. (\<forall>row < num_tokens. valid_row device_tokens row \<longrightarrow> a < row * hidden_size \<or> row * hidden_size + hidden_size \<le> a) \<longrightarrow> fold block bs dest a = dest a)"
  by (rule conjI; intro allI impI; rule rms_norm_rows_parts [OF assms]; assumption)

theorem rms_norm_rows_witness:
  "\<exists>grid block total. rms_norm demo_ops 3 1024 of_nat (\<lambda>i. 1) 5 (Some 2) = Inr (grid, block)
     \<and> summed demo_ops (image_mset (square_sum demo_ops) (mset (row_vectors_of of_nat 1024 1024))) total
     \<and> fold block (rev grid) (\<lambda>a. 0) 1030 = to_b demo_ops (f_mul demo_ops (f_mul demo_ops (f_rsqrt demo_ops (f_add demo_ops (f_mul demo_ops total (f_inverse demo_ops 1024)) 5))
         (to_f demo_ops (of_nat 1030))) (to_f demo_ops 1))
     \<and> fold block (rev grid) (\<lambda>a. 0) 2048 = 0"
proof -
  obtain grid block where run: "rms_norm demo_ops 3 (int 1024) of_nat (\<lambda>i. 1) 5 (Some 2) = Inr (grid, block)" by (simp add: rms_norm_def)
  note rows = rms_norm_rows [OF run, of "rev grid" "\<lambda>a. 0"]
  have "valid_row (Some 2) 1" by (simp add: valid_row_def)
  then obtain total where total: "summed demo_ops (image_mset (square_sum demo_ops) (mset (row_vectors_of of_nat (1 * 1024) 1024))) total"
    "\<forall>i < 1024. fold block (rev grid) (\<lambda>a. 0) (1 * 1024 + i) = to_b demo_ops (f_mul demo_ops (f_mul demo_ops (f_rsqrt demo_ops (f_add demo_ops (f_mul demo_ops total (f_inverse demo_ops 1024)) 5))
         (to_f demo_ops (of_nat (1 * 1024 + i)))) (to_f demo_ops 1))"
    using rows [THEN conjunct1, rule_format, of 1] by auto
  have "fold block (rev grid) (\<lambda>a. 0) 2048 = 0" using rows [THEN conjunct2, rule_format, of 2048] by (simp add: valid_row_def)
  moreover have "fold block (rev grid) (\<lambda>a. 0) 1030 = to_b demo_ops (f_mul demo_ops (f_mul demo_ops (f_rsqrt demo_ops (f_add demo_ops (f_mul demo_ops total (f_inverse demo_ops 1024)) 5))
         (to_f demo_ops (of_nat 1030))) (to_f demo_ops 1))"
    using total(2) [rule_format, of 6] by simp
  ultimately show ?thesis using run total(1) by auto
qed

subsection \<open>The fused addition and norm\<close>

definition sum_vectors_of :: "Float_Ops \<Rightarrow> (nat + nat \<Rightarrow> bfloat) \<Rightarrow> nat \<Rightarrow> nat \<Rightarrow> bfloat list list" where
  \<comment> \<open>the vectors of hidden + residual of a row\<close>
  "sum_vectors_of F mem base n = map (\<lambda>i. map2 (b_add F) (load_vec (mem \<circ> Inl) (base + 8 * i)) (load_vec (mem \<circ> Inr) (base + 8 * i))) [0..<n div 8]"

lemma strided_once: "tid < T \<Longrightarrow> strided tid T T = [tid]"
  by (subst strided.simps) (simp add: strided.simps [of "tid + T"])

lemma residual_rms_norm_block:
  fixes F :: Float_Ops and weights :: memory and eps :: f32 and device_tokens :: "int option" and row hidden_size nw :: nat
  assumes nw: "nw = 4 \<or> nw = 8" "hidden_size = 256 * nw" and fits: "row * hidden_size < 2 ^ 32"
  defines "after \<equiv> bf16_residual_rms_norm_fused F hidden_size nw weights eps device_tokens row"
    and "R \<equiv> {row * hidden_size ..< row * hidden_size + hidden_size}"
  shows "local_block after (Inl ` R \<union> Inr ` R)"
    and "\<not> valid_row device_tokens row \<Longrightarrow> after mem = mem"
    and "valid_row device_tokens row \<Longrightarrow> \<exists>total. summed F (image_mset (square_sum F) (mset (sum_vectors_of F mem (row * hidden_size) hidden_size)) + replicate_mset (32 - nw) 0) total
      \<and> (\<forall>a \<in> R. let r = b_add F (mem (Inl a)) (mem (Inr a)) in after mem (Inr a) = r
           \<and> after mem (Inl a) = to_b F (f_mul F (f_rsqrt F (f_fma F total (f_inverse F hidden_size) eps)) (to_f F (b_mul F r (weights (a - row * hidden_size))))))"
proof -
  define T where "T = hidden_size div 8"
  have T: "32 * nw = T" "hidden_size = 8 * T" using nw(2) by (simp_all add: T_def)
  let ?base = "row * hidden_size"
  define reg where "reg = (\<lambda>mem i. map2 (b_add F) (load_vec (mem \<circ> Inl) (?base + 8 * i)) (load_vec (mem \<circ> Inr) (?base + 8 * i)))"
  define total where "total = (\<lambda>mem. block_sum_down F nw (\<lambda>tid. square_sum F (if tid < T then reg mem tid else [])))"
  define factor where "factor = (\<lambda>mem. f_rsqrt F (f_fma F (total mem) (f_inverse F hidden_size) eps))"
  define dest where "dest = (\<lambda>mem i. map2 (\<lambda>r w. to_b F (f_mul F (factor mem) (to_f F (b_mul F r w)))) (reg mem i) (load_vec weights (i * 8)))"
  have lens: "length (reg mem i) = 8" "length (dest mem i) = 8" for mem i by (simp_all add: reg_def dest_def)
  have vectors: "concat (map f (strided tid T T)) = (if tid < T then f tid else [])" for f :: "nat \<Rightarrow> bfloat list" and tid
    using strided_once [of tid T] by (simp add: strided.simps [of tid])
  have indices: "concat (map (\<lambda>tid. strided tid T T) [0..<T]) = [0..<T]"
  proof -
    have "map (\<lambda>tid. strided tid T T) [0..<T] = map (\<lambda>tid. [tid]) [0..<T]" by (intro map_cong refl) (simp add: strided_once)
    then show ?thesis by (simp only: concat_map_singleton map_ident)
  qed
  have after: "after mem = (if valid_row device_tokens row
      then case_sum (fold store_vec (map (\<lambda>i. (?base + 8 * i, dest mem i)) [0..<T]) (mem \<circ> Inl)) (fold store_vec (map (\<lambda>i. (?base + 8 * i, reg mem i)) [0..<T]) (mem \<circ> Inr))
      else mem)" for mem
    unfolding after_def bf16_residual_rms_norm_fused_def u32_id [OF fits] Let_def T(1) T_def [symmetric] vectors indices
    by (simp only: reg_def total_def factor_def dest_def)
  have place: "(a - ?base) div 8 < T" "?base + 8 * ((a - ?base) div 8) + (a - ?base) mod 8 = a" if "a \<in> R" for a
    using that T(2) by (auto simp: R_def)
  have inside: "after mem (Inl a) = dest mem ((a - ?base) div 8) ! ((a - ?base) mod 8)" "after mem (Inr a) = reg mem ((a - ?base) div 8) ! ((a - ?base) mod 8)"
    if "valid_row device_tokens row" "a \<in> R" for mem a
    using block_stores(1) [of T "dest mem" 8 "(a - ?base) div 8" "(a - ?base) mod 8" ?base "mem \<circ> Inl"]
      block_stores(1) [of T "reg mem" 8 "(a - ?base) div 8" "(a - ?base) mod 8" ?base "mem \<circ> Inr"] place [OF that(2)] that(1) lens
    by (simp_all add: after)
  have outside: "after mem (Inl a) = mem (Inl a)" "after mem (Inr a) = mem (Inr a)" if "a \<notin> R" for mem a
    using block_stores(2) [of T "dest mem" 8 a ?base "mem \<circ> Inl"] block_stores(2) [of T "reg mem" 8 a ?base "mem \<circ> Inr"] that lens T(2)
    by (auto simp: after R_def not_le not_less)
  show "local_block after (Inl ` R \<union> Inr ` R)"
    unfolding local_block_def
  proof (intro conjI allI impI ballI)
    fix m :: "nat + nat \<Rightarrow> bfloat" and a assume "a \<notin> Inl ` R \<union> Inr ` R"
    then show "after m a = m a" using outside by (cases a) (simp_all add: image_iff)
  next
    fix m m' :: "nat + nat \<Rightarrow> bfloat" and a assume same: "\<forall>a \<in> Inl ` R \<union> Inr ` R. m a = m' a" and a: "a \<in> Inl ` R \<union> Inr ` R"
    show "after m a = after m' a"
    proof (cases "valid_row device_tokens row")
      case True
      have regs: "reg m i = reg m' i" if "i < T" for i
      proof -
        have "{?base + 8 * i ..< ?base + 8 * i + 8} \<subseteq> R" using that T(2) by (auto simp: R_def)
        then have "load_vec (m \<circ> Inl) (?base + 8 * i) = load_vec (m' \<circ> Inl) (?base + 8 * i)" "load_vec (m \<circ> Inr) (?base + 8 * i) = load_vec (m' \<circ> Inr) (?base + 8 * i)"
          using same by (intro load_vec_cong; auto)+
        then show ?thesis by (simp add: reg_def)
      qed
      have "(\<lambda>tid. square_sum F (if tid < T then reg m tid else [])) = (\<lambda>tid. square_sum F (if tid < T then reg m' tid else []))" using regs by auto
      then have "factor m = factor m'" by (simp add: factor_def total_def)
      then have "dest m i = dest m' i" if "i < T" for i using regs that by (simp add: dest_def)
      then show ?thesis using a inside [OF True] regs place(1) by auto
    qed (use same a in \<open>simp add: after\<close>)
  qed
  show "\<not> valid_row device_tokens row \<Longrightarrow> after mem = mem" by (simp add: after)
  show "\<exists>total. summed F (image_mset (square_sum F) (mset (sum_vectors_of F mem ?base hidden_size)) + replicate_mset (32 - nw) 0) total
      \<and> (\<forall>a \<in> R. let r = b_add F (mem (Inl a)) (mem (Inr a)) in after mem (Inr a) = r
           \<and> after mem (Inl a) = to_b F (f_mul F (f_rsqrt F (f_fma F total (f_inverse F hidden_size) eps)) (to_f F (b_mul F r (weights (a - ?base))))))"
    if "valid_row device_tokens row"
  proof (intro exI [of _ "total mem"] conjI ballI)
    have "image_mset (square_sum F) (mset (sum_vectors_of F mem ?base hidden_size)) = image_mset (\<lambda>tid. square_sum F (if tid < T then reg mem tid else [])) (mset [0..<32 * nw])"
      unfolding T(1) sum_vectors_of_def mset_map image_mset.compositionality T_def [symmetric] by (intro image_mset_cong) (simp add: reg_def)
    moreover have "nw \<le> 32" using nw(1) by auto
    ultimately show "summed F (image_mset (square_sum F) (mset (sum_vectors_of F mem ?base hidden_size)) + replicate_mset (32 - nw) 0) (total mem)"
      unfolding total_def using block_down_summed [of nw F "\<lambda>tid. square_sum F (if tid < T then reg mem tid else [])"] by simp
  next
    fix a assume a: "a \<in> R"
    have e: "(a - ?base) div 8 * 8 + (a - ?base) mod 8 = a - ?base" by simp
    have "reg mem ((a - ?base) div 8) ! ((a - ?base) mod 8) = b_add F (mem (Inl a)) (mem (Inr a))"
      using place(2) [OF a] by (simp add: reg_def)
    moreover from this have "dest mem ((a - ?base) div 8) ! ((a - ?base) mod 8) = to_b F (f_mul F (factor mem) (to_f F (b_mul F (b_add F (mem (Inl a)) (mem (Inr a))) (weights (a - ?base)))))"
      unfolding dest_def using lens(1) by (simp add: e)
    ultimately show "let r = b_add F (mem (Inl a)) (mem (Inr a)) in after mem (Inr a) = r
           \<and> after mem (Inl a) = to_b F (f_mul F (f_rsqrt F (f_fma F (total mem) (f_inverse F hidden_size) eps)) (to_f F (b_mul F r (weights (a - ?base)))))"
      using inside [OF that a] by (simp add: Let_def factor_def)
  qed
qed

lemma residual_rms_norm_rows_parts:
  assumes run: "residual_rms_norm_fused F num_rows (int hidden_size) weights eps device_tokens = Inr (grid, block)" and order: "mset bs = mset grid"
    and fits: "num_rows * hidden_size \<le> 2 ^ 32"
  shows "row < num_rows \<Longrightarrow> valid_row device_tokens row \<Longrightarrow>
      \<exists>total. summed F (image_mset (square_sum F) (mset (sum_vectors_of F mem (row * hidden_size) hidden_size)) + replicate_mset (32 - hidden_size div 256) 0) total
      \<and> (\<forall>a \<in> {row * hidden_size ..< row * hidden_size + hidden_size}. let r = b_add F (mem (Inl a)) (mem (Inr a)) in fold block bs mem (Inr a) = r
           \<and> fold block bs mem (Inl a) = to_b F (f_mul F (f_rsqrt F (f_fma F total (f_inverse F hidden_size) eps)) (to_f F (b_mul F r (weights (a - row * hidden_size))))))"
    and "\<forall>row < num_rows. valid_row device_tokens row \<longrightarrow> a < row * hidden_size \<or> row * hidden_size + hidden_size \<le> a
      \<Longrightarrow> fold block bs mem (Inl a) = mem (Inl a) \<and> fold block bs mem (Inr a) = mem (Inr a)"
proof -
  define nw where "nw = hidden_size div 256"
  have size: "nw = 4 \<or> nw = 8" "hidden_size = 256 * nw" and launch: "grid = [0..<num_rows]"
    "block = bf16_residual_rms_norm_fused F hidden_size nw weights eps device_tokens"
    using run by (auto simp: residual_rms_norm_fused_def Let_def nw_def split: if_splits)
  have bs: "set bs = {..<num_rows}" "distinct bs" using rows_of [OF order [unfolded launch(1)]] by simp_all
  have row_fits: "row * hidden_size < 2 ^ 32" if "row < num_rows" for row using row_start_fits [OF fits that] size by auto
  note one = residual_rms_norm_block [OF size row_fits, where F = F and weights = weights and eps = eps and device_tokens = device_tokens, folded launch(2)]
  let ?I = "\<lambda>row. {row * hidden_size ..< row * hidden_size + hidden_size}"
  let ?R = "\<lambda>row. Inl ` ?I row \<union> Inr ` ?I row :: (nat + nat) set"
  have loc: "\<forall>row \<in> set bs. local_block (block row) (?R row)" using one(1) bs(1) by simp
  have apart: "\<forall>b \<in> set bs. \<forall>c \<in> set bs. b \<noteq> c \<longrightarrow> ?R b \<inter> ?R c = {}"
  proof (intro ballI impI)
    fix b c :: nat assume "b \<noteq> c"
    then have "?I b \<inter> ?I c = {}" by (rule rows_apart)
    then show "?R b \<inter> ?R c = {}" by blast
  qed
  show "\<exists>total. summed F (image_mset (square_sum F) (mset (sum_vectors_of F mem (row * hidden_size) hidden_size)) + replicate_mset (32 - hidden_size div 256) 0) total
      \<and> (\<forall>a \<in> ?I row. let r = b_add F (mem (Inl a)) (mem (Inr a)) in fold block bs mem (Inr a) = r
           \<and> fold block bs mem (Inl a) = to_b F (f_mul F (f_rsqrt F (f_fma F total (f_inverse F hidden_size) eps)) (to_f F (b_mul F r (weights (a - row * hidden_size))))))"
    if row: "row < num_rows" "valid_row device_tokens row"
  proof -
    have "fold block bs mem x = block row mem x" if "x \<in> ?R row" for x
      by (rule grid_inside [OF loc apart bs(2) _ that]) (use row(1) bs(1) in simp)
    then show ?thesis using one(3) [OF row, of mem] by (simp add: Let_def nw_def)
  qed
  show "fold block bs mem (Inl a) = mem (Inl a) \<and> fold block bs mem (Inr a) = mem (Inr a)"
    if free: "\<forall>row < num_rows. valid_row device_tokens row \<longrightarrow> a < row * hidden_size \<or> row * hidden_size + hidden_size \<le> a"
  proof -
    have idle: "\<forall>row \<in> set bs. \<not> valid_row device_tokens row \<longrightarrow> (\<forall>m. block row m = m)" using one(2) bs(1) by simp
    have "a \<notin> ?I row" if "row \<in> set bs" "valid_row device_tokens row" for row using free that bs(1) by (auto simp: not_less)
    then have "\<forall>row \<in> set bs. valid_row device_tokens row \<longrightarrow> Inl a \<notin> ?R row" "\<forall>row \<in> set bs. valid_row device_tokens row \<longrightarrow> Inr a \<notin> ?R row"
      by blast+
    then show ?thesis using grid_idle [OF loc idle, of "Inl a" mem] grid_idle [OF loc idle, of "Inr a" mem] by blast
  qed
qed

text \<open>
  C36: The fused kernel adds, then normalises. In every order of its blocks each valid row of the
  residual becomes hidden + residual, and the same row of the hidden states becomes that sum times its
  weight times one factor: the reciprocal root of the mean of the squares of the sum plus \<open>eps\<close>, where
  every vector of the sum enters the total exactly once. Rows not in use stay as they were.
\<close>

theorem residual_rms_norm_rows:
  assumes run: "residual_rms_norm_fused F num_rows (int hidden_size) weights eps device_tokens = Inr (grid, block)" and order: "mset bs = mset grid"
    and fits: "num_rows * hidden_size \<le> 2 ^ 32"
  shows "(\<forall>row < num_rows. valid_row device_tokens row \<longrightarrow>
      (\<exists>total. summed F (image_mset (square_sum F) (mset (sum_vectors_of F mem (row * hidden_size) hidden_size)) + replicate_mset (32 - hidden_size div 256) 0) total
      \<and> (\<forall>a \<in> {row * hidden_size ..< row * hidden_size + hidden_size}. let r = b_add F (mem (Inl a)) (mem (Inr a)) in fold block bs mem (Inr a) = r
           \<and> fold block bs mem (Inl a) = to_b F (f_mul F (f_rsqrt F (f_fma F total (f_inverse F hidden_size) eps)) (to_f F (b_mul F r (weights (a - row * hidden_size))))))))
    \<and> (\<forall>a. (\<forall>row < num_rows. valid_row device_tokens row \<longrightarrow> a < row * hidden_size \<or> row * hidden_size + hidden_size \<le> a)
      \<longrightarrow> fold block bs mem (Inl a) = mem (Inl a) \<and> fold block bs mem (Inr a) = mem (Inr a))"
  by (rule conjI; intro allI impI; rule residual_rms_norm_rows_parts [OF assms]; assumption)

theorem residual_rms_norm_rows_witness:
  "\<exists>grid block. residual_rms_norm_fused demo_ops 3 2048 of_nat 5 (Some 2) = Inr (grid, block)
     \<and> fold block (rev grid) (case_sum of_nat of_nat) (Inr 2058) = of_nat 4116 \<and> fold block (rev grid) (case_sum of_nat of_nat) (Inl 4096) = of_nat 4096"
proof -
  obtain grid block where run: "residual_rms_norm_fused demo_ops 3 (int 2048) of_nat 5 (Some 2) = Inr (grid, block)"
    by (simp add: residual_rms_norm_fused_def Let_def)
  note rows = residual_rms_norm_rows [OF run, of "rev grid" "case_sum of_nat of_nat"]
  have "valid_row (Some 2) 1" by (simp add: valid_row_def)
  then have "\<forall>a \<in> {1 * 2048 ..< 1 * 2048 + 2048}. fold block (rev grid) (case_sum of_nat of_nat) (Inr a) = b_add demo_ops (of_nat a) (of_nat a)"
    using rows [THEN conjunct1, rule_format, of 1] by (auto simp: Let_def)
  then have "fold block (rev grid) (case_sum of_nat of_nat) (Inr 2058) = b_add demo_ops (of_nat 2058) (of_nat 2058)" by (rule bspec) simp
  moreover have "fold block (rev grid) (case_sum of_nat of_nat) (Inl 4096) = of_nat 4096"
    using rows [THEN conjunct2, rule_format, of 4096] by (simp add: valid_row_def)
  ultimately show ?thesis using run by (simp add: demo_ops_def)
qed

subsection \<open>The fused norm and rotation\<close>

lemma butterfly_cong:
  assumes "\<forall>m \<in> set ms. m < 32" "l < 32" "\<forall>k < 32. v k = v' k"
  shows "butterfly f ms v l = butterfly f ms v' l"
  using assms(1,3)
proof (induction ms arbitrary: v v')
  case Nil
  then show ?case using assms(2) by simp
next
  case (Cons m ms)
  have "k XOR m < 32" if "k < 32" for k using xor_below [of k 5 m] that Cons.prems(1) by simp
  then have "\<forall>k < 32. exchange f m v k = exchange f m v' k" using Cons.prems(2) by (simp add: exchange_def)
  then show ?case using Cons by simp
qed

lemma lane_halves:
  assumes "lane < 16"
  shows "lane XOR 16 = lane + 16" "(lane + 16) XOR 16 = lane" "lane AND 15 = lane" "(lane + 16) AND 15 = lane" "drop_bit 4 lane = 0" "drop_bit 4 (lane + 16) = (1 :: nat)"
proof -
  have "\<forall>lane \<in> set [0..<16]. lane XOR 16 = lane + 16 \<and> (lane + 16) XOR 16 = lane \<and> lane AND 15 = lane \<and> (lane + 16) AND 15 = lane
      \<and> drop_bit 4 lane = 0 \<and> drop_bit 4 (lane + 16) = (1 :: nat)" by code_simp
  then show "lane XOR 16 = lane + 16" "(lane + 16) XOR 16 = lane" "lane AND 15 = lane" "(lane + 16) AND 15 = lane" "drop_bit 4 lane = 0" "drop_bit 4 (lane + 16) = (1 :: nat)"
    using assms by simp_all
qed

lemma four_cases: "i < 4 \<Longrightarrow> i = 0 \<or> i = 1 \<or> i = 2 \<or> i = (3 :: nat)"
  by linarith

lemma norm_rope_lane_nth:
  fixes C :: "nat \<Rightarrow> f32" and base lane i :: nat
  assumes laws: "sign_laws F" and lane: "lane < 16" and i: "i < 4"
  defines "c \<equiv> C (base + 8 * lane + 2 * i)" and "s \<equiv> C (base + 8 * lane + 2 * i + 1)"
  shows "norm_rope_lane F C base head lane ! i = rope_first F c s (head lane ! i) (head (lane + 16) ! i)"
    "norm_rope_lane F C base head (lane + 16) ! i = rope_second F c s (head lane ! i) (head (lane + 16) ! i)"
proof -
  let ?cs = "map (\<lambda>j. C (base + 4 * (2 * lane) + j)) [0..<4] @ map (\<lambda>j. C (base + 4 * (2 * lane + 1) + j)) [0..<4]"
  have eight: "?cs ! k = C (base + 8 * lane + k)" if "k < 8" for k
  proof (cases "k < 4")
    case False
    then have "base + 4 * (2 * lane + 1) + (k - 4) = base + 8 * lane + k" "k - 4 < 4" using that by simp_all
    moreover from this have "?cs ! k = C (base + 4 * (2 * lane + 1) + (k - 4))" using False nth_upt [of 0 "k - 4" 4] by (simp add: nth_append del: upt_rec_numeral nth_upt)
    ultimately show ?thesis by (simp only:)
  qed (simp add: nth_append del: upt_rec_numeral)
  have cs: "?cs ! (2 * i) = c" "?cs ! (2 * i + 1) = s"
    using eight [of "2 * i"] eight [of "2 * i + 1"] i unfolding c_def s_def add.assoc by simp_all
  have len: "i < length [0..<4]" and at: "[0..<4] ! i = i" using i by (simp_all del: upt_rec_numeral)
  show "norm_rope_lane F C base head lane ! i = rope_first F c s (head lane ! i) (head (lane + 16) ! i)"
    unfolding norm_rope_lane_def Let_def lane_halves [OF lane] nth_map [OF len] at cs by (simp add: rope_first_def)
  show "norm_rope_lane F C base head (lane + 16) ! i = rope_second F c s (head lane ! i) (head (lane + 16) ! i)"
    unfolding norm_rope_lane_def Let_def lane_halves [OF lane] nth_map [OF len] at cs using laws by (simp add: rope_second_def sign_laws_def)
qed

definition head_vectors_of :: "memory \<Rightarrow> nat \<Rightarrow> bfloat list list" where
  \<comment> \<open>the vectors of a head, one per lane\<close>
  "head_vectors_of m base = map (\<lambda>lane. map (\<lambda>j. m (base + lane * 4 + j)) [0..<4]) [0..<32]"

definition normalised :: "Float_Ops \<Rightarrow> f32 \<Rightarrow> memory \<Rightarrow> f32 \<Rightarrow> memory \<Rightarrow> nat \<Rightarrow> nat \<Rightarrow> bfloat" where
  \<comment> \<open>element \<open>e\<close> of the head at \<open>base\<close>, whose squares add up to \<open>sum_val\<close>\<close>
  "normalised F eps weights sum_val m base e =
     to_b F (f_mul F (f_mul F (f_rsqrt F (f_add F (f_mul F sum_val (f_inverse F 128)) eps)) (to_f F (m (base + e)))) (to_f F (weights e)))"

lemma qk_norm_rope_block_head:
  fixes F :: Float_Ops and stride y row q_size :: nat and q_weights k_weights :: memory and C :: "nat \<Rightarrow> f32" and positions :: "nat \<Rightarrow> nat"
    and eps :: f32 and device_tokens :: "int option"
  assumes laws: "sign_laws F" and fits: "row * stride < 2 ^ 32" "positions row * 128 < 2 ^ 32"
  defines "after \<equiv> qk_norm_rope_block F q_weights k_weights C positions stride q_size eps device_tokens (row, y)"
    and "base \<equiv> row * stride + y * 512" and "weights \<equiv> (if y * 512 < q_size then q_weights else k_weights)"
  shows "local_block after {base ..< base + 512}"
    and "\<not> valid_row device_tokens row \<Longrightarrow> after mem = mem"
    and "valid_row device_tokens row \<Longrightarrow> warp < 4 \<Longrightarrow> \<exists>total. summed F (image_mset (square_sum F) (mset (head_vectors_of mem (base + 128 * warp)))) total
      \<and> (\<forall>e < 64. let c = C (positions row * 128 + 2 * e); s = C (positions row * 128 + 2 * e + 1); x = normalised F eps weights total mem (base + 128 * warp) in
           after mem (base + 128 * warp + e) = rope_first F c s (x e) (x (e + 64)) \<and> after mem (base + 128 * warp + e + 64) = rope_second F c s (x e) (x (e + 64)))"
proof -
  define head where "head = (\<lambda>mem :: memory. \<lambda>warp lane. map (\<lambda>j. mem (base + (32 * warp + lane) * 4 + j)) [0..<4])"
  define total where "total = (\<lambda>mem warp. warp_butterfly_reduce_sum F 32 (\<lambda>lane. square_sum F (head mem warp lane)) 0)"
  define out where "out = (\<lambda>mem tid. norm_rope_lane F C (positions row * 128) (norm_head F eps weights (head mem (tid div 32))) (tid mod 32))"
  have after: "after mem = (if valid_row device_tokens row then fold store_vec (map (\<lambda>tid. (base + tid * 4, out mem tid)) [0..<128]) mem else mem)" for mem
    unfolding after_def qk_norm_rope_block_def Let_def case_prod_conv u32_id [OF fits(1)] u32_id [OF fits(2)] kNumElemsPerBlock_def
    by (simp only: base_def weights_def out_def head_def)
  have len: "length (out mem tid) = 4" for mem tid by (simp add: out_def norm_rope_lane_def Let_def)
  have stores: "after mem (base + 4 * tid + i) = out mem tid ! i" if "valid_row device_tokens row" "tid < 128" "i < 4" for mem tid i
    using block_stores(1) [of 128 "out mem" 4 tid i base mem] that len by (simp add: after mult.commute del: upt_rec_numeral)
  have outside: "after mem a = mem a" if "a < base \<or> base + 512 \<le> a" for mem a
    using block_stores(2) [of 128 "out mem" 4 a base mem] that len by (simp add: after mult.commute del: upt_rec_numeral)
  show "local_block after {base ..< base + 512}"
    unfolding local_block_def
  proof (intro conjI allI impI ballI)
    fix m :: memory and a assume "a \<notin> {base ..< base + 512}"
    then show "after m a = m a" by (intro outside) auto
  next
    fix m m' :: memory and a assume same: "\<forall>a \<in> {base ..< base + 512}. m a = m' a" and a: "a \<in> {base ..< base + 512}"
    show "after m a = after m' a"
    proof (cases "valid_row device_tokens row")
      case True
      have heads: "head m warp lane = head m' warp lane" if "warp < 4" "lane < 32" for warp lane
        using same that by (simp add: head_def del: upt_rec_numeral)
      have "out m tid = out m' tid" if "tid < 128" for tid
      proof -
        have w: "tid div 32 < 4" using that by simp
        have "warp_butterfly_reduce_sum F 32 (\<lambda>lane. square_sum F (head m (tid div 32) lane)) 0 = warp_butterfly_reduce_sum F 32 (\<lambda>lane. square_sum F (head m' (tid div 32) lane)) 0"
          unfolding warp_butterfly_reduce_sum_def by (rule butterfly_cong) (simp_all add: halvings_eval heads [OF w])
        then have "norm_head F eps weights (head m (tid div 32)) lane = norm_head F eps weights (head m' (tid div 32)) lane" if "lane < 32" for lane
          using heads [OF w that] by (simp add: norm_head_def Let_def)
        moreover have "tid mod 32 XOR 16 < 32" using xor_below [of "tid mod 32" 5 16] by simp
        ultimately show ?thesis by (simp add: out_def norm_rope_lane_def Let_def)
      qed
      moreover have "(a - base) div 4 < 128" "base + 4 * ((a - base) div 4) + (a - base) mod 4 = a" using a by auto
      ultimately show ?thesis using stores [OF True, of "(a - base) div 4" "(a - base) mod 4"] by (metis mod_less_divisor zero_less_numeral)
    qed (use same a in \<open>simp add: after\<close>)
  qed
  show "\<not> valid_row device_tokens row \<Longrightarrow> after mem = mem" by (simp add: after)
  show "\<exists>total. summed F (image_mset (square_sum F) (mset (head_vectors_of mem (base + 128 * warp)))) total
      \<and> (\<forall>e < 64. let c = C (positions row * 128 + 2 * e); s = C (positions row * 128 + 2 * e + 1); x = normalised F eps weights total mem (base + 128 * warp) in
           after mem (base + 128 * warp + e) = rope_first F c s (x e) (x (e + 64)) \<and> after mem (base + 128 * warp + e + 64) = rope_second F c s (x e) (x (e + 64)))"
    if valid: "valid_row device_tokens row" and warp: "warp < 4"
  proof (intro exI [of _ "total mem warp"] conjI allI impI)
    have "image_mset (square_sum F) (mset (head_vectors_of mem (base + 128 * warp))) = image_mset (\<lambda>lane. square_sum F (head mem warp lane)) (mset [0..<32])"
      by (simp add: head_vectors_of_def head_def image_mset.compositionality comp_def distrib_right add.assoc del: upt_rec_numeral)
    then show "summed F (image_mset (square_sum F) (mset (head_vectors_of mem (base + 128 * warp)))) (total mem warp)"
      unfolding total_def using warp_summed(1) by simp
  next
    fix e :: nat assume e: "e < 64"
    let ?x = "normalised F eps weights (total mem warp) mem (base + 128 * warp)"
    let ?lane = "e div 4"
    have lane: "?lane < 16" "e mod 4 < 4" using e by auto
    have elem: "norm_head F eps weights (head mem warp) lane ! i = ?x (4 * lane + i)" if "i < 4" for lane i
      using that by (simp add: norm_head_def normalised_def Let_def total_def head_def algebra_simps del: upt_rec_numeral)
    have tid: "(32 * warp + lane) div 32 = warp" "(32 * warp + lane) mod 32 = lane" "32 * warp + lane < 128" if "lane < 32" for lane using that warp by auto
    have pos: "base + 128 * warp + e = base + 4 * (32 * warp + ?lane) + e mod 4" "base + 128 * warp + e + 64 = base + 4 * (32 * warp + (?lane + 16)) + e mod 4"
      "4 * ?lane + e mod 4 = e" "4 * (?lane + 16) + e mod 4 = e + 64" "8 * ?lane + 2 * (e mod 4) = 2 * e" by presburger+
    have l: "?lane < 32" "?lane + 16 < 32" using lane by simp_all
    note rot = norm_rope_lane_nth [OF laws lane, where C = C and base = "positions row * 128" and head = "norm_head F eps weights (head mem warp)",
        unfolded elem [OF lane(2)] pos(3,4) add.assoc [of "positions row * 128"] pos(5)]
    have "after mem (base + 128 * warp + e) = norm_rope_lane F C (positions row * 128) (norm_head F eps weights (head mem warp)) ?lane ! (e mod 4)"
      unfolding pos(1) stores [OF valid tid(3) [OF l(1)] lane(2)] out_def tid(1,2) [OF l(1)] ..
    moreover have "after mem (base + 128 * warp + e + 64) = norm_rope_lane F C (positions row * 128) (norm_head F eps weights (head mem warp)) (?lane + 16) ! (e mod 4)"
      unfolding pos(2) stores [OF valid tid(3) [OF l(2)] lane(2)] out_def tid(1,2) [OF l(2)] ..
    ultimately show "let c = C (positions row * 128 + 2 * e); s = C (positions row * 128 + 2 * e + 1); x = ?x in
           after mem (base + 128 * warp + e) = rope_first F c s (x e) (x (e + 64)) \<and> after mem (base + 128 * warp + e + 64) = rope_second F c s (x e) (x (e + 64))"
      using rot by (simp add: Let_def add.assoc)
  qed
qed

lemma qk_norm_rope_heads_parts:
  fixes F :: Float_Ops and stride q_size k_size num_tokens :: nat and C :: "nat \<Rightarrow> f32"
  assumes run: "qk_norm_rope F num_tokens stride q_weights k_weights C positions q_size k_size head_dim eps device_tokens = Inr (grid, block)"
    and order: "mset bs = mset grid" and laws: "sign_laws F"
    and fits: "num_tokens * stride \<le> 2 ^ 32" "\<forall>row < num_tokens. positions row * 128 < 2 ^ 32" "q_size + k_size \<le> stride" "0 < stride"
  shows "row < num_tokens \<Longrightarrow> valid_row device_tokens row \<Longrightarrow> h * 128 < q_size + k_size \<Longrightarrow>
      \<exists>total. summed F (image_mset (square_sum F) (mset (head_vectors_of mem (row * stride + h * 128)))) total
      \<and> (\<forall>e < 64. let c = C (positions row * 128 + 2 * e); s = C (positions row * 128 + 2 * e + 1);
             x = normalised F eps (if h * 128 < q_size then q_weights else k_weights) total mem (row * stride + h * 128) in
           fold block bs mem (row * stride + h * 128 + e) = rope_first F c s (x e) (x (e + 64))
           \<and> fold block bs mem (row * stride + h * 128 + e + 64) = rope_second F c s (x e) (x (e + 64)))"
    and "\<forall>row < num_tokens. valid_row device_tokens row \<longrightarrow> a < row * stride \<or> row * stride + q_size + k_size \<le> a \<Longrightarrow> fold block bs mem a = mem a"
proof -
  define Y where "Y = (q_size + k_size) div 512"
  have sizes: "q_size mod 512 = 0" "q_size + k_size = 512 * Y" and launch: "grid = launch_threads num_tokens Y"
    "block = qk_norm_rope_block F q_weights k_weights C positions stride q_size eps device_tokens"
    using run by (auto simp: qk_norm_rope_def kNumElemsPerBlock_def Y_def mod_add_eq [of q_size 512 k_size, symmetric] split: if_splits)
  have bs: "set bs = {..<num_tokens} \<times> {..<Y}" "distinct bs" using threads_of [OF order [unfolded launch(1)]] by simp_all
  have row_fits: "row * stride < 2 ^ 32" "positions row * 128 < 2 ^ 32" if "row < num_tokens" for row
    using row_start_fits [OF fits(1) that fits(4)] fits(2) that by simp_all
  note one = qk_norm_rope_block_head [where positions = positions and stride = stride and F = F, OF laws row_fits, where q_weights = q_weights and k_weights = k_weights and C = C and q_size = q_size and eps = eps
      and device_tokens = device_tokens, folded launch(2)]
  let ?R = "\<lambda>b. {fst b * stride + 512 * snd b ..< fst b * stride + 512 * snd b + 512}"
  have inside: "fst b < num_tokens" "snd b < Y" "512 * snd b + 512 \<le> stride" if "b \<in> set bs" for b
  proof -
    show b: "fst b < num_tokens" "snd b < Y" using that by (simp_all add: bs(1) mem_Times_iff)
    show "512 * snd b + 512 \<le> stride" using b(2) fits(3) sizes(2) by linarith
  qed
  have loc: "\<forall>b \<in> set bs. local_block (block b) (?R b)"
  proof
    fix b assume "b \<in> set bs"
    then show "local_block (block b) (?R b)" using one(1) [where row = "fst b" and y = "snd b"] inside(1) by (simp add: mult.commute)
  qed
  have apart: "\<forall>b \<in> set bs. \<forall>c \<in> set bs. b \<noteq> c \<longrightarrow> ?R b \<inter> ?R c = {}"
  proof (intro ballI impI)
    fix b c assume "b \<in> set bs" "c \<in> set bs" "b \<noteq> c"
    then show "?R b \<inter> ?R c = {}" using inside(3) by (intro row_items_apart) simp_all
  qed
  show "\<exists>total. summed F (image_mset (square_sum F) (mset (head_vectors_of mem (row * stride + h * 128)))) total
      \<and> (\<forall>e < 64. let c = C (positions row * 128 + 2 * e); s = C (positions row * 128 + 2 * e + 1);
             x = normalised F eps (if h * 128 < q_size then q_weights else k_weights) total mem (row * stride + h * 128) in
           fold block bs mem (row * stride + h * 128 + e) = rope_first F c s (x e) (x (e + 64))
           \<and> fold block bs mem (row * stride + h * 128 + e + 64) = rope_second F c s (x e) (x (e + 64)))"
    if row: "row < num_tokens" "valid_row device_tokens row" and h: "h * 128 < q_size + k_size"
  proof -
    define y where "y = h div 4"
    define warp where "warp = h mod 4"
    have hw: "h = 4 * y + warp" "warp < 4" by (simp_all add: y_def warp_def)
    have "512 * y \<le> h * 128" using hw(1) by simp
    also have "\<dots> < 512 * Y" using h unfolding sizes(2) .
    finally have y: "y < Y" by simp
    then have b: "(row, y) \<in> set bs" using row(1) by (simp add: bs(1))
    have base: "row * stride + y * 512 + 128 * warp = row * stride + h * 128" using hw(1) by simp
    have q: "(y * 512 < q_size) = (h * 128 < q_size)"
    proof -
      obtain k where k: "q_size = 512 * k" using sizes(1) by (auto elim: dvdE simp: mod_eq_0_iff_dvd)
      have "(y * 512 < q_size) = (y < k)" unfolding k by simp
      also have "\<dots> = (4 * y + warp < 4 * k)" using hw(2) by arith
      also have "\<dots> = (h * 128 < q_size)" unfolding k hw(1) [symmetric] by linarith
      finally show ?thesis .
    qed
    have at: "fold block bs mem (row * stride + h * 128 + e) = block (row, y) mem (row * stride + h * 128 + e)" if "e < 128" for e
      by (rule grid_inside [OF loc apart bs(2) b]) (use that hw in simp)
    have two: "fold block bs mem (row * stride + h * 128 + e) = block (row, y) mem (row * stride + h * 128 + e)"
      "fold block bs mem (row * stride + h * 128 + e + 64) = block (row, y) mem (row * stride + h * 128 + e + 64)" if "e < 64" for e
      using at [of e] at [of "e + 64"] that by (simp_all add: add.assoc)
    show ?thesis using one(3) [where row = row and y = y and mem = mem, OF row(1) row(1) row(2) hw(2)] unfolding base q by (simp add: Let_def two)
  qed
  show "fold block bs mem a = mem a" if free: "\<forall>row < num_tokens. valid_row device_tokens row \<longrightarrow> a < row * stride \<or> row * stride + q_size + k_size \<le> a"
  proof (rule grid_idle [where active = "\<lambda>b. valid_row device_tokens (fst b)", OF loc]; intro ballI impI allI)
    fix b m assume "b \<in> set bs" "\<not> valid_row device_tokens (fst b)"
    then show "block b m = m" using one(2) [where row = "fst b" and y = "snd b" and mem = m] inside(1) by simp
  next
    fix b assume b: "b \<in> set bs" "valid_row device_tokens (fst b)"
    then have "a < fst b * stride \<or> fst b * stride + (q_size + k_size) \<le> a" using free inside(1) by (simp add: add.assoc)
    then show "a \<notin> ?R b" using inside(2) [OF b(1)] unfolding sizes(2) by auto
  qed
qed

text \<open>
  C33: The fused kernel normalises every head and rotates it. In every order of its blocks, each query
  head of a valid token is normalised with the query weights and each key head with the key weights, by
  the root of the mean of its own squares (every lane's vector enters the total exactly once); then its
  pairs are rotated by the cosine and sine of the token's position. Nothing else in memory changes.
\<close>

theorem qk_norm_rope_heads:
  fixes F :: Float_Ops and stride q_size k_size num_tokens :: nat and C :: "nat \<Rightarrow> f32"
  assumes run: "qk_norm_rope F num_tokens stride q_weights k_weights C positions q_size k_size head_dim eps device_tokens = Inr (grid, block)"
    and order: "mset bs = mset grid" and laws: "sign_laws F"
    and fits: "num_tokens * stride \<le> 2 ^ 32" "\<forall>row < num_tokens. positions row * 128 < 2 ^ 32" "q_size + k_size \<le> stride" "0 < stride"
  shows "(\<forall>row < num_tokens. valid_row device_tokens row \<longrightarrow> (\<forall>h. h * 128 < q_size + k_size \<longrightarrow>
      (\<exists>total. summed F (image_mset (square_sum F) (mset (head_vectors_of mem (row * stride + h * 128)))) total
      \<and> (\<forall>e < 64. let c = C (positions row * 128 + 2 * e); s = C (positions row * 128 + 2 * e + 1);
             x = normalised F eps (if h * 128 < q_size then q_weights else k_weights) total mem (row * stride + h * 128) in
           fold block bs mem (row * stride + h * 128 + e) = rope_first F c s (x e) (x (e + 64))
           \<and> fold block bs mem (row * stride + h * 128 + e + 64) = rope_second F c s (x e) (x (e + 64))))))
    \<and> (\<forall>a. (\<forall>row < num_tokens. valid_row device_tokens row \<longrightarrow> a < row * stride \<or> row * stride + q_size + k_size \<le> a) \<longrightarrow> fold block bs mem a = mem a)"
  by (rule conjI; intro allI impI; rule qk_norm_rope_heads_parts [OF assms]; assumption)

theorem qk_norm_rope_heads_witness:
  "\<exists>grid block total. qk_norm_rope demo_ops 3 4096 of_nat (\<lambda>i. 2) of_nat (\<lambda>row. row) 2048 1024 128 5 (Some 2) = Inr (grid, block)
     \<and> summed demo_ops (image_mset (square_sum demo_ops) (mset (head_vectors_of of_nat 6272))) total
     \<and> fold block (rev grid) of_nat 6275 = rope_first demo_ops (of_nat 134) (of_nat 135) (normalised demo_ops 5 (\<lambda>i. 2) total of_nat 6272 3) (normalised demo_ops 5 (\<lambda>i. 2) total of_nat 6272 67)
     \<and> fold block (rev grid) of_nat 7168 = of_nat 7168"
proof -
  have laws: "sign_laws demo_ops" by (simp add: sign_laws_def demo_ops_def)
  obtain grid block where run: "qk_norm_rope demo_ops 3 4096 of_nat (\<lambda>i. 2) of_nat (\<lambda>row. row) 2048 1024 128 5 (Some 2) = Inr (grid, block)"
    by (simp add: qk_norm_rope_def kNumElemsPerBlock_def)
  note heads = qk_norm_rope_heads [OF run, of "rev grid" of_nat, OF _ laws]
  have "valid_row (Some 2) 1" by (simp add: valid_row_def)
  then obtain total where total: "summed demo_ops (image_mset (square_sum demo_ops) (mset (head_vectors_of of_nat (1 * 4096 + 17 * 128)))) total"
    "\<forall>e < 64. fold block (rev grid) of_nat (1 * 4096 + 17 * 128 + e) = rope_first demo_ops (of_nat (1 * 128 + 2 * e)) (of_nat (1 * 128 + 2 * e + 1))
       (normalised demo_ops 5 (\<lambda>i. 2) total of_nat (1 * 4096 + 17 * 128) e) (normalised demo_ops 5 (\<lambda>i. 2) total of_nat (1 * 4096 + 17 * 128) (e + 64))"
    using heads [THEN conjunct1, rule_format, of 1 17] by (auto simp: Let_def)
  have "fold block (rev grid) of_nat 7168 = of_nat 7168" using heads [THEN conjunct2, rule_format, of 7168] by (simp add: valid_row_def)
  then show ?thesis using run total(1) total(2) [rule_format, of 3] by auto
qed

end
