(* ===== verification/Top_P.thy ===== *)
theory Top_P
  imports Sampling_Kernels Warp
begin

text \<open>
  The random token of \<open>sample_rows\<close> in csrc/ops/sampler.cu: the weights of a row, the draw of a
  candidate from two levels of prefix sums, and the top-p rejection loop. The loop is a partial
  function: \<open>None\<close> is a kernel that never ends. CUB's block scan and the order in which its block
  reduction adds are parameters, as are the uniform draws; no theorem assumes anything of the scan or
  of the draws.
\<close>

subsection \<open>The weights\<close>

definition widen :: "bf16 \<Rightarrow> f32" where
  \<comment> \<open>\<open>__bfloat162float\<close>: the upper half of the pattern\<close>
  "widen b = push_bit 16 (ucast b)"

definition f_one :: f32 where "f_one = 0x3f800000"
definition f_half :: f32 where "f_half = 0x3f000000"

definition f_le :: "f32 \<Rightarrow> f32 \<Rightarrow> bool" where
  "f_le a b \<longleftrightarrow> number a \<and> number b \<and> frank a \<le> frank b"

definition f_min :: "f32 \<Rightarrow> f32 \<Rightarrow> f32" where
  \<comment> \<open>\<open>fminf\<close>\<close>
  "f_min a b = (if \<not> number a \<and> \<not> number b then 0x7fffffff
     else if \<not> number a then b else if \<not> number b then a
     else if frank b < frank a \<or> frank a = frank b \<and> uint a < uint b then b else a)"

definition next_to_zero :: "f32 \<Rightarrow> f32" where
  \<comment> \<open>\<open>nextafterf(total, 0.f)\<close>\<close>
  "next_to_zero a = (if \<not> number a then a else if frank a = 0 then 0 else a - 1)"

definition shifted_logit :: "Float_Ops \<Rightarrow> f32 \<Rightarrow> f32 \<Rightarrow> f32 \<Rightarrow> f32" where
  "shifted_logit F temp high x = (let inv_temperature = f_div F f_one temp; scaled_max = f_mul F high inv_temperature in
     if f_le f_one temp then f_sub F (f_mul F x inv_temperature) scaled_max else f_mul F (f_sub F x high) inv_temperature)"

definition token_weight :: "Float_Ops \<Rightarrow> f32 \<Rightarrow> f32 \<Rightarrow> f32 \<Rightarrow> f32 \<Rightarrow> f32" where
  "token_weight F temp high bound x = (if f_eq x high then f_one
     else if f_le bound x then f_exp F (shifted_logit F temp high x) else 0)"

definition thread_positions :: "nat \<Rightarrow> nat \<Rightarrow> nat list" where
  \<comment> \<open>what a thread loads, four at a time; the last four may reach behind the row\<close>
  "thread_positions n tid = concat (map (\<lambda>i. map (\<lambda>j. i + j) [0..<4]) (strided (tid * 4) (512 * 4) n))"

definition weight_row :: "Float_Ops \<Rightarrow> f32 \<Rightarrow> bf16 \<Rightarrow> bf16 \<Rightarrow> bf16 list \<Rightarrow> f32 list" where
  "weight_row F temp high bound logits = map (\<lambda>v. token_weight F temp (widen high) (widen bound) (widen v)) logits"

definition weight_mass :: "Float_Ops \<Rightarrow> f32 \<Rightarrow> bf16 \<Rightarrow> bf16 \<Rightarrow> bf16 list \<Rightarrow> nat \<Rightarrow> f32" where
  \<comment> \<open>\<open>thread_mass\<close>; the padding of the loads is minus infinity\<close>
  "weight_mass F temp high bound logits tid =
     fold (\<lambda>p mass. f_add F mass (token_weight F temp (widen high) (widen bound) (widen (logit logits p)))) (thread_positions (length logits) tid) 0"

subsection \<open>The draw of a candidate\<close>

type_synonym block_scan = "(nat \<Rightarrow> f32) \<Rightarrow> (nat \<Rightarrow> f32) \<times> f32"

definition row_value :: "f32 list \<Rightarrow> nat \<Rightarrow> f32" where
  "row_value row p = (if p < length row then row ! p else 0)"

definition thread_hits :: "Float_Ops \<Rightarrow> (nat \<Rightarrow> f32) \<Rightarrow> nat \<Rightarrow> f32 \<Rightarrow> nat list" where
  \<comment> \<open>the elements of a thread that the remaining draw falls on\<close>
  "thread_hits F x i remaining = snd (fold (\<lambda>j (remaining, hits).
     (f_sub F remaining (x j), if f_le 0 remaining \<and> f_less remaining (x j) then hits @ [i + j] else hits)) [0..<4] (remaining, []))"

function find_sampled :: "Float_Ops \<Rightarrow> block_scan \<Rightarrow> f32 list \<Rightarrow> f32 \<Rightarrow> nat \<Rightarrow> f32 \<Rightarrow> nat option" where
  \<comment> \<open>the second level: the elements of a bucket spread over the block; \<open>atomicMin\<close> keeps the least hit\<close>
  "find_sampled F scan row low base bucket_draw =
     (if base < length row then
        let i = (\<lambda>tid. base + tid * 512 * 4);
            x = (\<lambda>tid j. if f_less low (row_value row (i tid + j)) then row_value row (i tid + j) else 0);
            mass = (\<lambda>tid. fold (\<lambda>j mass. f_add F mass (x tid j)) [0..<4] 0);
            hits = concat (map (\<lambda>tid. thread_hits F (x tid) (i tid) (f_sub F bucket_draw (fst (scan mass) tid))) [0..<512])
        in if hits \<noteq> [] then Some (Min (set hits))
           else find_sampled F scan row low (base + 512 * 512 * 4) (f_sub F bucket_draw (snd (scan mass)))
      else None)"
  by pat_completeness auto
termination
  by (relation "measure (\<lambda>(F, scan, row, low, base, bucket_draw). length row - base)") auto

declare find_sampled.simps [simp del]

definition draw_candidate :: "Float_Ops \<Rightarrow> block_scan \<Rightarrow> f32 list \<Rightarrow> nat \<Rightarrow> f32 \<Rightarrow> f32 \<Rightarrow> (nat \<Rightarrow> f32) \<Rightarrow> nat" where
  \<comment> \<open>\<open>u\<close> is the draw of \<open>curand_uniform\<close>, \<open>index\<close> the token of the largest logit\<close>
  "draw_candidate F scan row index u low thread_mass = (
     let (prefix, total_mass) = scan thread_mass; uniform = f_min (f_mul F u total_mass) (next_to_zero total_mass);
         bucket = find (\<lambda>tid. f_less 0 (thread_mass tid) \<and> f_le (prefix tid) uniform \<and> f_less uniform (f_add F (prefix tid) (thread_mass tid))) [0..<512];
         sampled = (case bucket of None \<Rightarrow> None | Some b \<Rightarrow> find_sampled F scan row low (b * 4) (f_sub F uniform (prefix b)))
     in case sampled of None \<Rightarrow> index | Some t \<Rightarrow> t)"

subsection \<open>The rejection loop\<close>

datatype sum_tree = Thread nat | Plus sum_tree sum_tree

primrec block_sum :: "Float_Ops \<Rightarrow> sum_tree \<Rightarrow> (nat \<Rightarrow> f32) \<Rightarrow> f32" where
  \<comment> \<open>one component of the \<open>block_reduce\<close> with \<open>AddPair\<close>\<close>
  "block_sum F (Thread tid) v = v tid"
| "block_sum F (Plus l r) v = f_add F (block_sum F l v) (block_sum F r v)"

definition mass_above :: "Float_Ops \<Rightarrow> f32 list \<Rightarrow> f32 \<Rightarrow> nat \<Rightarrow> f32" where
  "mass_above F row pivot tid = fold (\<lambda>p mass. f_add F mass (if f_less pivot (row_value row p) then row_value row p else 0))
     (thread_positions (length row) tid) 0"

record Rejection =
  rj_ops :: Float_Ops
  rj_scan :: block_scan
  rj_tree :: sum_tree
  rj_draw :: "nat \<Rightarrow> f32"
  rj_row :: "f32 list"
  rj_index :: nat
  rj_top_p :: f32
  rj_target :: f32  \<comment> \<open>\<open>target_mass\<close>, set in the first round\<close>

definition sum_above :: "Rejection \<Rightarrow> f32 \<Rightarrow> f32" where
  "sum_above R p = block_sum (rj_ops R) (rj_tree R) (mass_above (rj_ops R) (rj_row R) p)"

partial_function (option) reject :: "Rejection \<Rightarrow> nat \<Rightarrow> f32 \<Rightarrow> f32 \<Rightarrow> (nat \<Rightarrow> f32) \<Rightarrow> nat option" where
  "reject R n low high thread_mass = (
     let candidate = draw_candidate (rj_ops R) (rj_scan R) (rj_row R) (rj_index R) (rj_draw R n) low thread_mass;
         pivot = row_value (rj_row R) candidate;
         midpoint = f_mul (rj_ops R) (f_add (rj_ops R) pivot high) f_half
     in if f_eq (rj_top_p R) f_one then Some candidate
        else if f_less (sum_above R pivot) (rj_target R) then Some candidate
        else if f_less (sum_above R midpoint) (rj_target R)
          then reject R (n + 1) pivot midpoint (mass_above (rj_ops R) (rj_row R) pivot)
          else reject R (n + 1) midpoint high (mass_above (rj_ops R) (rj_row R) midpoint))"

definition rejection :: "Float_Ops \<Rightarrow> block_scan \<Rightarrow> sum_tree \<Rightarrow> (nat \<Rightarrow> f32) \<Rightarrow> SampleParams \<Rightarrow> Range \<Rightarrow> bf16 \<Rightarrow> bf16 list \<Rightarrow> Rejection" where
  "rejection F scan tree draw param rg bound logits =
     \<lparr>rj_ops = F, rj_scan = scan, rj_tree = tree, rj_draw = draw, rj_row = weight_row F (temperature param) (rg_high rg) bound logits,
      rj_index = rg_index rg, rj_top_p = top_p param,
      rj_target = f_mul F (top_p param) (snd (scan (weight_mass F (temperature param) (rg_high rg) bound logits)))\<rparr>"

definition sample_row :: "Float_Ops \<Rightarrow> block_reduce \<Rightarrow> block_scan \<Rightarrow> sum_tree \<Rightarrow> (nat \<Rightarrow> f32) \<Rightarrow> SampleParams \<Rightarrow> bf16 list \<Rightarrow> nat option" where
  \<comment> \<open>\<open>sample_rows\<close> for one block\<close>
  "sample_row F reduce scan tree draw param logits = (
     let rg = logits_range reduce logits
     in if f_eq (temperature param) 0 then Some (rg_index rg)
        else do {
          bound \<leftarrow> cutoff reduce logits (top_k param);
          reject (rejection F scan tree draw param rg bound logits) 0 0 f_one (weight_mass F (temperature param) (rg_high rg) bound logits)
        })"

subsection \<open>What is asked of the arithmetic\<close>

definition weight_ok :: "f32 \<Rightarrow> bool" where
  "weight_ok a \<longleftrightarrow> number a \<and> 0 \<le> frank a"

definition sum_laws :: "Float_Ops \<Rightarrow> bool" where
  \<comment> \<open>rounded addition of non-negative numbers is monotone, and zero plus zero is zero\<close>
  "sum_laws F \<longleftrightarrow> (\<forall>a b. weight_ok a \<and> weight_ok b \<longrightarrow> weight_ok (f_add F a b) \<and> (frank a = 0 \<and> frank b = 0 \<longrightarrow> frank (f_add F a b) = 0))
     \<and> (\<forall>a a' b b'. weight_ok a \<and> weight_ok a' \<and> weight_ok b \<and> weight_ok b' \<and> frank a \<le> frank a' \<and> frank b \<le> frank b'
          \<longrightarrow> frank (f_add F a b) \<le> frank (f_add F a' b'))"

definition midpoint_law :: "Float_Ops \<Rightarrow> bool" where
  \<comment> \<open>the mean of two numbers from 0 to 1 lies between them\<close>
  "midpoint_law F \<longleftrightarrow> (\<forall>a b. weight_ok a \<and> weight_ok b \<and> frank a \<le> frank b \<and> frank b \<le> frank f_one
     \<longrightarrow> (let m = f_mul F (f_add F a b) f_half in number m \<and> frank a \<le> frank m \<and> frank m \<le> frank b))"

definition exp_law :: "Float_Ops \<Rightarrow> f32 \<Rightarrow> bool" where
  \<comment> \<open>the exponential of a logit shifted below the largest one is from 0 to 1\<close>
  "exp_law F temp \<longleftrightarrow> (\<forall>x h. f_less x h \<longrightarrow>
     weight_ok (f_exp F (shifted_logit F temp h x)) \<and> frank (f_exp F (shifted_logit F temp h x)) \<le> frank f_one)"

lemma weight_zero [simp]: "weight_ok 0" "number 0" "frank 0 = 0"
  by (simp_all add: weight_ok_def number_def frank_def)

lemma weight_one [simp]: "weight_ok f_one" "number f_one" "frank f_one = 0x3f800000"
  by (simp_all add: weight_ok_def number_def frank_def f_one_def)

lemma widen_rank: "frank (widen b) = 2 ^ 16 * rank b" "number (widen b) \<longleftrightarrow> not_nan b"
proof -
  have u: "uint (widen b) = 2 ^ 16 * uint b"
  proof -
    have "uint b < 2 ^ 16" using uint_lt2p [of b] by simp
    then have "take_bit 32 (2 ^ 16 * uint b) = 2 ^ 16 * uint b" by (intro take_bit_int_eq_self) simp_all
    then show ?thesis by (simp add: widen_def push_bit_eq_mult uint_word_ariths unsigned_ucast_eq take_bit_eq_mod mult.commute)
  qed
  show f: "frank (widen b) = 2 ^ 16 * rank b" using u by (simp add: frank_def rank_def)
  show "number (widen b) \<longleftrightarrow> not_nan b" unfolding number_def not_nan_def f by (simp add: abs_mult)
qed

subsection \<open>Sums\<close>

lemma fold_weights:
  assumes laws: "sum_laws F" and g: "\<forall>p \<in> set ps. weight_ok (g p) \<and> weight_ok (g' p) \<and> frank (g p) \<le> frank (g' p)"
    and s: "weight_ok s" "weight_ok s'" "frank s \<le> frank s'"
  shows "weight_ok (fold (\<lambda>p s. f_add F s (g p)) ps s) \<and> weight_ok (fold (\<lambda>p s. f_add F s (g' p)) ps s')
    \<and> frank (fold (\<lambda>p s. f_add F s (g p)) ps s) \<le> frank (fold (\<lambda>p s. f_add F s (g' p)) ps s')"
  using g s
proof (induction ps arbitrary: s s')
  case (Cons p ps)
  have "weight_ok (f_add F s (g p))" "weight_ok (f_add F s' (g' p))" "frank (f_add F s (g p)) \<le> frank (f_add F s' (g' p))"
    using laws Cons.prems unfolding sum_laws_def by (simp_all add: Ball_def)
  then show ?case using Cons by simp
qed simp

lemma fold_zeros:
  assumes laws: "sum_laws F" and "weight_ok s" "frank s = 0"
  shows "frank (fold (\<lambda>p s. f_add F s 0) ps s) = 0"
  using assms(2,3)
proof (induction ps arbitrary: s)
  case (Cons p ps)
  then have "weight_ok (f_add F s 0) \<and> frank (f_add F s 0) = 0" using laws unfolding sum_laws_def by simp
  then show ?case using Cons.IH by simp
qed simp

lemma block_sum_mono:
  assumes "sum_laws F" "\<forall>tid. weight_ok (v tid) \<and> weight_ok (v' tid) \<and> frank (v tid) \<le> frank (v' tid)"
  shows "weight_ok (block_sum F t v) \<and> weight_ok (block_sum F t v') \<and> frank (block_sum F t v) \<le> frank (block_sum F t v')"
  using assms by (induction t) (auto simp: sum_laws_def)

lemma block_sum_zero:
  assumes "sum_laws F" "\<forall>tid. weight_ok (v tid) \<and> frank (v tid) = 0"
  shows "weight_ok (block_sum F t v) \<and> frank (block_sum F t v) = 0"
  using assms by (induction t) (auto simp: sum_laws_def)

definition row_ok :: "Rejection \<Rightarrow> bool" where
  "row_ok R \<longleftrightarrow> sum_laws (rj_ops R) \<and> midpoint_law (rj_ops R) \<and> (\<forall>w \<in> set (rj_row R). weight_ok w \<and> frank w \<le> frank f_one)
     \<and> rj_index R < length (rj_row R) \<and> frank (rj_row R ! rj_index R) = frank f_one"

lemma row_value_ok: "row_ok R \<Longrightarrow> weight_ok (row_value (rj_row R) p) \<and> frank (row_value (rj_row R) p) \<le> frank f_one"
  by (simp add: row_ok_def row_value_def del: weight_one) simp

lemma sum_above_mono:
  assumes R: "row_ok R" and pq: "number p" "number q" "frank p \<le> frank q"
  shows "weight_ok (sum_above R q) \<and> frank (sum_above R q) \<le> frank (sum_above R p)"
proof -
  have laws: "sum_laws (rj_ops R)" using R by (simp add: row_ok_def)
  have "weight_ok (mass_above (rj_ops R) (rj_row R) q tid) \<and> weight_ok (mass_above (rj_ops R) (rj_row R) p tid)
      \<and> frank (mass_above (rj_ops R) (rj_row R) q tid) \<le> frank (mass_above (rj_ops R) (rj_row R) p tid)" for tid
    unfolding mass_above_def
    by (rule fold_weights [OF laws]) (use row_value_ok [OF R] pq in \<open>auto simp: f_less_def weight_ok_def\<close>)
  then show ?thesis unfolding sum_above_def using block_sum_mono [OF laws] by blast
qed

lemma sum_above_one:
  assumes R: "row_ok R"
  shows "weight_ok (sum_above R f_one) \<and> frank (sum_above R f_one) = 0"
proof -
  have laws: "sum_laws (rj_ops R)" using R by (simp add: row_ok_def)
  have "\<not> f_less f_one (row_value (rj_row R) p)" for p using row_value_ok [OF R, of p] by (simp add: f_less_def)
  then have mass: "mass_above (rj_ops R) (rj_row R) f_one tid = fold (\<lambda>p s. f_add (rj_ops R) s 0) (thread_positions (length (rj_row R)) tid) 0" for tid
    by (simp add: mass_above_def)
  have "weight_ok (mass_above (rj_ops R) (rj_row R) f_one tid) \<and> frank (mass_above (rj_ops R) (rj_row R) f_one tid) = 0" for tid
    unfolding mass using fold_zeros [OF laws, of 0 "thread_positions (length (rj_row R)) tid"]
      fold_weights [OF laws, of "thread_positions (length (rj_row R)) tid" "\<lambda>p. 0" "\<lambda>p. 0" 0 0] by simp
  then show ?thesis unfolding sum_above_def using block_sum_zero [OF laws] by blast
qed

subsection \<open>The candidate\<close>

lemma thread_hits_positive:
  assumes "t \<in> set (thread_hits F x i remaining)"
  shows "\<exists>j < 4. t = i + j \<and> number (x j) \<and> 0 < frank (x j)"
proof -
  let ?step = "\<lambda>j (remaining, hits). (f_sub F remaining (x j), if f_le 0 remaining \<and> f_less remaining (x j) then hits @ [i + j] else hits)"
  have "\<forall>t \<in> set (snd (fold ?step js (remaining, hits))). t \<in> set hits \<or> (\<exists>j \<in> set js. t = i + j \<and> number (x j) \<and> 0 < frank (x j))" for js hits
  proof (induction js arbitrary: remaining hits)
    case (Cons j js)
    have "f_le 0 r \<Longrightarrow> f_less r (x j) \<Longrightarrow> number (x j) \<and> 0 < frank (x j)" for r by (auto simp: f_le_def f_less_def)
    then show ?case using Cons.IH by (fastforce split: if_splits)
  qed simp
  from this [of "[0..<4]" "[]"] assms show ?thesis unfolding thread_hits_def by (auto simp del: upt_rec_numeral)
qed

lemma find_sampled_positive:
  assumes "find_sampled F scan row low base draw = Some t"
  shows "t < length row \<and> f_less low (row ! t)"
  using assms
proof (induction F scan row low base draw rule: find_sampled.induct)
  case (1 F scan row low base draw)
  let ?i = "\<lambda>tid. base + tid * 512 * 4"
  define x where "x = (\<lambda>tid j. if f_less low (row_value row (?i tid + j)) then row_value row (?i tid + j) else 0)"
  define mass where "mass = (\<lambda>tid. fold (\<lambda>j mass. f_add F mass (x tid j)) [0..<4] 0)"
  define hits where "hits = concat (map (\<lambda>tid. thread_hits F (x tid) (?i tid) (f_sub F draw (fst (scan mass) tid))) [0..<512])"
  have base: "base < length row" using 1(2) by (subst (asm) find_sampled.simps) (simp split: if_splits)
  have eq: "find_sampled F scan row low base draw = (if hits \<noteq> [] then Some (Min (set hits))
      else find_sampled F scan row low (base + 512 * 512 * 4) (f_sub F draw (snd (scan mass))))"
    using base by (subst find_sampled.simps) (simp only: Let_def if_True hits_def mass_def x_def)
  note again = 1(1) [OF base refl x_def mass_def hits_def]
  show ?case
  proof (cases "hits = []")
    case True
    then show ?thesis using again 1(2) by (simp add: eq)
  next
    case False
    then have "t = Min (set hits)" using 1(2) by (simp add: eq)
    then have "t \<in> set hits" using False Min_in [of "set hits"] by simp
    then obtain tid where "t \<in> set (thread_hits F (x tid) (?i tid) (f_sub F draw (fst (scan mass) tid)))" by (auto simp: hits_def simp del: upt_rec_numeral)
    then obtain j where j: "t = ?i tid + j" "0 < frank (x tid j)" using thread_hits_positive by blast
    then have "f_less low (row_value row t)" "0 < frank (row_value row t)" by (auto simp: x_def split: if_splits)
    then show ?thesis by (auto simp: row_value_def split: if_splits)
  qed
qed

lemma draw_candidate_cases:
  fixes F scan row index u low thread_mass
  defines "t \<equiv> draw_candidate F scan row index u low thread_mass"
  shows "t = index \<or> t < length row \<and> f_less low (row ! t)"
  unfolding t_def draw_candidate_def Let_def
  by (simp add: case_prod_beta split: option.split) (auto dest: find_sampled_positive)

subsection \<open>The loop ends\<close>

definition heavier :: "f32 list \<Rightarrow> f32 \<Rightarrow> nat set" where
  "heavier row low = {t. t < length row \<and> f_less low (row ! t)}"

lemma finite_heavier [simp]: "finite (heavier row low)"
  by (simp add: heavier_def)

lemma reject_returns:
  assumes R: "row_ok R" and target: "f_less 0 (rj_target R)"
    and low: "weight_ok low" and high: "weight_ok high" "frank high \<le> frank f_one" "f_less (sum_above R high) (rj_target R)"
  shows "\<exists>t. reject R n low high thread_mass = Some t \<and> (t = rj_index R \<or> t \<in> heavier (rj_row R) low)
    \<and> (f_eq (rj_top_p R) f_one \<or> f_less (sum_above R (rj_row R ! t)) (rj_target R))"
  using low high
proof (induction "card (heavier (rj_row R) low)" arbitrary: n low high thread_mass rule: less_induct)
  case less
  let ?F = "rj_ops R" and ?row = "rj_row R"
  define t where "t = draw_candidate ?F (rj_scan R) ?row (rj_index R) (rj_draw R n) low thread_mass"
  have t: "t = rj_index R \<or> t \<in> heavier ?row low" "t < length ?row"
  proof -
    have "t = rj_index R \<or> t \<in> heavier ?row low"
      unfolding t_def heavier_def mem_Collect_eq by (rule draw_candidate_cases)
    then show "t = rj_index R \<or> t \<in> heavier ?row low" "t < length ?row" using R by (auto simp: heavier_def row_ok_def)
  qed
  define pivot where "pivot = ?row ! t"
  have pivot: "row_value ?row t = pivot" "weight_ok pivot" using row_value_ok [OF R, of t] t(2) by (simp_all add: row_value_def pivot_def)
  define m where "m = f_mul ?F (f_add ?F pivot high) f_half"
  have step: "reject R n low high thread_mass = (if f_eq (rj_top_p R) f_one then Some t
      else if f_less (sum_above R pivot) (rj_target R) then Some t
      else if f_less (sum_above R m) (rj_target R) then reject R (n + 1) pivot m (mass_above ?F ?row pivot)
      else reject R (n + 1) m high (mass_above ?F ?row m))"
    by (subst reject.simps) (simp only: Let_def t_def [symmetric] pivot(1) m_def [symmetric])
  show ?case
  proof (cases "f_eq (rj_top_p R) f_one \<or> f_less (sum_above R pivot) (rj_target R)")
    case True
    then show ?thesis using t(1) by (auto simp: step pivot_def)
  next
    case False
    have "\<not> frank high \<le> frank pivot"
    proof
      assume "frank high \<le> frank pivot"
      then have "frank (sum_above R pivot) \<le> frank (sum_above R high)" "weight_ok (sum_above R pivot)"
        using sum_above_mono [OF R] less.prems(2) pivot(2) by (simp_all add: weight_ok_def)
      then show False using less.prems(4) False by (simp add: f_less_def weight_ok_def)
    qed
    then have below: "frank pivot < frank high" by simp
    then have "t \<noteq> rj_index R" using R less.prems(3) by (auto simp: pivot_def row_ok_def)
    then have heavy: "t \<in> heavier ?row low" using t(1) by simp
    have m: "weight_ok m" "frank pivot \<le> frank m" "frank m \<le> frank high"
      using R pivot(2) less.prems(2,3) below unfolding row_ok_def midpoint_law_def m_def Let_def weight_ok_def by fastforce+
    have shrink: "heavier ?row l \<subset> heavier ?row low" if l: "weight_ok l" "frank pivot \<le> frank l" for l
    proof
      have "frank low < frank pivot" using heavy by (simp add: heavier_def f_less_def pivot_def)
      then show "heavier ?row l \<subseteq> heavier ?row low" using l less.prems(1) by (auto simp: heavier_def f_less_def weight_ok_def)
      have "t \<notin> heavier ?row l" using l(2) by (simp add: heavier_def f_less_def pivot_def)
      then show "heavier ?row l \<noteq> heavier ?row low" using heavy by blast
    qed
    have again: "\<exists>t. reject R k l h v = Some t \<and> (t = rj_index R \<or> t \<in> heavier ?row low) \<and> (f_eq (rj_top_p R) f_one \<or> f_less (sum_above R (?row ! t)) (rj_target R))"
      if l: "weight_ok l" "frank pivot \<le> frank l" and h: "weight_ok h" "frank h \<le> frank f_one" "f_less (sum_above R h) (rj_target R)" for k l h v
      using less.hyps [OF psubset_card_mono [OF finite_heavier shrink [OF l]] l(1) h, of k v] shrink [OF l] by blast
    show ?thesis
    proof (cases "f_less (sum_above R m) (rj_target R)")
      case True
      then have "reject R n low high thread_mass = reject R (n + 1) pivot m (mass_above ?F ?row pivot)" using False by (simp add: step)
      then show ?thesis using again [OF pivot(2) order.refl m(1) _ True] m(3) less.prems(3) by simp
    next
      case above: False
      then have "reject R n low high thread_mass = reject R (n + 1) m high (mass_above ?F ?row m)" using False by (simp add: step)
      then show ?thesis using again [OF m(1,2) less.prems(2,3,4)] by simp
    qed
  qed
qed

subsection \<open>A row\<close>

lemma token_weight_ok:
  assumes "exp_law F temp" "number high" "number x" "frank x \<le> frank high"
  shows "weight_ok (token_weight F temp high bound x) \<and> frank (token_weight F temp high bound x) \<le> frank f_one"
  using assms unfolding exp_law_def token_weight_def by (auto simp: f_eq_def f_less_def simp del: weight_one(3)) (auto simp: weight_one)

lemma weight_positive:
  assumes "0 < frank (token_weight F temp (widen high) (widen bound) (widen v))"
  shows "rank v = rank high \<or> rank bound \<le> rank v"
  using assms by (auto simp: token_weight_def f_eq_def f_le_def widen_rank split: if_splits)

lemma rejection_row_ok:
  assumes reduce: "cub_reduce reduce" "length logits + 4096 \<le> INT_MAX" "logits \<noteq> []" "\<forall>v \<in> set logits. not_nan v"
    and laws: "sum_laws F" "midpoint_law F" "exp_law F (temperature param)"
  shows "row_ok (rejection F scan tree draw param (logits_range reduce logits) c logits)"
proof -
  let ?r = "logits_range reduce logits"
  obtain v where v: "v \<in> set logits" "not_nan v" using reduce by (cases logits) auto
  note index = logits_best_index [OF reduce(1,2) v] and best = logits_best_rank [OF reduce(1,2) v]
  have high: "number (widen (rg_high ?r))" using best by (simp add: widen_rank)
  have "weight_ok w \<and> frank w \<le> frank f_one" if w: "w \<in> set (weight_row F (temperature param) (rg_high ?r) c logits)" for w
  proof -
    obtain i where i: "i < length logits" "w = token_weight F (temperature param) (widen (rg_high ?r)) (widen c) (widen (logits ! i))"
      using w by (auto simp: weight_row_def in_set_conv_nth)
    have "rank (logits ! i) \<le> rank (rg_high ?r)" using logits_best_above [OF reduce(1,2) i(1)] i(1) reduce(4) by auto
    then show ?thesis unfolding i(2) using token_weight_ok [OF laws(3) high] i(1) reduce(4) by (simp add: widen_rank)
  qed
  moreover have "weight_row F (temperature param) (rg_high ?r) c logits ! rg_index ?r = f_one"
    using index best reduce(4) by (simp add: weight_row_def token_weight_def f_eq_def widen_rank)
  ultimately show ?thesis using laws index unfolding row_ok_def rejection_def by (simp add: weight_row_def del: weight_one)
qed

text \<open>
  C39: Sampling ends, and inside both cutoffs. For a row of numbers, a temperature that is not zero and a
  positive target mass, the rejection loop returns after finitely many rounds whatever the uniform
  draws and the block scans give; the token is in the row, not below the top-k cutoff, and, unless
  top_p is 1, the tokens heavier than it have together less than the target mass.
\<close>

theorem sampling_ends:
  assumes "cub_reduce reduce" "length logits + 4096 \<le> INT_MAX" "logits \<noteq> []" "\<forall>v \<in> set logits. not_nan v"
    and "sum_laws F" "midpoint_law F" "exp_law F (temperature param)" and random: "\<not> f_eq (temperature param) 0"
    and target: "\<forall>c. cutoff reduce logits (top_k param) = Some c \<longrightarrow> f_less 0 (rj_target (rejection F scan tree draw param (logits_range reduce logits) c logits))"
  shows "\<exists>c t. cutoff reduce logits (top_k param) = Some c \<and> sample_row F reduce scan tree draw param logits = Some t
    \<and> t < length logits \<and> \<not> less_f (logits ! t) c
    \<and> (f_eq (top_p param) f_one \<or> (let R = rejection F scan tree draw param (logits_range reduce logits) c logits in f_less (sum_above R (rj_row R ! t)) (rj_target R)))"
proof -
  let ?r = "logits_range reduce logits"
  obtain c where c: "cutoff reduce logits (top_k param) = Some c" "not_nan c" and kept: "\<exists>v \<in> set logits. \<not> less_f v c"
  proof -
    obtain c where c: "cutoff reduce logits (top_k param) = Some c" "not_nan c"
      "if 0 < top_k param \<and> top_k param < int (length logits)
        then int (length (filter (\<lambda>v. less_f c v) logits)) < top_k param \<and> top_k param \<le> int (length (filter (\<lambda>v. \<not> less_f v c) logits))
        else filter (\<lambda>v. \<not> less_f v c) logits = logits"
      using cutoff_exact [OF assms(1-4), of "top_k param"] by blast
    then have "filter (\<lambda>v. \<not> less_f v c) logits \<noteq> []" using assms(3) by (auto split: if_splits)
    then show ?thesis using that [OF c(1,2)] by (auto simp: filter_empty_conv)
  qed
  define R where "R = rejection F scan tree draw param ?r c logits"
  have ok: "row_ok R" unfolding R_def by (rule rejection_row_ok [OF assms(1-7)])
  have "weight_ok (sum_above R f_one)" "frank (sum_above R f_one) = 0" using sum_above_one [OF ok] by simp_all
  then have "f_less (sum_above R f_one) (rj_target R)" using target c(1) unfolding R_def by (simp add: f_less_def weight_ok_def)
  then obtain t where t: "reject R 0 0 f_one (weight_mass F (temperature param) (rg_high ?r) c logits) = Some t"
    "t = rj_index R \<or> t \<in> heavier (rj_row R) 0" "f_eq (rj_top_p R) f_one \<or> f_less (sum_above R (rj_row R ! t)) (rj_target R)"
    using reject_returns [OF ok, of 0 f_one 0 "weight_mass F (temperature param) (rg_high ?r) c logits"] target c(1) unfolding R_def by auto
  have row: "rj_row R = weight_row F (temperature param) (rg_high ?r) c logits" "rj_index R = rg_index ?r" "rj_top_p R = top_p param"
    by (simp_all add: R_def rejection_def)
  have len: "length (rj_row R) = length logits" by (simp add: row weight_row_def)
  have "t < length logits" using t(2) ok by (auto simp: heavier_def row_ok_def len)
  moreover have "rank c \<le> rank (logits ! t)"
  proof -
    obtain v where v: "v \<in> set logits" "\<not> less_f v c" using kept by blast
    then obtain i where i: "i < length logits" "v = logits ! i" by (auto simp: in_set_conv_nth)
    have "rank c \<le> rank v" using v c(2) assms(4) by (simp add: less_f_def)
    also have "\<dots> \<le> rank (rg_high ?r)" using logits_best_above [OF assms(1,2) i(1)] i v(1) assms(4) by auto
    finally have high: "rank c \<le> rank (rg_high ?r)" .
    have "0 < frank (rj_row R ! t)" using t(2) ok by (auto simp: heavier_def f_less_def row_ok_def)
    then have "rank (logits ! t) = rank (rg_high ?r) \<or> rank c \<le> rank (logits ! t)"
      using weight_positive \<open>t < length logits\<close> by (simp add: row weight_row_def)
    then show ?thesis using high by auto
  qed
  then have "\<not> less_f (logits ! t) c" by (simp add: less_f_def)
  moreover have "sample_row F reduce scan tree draw param logits = Some t" using random c(1) t(1) by (simp add: sample_row_def Let_def R_def)
  ultimately show ?thesis using c(1) t(3) [unfolded row(3)] unfolding R_def by (auto simp: Let_def)
qed

text \<open>Arithmetic that keeps the laws: the larger of two numbers for their sum.\<close>

definition max_ops :: Float_Ops where
  "max_ops = demo_ops\<lparr>f_add := f_max, f_mul := \<lambda>a b. a, f_exp := \<lambda>a. f_one\<rparr>"

lemma max_ops_laws: "sum_laws max_ops" "midpoint_law max_ops" "exp_law max_ops temp"
  using f_max_rank by (auto simp: max_ops_def sum_laws_def midpoint_law_def exp_law_def weight_ok_def Let_def)

theorem sampling_ends_witness:
  "\<exists>t < 4. sample_row max_ops left_reduce (\<lambda>v. (\<lambda>tid. 0, f_one)) (Thread 0) (\<lambda>n. f_half) \<lparr>temperature = f_one, top_k = 2, top_p = f_half\<rparr>
     [0x3f80, 0x4000, 0xbf80, 0x4000] = Some t"
proof -
  have "f_less 0 (rj_target (rejection max_ops (\<lambda>v. (\<lambda>tid. 0, f_one)) (Thread 0) (\<lambda>n. f_half) \<lparr>temperature = f_one, top_k = 2, top_p = f_half\<rparr> r c logits))" for r c logits
    by (simp add: rejection_def max_ops_def f_less_def number_def frank_def f_half_def)
  moreover have "\<not> f_eq f_one 0" by (simp add: f_eq_def)
  ultimately show ?thesis
    using sampling_ends [OF left_reduce_ok, of "[0x3f80, 0x4000, 0xbf80, 0x4000]" max_ops "\<lparr>temperature = f_one, top_k = 2, top_p = f_half\<rparr>"
        "\<lambda>v. (\<lambda>tid. 0, f_one)" "Thread 0" "\<lambda>n. f_half"] max_ops_laws
    by (auto simp: INT_MAX_def not_nan_def rank_def)
qed

subsection \<open>No target, no end\<close>

lemma sum_above_ok:
  assumes "row_ok R"
  shows "weight_ok (sum_above R p)"
proof -
  have laws: "sum_laws (rj_ops R)" using assms by (simp add: row_ok_def)
  have "weight_ok (mass_above (rj_ops R) (rj_row R) p tid)" for tid
    unfolding mass_above_def
    by (rule fold_weights [OF laws, where g' = "\<lambda>q. if f_less p (row_value (rj_row R) q) then row_value (rj_row R) q else 0" and s' = 0, THEN conjunct1])
      (simp_all add: row_value_ok [OF assms])
  then show ?thesis unfolding sum_above_def
    using block_sum_mono [OF laws, of "mass_above (rj_ops R) (rj_row R) p" "mass_above (rj_ops R) (rj_row R) p"] by simp
qed

lemma reject_without_target:
  assumes "reject R n low high thread_mass = Some t"
  shows "row_ok R \<Longrightarrow> frank (rj_target R) \<le> 0 \<Longrightarrow> f_eq (rj_top_p R) f_one"
  using assms
proof (induction rule: reject.raw_induct [rotated, consumes 1, case_names step])
  case (step rej R n low high thread_mass t)
  have "\<not> f_less (sum_above R p) (rj_target R)" for p
    using sum_above_ok [OF step.prems(1), of p] step.prems(2) by (auto simp: f_less_def weight_ok_def)
  then show ?case using step by (auto simp: Let_def split: if_splits)
qed

text \<open>
  C40: Without a target the kernel never ends. When the target mass is not positive (a top_p that rounds to
  zero in single precision) and top_p is not 1, no round accepts its candidate: for every row, every
  draw and every scan the loop of a row that is not sampled greedily runs forever.
\<close>

theorem sampling_without_target_hangs:
  assumes "cub_reduce reduce" "length logits + 4096 \<le> INT_MAX" "logits \<noteq> []" "\<forall>v \<in> set logits. not_nan v"
    and "sum_laws F" "midpoint_law F" "exp_law F (temperature param)" and random: "\<not> f_eq (temperature param) 0" "\<not> f_eq (top_p param) f_one"
    and target: "\<forall>c. cutoff reduce logits (top_k param) = Some c \<longrightarrow> frank (rj_target (rejection F scan tree draw param (logits_range reduce logits) c logits)) \<le> 0"
  shows "sample_row F reduce scan tree draw param logits = None"
proof -
  obtain c where c: "cutoff reduce logits (top_k param) = Some c" using cutoff_exact [OF assms(1-4), of "top_k param"] by blast
  let ?R = "rejection F scan tree draw param (logits_range reduce logits) c logits"
  have "row_ok ?R" by (rule rejection_row_ok [OF assms(1-7)])
  moreover have "rj_top_p ?R = top_p param" by (simp add: rejection_def)
  ultimately have "reject ?R 0 0 f_one (weight_mass F (temperature param) (rg_high (logits_range reduce logits)) c logits) = None"
    using reject_without_target [of ?R] target c random(2) by (metis not_Some_eq)
  then show ?thesis using random(1) c by (simp add: sample_row_def Let_def)
qed

theorem sampling_without_target_hangs_witness:
  "sample_row max_ops left_reduce (\<lambda>v. (\<lambda>tid. 0, f_one)) (Thread 0) (\<lambda>n. f_half) \<lparr>temperature = f_one, top_k = 2, top_p = 0\<rparr>
     [0x3f80, 0x4000, 0xbf80, 0x4000] = None"
proof -
  have "frank (rj_target (rejection max_ops (\<lambda>v. (\<lambda>tid. 0, f_one)) (Thread 0) (\<lambda>n. f_half) \<lparr>temperature = f_one, top_k = 2, top_p = 0\<rparr> r c logits)) \<le> 0" for r c logits
    by (simp add: rejection_def max_ops_def)
  moreover have "\<not> f_eq f_one 0" "\<not> f_eq 0 f_one" by (simp_all add: f_eq_def)
  ultimately show ?thesis
    using sampling_without_target_hangs [OF left_reduce_ok, of "[0x3f80, 0x4000, 0xbf80, 0x4000]" max_ops "\<lparr>temperature = f_one, top_k = 2, top_p = 0\<rparr>"
        "\<lambda>v. (\<lambda>tid. 0, f_one)" "Thread 0" "\<lambda>n. f_half"] max_ops_laws
    by (auto simp: INT_MAX_def not_nan_def rank_def)
qed

end
